(* ===== verification/Pbs_Prelude.thy ===== *)
theory Pbs_Prelude
  imports "HOL-Library.Word" "HOL-Library.Log_Nat"
begin

text \<open>
  Shared vocabulary of the development: the machine types of the C++ sources, the failures an
  operation can end in, checked vector access, loops that may fail, and the view of words and
  byte buffers as lists of bits (least significant bit first) over which the codec and the
  messages are specified.
\<close>

unbundle bit_operations_syntax

section \<open>Machine types\<close>

type_synonym u8 = "8 word"
type_synonym u32 = "32 word"
type_synonym u64 = "64 word"
type_synonym bytes = "u8 list"

named_theorems bits_simps "bit-level rewriting of words and buffers"
named_theorems ok_simps "evaluation of operations that succeed"

section \<open>Failures\<close>

text \<open>
  An operation of the sources returns, throws, or has undefined behaviour. A throw carries the
  state of the object at the throw, because a C++ exception leaves the mutations made before it
  in place; undefined behaviour has no state after it. A loop that never ends and has no side effect is
  undefined behaviour too (\<open>NoProgress\<close>): \<open>returns\<close> reads the \<open>None\<close> of a partial function as that.
\<close>

datatype exn = LogicError | RuntimeError | OutOfRange

datatype ub = OutOfBounds | DivisionByZero | BadShift | BadCast | NullPointer | SignedOverflow | NoProgress

datatype 's failure = Throws exn 's | Undefined ub

definition bind_ok :: "'e + 'a \<Rightarrow> ('a \<Rightarrow> 'e + 'b) \<Rightarrow> 'e + 'b" where
  "bind_ok r f = (case r of Inl e \<Rightarrow> Inl e | Inr x \<Rightarrow> f x)"

lemma bind_ok_Inl [simp]: "bind_ok (Inl e) f = Inl e"
  and bind_ok_Inr [simp]: "bind_ok (Inr x) f = f x"
  by (simp_all add: bind_ok_def)

lemma bind_ok_eq_Inr: "bind_ok r f = Inr y \<longleftrightarrow> (\<exists>x. r = Inr x \<and> f x = Inr y)"
  by (cases r) auto

lemma bind_ok_InrE:
  assumes "bind_ok r f = Inr y"
  obtains x where "r = Inr x" "f x = Inr y"
  using assms by (auto simp: bind_ok_eq_Inr)

lemma bind_ok_assoc: "bind_ok (bind_ok r f) g = bind_ok r (\<lambda>x. bind_ok (f x) g)"
  by (cases r) auto

definition returns :: "('s failure + 'a) option \<Rightarrow> 's failure + 'a" where
  "returns r = (case r of None \<Rightarrow> Inl (Undefined NoProgress) | Some x \<Rightarrow> x)"

lemma returns_simps [simp]: "returns (Some x) = x" "returns None = Inl (Undefined NoProgress)"
  by (simp_all add: returns_def)

text \<open>A failure inside a part of the state, seen from the whole.\<close>

definition fail_map :: "('t \<Rightarrow> 's) \<Rightarrow> 't failure + 'a \<Rightarrow> 's failure + 'a" where
  "fail_map f r = (case r of Inl (Throws e t) \<Rightarrow> Inl (Throws e (f t)) | Inl (Undefined u) \<Rightarrow> Inl (Undefined u) | Inr x \<Rightarrow> Inr x)"

lemma fail_map_simps [simp]:
  "fail_map f (Inl (Throws e t)) = Inl (Throws e (f t))" "fail_map f (Inl (Undefined u)) = Inl (Undefined u)"
  "fail_map f (Inr x) = Inr x"
  by (simp_all add: fail_map_def)

text \<open>A read or write outside a buffer is undefined behaviour.\<close>

definition from_mem :: "'a option \<Rightarrow> 's failure + 'a" where
  "from_mem r = (case r of None \<Rightarrow> Inl (Undefined OutOfBounds) | Some x \<Rightarrow> Inr x)"

lemma from_mem_simps [simp]:
  "from_mem None = Inl (Undefined OutOfBounds)" "from_mem (Some x) = Inr x"
  by (simp_all add: from_mem_def)

text \<open>\<open>v[i]\<close> on a vector: no bounds check in the code, undefined out of range.\<close>

definition vec_get :: "'a list \<Rightarrow> nat \<Rightarrow> 's failure + 'a" where
  "vec_get v i = (if i < length v then Inr (v ! i) else Inl (Undefined OutOfBounds))"

definition vec_set :: "'a list \<Rightarrow> nat \<Rightarrow> 'a \<Rightarrow> 's failure + 'a list" where
  "vec_set v i x = (if i < length v then Inr (v[i := x]) else Inl (Undefined OutOfBounds))"

lemma vec_get_ok [ok_simps]: "i < length v \<Longrightarrow> vec_get v i = Inr (v ! i)"
  by (simp add: vec_get_def)

lemma vec_set_ok [ok_simps]: "i < length v \<Longrightarrow> vec_set v i x = Inr (v[i := x])"
  by (simp add: vec_set_def)

lemma vec_get_eq_Inr: "vec_get v i = Inr x \<longleftrightarrow> i < length v \<and> x = v ! i"
  by (auto simp: vec_get_def)

text \<open>A range-for loop whose body may fail.\<close>

fun fold_ok :: "('a \<Rightarrow> 's \<Rightarrow> 'e + 's) \<Rightarrow> 'a list \<Rightarrow> 's \<Rightarrow> 'e + 's" where
  "fold_ok f [] s = Inr s"
| "fold_ok f (x # xs) s = bind_ok (f x s) (fold_ok f xs)"

lemma fold_ok_append: "fold_ok f (xs @ ys) s = bind_ok (fold_ok f xs s) (fold_ok f ys)"
  by (induction xs arbitrary: s) (auto simp: bind_ok_def split: sum.splits)

lemma fold_ok_Inr:
  assumes "\<And>x s. x \<in> set xs \<Longrightarrow> P s \<Longrightarrow> f x s = Inr (g x s) \<and> P (g x s)" and "P s"
  shows "fold_ok f xs s = Inr (fold g xs s) \<and> P (fold g xs s)"
  using assms by (induction xs arbitrary: s) simp_all

text \<open>What every successful iteration preserves holds after the loop.\<close>

lemma fold_ok_preserves:
  assumes "fold_ok f xs s = Inr s'" "P s"
    and "\<And>x s s'. x \<in> set xs \<Longrightarrow> f x s = Inr s' \<Longrightarrow> P s \<Longrightarrow> P s'"
  shows "P s'"
  using assms
proof (induction xs arbitrary: s)
  case (Cons x xs)
  from Cons.prems(1) obtain s1 where "f x s = Inr s1" "fold_ok f xs s1 = Inr s'"
    by (auto simp: bind_ok_eq_Inr)
  with Cons.IH [of s1] Cons.prems(2,3) show ?case by (metis list.set_intros(1,2))
qed simp

text \<open>An index loop, with an invariant on the iterations done.\<close>

lemma fold_ok_upt:
  assumes "\<And>i s. i < n \<Longrightarrow> P i s \<Longrightarrow> \<exists>s'. f i s = Inr s' \<and> P (Suc i) s'" and "P 0 s"
  shows "\<exists>s'. fold_ok f [0..<n] s = Inr s' \<and> P n s'"
proof -
  have "\<exists>s'. fold_ok f [0..<k] s = Inr s' \<and> P k s'" if "k \<le> n" for k
    using that
  proof (induction k)
    case 0
    with assms(2) show ?case by simp
  next
    case (Suc k)
    then obtain s1 where "fold_ok f [0..<k] s = Inr s1" "P k s1" by auto
    with assms(1) [of k s1] Suc.prems show ?case by (auto simp: fold_ok_append)
  qed
  then show ?thesis by simp
qed

text \<open>
  The same for bodies whose only failure is an access outside a buffer, and a loop that
  collects \<open>n\<close> values.
\<close>

fun fold_opt :: "('v \<Rightarrow> 'w \<Rightarrow> 'w option) \<Rightarrow> 'v list \<Rightarrow> 'w \<Rightarrow> 'w option" where
  "fold_opt f [] w = Some w"
| "fold_opt f (v # vs) w = (case f v w of None \<Rightarrow> None | Some w' \<Rightarrow> fold_opt f vs w')"

fun repeat_opt :: "nat \<Rightarrow> ('r \<Rightarrow> ('v \<times> 'r) option) \<Rightarrow> 'r \<Rightarrow> ('v list \<times> 'r) option" where
  "repeat_opt 0 f r = Some ([], r)"
| "repeat_opt (Suc n) f r =
     (case f r of
        None \<Rightarrow> None
      | Some (v, r') \<Rightarrow>
          (case repeat_opt n f r' of None \<Rightarrow> None | Some (vs, r'') \<Rightarrow> Some (v # vs, r'')))"

lemma length_repeat_opt: "repeat_opt n f r = Some (vs, r') \<Longrightarrow> length vs = n"
  by (induction n arbitrary: r vs) (auto split: option.splits prod.splits)

lemma fold_opt_map: "fold_opt f (map g xs) w = fold_opt (\<lambda>x. f (g x)) xs w"
  by (induction xs arbitrary: w) (auto split: option.splits)

text \<open>A vector filled from the front: the entries done so far, then the initial ones.\<close>

definition filled :: "('a \<Rightarrow> 'b) \<Rightarrow> 'a list \<Rightarrow> 'b \<Rightarrow> nat \<Rightarrow> 'b list" where
  "filled f xs z i = map f (take i xs) @ replicate (length xs - i) z"

lemma filled_0 [simp]: "filled f xs z 0 = replicate (length xs) z"
  and filled_all [simp]: "filled f xs z (length xs) = map f xs"
  and length_filled [simp]: "i \<le> length xs \<Longrightarrow> length (filled f xs z i) = length xs"
  by (simp_all add: filled_def)

lemma nth_filled [simp]: "i < length xs \<Longrightarrow> filled f xs z i ! i = z"
  by (simp add: filled_def nth_append)

lemma filled_step [simp]:
  "i < length xs \<Longrightarrow> (filled f xs z i)[i := f (xs ! i)] = filled f xs z (Suc i)"
  by (simp add: filled_def take_Suc_conv_app_nth list_update_append Suc_diff_Suc [symmetric] del: Suc_diff_Suc)

lemma set_filled: "set (filled f xs z i) \<subseteq> insert z (f ` set xs)"
  by (auto simp: filled_def dest: in_set_takeD)

section \<open>Bits of words and buffers\<close>

text \<open>The low \<open>n\<close> bits of a word, least significant first, and those of a byte buffer.\<close>

definition word_bits :: "nat \<Rightarrow> 'a::len word \<Rightarrow> bool list" where
  "word_bits n v = map (bit v) [0..<n]"

definition buf_bits :: "bytes \<Rightarrow> bool list" where
  "buf_bits bs = concat (map (word_bits 8) bs)"

lemma length_word_bits [simp]: "length (word_bits n v) = n"
  by (simp add: word_bits_def)

lemma nth_word_bits [simp]: "i < n \<Longrightarrow> word_bits n v ! i = bit v i"
  by (simp add: word_bits_def)

lemma word_bits_0 [simp]: "word_bits 0 v = []"
  by (simp add: word_bits_def)

lemma word_bits_eqI: "(\<And>i. i < n \<Longrightarrow> bit v i = bit w i) \<Longrightarrow> word_bits n v = word_bits n w"
  by (simp add: word_bits_def)

lemma word_bits_add: "word_bits (m + n) v = word_bits m v @ word_bits n (drop_bit m v)"
  by (rule nth_equalityI) (auto simp: nth_append bit_simps)

lemma word_bits_split: "m \<le> n \<Longrightarrow> word_bits n v = word_bits m v @ word_bits (n - m) (drop_bit m v)"
  using word_bits_add [of m "n - m" v] by simp

lemma word_bits_zero: "word_bits n 0 = replicate n False"
  by (rule nth_equalityI) auto

lemma buf_bits_simps [simp]:
  "buf_bits [] = []"
  "buf_bits (b # bs) = word_bits 8 b @ buf_bits bs"
  "buf_bits (as @ bs) = buf_bits as @ buf_bits bs"
  by (simp_all add: buf_bits_def)

lemma length_buf_bits [simp]: "length (buf_bits bs) = 8 * length bs"
  by (induction bs) simp_all

text \<open>A value of at most \<open>n\<close> bits is determined by its \<open>n\<close> low bits.\<close>

lemma bit_ge_of_less_2p:
  fixes v :: "'a::len word"
  assumes "unat v < 2 ^ n" "n \<le> i"
  shows "\<not> bit v i"
proof -
  have "take_bit n (unat v) = unat v"
    using assms(1) by (simp add: take_bit_nat_eq_self)
  then have "\<not> bit (unat v) i"
    using assms(2) by (metis bit_take_bit_iff not_less)
  then show ?thesis by (simp add: bit_unsigned_iff)
qed

lemma word_bits_inject:
  fixes v w :: "'a::len word"
  assumes "word_bits n v = word_bits n w" "unat v < 2 ^ n" "unat w < 2 ^ n"
  shows "v = w"
proof (rule bit_word_eqI)
  fix i assume "i < LENGTH('a)"
  show "bit v i = bit w i"
  proof (cases "i < n")
    case True
    with assms(1) show ?thesis by (metis nth_word_bits)
  next
    case False
    with assms(2,3) show ?thesis by (simp add: bit_ge_of_less_2p)
  qed
qed

lemma less_2p_of_no_high_bits:
  fixes v :: "'a::len word"
  assumes "\<And>i. n \<le> i \<Longrightarrow> \<not> bit v i"
  shows "unat v < 2 ^ n"
proof -
  have "take_bit n v = v"
    by (rule bit_word_eqI) (metis assms bit_take_bit_iff not_less)
  then have "unat v = unat (take_bit n v)" by simp
  also have "\<dots> = take_bit n (unat v)" by (rule unsigned_take_bit_eq)
  also have "\<dots> < 2 ^ n" by (rule take_bit_nat_less_exp)
  finally show ?thesis .
qed

lemma bit_low_mask [bits_simps]: "bit (2 ^ n - 1 :: 'a::len word) i \<longleftrightarrow> i < n \<and> i < LENGTH('a)"
  by (auto simp: bit_simps simp flip: mask_eq_exp_minus_1)

lemma bit_255 [bits_simps]: "bit (255 :: 'a::len word) i \<longleftrightarrow> i < 8 \<and> i < LENGTH('a)"
proof -
  have "(255 :: 'a word) = mask 8" by (simp add: mask_eq_exp_minus_1)
  then show ?thesis by (simp only: bit_mask_iff possible_bit_word) auto
qed

text \<open>Products of 32-bit values that do not overflow.\<close>

lemma unat_mult_u32: "unat a * unat b < 2 ^ 32 \<Longrightarrow> unat (a * b :: u32) = unat a * unat b"
  by (simp add: unat_word_ariths)

lemma unat_of_nat_u32: "n < 2 ^ 32 \<Longrightarrow> unat (of_nat n :: u32) = n"
  by (simp add: unat_of_nat)

lemma xor_zero_iff: "a XOR b = 0 \<longleftrightarrow> a = (b :: 'a::len word)"
proof
  assume "a XOR b = 0"
  then have "(a XOR b) XOR b = b" by simp
  then show "a = b" by (simp add: xor.assoc)
qed simp

lemma unat_of_nat_u64: "n < 2 ^ 64 \<Longrightarrow> unat (of_nat n :: u64) = n"
  by (simp add: unat_of_nat)

section \<open>Buffers\<close>

text \<open>\<open>memcpy\<close> of a block into a buffer: undefined when the block does not fit.\<close>

definition mem_write :: "bytes \<Rightarrow> nat \<Rightarrow> bytes \<Rightarrow> bytes option" where
  "mem_write buf pos bs =
     (if pos + length bs \<le> length buf
      then Some (take pos buf @ bs @ drop (pos + length bs) buf) else None)"

definition mem_read :: "bytes \<Rightarrow> nat \<Rightarrow> nat \<Rightarrow> bytes option" where
  "mem_read buf pos n =
     (if pos + n \<le> length buf then Some (take n (drop pos buf)) else None)"

lemma mem_write_Some:
  "mem_write buf pos bs = Some buf' \<longleftrightarrow>
     pos + length bs \<le> length buf \<and>
     buf' = take pos buf @ bs @ drop (pos + length bs) buf"
  by (auto simp: mem_write_def)

lemma mem_read_Some:
  "mem_read buf pos n = Some bs \<longleftrightarrow> pos + n \<le> length buf \<and> bs = take n (drop pos buf)"
  by (auto simp: mem_read_def)

lemma length_mem_write: "mem_write buf pos bs = Some buf' \<Longrightarrow> length buf' = length buf"
  by (auto simp: mem_write_Some)

text \<open>\<open>std::vector::resize(n, x)\<close> and \<open>erase(begin, begin + n)\<close>.\<close>

definition resize :: "nat \<Rightarrow> 'a \<Rightarrow> 'a list \<Rightarrow> 'a list" where
  "resize n x v = take n v @ replicate (n - length v) x"

lemma length_resize [simp]: "length (resize n x v) = n"
  by (simp add: resize_def)

lemma resize_grow: "resize (length v + k) x v = v @ replicate k x"
  by (simp add: resize_def)

end
