(* ===== verification/Ordered_Hash.thy ===== *)
theory Ordered_Hash
  imports Pbs_Prelude
begin

text \<open>
  \<open>3rd/include/tsl/ordered_hash.h\<close>: the hash table behind \<open>tsl::ordered_map\<close> and \<open>tsl::ordered_set\<close>, which
  keep the key-value pairs of the two hosts. The values are stored in insertion order; an array of buckets
  holds, for every value, its index and its truncated hash, placed by robin hood linear probing with backward
  shift deletion. The hash function is a parameter; keys are compared by equality. The load factor is the
  default 0.75 everywhere, so the threshold is computed exactly; indexes stay below \<open>2 ^ 32 - 2\<close> and are
  natural numbers. The probing loops are partial functions: not returning is \<open>None\<close>. The hash that erasing leaves
  in an empty bucket is read by serialisation only, which takes it as an argument.
\<close>

section \<open>State\<close>

type_synonym bucket_entry = "(nat \<times> u32) option"   \<comment> \<open>index and truncated hash; \<open>None\<close> is empty\<close>

record ('k, 'v) ordered_hash =
  m_buckets :: "bucket_entry list"
  m_values :: "('k \<times> 'v) list"
  m_load_threshold :: nat
  m_grow_on_next_insert :: bool

definition truncate_hash :: "u64 \<Rightarrow> u32" where
  "truncate_hash hash = ucast hash"

definition load_threshold_for :: "nat \<Rightarrow> nat" where
  "load_threshold_for bucket_count = 3 * bucket_count div 4"

definition max_size :: int where "max_size = 2 ^ 32 - 2"
definition max_bucket_count :: int where "max_bucket_count = 2 ^ 60 - 1"

text \<open>The default constructor: no bucket; a static empty bucket is read instead.\<close>

definition empty_hash :: "('k, 'v) ordered_hash" where
  "empty_hash = \<lparr>m_buckets = [], m_values = [], m_load_threshold = load_threshold_for 0, m_grow_on_next_insert = False\<rparr>"

declare empty_hash_def [code_unfold]

definition bucket_at :: "bucket_entry list \<Rightarrow> nat \<Rightarrow> bucket_entry" where
  "bucket_at bs i = (if bs = [] then None else bs ! i)"

definition bucket_for_hash :: "bucket_entry list \<Rightarrow> u64 \<Rightarrow> nat" where
  "bucket_for_hash bs hash = unat (hash AND (if bs = [] then 0 else of_nat (length bs) - 1))"

definition next_bucket :: "bucket_entry list \<Rightarrow> nat \<Rightarrow> nat" where
  "next_bucket bs i = (if Suc i < length bs then Suc i else 0)"

definition distance_from_ideal_bucket :: "bucket_entry list \<Rightarrow> nat \<Rightarrow> u32 \<Rightarrow> nat" where
  "distance_from_ideal_bucket bs ibucket th =
     (let ideal_bucket = bucket_for_hash bs (ucast th)
      in if ideal_bucket \<le> ibucket then ibucket - ideal_bucket else length bs + ibucket - ideal_bucket)"

section \<open>Lookup\<close>

partial_function (option) find_loop ::
    "bucket_entry list \<Rightarrow> ('k \<times> 'v) list \<Rightarrow> 'k \<Rightarrow> u64 \<Rightarrow> nat \<Rightarrow> nat \<Rightarrow> ('s failure + nat option) option" where
  [code]: "find_loop bs vs k hash ibucket probes =
     (case bucket_at bs ibucket of
        None \<Rightarrow> Some (Inr None)
      | Some (ix, th) \<Rightarrow>
          if th = truncate_hash hash \<and> length vs \<le> ix then Some (Inl (Undefined OutOfBounds))
          else if th = truncate_hash hash \<and> k = fst (vs ! ix) then Some (Inr (Some ibucket))
          else if distance_from_ideal_bucket bs ibucket th < probes then Some (Inr None)
          else find_loop bs vs k hash (next_bucket bs ibucket) (probes + 1))"

definition find_key :: "('k \<Rightarrow> u64) \<Rightarrow> 'k \<Rightarrow> ('k, 'v) ordered_hash \<Rightarrow> 's failure + nat option" where
  "find_key h k t = returns (find_loop (m_buckets t) (m_values t) k (h k) (bucket_for_hash (m_buckets t) (h k)) 0)"

text \<open>\<open>find\<close>: the index of the value, or the end.\<close>

definition oh_find :: "('k \<Rightarrow> u64) \<Rightarrow> 'k \<Rightarrow> ('k, 'v) ordered_hash \<Rightarrow> 's failure + nat option" where
  "oh_find h k t = bind_ok (find_key h k t) (\<lambda>r. Inr (case r of None \<Rightarrow> None | Some b \<Rightarrow> map_option fst (m_buckets t ! b)))"

definition oh_contains :: "('k \<Rightarrow> u64) \<Rightarrow> 'k \<Rightarrow> ('k, 'v) ordered_hash \<Rightarrow> 's failure + bool" where
  "oh_contains h k t = bind_ok (oh_find h k t) (\<lambda>r. Inr (r \<noteq> None))"

definition oh_count :: "('k \<Rightarrow> u64) \<Rightarrow> 'k \<Rightarrow> ('k, 'v) ordered_hash \<Rightarrow> 's failure + nat" where
  "oh_count h k t = bind_ok (oh_find h k t) (\<lambda>r. Inr (if r = None then 0 else 1))"

definition oh_at :: "('k \<Rightarrow> u64) \<Rightarrow> 's \<Rightarrow> 'k \<Rightarrow> ('k, 'v) ordered_hash \<Rightarrow> 's failure + 'v" where
  "oh_at h s k t = bind_ok (oh_find h k t) (\<lambda>r.
     case r of None \<Rightarrow> Inl (Throws OutOfRange s) | Some i \<Rightarrow> bind_ok (vec_get (m_values t) i) (\<lambda>p. Inr (snd p)))"

definition oh_size :: "('k, 'v) ordered_hash \<Rightarrow> nat" where
  "oh_size t = length (m_values t)"

definition oh_clear :: "('k, 'v) ordered_hash \<Rightarrow> ('k, 'v) ordered_hash" where
  "oh_clear t = t\<lparr>m_buckets := map (\<lambda>_. None) (m_buckets t), m_values := [], m_grow_on_next_insert := False\<rparr>"

section \<open>Insertion\<close>

text \<open>
  \<open>insert_index\<close>: the entry carried is swapped with every entry closer to its ideal bucket, until an empty
  bucket is found. A long probe sequence in a loaded table asks for growth at the next insertion.
\<close>

definition REHASH_NPROBES :: nat where "REHASH_NPROBES = 128"

text \<open>\<open>load_factor() >= 0.15f\<close>, the constant being the nearest \<open>float\<close>.\<close>

definition high_load :: "nat \<Rightarrow> nat \<Rightarrow> bool" where
  "high_load nvals bucket_count \<longleftrightarrow> 5033165 * int bucket_count \<le> 33554432 * int nvals"

partial_function (option) insert_index ::
    "nat \<Rightarrow> bucket_entry list \<Rightarrow> bool \<Rightarrow> nat \<Rightarrow> nat \<Rightarrow> nat \<times> u32 \<Rightarrow> (bucket_entry list \<times> bool) option" where
  [code]: "insert_index nvals bs grow ibucket probes e =
     (case bs ! ibucket of
        None \<Rightarrow> Some (bs[ibucket := Some e], grow)
      | Some e' \<Rightarrow>
          (let distance = distance_from_ideal_bucket bs ibucket (snd e');
               (bs1, e1, probes1) = (if distance < probes then (bs[ibucket := Some e], e', distance) else (bs, e, probes))
           in insert_index nvals bs1
                (grow \<or> (REHASH_NPROBES < probes1 + 1 \<and> high_load nvals (length bs)))
                (next_bucket bs ibucket) (probes1 + 1) e1))"

text \<open>Powers of two, by the bit tricks of the code.\<close>

definition is_power_of_two :: "u64 \<Rightarrow> bool" where
  "is_power_of_two v \<longleftrightarrow> v \<noteq> 0 \<and> v AND (v - 1) = 0"

definition round_up_to_power_of_two :: "u64 \<Rightarrow> u64" where
  "round_up_to_power_of_two v =
     (if is_power_of_two v then v else if v = 0 then 1
      else fold (\<lambda>i v. v OR drop_bit i v) [1, 2, 4, 8, 16, 32] (v - 1) + 1)"

text \<open>
  \<open>rehash_impl\<close>: the entries move to a new bucket array, by the loop of \<open>insert_index\<close> without the probe count.
\<close>

definition rehash_entry :: "bucket_entry \<Rightarrow> bucket_entry list \<Rightarrow> 's failure + bucket_entry list" where
  "rehash_entry old bs =
     (case old of
        None \<Rightarrow> Inr bs
      | Some e \<Rightarrow> returns (map_option (\<lambda>r. Inr (fst r))
          (insert_index 0 bs True (bucket_for_hash bs (ucast (snd e))) 0 e)))"

definition rehash_impl :: "nat \<Rightarrow> ('k, 'v) ordered_hash \<Rightarrow> ('k, 'v) ordered_hash failure + ('k, 'v) ordered_hash" where
  "rehash_impl bucket_count t =
     (if max_bucket_count < int bucket_count then Inl (Throws LogicError t)
      else let n = (if 0 < bucket_count then unat (round_up_to_power_of_two (of_nat bucket_count)) else bucket_count)
           in if n = length (m_buckets t) then Inr t
              else bind_ok (fold_ok rehash_entry (m_buckets t) (replicate n None)) (\<lambda>bs.
                     Inr (t\<lparr>m_buckets := bs, m_load_threshold := load_threshold_for n, m_grow_on_next_insert := False\<rparr>)))"

definition grow_on_high_load ::
    "('k, 'v) ordered_hash \<Rightarrow> ('k, 'v) ordered_hash failure + (bool \<times> ('k, 'v) ordered_hash)" where
  "grow_on_high_load t =
     (if m_grow_on_next_insert t \<or> m_load_threshold t \<le> length (m_values t)
      then bind_ok (rehash_impl (max 1 (length (m_buckets t) * 2)) t) (\<lambda>t'. Inr (True, t'\<lparr>m_grow_on_next_insert := False\<rparr>))
      else Inr (False, t))"

text \<open>The first loop of \<open>insert_impl\<close>: the index of an equal key, or where probing stopped.\<close>

partial_function (option) insert_probe ::
    "bucket_entry list \<Rightarrow> ('k \<times> 'v) list \<Rightarrow> 'k \<Rightarrow> u64 \<Rightarrow> nat \<Rightarrow> nat \<Rightarrow> ('s failure + (nat + nat \<times> nat)) option" where
  [code]: "insert_probe bs vs k hash ibucket probes =
     (case bucket_at bs ibucket of
        None \<Rightarrow> Some (Inr (Inr (ibucket, probes)))
      | Some (ix, th) \<Rightarrow>
          if distance_from_ideal_bucket bs ibucket th < probes then Some (Inr (Inr (ibucket, probes)))
          else if th = truncate_hash hash \<and> length vs \<le> ix then Some (Inl (Undefined OutOfBounds))
          else if th = truncate_hash hash \<and> k = fst (vs ! ix) then Some (Inr (Inl ix))
          else insert_probe bs vs k hash (next_bucket bs ibucket) (probes + 1))"

text \<open>\<open>insert_impl\<close>, which reports the position of the key and whether it was inserted.\<close>

definition insert_impl ::
    "('k \<Rightarrow> u64) \<Rightarrow> 'k \<Rightarrow> 'v \<Rightarrow> ('k, 'v) ordered_hash \<Rightarrow>
     ('k, 'v) ordered_hash failure + ((nat \<times> bool) \<times> ('k, 'v) ordered_hash)" where
  "insert_impl h k v t =
     bind_ok (returns (insert_probe (m_buckets t) (m_values t) k (h k) (bucket_for_hash (m_buckets t) (h k)) 0)) (\<lambda>r.
     case r of
       Inl ix \<Rightarrow> Inr ((ix, False), t)
     | Inr (ibucket, probes) \<Rightarrow>
         if max_size \<le> int (length (m_values t)) then Inl (Throws LogicError t)
         else bind_ok (grow_on_high_load t) (\<lambda>(grown, t1).
           let (ib, d) = (if grown then (bucket_for_hash (m_buckets t1) (h k), 0) else (ibucket, probes));
               vs = m_values t1 @ [(k, v)]
           in bind_ok (returns (map_option Inr (insert_index (length vs) (m_buckets t1) (m_grow_on_next_insert t1) ib d
                         (length vs - 1, truncate_hash (h k))))) (\<lambda>(bs, g).
                Inr ((length vs - 1, True), t1\<lparr>m_buckets := bs, m_values := vs, m_grow_on_next_insert := g\<rparr>))))"

definition oh_insert ::
    "('k \<Rightarrow> u64) \<Rightarrow> 'k \<Rightarrow> 'v \<Rightarrow> ('k, 'v) ordered_hash \<Rightarrow> ('k, 'v) ordered_hash failure + (bool \<times> ('k, 'v) ordered_hash)" where
  "oh_insert h k v t = bind_ok (insert_impl h k v t) (\<lambda>((i, b), t'). Inr (b, t'))"

text \<open>\<open>insert_or_assign\<close>, and \<open>operator[]\<close>, which inserts a default value when the key is absent.\<close>

definition oh_insert_or_assign ::
    "('k \<Rightarrow> u64) \<Rightarrow> 'k \<Rightarrow> 'v \<Rightarrow> ('k, 'v) ordered_hash \<Rightarrow> ('k, 'v) ordered_hash failure + (bool \<times> ('k, 'v) ordered_hash)" where
  "oh_insert_or_assign h k v t = bind_ok (insert_impl h k v t) (\<lambda>((i, b), t').
     bind_ok (vec_get (m_values t') i) (\<lambda>p.
       Inr (b, if b then t' else t'\<lparr>m_values := (m_values t')[i := (fst p, v)]\<rparr>)))"

definition oh_lookup_default ::
    "('k \<Rightarrow> u64) \<Rightarrow> 'v \<Rightarrow> 'k \<Rightarrow> ('k, 'v) ordered_hash \<Rightarrow> ('k, 'v) ordered_hash failure + ('v \<times> ('k, 'v) ordered_hash)" where
  "oh_lookup_default h d k t = bind_ok (insert_impl h k d t) (\<lambda>((i, b), t').
     bind_ok (vec_get (m_values t') i) (\<lambda>p. Inr (snd p, t')))"

section \<open>Erasure\<close>

text \<open>\<open>backward_shift\<close>: the hole moves right until an empty bucket or an entry in its ideal bucket follows.\<close>

partial_function (option) backward_shift :: "bucket_entry list \<Rightarrow> nat \<Rightarrow> bucket_entry list option" where
  [code]: "backward_shift bs previous =
     (let current = next_bucket bs previous
      in case bs ! current of
           None \<Rightarrow> Some bs
         | Some e \<Rightarrow>
             if 0 < distance_from_ideal_bucket bs current (snd e)
             then backward_shift (bs[current := bs ! previous, previous := Some e]) current
             else Some bs)"

text \<open>The search of \<open>shift_indexes_in_buckets\<close> for the bucket with an index.\<close>

partial_function (option) seek_index :: "bucket_entry list \<Rightarrow> nat \<Rightarrow> nat \<Rightarrow> nat option" where
  [code]: "seek_index bs old ibucket =
     (case bs ! ibucket of
        None \<Rightarrow> seek_index bs old (next_bucket bs ibucket)
      | Some (ix, th) \<Rightarrow> if ix = old then Some ibucket else seek_index bs old (next_bucket bs ibucket))"

definition set_index :: "nat \<Rightarrow> bucket_entry \<Rightarrow> bucket_entry" where
  "set_index ix b = (case b of None \<Rightarrow> None | Some (_, th) \<Rightarrow> Some (ix, th))"

text \<open>\<open>shift_indexes_in_buckets(from, -1)\<close>, after an element before \<open>from\<close> was taken out of the values.\<close>

definition shift_indexes_down ::
    "('k \<Rightarrow> u64) \<Rightarrow> ('k \<times> 'v) list \<Rightarrow> nat \<Rightarrow> bucket_entry list \<Rightarrow> 's failure + bucket_entry list" where
  "shift_indexes_down h vs from bs =
     fold_ok (\<lambda>iv bs.
       bind_ok (returns (map_option Inr (seek_index bs (iv + 1) (bucket_for_hash bs (h (fst (vs ! iv))))))) (\<lambda>b.
         Inr (bs[b := set_index iv (bs ! b)]))) [from..<length vs] bs"

text \<open>\<open>shift_indexes_in_buckets(from, 1)\<close>, after an element at the index before \<open>from\<close> was put into the values.\<close>

definition shift_indexes_up ::
    "('k \<Rightarrow> u64) \<Rightarrow> ('k \<times> 'v) list \<Rightarrow> nat \<Rightarrow> bucket_entry list \<Rightarrow> 's failure + bucket_entry list" where
  "shift_indexes_up h vs from bs =
     fold_ok (\<lambda>iv bs.
       bind_ok (returns (map_option Inr (seek_index bs (iv - 1) (bucket_for_hash bs (h (fst (vs ! iv))))))) (\<lambda>b.
         Inr (bs[b := set_index iv (bs ! b)]))) [from..<length vs] bs"

text \<open>\<open>insert_at_position_impl\<close>: the new entry goes into the buckets before the indexes behind it are raised.\<close>

definition oh_insert_at ::
    "('k \<Rightarrow> u64) \<Rightarrow> nat \<Rightarrow> 'k \<Rightarrow> 'v \<Rightarrow> ('k, 'v) ordered_hash \<Rightarrow>
     ('k, 'v) ordered_hash failure + ((nat \<times> bool) \<times> ('k, 'v) ordered_hash)" where
  "oh_insert_at h pos k v t =
     bind_ok (returns (insert_probe (m_buckets t) (m_values t) k (h k) (bucket_for_hash (m_buckets t) (h k)) 0)) (\<lambda>r.
     case r of
       Inl ix \<Rightarrow> Inr ((ix, False), t)
     | Inr (ibucket, probes) \<Rightarrow>
         if max_size \<le> int (length (m_values t)) then Inl (Throws LogicError t)
         else bind_ok (grow_on_high_load t) (\<lambda>(grown, t1).
           let (ib, d) = (if grown then (bucket_for_hash (m_buckets t1) (h k), 0) else (ibucket, probes))
           in if length (m_values t1) < pos then Inl (Undefined OutOfBounds)
              else let vs = take pos (m_values t1) @ (k, v) # drop pos (m_values t1)
              in bind_ok (returns (map_option Inr (insert_index (length vs) (m_buckets t1) (m_grow_on_next_insert t1) ib d
                            (pos, truncate_hash (h k))))) (\<lambda>(bs, g).
                 bind_ok (if pos \<noteq> length vs - 1 then shift_indexes_up h vs (pos + 1) bs else Inr bs) (\<lambda>bs'.
                   Inr ((pos, True), t1\<lparr>m_buckets := bs', m_values := vs, m_grow_on_next_insert := g\<rparr>)))))"

definition erase_value_from_bucket ::
    "('k \<Rightarrow> u64) \<Rightarrow> nat \<Rightarrow> ('k, 'v) ordered_hash \<Rightarrow> 's failure + ('k, 'v) ordered_hash" where
  "erase_value_from_bucket h b t =
     (case m_buckets t ! b of
        None \<Rightarrow> Inl (Undefined OutOfBounds)
      | Some (ix, th) \<Rightarrow>
          if length (m_values t) \<le> ix then Inl (Undefined OutOfBounds)
          else let vs = take ix (m_values t) @ drop (Suc ix) (m_values t)
               in bind_ok (if ix \<noteq> length vs then shift_indexes_down h vs ix (m_buckets t) else Inr (m_buckets t)) (\<lambda>bs.
                  bind_ok (returns (map_option Inr (backward_shift (bs[b := None]) b))) (\<lambda>bs'.
                    Inr (t\<lparr>m_buckets := bs', m_values := vs\<rparr>))))"

definition oh_erase ::
    "('k \<Rightarrow> u64) \<Rightarrow> 'k \<Rightarrow> ('k, 'v) ordered_hash \<Rightarrow> ('k, 'v) ordered_hash failure + (nat \<times> ('k, 'v) ordered_hash)" where
  "oh_erase h k t = bind_ok (find_key h k t) (\<lambda>r.
     case r of None \<Rightarrow> Inr (0, t)
     | Some b \<Rightarrow> bind_ok (erase_value_from_bucket h b t) (\<lambda>t'. Inr (1, t')))"

text \<open>
  \<open>erase(first, last)\<close>, for the values with indexes from \<open>first\<close> to below \<open>last\<close>: one sweep over the buckets clears
  those of erased values, shifting back what follows, and lowers the indexes behind the range.
\<close>

partial_function (option) erase_sweep ::
    "nat \<Rightarrow> nat \<Rightarrow> bucket_entry list \<Rightarrow> nat \<Rightarrow> bucket_entry list option" where
  [code]: "erase_sweep start_index end_index bs ibucket =
     (if length bs \<le> ibucket then Some bs
      else case bs ! ibucket of
        None \<Rightarrow> erase_sweep start_index end_index bs (Suc ibucket)
      | Some (ix, th) \<Rightarrow>
          if start_index \<le> ix \<and> ix < end_index
          then (case backward_shift (bs[ibucket := None]) ibucket of
                  None \<Rightarrow> None | Some bs' \<Rightarrow> erase_sweep start_index end_index bs' ibucket)
          else if end_index \<le> ix
          then erase_sweep start_index end_index (bs[ibucket := Some (ix - (end_index - start_index), th)]) (Suc ibucket)
          else erase_sweep start_index end_index bs (Suc ibucket))"

definition oh_erase_range ::
    "nat \<Rightarrow> nat \<Rightarrow> ('k, 'v) ordered_hash \<Rightarrow> 's failure + ('k, 'v) ordered_hash" where
  "oh_erase_range i1 i2 t =
     (if i1 = i2 then Inr t
      else if length (m_values t) < i2 \<or> i2 < i1 then Inl (Undefined OutOfBounds)
      else bind_ok (returns (map_option Inr (erase_sweep i1 i2 (m_buckets t) 0))) (\<lambda>bs.
             Inr (t\<lparr>m_buckets := bs, m_values := take i1 (m_values t) @ drop i2 (m_values t)\<rparr>)))"

text \<open>\<open>unordered_erase\<close> swaps the value with the last one first.\<close>

definition oh_unordered_erase ::
    "('k \<Rightarrow> u64) \<Rightarrow> 'k \<Rightarrow> ('k, 'v) ordered_hash \<Rightarrow> ('k, 'v) ordered_hash failure + (nat \<times> ('k, 'v) ordered_hash)" where
  "oh_unordered_erase h k t = bind_ok (find_key h k t) (\<lambda>r.
     case r of None \<Rightarrow> Inr (0, t)
     | Some b \<Rightarrow>
         (let lst = last (m_values t)
          in if k = fst lst then bind_ok (erase_value_from_bucket h b t) (\<lambda>t'. Inr (1, t'))
             else bind_ok (find_key h (fst lst) t) (\<lambda>r'.
               case (r', m_buckets t ! b) of
                 (Some b', Some (ix, th)) \<Rightarrow>
                   (case m_buckets t ! b' of
                      Some (ix', th') \<Rightarrow>
                        bind_ok (vec_get (m_values t) ix) (\<lambda>p. bind_ok (vec_get (m_values t) ix') (\<lambda>p'.
                        bind_ok (erase_value_from_bucket h b
                          (t\<lparr>m_values := (m_values t)[ix := p', ix' := p],
                             m_buckets := (m_buckets t)[b := Some (ix', th), b' := Some (ix, th')]\<rparr>)) (\<lambda>t'. Inr (1, t'))))
                    | None \<Rightarrow> Inl (Undefined OutOfBounds))
               | _ \<Rightarrow> Inl (Undefined OutOfBounds))))"

section \<open>By position\<close>

text \<open>\<open>erase(pos)\<close>, \<open>pop_back\<close> and \<open>unordered_erase(pos)\<close>; reading past the values is undefined.\<close>

definition oh_erase_at ::
    "('k \<Rightarrow> u64) \<Rightarrow> nat \<Rightarrow> ('k, 'v) ordered_hash \<Rightarrow> ('k, 'v) ordered_hash failure + ('k, 'v) ordered_hash" where
  "oh_erase_at h pos t = bind_ok (vec_get (m_values t) pos) (\<lambda>p. bind_ok (find_key h (fst p) t) (\<lambda>r.
     case r of None \<Rightarrow> Inl (Undefined OutOfBounds) | Some b \<Rightarrow> erase_value_from_bucket h b t))"

definition oh_pop_back ::
    "('k \<Rightarrow> u64) \<Rightarrow> ('k, 'v) ordered_hash \<Rightarrow> ('k, 'v) ordered_hash failure + ('k, 'v) ordered_hash" where
  "oh_pop_back h t = (if m_values t = [] then Inl (Undefined OutOfBounds) else oh_erase_at h (length (m_values t) - 1) t)"

definition oh_unordered_erase_at ::
    "('k \<Rightarrow> u64) \<Rightarrow> nat \<Rightarrow> ('k, 'v) ordered_hash \<Rightarrow> ('k, 'v) ordered_hash failure + ('k, 'v) ordered_hash" where
  "oh_unordered_erase_at h pos t = bind_ok (vec_get (m_values t) pos) (\<lambda>p. bind_ok (oh_unordered_erase h (fst p) t) (\<lambda>(n, t'). Inr t'))"

text \<open>\<open>equal_range\<close>, \<open>front\<close>, \<open>back\<close>, and \<open>operator==\<close>, which compares the values in their order.\<close>

definition oh_equal_range :: "('k \<Rightarrow> u64) \<Rightarrow> 'k \<Rightarrow> ('k, 'v) ordered_hash \<Rightarrow> 's failure + (nat \<times> nat)" where
  "oh_equal_range h k t = bind_ok (oh_find h k t) (\<lambda>r.
     Inr (case r of None \<Rightarrow> (length (m_values t), length (m_values t)) | Some i \<Rightarrow> (i, Suc i)))"

definition oh_front :: "('k, 'v) ordered_hash \<Rightarrow> 's failure + ('k \<times> 'v)" where
  "oh_front t = vec_get (m_values t) 0"

definition oh_back :: "('k, 'v) ordered_hash \<Rightarrow> 's failure + ('k \<times> 'v)" where
  "oh_back t = (if m_values t = [] then Inl (Undefined OutOfBounds) else vec_get (m_values t) (length (m_values t) - 1))"

definition oh_equal :: "('k, 'v) ordered_hash \<Rightarrow> ('k, 'v) ordered_hash \<Rightarrow> bool" where
  "oh_equal lhs rhs \<longleftrightarrow> m_values lhs = m_values rhs"

section \<open>Hash policy and whole ranges\<close>

text \<open>
  \<open>rehash\<close> and \<open>reserve\<close>: the least number of buckets is \<open>ceil(size / 0.75)\<close>, exact in
  \<open>float\<close> for sizes below \<open>2 ^ 20\<close>. The constructor takes a number of
  buckets; \<open>insert(first, last)\<close> reserves what it needs before it inserts.
\<close>

definition ceil_load :: "nat \<Rightarrow> nat" where
  "ceil_load n = (4 * n + 2) div 3"

definition oh_rehash :: "nat \<Rightarrow> ('k, 'v) ordered_hash \<Rightarrow> ('k, 'v) ordered_hash failure + ('k, 'v) ordered_hash" where
  "oh_rehash n t = rehash_impl (max n (ceil_load (oh_size t))) t"

definition oh_reserve :: "nat \<Rightarrow> ('k, 'v) ordered_hash \<Rightarrow> ('k, 'v) ordered_hash failure + ('k, 'v) ordered_hash" where
  "oh_reserve n t = oh_rehash (ceil_load n) t"

definition hash_with_buckets :: "nat \<Rightarrow> unit failure + ('k, 'v) ordered_hash" where
  "hash_with_buckets bucket_count =
     (if max_bucket_count < int bucket_count then Inl (Throws LogicError ())
      else let n = (if 0 < bucket_count then unat (round_up_to_power_of_two (of_nat bucket_count)) else 0)
           in Inr \<lparr>m_buckets = replicate n None, m_values = [], m_load_threshold = load_threshold_for n, m_grow_on_next_insert = False\<rparr>)"

definition oh_insert_range ::
    "('k \<Rightarrow> u64) \<Rightarrow> ('k \<times> 'v) list \<Rightarrow> ('k, 'v) ordered_hash \<Rightarrow> ('k, 'v) ordered_hash failure + ('k, 'v) ordered_hash" where
  "oh_insert_range h ps t =
     (let nb_free_buckets = of_nat (m_load_threshold t) - of_nat (oh_size t) :: u64
      in bind_ok (if ps \<noteq> [] \<and> unat nb_free_buckets < length ps then oh_reserve (oh_size t + length ps) t else Inr t)
           (fold_ok (\<lambda>(k, v) t. bind_ok (oh_insert h k v t) (\<lambda>(b, t'). Inr t')) ps))"

section \<open>Serialisation\<close>

text \<open>
  The stream a serializer is given: 64-bit numbers, the load factor (here always the default one), and
  values. A deserializer that is asked for an item of another kind, or past the end, fails in its own way
  (\<open>RuntimeError\<close>). \<open>EMPTY_MARKER_INDEX\<close> stands for an empty bucket. An entry that is erased, moved away or cleared
  leaves its hash in the bucket, where only serialisation reads it; the tables of the model do not keep it, and
  what is left in the empty bucket \<open>i\<close> is an argument, \<open>stale i\<close>.
\<close>

datatype ('k, 'v) item = Size u64 | LoadFactor | Val "'k \<times> 'v"

definition EMPTY_MARKER_INDEX :: u64 where "EMPTY_MARKER_INDEX = 0xFFFFFFFF"
definition SERIALIZATION_PROTOCOL_VERSION :: u64 where "SERIALIZATION_PROTOCOL_VERSION = 1"

definition serialize_bucket :: "u32 \<Rightarrow> bucket_entry \<Rightarrow> ('k, 'v) item list" where
  "serialize_bucket stale b =
     (case b of None \<Rightarrow> [Size EMPTY_MARKER_INDEX, Size (ucast stale)] | Some (ix, th) \<Rightarrow> [Size (of_nat ix), Size (ucast th)])"

definition oh_serialize :: "(nat \<Rightarrow> u32) \<Rightarrow> ('k, 'v) ordered_hash \<Rightarrow> ('k, 'v) item list" where
  "oh_serialize stale t = [Size SERIALIZATION_PROTOCOL_VERSION, Size (of_nat (length (m_values t))),
     Size (of_nat (length (m_buckets t))), LoadFactor] @ map Val (m_values t) @
     concat (map (\<lambda>(i, b). serialize_bucket (stale i) b) (enumerate 0 (m_buckets t)))"

text \<open>Deserialisation, into an empty table; the items left over are returned.\<close>

fun next_size :: "'s \<Rightarrow> ('k, 'v) item list \<Rightarrow> 's failure + (u64 \<times> ('k, 'v) item list)" where
  "next_size s (Size n # items) = Inr (n, items)"
| "next_size s items = Inl (Throws RuntimeError s)"

fun next_value :: "'s \<Rightarrow> ('k, 'v) item list \<Rightarrow> 's failure + (('k \<times> 'v) \<times> ('k, 'v) item list)" where
  "next_value s (Val p # items) = Inr (p, items)"
| "next_value s items = Inl (Throws RuntimeError s)"

fun next_load_factor :: "'s \<Rightarrow> ('k, 'v) item list \<Rightarrow> 's failure + ('k, 'v) item list" where
  "next_load_factor s (LoadFactor # items) = Inr items"
| "next_load_factor s items = Inl (Throws RuntimeError s)"

text \<open>The index and the hash of a bucket must fit 32 bits (\<open>numeric_cast\<close>).\<close>

definition deserialize_bucket :: "'s \<Rightarrow> ('k, 'v) item list \<Rightarrow> 's failure + (bucket_entry \<times> ('k, 'v) item list)" where
  "deserialize_bucket s items =
     bind_ok (next_size s items) (\<lambda>(index, items). bind_ok (next_size s items) (\<lambda>(hash, items).
       if 0xFFFFFFFF < index \<or> 0xFFFFFFFF < hash then Inl (Throws RuntimeError s)
       else Inr (if index = EMPTY_MARKER_INDEX then None else Some (unat index, ucast hash), items)))"

fun read_all :: "('i \<Rightarrow> 'e + ('a \<times> 'i)) \<Rightarrow> nat \<Rightarrow> 'i \<Rightarrow> 'e + ('a list \<times> 'i)" where
  "read_all f 0 items = Inr ([], items)"
| "read_all f (Suc n) items =
     bind_ok (f items) (\<lambda>(x, items). bind_ok (read_all f n items) (\<lambda>(xs, items). Inr (x # xs, items)))"

text \<open>The mask of the buckets, one less than their number.\<close>

definition hash_mask :: "bucket_entry list \<Rightarrow> u64" where
  "hash_mask bs = (if bs = [] then 0 else of_nat (length bs) - 1)"

lemma bucket_for_hash_mask: "bucket_for_hash bs hash = unat (hash AND hash_mask bs)"
  by (simp add: bucket_for_hash_def hash_mask_def)

text \<open>
  The load threshold is computed while the table has no bucket, and only the hash-incompatible way computes
  it again. The hash-compatible way takes the mask from the capacity that the vector of the buckets, empty until
  then, has after \<open>reserve\<close>, which the standard library only bounds from below: it is an argument, and the mask is
  returned beside the table. The other operations of the model work with \<open>hash_mask\<close>.
\<close>

definition oh_deserialize ::
    "(nat \<Rightarrow> nat) \<Rightarrow> ('k \<Rightarrow> u64) \<Rightarrow> bool \<Rightarrow> ('k, 'v) item list \<Rightarrow>
     ('k, 'v) ordered_hash failure + (('k, 'v) ordered_hash \<times> u64 \<times> ('k, 'v) item list)" where
  "oh_deserialize capacity h hash_compatible items =
     (let t = empty_hash in
      bind_ok (next_size t items) (\<lambda>(version, items).
      if version \<noteq> SERIALIZATION_PROTOCOL_VERSION then Inl (Throws RuntimeError t)
      else bind_ok (next_size t items) (\<lambda>(nb_elements, items).
      bind_ok (next_size t items) (\<lambda>(bucket_count_ds, items).
      bind_ok (next_load_factor t items) (\<lambda>items.
      if bucket_count_ds = 0 then Inr (t, hash_mask (m_buckets t), items)
      else if \<not> hash_compatible
      then bind_ok (oh_reserve (unat nb_elements) t) (\<lambda>t.
           bind_ok (read_all (next_value t) (unat nb_elements) items) (\<lambda>(vs, items).
           bind_ok (fold_ok (\<lambda>(k, v) t. bind_ok (oh_insert h k v t) (\<lambda>(b, t'). Inr t')) vs t) (\<lambda>t.
             Inr (t, hash_mask (m_buckets t), items))))
      else let m_hash_mask = of_nat (capacity (unat bucket_count_ds)) - 1
           in bind_ok (read_all (next_value t) (unat nb_elements) items) (\<lambda>(vs, items).
              bind_ok (read_all (deserialize_bucket t) (unat bucket_count_ds) items) (\<lambda>(bs, items).
                Inr (t\<lparr>m_values := vs, m_buckets := bs\<rparr>, m_hash_mask, items))))))))"

end
