(* ===== verification/Ordered_Hash_Probing.thy ===== *)
theory Ordered_Hash_Probing
  imports Ordered_Hash "HOL-Library.Multiset"
begin

text \<open>
  The robin hood discipline of the bucket array of \<open>Ordered_Hash\<close>: along the array the distance from the
  ideal bucket grows by at most one from a bucket to the next. It makes every probe sequence end and find the
  entry it looks for, and insertion and backward shifting keep it.
\<close>

section \<open>Buckets modulo the size\<close>

definition sized :: "bucket_entry list \<Rightarrow> bool" where
  "sized bs \<longleftrightarrow> (\<exists>n \<le> 32. length bs = 2 ^ n)"

lemma sized_update [simp]: "sized (bs[i := x]) = sized bs"
  by (simp add: sized_def)

lemma sized_pos: "sized bs \<Longrightarrow> 0 < length bs"
  by (auto simp: sized_def)

lemma same_length_only:
  assumes "length bs = length bs'"
  shows "next_bucket bs = next_bucket bs'" "distance_from_ideal_bucket bs = distance_from_ideal_bucket bs'"
    "bucket_for_hash bs = bucket_for_hash bs'"
proof -
  have "bs = [] \<longleftrightarrow> bs' = []" using assms by (metis length_0_conv)
  then show b: "bucket_for_hash bs = bucket_for_hash bs'"
    by (simp add: bucket_for_hash_def [abs_def] assms)
  show "next_bucket bs = next_bucket bs'" by (simp add: next_bucket_def [abs_def] assms)
  show "distance_from_ideal_bucket bs = distance_from_ideal_bucket bs'"
    by (intro ext) (simp add: distance_from_ideal_bucket_def Let_def assms b)
qed

lemma update_length_only [simp]:
  "next_bucket (bs[i := x]) = next_bucket bs"
  "distance_from_ideal_bucket (bs[i := x]) = distance_from_ideal_bucket bs"
  "bucket_for_hash (bs[i := x]) = bucket_for_hash bs"
  by (rule same_length_only; simp)+

lemma bucket_for_hash_mod:
  assumes "sized bs"
  shows "bucket_for_hash bs hash = unat hash mod length bs"
proof -
  obtain n where n: "n \<le> 32" "length bs = 2 ^ n" using assms by (auto simp: sized_def)
  have "bs \<noteq> []" using n by auto
  with n have "bucket_for_hash bs hash = unat (take_bit n hash)"
    by (simp add: bucket_for_hash_def take_bit_eq_mask mask_eq_exp_minus_1)
  also have "\<dots> = take_bit n (unat hash)" by (rule unsigned_take_bit_eq)
  finally show ?thesis using n by (simp add: take_bit_eq_mod)
qed

lemma bucket_for_hash_less: "sized bs \<Longrightarrow> bucket_for_hash bs hash < length bs"
  using bucket_for_hash_mod [of bs hash] sized_pos [of bs] by simp

text \<open>The truncated hash leads to the same bucket.\<close>

lemma bucket_for_truncated:
  assumes "sized bs"
  shows "bucket_for_hash bs (ucast (truncate_hash hash)) = bucket_for_hash bs hash"
proof -
  obtain n where n: "n \<le> 32" "length bs = 2 ^ n" using assms by (auto simp: sized_def)
  have "unat (ucast (truncate_hash hash) :: u64) = unat hash mod 2 ^ 32"
    by (simp add: truncate_hash_def unsigned_ucast_eq unsigned_take_bit_eq) (simp add: take_bit_eq_mod)
  moreover have "unat hash mod 2 ^ 32 mod 2 ^ n = unat hash mod 2 ^ n"
    using n by (metis le_imp_power_dvd mod_mod_cancel)
  ultimately show ?thesis using n by (simp add: bucket_for_hash_mod [OF assms])
qed

lemma next_bucket_mod: "i < length bs \<Longrightarrow> next_bucket bs i = Suc i mod length bs"
  by (auto simp: next_bucket_def mod_if le_less_Suc_eq)

lemma next_bucket_less: "i < length bs \<Longrightarrow> next_bucket bs i < length bs"
  by (auto simp: next_bucket_def)

lemma next_of_probe: "0 < length bs \<Longrightarrow> next_bucket bs ((a + j) mod length bs) = (a + Suc j) mod length bs"
  by (simp add: next_bucket_mod mod_Suc_eq)

lemma distance_less:
  assumes "sized bs" "i < length bs"
  shows "distance_from_ideal_bucket bs i th < length bs"
  using bucket_for_hash_less [OF assms(1), of "ucast th"] assms(2)
  by (auto simp: distance_from_ideal_bucket_def Let_def)

lemma home_plus_distance:
  assumes "sized bs" "i < length bs"
  shows "(bucket_for_hash bs (ucast th) + distance_from_ideal_bucket bs i th) mod length bs = i"
  using bucket_for_hash_less [OF assms(1), of "ucast th"] assms(2)
  by (auto simp: distance_from_ideal_bucket_def Let_def)

lemma mod_add_inj:
  fixes a d e n :: nat
  assumes "(a + d) mod n = (a + e) mod n" "d < n" "e < n"
  shows "d = e"
proof -
  have "int d mod int n = int e mod int n"
    using arg_cong [OF assms(1), of int] by (simp add: zmod_int) (metis add_diff_cancel_left' mod_diff_left_eq)
  with assms(2,3) show ?thesis by simp
qed

lemma distance_unique:
  assumes "sized bs" "d < length bs" "(bucket_for_hash bs (ucast th) + d) mod length bs = i"
  shows "distance_from_ideal_bucket bs i th = d"
proof -
  have i: "i < length bs" using assms(3) sized_pos [OF assms(1)] by auto
  show ?thesis
    by (rule mod_add_inj [where a = "bucket_for_hash bs (ucast th)", OF _ distance_less [OF assms(1) i] assms(2)])
      (simp add: home_plus_distance [OF assms(1) i] assms(3))
qed

section \<open>The robin hood property\<close>

text \<open>How far the entry of a bucket is from home, counted from one; an empty bucket counts zero.\<close>

definition dib :: "bucket_entry list \<Rightarrow> nat \<Rightarrow> nat" where
  "dib bs i = (case bs ! i of None \<Rightarrow> 0 | Some e \<Rightarrow> Suc (distance_from_ideal_bucket bs i (snd e)))"

definition robin_hood :: "bucket_entry list \<Rightarrow> bool" where
  "robin_hood bs \<longleftrightarrow> (\<forall>i < length bs. dib bs (next_bucket bs i) \<le> Suc (dib bs i))"

lemma dib_le: "sized bs \<Longrightarrow> i < length bs \<Longrightarrow> dib bs i \<le> length bs"
  using distance_less [of bs i] by (auto simp: dib_def Suc_le_eq split: option.split)

lemma dib_None [simp]: "bs ! i = None \<Longrightarrow> dib bs i = 0"
  by (simp add: dib_def)

lemma dib_Some [simp]: "bs ! i = Some e \<Longrightarrow> dib bs i = Suc (distance_from_ideal_bucket bs i (snd e))"
  by (simp add: dib_def)

lemma dib_update:
  "i < length bs \<Longrightarrow> dib (bs[i := x]) j = (if j = i then (case x of None \<Rightarrow> 0 | Some e \<Rightarrow> Suc (distance_from_ideal_bucket bs i (snd e)))
     else dib bs j)"
  by (auto simp: dib_def split: option.split)

lemma robin_hood_walk:
  assumes "robin_hood bs" "i < length bs"
  shows "dib bs ((i + m) mod length bs) \<le> dib bs i + m"
proof (induction m)
  case (Suc m)
  have "0 < length bs" using assms(2) by linarith
  then have "dib bs (next_bucket bs ((i + m) mod length bs)) \<le> Suc (dib bs ((i + m) mod length bs))"
    using assms(1) by (simp add: robin_hood_def)
  with Suc \<open>0 < length bs\<close> show ?case by (simp add: next_of_probe)
qed (use assms in simp)

text \<open>On the way from its ideal bucket to an entry, no bucket is empty or closer to home than the probe.\<close>

lemma probe_passes:
  assumes "robin_hood bs" "sized bs" "p < length bs" "bs ! p = Some e" "j \<le> distance_from_ideal_bucket bs p (snd e)"
  shows "j < dib bs ((bucket_for_hash bs (ucast (snd e)) + j) mod length bs)"
proof -
  let ?h = "bucket_for_hash bs (ucast (snd e))" and ?d = "distance_from_ideal_bucket bs p (snd e)"
  have pos: "0 < length bs" using assms(3) by linarith
  have "dib bs (((?h + j) mod length bs + (?d - j)) mod length bs) \<le> dib bs ((?h + j) mod length bs) + (?d - j)"
    using robin_hood_walk [OF assms(1), of "(?h + j) mod length bs"] pos by simp
  moreover have "((?h + j) mod length bs + (?d - j)) mod length bs = p"
    using home_plus_distance [OF assms(2,3), of "snd e"] assms(5) by (simp only: mod_add_left_eq) simp
  ultimately show ?thesis using assms(4,5) by simp
qed

section \<open>Finding\<close>

definition matches :: "bucket_entry list \<Rightarrow> ('k \<times> 'v) list \<Rightarrow> 'k \<Rightarrow> u64 \<Rightarrow> nat \<Rightarrow> bool" where
  "matches bs vs k hash b \<longleftrightarrow> (\<exists>ix. bs ! b = Some (ix, truncate_hash hash) \<and> k = fst (vs ! ix))"

definition indexes_in :: "bucket_entry list \<Rightarrow> nat \<Rightarrow> bool" where
  "indexes_in bs n \<longleftrightarrow> (\<forall>b < length bs. \<forall>e. bs ! b = Some e \<longrightarrow> fst e < n)"

text \<open>No match in the first buckets of a probe sequence and a stop after them: no match at all.\<close>

lemma no_match_after_stop:
  assumes "robin_hood bs" "sized bs" "dib bs ((bucket_for_hash bs hash + j) mod length bs) \<le> j"
    and "\<forall>i < j. \<not> matches bs vs k hash ((bucket_for_hash bs hash + i) mod length bs)" "b < length bs"
  shows "\<not> matches bs vs k hash b"
proof
  assume "matches bs vs k hash b"
  then obtain ix where ix: "bs ! b = Some (ix, truncate_hash hash)" "k = fst (vs ! ix)" by (auto simp: matches_def)
  let ?d = "distance_from_ideal_bucket bs b (truncate_hash hash)"
  have "(bucket_for_hash bs hash + ?d) mod length bs = b"
    using home_plus_distance [OF assms(2,5), of "truncate_hash hash"] by (simp add: bucket_for_truncated [OF assms(2)])
  with assms(4) \<open>matches bs vs k hash b\<close> have "j \<le> ?d" by (metis not_less)
  with probe_passes [OF assms(1,2,5) ix(1), of j] assms(3) show False
    by (simp add: bucket_for_truncated [OF assms(2)])
qed

text \<open>What the search from distance \<open>j\<close> ends with: a match, or a bucket at which it may stop with no match before it.\<close>

definition found_from :: "bucket_entry list \<Rightarrow> ('k \<times> 'v) list \<Rightarrow> 'k \<Rightarrow> u64 \<Rightarrow> nat \<Rightarrow> nat option \<Rightarrow> bool" where
  "found_from bs vs k hash j r \<longleftrightarrow>
     (case r of Some b \<Rightarrow> b < length bs \<and> matches bs vs k hash b
      | None \<Rightarrow> \<exists>j'. dib bs ((bucket_for_hash bs hash + j') mod length bs) \<le> j' \<and>
          (\<forall>i. j \<le> i \<and> i < j' \<longrightarrow> \<not> matches bs vs k hash ((bucket_for_hash bs hash + i) mod length bs)))"

lemma found_from_here: "dib bs ((bucket_for_hash bs hash + j) mod length bs) \<le> j \<Longrightarrow> found_from bs vs k hash j None"
  by (auto simp: found_from_def)

lemma found_from_Suc:
  assumes "found_from bs vs k hash (Suc j) r" "\<not> matches bs vs k hash ((bucket_for_hash bs hash + j) mod length bs)"
  shows "found_from bs vs k hash j r"
proof (cases r)
  case None
  with assms(1) obtain j' where j': "dib bs ((bucket_for_hash bs hash + j') mod length bs) \<le> j'"
    "\<forall>i. Suc j \<le> i \<and> i < j' \<longrightarrow> \<not> matches bs vs k hash ((bucket_for_hash bs hash + i) mod length bs)"
    by (auto simp: found_from_def)
  have "\<not> matches bs vs k hash ((bucket_for_hash bs hash + i) mod length bs)" if "j \<le> i" "i < j'" for i
    using that j'(2) assms(2) by (cases "i = j") auto
  with j'(1) None show ?thesis by (auto simp: found_from_def)
qed (use assms(1) in \<open>simp add: found_from_def\<close>)

lemma find_loop_ok:
  assumes "sized bs" "indexes_in bs (length vs)" "j \<le> length bs"
  shows "\<exists>r. find_loop bs vs k hash ((bucket_for_hash bs hash + j) mod length bs) j = Some (Inr r :: 's failure + _) \<and>
    found_from bs vs k hash j r"
  using assms(3)
proof (induction "length bs - j" arbitrary: j rule: less_induct)
  case less
  let ?p = "(bucket_for_hash bs hash + j) mod length bs"
  have pos: "0 < length bs" by (rule sized_pos [OF assms(1)])
  then have p: "?p < length bs" "bs \<noteq> []" by auto
  show ?case
  proof (cases "bs ! ?p")
    case None
    have "find_loop bs vs k hash ?p j = Some (Inr None)"
      using None p by (subst find_loop.simps) (simp add: bucket_at_def)
    moreover have "found_from bs vs k hash j None" using None by (intro found_from_here) simp
    ultimately show ?thesis by blast
  next
    case (Some e)
    then obtain ix th where e: "bs ! ?p = Some (ix, th)" by (cases e) auto
    have ix: "ix < length vs" using assms(2) p(1) e unfolding indexes_in_def by fastforce
    consider "th = truncate_hash hash \<and> k = fst (vs ! ix)"
      | "\<not> (th = truncate_hash hash \<and> k = fst (vs ! ix))" "distance_from_ideal_bucket bs ?p th < j"
      | "\<not> (th = truncate_hash hash \<and> k = fst (vs ! ix))" "j \<le> distance_from_ideal_bucket bs ?p th"
      by linarith
    then show ?thesis
    proof cases
      case 1
      then have "find_loop bs vs k hash ?p j = Some (Inr (Some ?p))"
        using e ix p by (subst find_loop.simps) (simp add: bucket_at_def)
      moreover have "matches bs vs k hash ?p" using 1 e by (simp add: matches_def)
      ultimately show ?thesis using p by (auto simp: found_from_def)
    next
      case 2
      then have "find_loop bs vs k hash ?p j = Some (Inr None)"
        using e ix p by (subst find_loop.simps) (auto simp: bucket_at_def)
      moreover have "found_from bs vs k hash j None" using 2 e by (intro found_from_here) simp
      ultimately show ?thesis by blast
    next
      case 3
      have j: "j < length bs" using 3(2) distance_less [OF assms(1) p(1), of th] by linarith
      have eq: "find_loop bs vs k hash ?p j = find_loop bs vs k hash ((bucket_for_hash bs hash + Suc j) mod length bs) (Suc j)"
        using 3 e ix p next_of_probe [OF pos, of "bucket_for_hash bs hash" j]
        by (subst find_loop.simps) (auto simp: bucket_at_def)
      have nm: "\<not> matches bs vs k hash ?p" using 3(1) e by (auto simp: matches_def)
      have "length bs - Suc j < length bs - j" "Suc j \<le> length bs" using j by auto
      from less.hyps [OF this] found_from_Suc [OF _ nm] show ?thesis unfolding eq by blast
    qed
  qed
qed

lemma find_loop_complete:
  assumes "robin_hood bs" "sized bs" "indexes_in bs (length vs)"
  shows "\<exists>r. find_loop bs vs k hash (bucket_for_hash bs hash) 0 = Some (Inr r :: 's failure + _) \<and>
    (case r of Some b \<Rightarrow> b < length bs \<and> matches bs vs k hash b | None \<Rightarrow> \<forall>b < length bs. \<not> matches bs vs k hash b)"
proof -
  from find_loop_ok [OF assms(2,3), of 0 k hash] bucket_for_hash_less [OF assms(2), of hash] obtain r where
      r: "find_loop bs vs k hash (bucket_for_hash bs hash) 0 = Some (Inr r :: 's failure + _)"
        "case r of Some b \<Rightarrow> b < length bs \<and> matches bs vs k hash b
         | None \<Rightarrow> \<exists>j'. dib bs ((bucket_for_hash bs hash + j') mod length bs) \<le> j' \<and>
         (\<forall>i. 0 \<le> i \<and> i < j' \<longrightarrow> \<not> matches bs vs k hash ((bucket_for_hash bs hash + i) mod length bs))"
    by (auto simp: found_from_def)
  have "case r of Some b \<Rightarrow> b < length bs \<and> matches bs vs k hash b | None \<Rightarrow> \<forall>b < length bs. \<not> matches bs vs k hash b"
  proof (cases r)
    case None
    with r(2) obtain j' where "dib bs ((bucket_for_hash bs hash + j') mod length bs) \<le> j'"
      "\<forall>i < j'. \<not> matches bs vs k hash ((bucket_for_hash bs hash + i) mod length bs)" by auto
    from no_match_after_stop [OF assms(1,2) this] None show ?thesis by simp
  qed (use r(2) in simp)
  with r(1) show ?thesis by blast
qed

end
