(* ===== verification/Ordered_Hash_Updates.thy ===== *)
theory Ordered_Hash_Updates
  imports Ordered_Hash_Probing
begin

text \<open>
  The loops of \<open>Ordered_Hash\<close> that change the bucket array: insertion of an index, backward shifting into a
  hole, and the search of a bucket by its index. Each ends, keeps the robin hood property, and changes
  the multiset of entries as it should.
\<close>

section \<open>The first loop of an insertion\<close>

lemma insert_probe_ok:
  assumes "sized bs" "indexes_in bs (length vs)" "j \<le> length bs"
  shows "\<exists>r. insert_probe bs vs k hash ((bucket_for_hash bs hash + j) mod length bs) j = Some (Inr r :: 's failure + _) \<and>
    (case r of Inl ix \<Rightarrow> \<exists>b < length bs. bs ! b = Some (ix, truncate_hash hash) \<and> k = fst (vs ! ix)
     | Inr (b, d) \<Rightarrow> j \<le> d \<and> b = (bucket_for_hash bs hash + d) mod length bs \<and> dib bs b \<le> d \<and>
         (\<forall>i. j \<le> i \<and> i < d \<longrightarrow> i < dib bs ((bucket_for_hash bs hash + i) mod length bs) \<and>
            \<not> matches bs vs k hash ((bucket_for_hash bs hash + i) mod length bs)))"
  using assms(3)
proof (induction "length bs - j" arbitrary: j rule: less_induct)
  case less
  let ?p = "(bucket_for_hash bs hash + j) mod length bs"
  have pos: "0 < length bs" by (rule sized_pos [OF assms(1)])
  then have p: "?p < length bs" "bs \<noteq> []" by auto
  show ?case
  proof (cases "dib bs ?p \<le> j")
    case True
    have "insert_probe bs vs k hash ?p j = Some (Inr (Inr (?p, j)))"
      using True p by (subst insert_probe.simps) (auto simp: bucket_at_def dib_def Suc_le_eq split: option.splits)
    then show ?thesis using True by (intro exI [of _ "Inr (?p, j)"]) auto
  next
    case False
    then obtain ix th where e: "bs ! ?p = Some (ix, th)" by (cases "bs ! ?p") auto
    with False have d: "j \<le> distance_from_ideal_bucket bs ?p th" by simp
    have ix: "ix < length vs" using assms(2) p(1) e unfolding indexes_in_def by fastforce
    show ?thesis
    proof (cases "th = truncate_hash hash \<and> k = fst (vs ! ix)")
      case True
      have "insert_probe bs vs k hash ?p j = Some (Inr (Inl ix))"
        using True e ix p d by (subst insert_probe.simps) (simp add: bucket_at_def)
      then show ?thesis using True e p(1) by (intro exI [of _ "Inl ix"]) (auto intro!: exI [of _ ?p])
    next
      case ne: False
      have j: "j < length bs" using d distance_less [OF assms(1) p(1), of th] by linarith
      have eq: "(insert_probe bs vs k hash ?p j :: ('s failure + _) option) = insert_probe bs vs k hash ((bucket_for_hash bs hash + Suc j) mod length bs) (Suc j)"
        using ne e ix p d next_of_probe [OF pos, of "bucket_for_hash bs hash" j]
        by (subst insert_probe.simps) (auto simp: bucket_at_def)
      have nm: "j < dib bs ?p \<and> \<not> matches bs vs k hash ?p" using ne e False by (auto simp: matches_def)
      have "length bs - Suc j < length bs - j" "Suc j \<le> length bs" using j by auto
      from less.hyps [OF this] obtain r where r:
        "insert_probe bs vs k hash ((bucket_for_hash bs hash + Suc j) mod length bs) (Suc j) = Some (Inr r :: 's failure + _)"
        "case r of Inl ix \<Rightarrow> \<exists>b < length bs. bs ! b = Some (ix, truncate_hash hash) \<and> k = fst (vs ! ix)
         | Inr (b, d) \<Rightarrow> Suc j \<le> d \<and> b = (bucket_for_hash bs hash + d) mod length bs \<and> dib bs b \<le> d \<and>
             (\<forall>i. Suc j \<le> i \<and> i < d \<longrightarrow> i < dib bs ((bucket_for_hash bs hash + i) mod length bs) \<and>
                \<not> matches bs vs k hash ((bucket_for_hash bs hash + i) mod length bs))"
        by blast
      show ?thesis
      proof (cases r)
        case (Inl ix)
        with r eq show ?thesis by (intro exI [of _ r]) simp
      next
        case (Inr bd)
        obtain b d where bd: "bd = (b, d)" by (cases bd)
        have "i < dib bs ((bucket_for_hash bs hash + i) mod length bs) \<and>
            \<not> matches bs vs k hash ((bucket_for_hash bs hash + i) mod length bs)" if "j \<le> i" "i < d" for i
          using r(2) nm that by (cases "i = j") (simp_all add: Inr bd)
        with r eq show ?thesis by (intro exI [of _ r]) (auto simp: Inr bd)
      qed
    qed
  qed
qed

section \<open>Insertion of an index\<close>

definition placeable :: "bucket_entry list \<Rightarrow> nat \<Rightarrow> nat \<Rightarrow> u32 \<Rightarrow> bool" where
  "placeable bs b d th \<longleftrightarrow> b = (bucket_for_hash bs (ucast th) + d) mod length bs \<and>
     (d = 0 \<or> (\<exists>p < length bs. next_bucket bs p = b \<and> d \<le> dib bs p))"

text \<open>An empty bucket bounds how far from home an entry can be.\<close>

lemma dib_less_with_hole:
  assumes "robin_hood bs" "sized bs" "z < length bs" "bs ! z = None" "i < length bs"
  shows "dib bs i < length bs"
proof -
  have pos: "0 < length bs" using assms(3) by linarith
  define m where "m = (if z \<le> i then i - z else length bs + i - z)"
  have m: "m < length bs" "(z + m) mod length bs = i" using assms(3,5) by (auto simp: m_def)
  from robin_hood_walk [OF assms(1,3), of m] m assms(4) show ?thesis by simp
qed

lemma next_bucket_inj:
  assumes "i < length bs" "j < length bs" "next_bucket bs i = next_bucket bs j"
  shows "i = j"
  using assms by (auto simp: next_bucket_def split: if_splits)

lemma robin_hood_raise:
  assumes "robin_hood bs" "sized bs" "b < length bs" "d < length bs" "placeable bs b d (snd e)" "dib bs b \<le> Suc d"
  shows "robin_hood (bs[b := Some e])" "dib (bs[b := Some e]) b = Suc d"
proof -
  have dist: "distance_from_ideal_bucket bs b (snd e) = d"
    using distance_unique [OF assms(2,4)] assms(5) by (simp add: placeable_def)
  then show new: "dib (bs[b := Some e]) b = Suc d" using assms(3) by (simp add: dib_update)
  show "robin_hood (bs[b := Some e])"
    unfolding robin_hood_def length_list_update update_length_only
  proof (intro allI impI)
    fix i assume i: "i < length bs"
    have step: "dib bs (next_bucket bs i) \<le> Suc (dib bs i)" using assms(1) i by (simp add: robin_hood_def)
    show "dib (bs[b := Some e]) (next_bucket bs i) \<le> Suc (dib (bs[b := Some e]) i)"
    proof (cases "next_bucket bs i = b")
      case True
      show ?thesis
      proof (cases "d = 0")
        case False
        with assms(5) obtain p where "p < length bs" "next_bucket bs p = b" "d \<le> dib bs p" by (auto simp: placeable_def)
        then have "d \<le> dib bs i" using next_bucket_inj [OF i, of p] True by simp
        then show ?thesis using True new assms(3,6) by (auto simp: dib_update dist)
      qed (use True new in simp)
    next
      case False
      with step assms(3,6) show ?thesis by (auto simp: dib_update dist)
    qed
  qed
qed

lemma ahead_mod:
  fixes b z n :: nat
  assumes "z < n" "b < n"
  shows "(z + n - b) mod n = (if b \<le> z then z - b else z + n - b)"
proof (cases "b \<le> z")
  case True
  then have "z + n - b = (z - b) + n" by simp
  then show ?thesis using assms True by (simp only: mod_add_self2) simp
qed (use assms in simp)

text \<open>The next bucket is nearer to the hole; a distance that may be placed stays below the number of buckets.\<close>

lemma next_nearer_hole:
  assumes "b < length bs" "z < length bs" "b \<noteq> z"
  shows "(z + length bs - next_bucket bs b) mod length bs < (z + length bs - b) mod length bs"
  unfolding ahead_mod [OF assms(2,1)] ahead_mod [OF assms(2) next_bucket_less [OF assms(1)]]
  using assms by (auto simp: next_bucket_def)

lemma placeable_less:
  assumes "placeable bs b d th" "robin_hood bs" "sized bs" "z < length bs" "bs ! z = None"
  shows "d < length bs"
proof (cases "d = 0")
  case False
  with assms(1) obtain p where "p < length bs" "d \<le> dib bs p" by (auto simp: placeable_def)
  with dib_less_with_hole [OF assms(2-5), of p] show ?thesis by simp
qed (use assms(4) in linarith)

lemma insert_index_ok:
  assumes "robin_hood bs" "sized bs" "b < length bs" "placeable bs b d (snd e)" "z < length bs" "bs ! z = None"
  shows "\<exists>bs' g. insert_index n bs grow b d e = Some (bs', g) \<and> length bs' = length bs \<and> robin_hood bs' \<and>
    add_mset None (mset bs') = add_mset (Some e) (mset bs)"
  using assms
proof (induction "(z + length bs - b) mod length bs" arbitrary: bs b d e grow rule: less_induct)
  case less
  have pos: "0 < length bs" using less.prems(3) by linarith
  have d: "d < length bs" by (rule placeable_less [OF less.prems(4,1,2,5,6)])
  show ?case
  proof (cases "bs ! b")
    case None
    have "insert_index n bs grow b d e = Some (bs[b := Some e], grow)"
      using None by (subst insert_index.simps) simp
    moreover have "robin_hood (bs[b := Some e])"
      using robin_hood_raise(1) [OF less.prems(1,2,3) d less.prems(4)] None by simp
    moreover have "add_mset None (mset (bs[b := Some e])) = add_mset (Some e) (mset bs)"
      using less.prems(3) nth_mem_mset [OF less.prems(3)] None by (simp add: mset_update insert_DiffM)
    ultimately show ?thesis by auto
  next
    case (Some e')
    let ?distance = "distance_from_ideal_bucket bs b (snd e')"
    have bz: "b \<noteq> z" using Some less.prems(6) by auto
    have nb: "next_bucket bs b < length bs" by (rule next_bucket_less [OF less.prems(3)])
    note closer = next_nearer_hole [OF less.prems(3,5) bz]
    show ?thesis
    proof (cases "?distance < d")
      case True
      let ?bs = "bs[b := Some e]"
      note r = robin_hood_raise [OF less.prems(1,2,3) d less.prems(4)]
      have r1: "robin_hood ?bs" "dib ?bs b = Suc d" using r Some True by simp_all
      have pl: "placeable ?bs (next_bucket bs b) (Suc ?distance) (snd e')"
        unfolding placeable_def length_list_update update_length_only
        using home_plus_distance [OF less.prems(2,3), of "snd e'"] next_of_probe [OF pos, of "bucket_for_hash bs (ucast (snd e'))" ?distance]
          r1(2) True less.prems(3) by (auto intro!: exI [of _ b])
      have z: "?bs ! z = None" using less.prems(6) bz by simp
      let ?g = "grow \<or> REHASH_NPROBES < Suc ?distance \<and> high_load n (length bs)"
      from less.hyps [of ?bs "next_bucket bs b" "Suc ?distance" e' ?g] closer r1(1) less.prems(2,5) nb pl z
      obtain bs' g where ih: "insert_index n ?bs ?g (next_bucket bs b) (Suc ?distance) e' = Some (bs', g)"
          "length bs' = length bs" "robin_hood bs'" "add_mset None (mset bs') = add_mset (Some e') (mset ?bs)" by auto
      have "insert_index n bs grow b d e = Some (bs', g)"
        using Some True ih(1) by (subst insert_index.simps) (simp add: Let_def)
      moreover have "add_mset (Some e') (mset ?bs) = add_mset (Some e) (mset bs)"
        using less.prems(3) nth_mem_mset [OF less.prems(3)] Some by (simp add: mset_update add_mset_commute insert_DiffM)
      ultimately show ?thesis using ih by auto
    next
      case False
      have pl: "placeable bs (next_bucket bs b) (Suc d) (snd e)"
        using less.prems(3,4) next_of_probe [OF pos, of "bucket_for_hash bs (ucast (snd e))" d] Some False
        by (auto simp: placeable_def intro!: exI [of _ b])
      let ?g = "grow \<or> REHASH_NPROBES < Suc d \<and> high_load n (length bs)"
      from less.hyps [of bs "next_bucket bs b" "Suc d" e ?g] closer less.prems nb pl
      obtain bs' g where ih: "insert_index n bs ?g (next_bucket bs b) (Suc d) e = Some (bs', g)"
          "length bs' = length bs" "robin_hood bs'" "add_mset None (mset bs') = add_mset (Some e) (mset bs)" by auto
      have "insert_index n bs grow b d e = Some (bs', g)"
        using Some False ih(1) by (subst insert_index.simps) (simp add: Let_def)
      with ih show ?thesis by auto
    qed
  qed
qed

text \<open>Growth is asked for only at a high load.\<close>

lemma insert_index_grow:
  assumes "insert_index n bs grow b d e = Some r"
  shows "snd r \<longrightarrow> grow \<or> high_load n (length bs)"
  using assms
proof (rule insert_index.raw_induct [rotated])
  fix insert_index n bs grow b d e r
  assume ih: "\<And>n bs grow b d e r. insert_index n bs grow b d e = Some r \<Longrightarrow> snd r \<longrightarrow> grow \<or> high_load n (length bs)"
    and eq: "(case bs ! b of
        None \<Rightarrow> Some (bs[b := Some e], grow)
      | Some e' \<Rightarrow>
          (let distance = distance_from_ideal_bucket bs b (snd e');
               (bs1, e1, probes1) = (if distance < d then (bs[b := Some e], e', distance) else (bs, e, d))
           in insert_index n bs1
                (grow \<or> (REHASH_NPROBES < probes1 + 1 \<and> high_load n (length bs)))
                (next_bucket bs b) (probes1 + 1) e1)) = Some r"
  from eq show "snd r \<longrightarrow> grow \<or> high_load n (length bs)"
    by (auto simp: Let_def split: option.splits if_splits dest: ih)
qed

lemma insert_probe_complete:
  assumes "robin_hood bs" "sized bs" "indexes_in bs (length vs)"
  shows "\<exists>r. insert_probe bs vs k hash (bucket_for_hash bs hash) 0 = Some (Inr r :: 's failure + _) \<and>
    (case r of Inl ix \<Rightarrow> \<exists>b < length bs. bs ! b = Some (ix, truncate_hash hash) \<and> k = fst (vs ! ix)
     | Inr (b, d) \<Rightarrow> b < length bs \<and> placeable bs b d (truncate_hash hash) \<and> (\<forall>b < length bs. \<not> matches bs vs k hash b))"
proof -
  have pos: "0 < length bs" by (rule sized_pos [OF assms(2)])
  have start: "(bucket_for_hash bs hash + 0) mod length bs = bucket_for_hash bs hash"
    using bucket_for_hash_less [OF assms(2), of hash] by simp
  from insert_probe_ok [OF assms(2,3) le0, of k hash, unfolded start] obtain r where
      r: "insert_probe bs vs k hash (bucket_for_hash bs hash) 0 = Some (Inr r :: 's failure + _)"
        "case r of Inl ix \<Rightarrow> \<exists>b < length bs. bs ! b = Some (ix, truncate_hash hash) \<and> k = fst (vs ! ix)
         | Inr (b, d) \<Rightarrow> 0 \<le> d \<and> b = (bucket_for_hash bs hash + d) mod length bs \<and> dib bs b \<le> d \<and>
         (\<forall>i. 0 \<le> i \<and> i < d \<longrightarrow> i < dib bs ((bucket_for_hash bs hash + i) mod length bs) \<and>
            \<not> matches bs vs k hash ((bucket_for_hash bs hash + i) mod length bs))" by blast
  show ?thesis
  proof (cases r)
    case (Inr bd)
    obtain b d where bd: "bd = (b, d)" by (cases bd)
    from r(2) have b: "b = (bucket_for_hash bs hash + d) mod length bs" "dib bs b \<le> d"
        "\<forall>i < d. i < dib bs ((bucket_for_hash bs hash + i) mod length bs)"
        "\<forall>i < d. \<not> matches bs vs k hash ((bucket_for_hash bs hash + i) mod length bs)" by (auto simp: Inr bd)
    have "placeable bs b d (truncate_hash hash)"
    proof (cases d)
      case (Suc i)
      let ?p = "(bucket_for_hash bs hash + i) mod length bs"
      have "?p < length bs" "next_bucket bs ?p = b" "d \<le> dib bs ?p"
        using b(1,3) Suc pos by (simp_all add: next_of_probe Suc_le_eq)
      then show ?thesis using b(1) by (auto simp: placeable_def bucket_for_truncated [OF assms(2)])
    qed (simp add: placeable_def b(1) bucket_for_truncated [OF assms(2)])
    moreover have "\<forall>b < length bs. \<not> matches bs vs k hash b"
      using no_match_after_stop [OF assms(1,2) _ b(4)] b(1,2) by simp
    ultimately show ?thesis using r(1) b(1) pos by (intro exI [of _ r]) (simp add: Inr bd)
  qed (use r in auto)
qed

section \<open>Backward shifting\<close>

text \<open>The property with a hole at \<open>p\<close>: only the bucket behind the hole may be further out.\<close>

definition holed :: "bucket_entry list \<Rightarrow> nat \<Rightarrow> bool" where
  "holed bs p \<longleftrightarrow> p < length bs \<and> bs ! p = None \<and>
     (\<forall>i < length bs. i \<noteq> p \<longrightarrow> dib bs (next_bucket bs i) \<le> Suc (dib bs i)) \<and>
     (\<forall>i < length bs. next_bucket bs i = p \<longrightarrow> i \<noteq> p \<longrightarrow> dib bs (next_bucket bs p) \<le> Suc (Suc (dib bs i)))"

lemma holed_clear:
  assumes "robin_hood bs" "p < length bs"
  shows "holed (bs[p := None]) p"
proof -
  have *: "dib bs (next_bucket bs i) \<le> Suc (dib bs i)" if "i < length bs" for i
    using assms(1) that by (simp add: robin_hood_def)
  have "dib bs (next_bucket bs p) \<le> Suc (Suc (dib bs i))" if "i < length bs" "next_bucket bs i = p" for i
    using * [OF that(1)] * [OF assms(2)] that(2) by simp
  with assms(2) * show ?thesis by (auto simp: holed_def dib_update)
qed

lemma distance_back:
  assumes "sized bs" "p < length bs" "0 < distance_from_ideal_bucket bs (next_bucket bs p) th"
  shows "Suc (distance_from_ideal_bucket bs p th) = distance_from_ideal_bucket bs (next_bucket bs p) th"
proof -
  let ?h = "bucket_for_hash bs (ucast th)"
  let ?d = "distance_from_ideal_bucket bs (next_bucket bs p) th"
  have n: "next_bucket bs p < length bs" by (rule next_bucket_less [OF assms(2)])
  have d: "?d < length bs" by (rule distance_less [OF assms(1) n])
  have pos: "0 < length bs" using assms(2) by linarith
  have "next_bucket bs ((?h + (?d - 1)) mod length bs) = next_bucket bs p"
    using next_of_probe [OF pos, of ?h "?d - 1"] assms(3) home_plus_distance [OF assms(1) n, of th] by simp
  then have "(?h + (?d - 1)) mod length bs = p"
    using next_bucket_inj [OF _ assms(2), of "(?h + (?d - 1)) mod length bs"] pos by simp
  from distance_unique [OF assms(1) _ this] d assms(3) show ?thesis by simp
qed

text \<open>The distances of all entries, which every shift decreases.\<close>

definition out_of_place :: "bucket_entry list \<Rightarrow> nat" where
  "out_of_place bs = (\<Sum>i < length bs. dib bs i)"

lemma out_of_place_shift:
  assumes "p < length bs" "q < length bs" "p \<noteq> q" "bs ! p = None" "bs ! q = Some e"
  shows "out_of_place (bs[q := None, p := Some e]) + dib bs q = out_of_place bs + Suc (distance_from_ideal_bucket bs p (snd e))"
proof -
  let ?bs = "bs[q := None, p := Some e]" and ?R = "{..<length bs} - {p, q}"
  have split: "(\<Sum>i < length bs. f i) = f p + f q + (\<Sum>i \<in> ?R. f i)" for f :: "nat \<Rightarrow> nat"
  proof -
    have "{..<length bs} = insert p (insert q ?R)" using assms by auto
    moreover have "(\<Sum>i \<in> insert p (insert q ?R). f i) = f p + (f q + (\<Sum>i \<in> ?R. f i))"
      using assms by (subst sum.insert; auto)+
    ultimately show ?thesis by simp
  qed
  have "(\<Sum>i \<in> ?R. dib ?bs i) = (\<Sum>i \<in> ?R. dib bs i)"
    by (rule sum.cong) (use assms in \<open>auto simp: dib_update\<close>)
  then show ?thesis
    unfolding out_of_place_def length_list_update split using assms by (simp add: dib_update)
qed

text \<open>Shifting the entry behind the hole into it moves the hole.\<close>

lemma holed_shift:
  assumes holed: "holed bs p" and e: "bs ! next_bucket bs p = Some e"
    and dq: "dib bs (next_bucket bs p) = Suc (Suc (distance_from_ideal_bucket bs p (snd e)))"
  shows "holed (bs[next_bucket bs p := None, p := Some e]) (next_bucket bs p)"
proof -
  let ?q = "next_bucket bs p"
  let ?bs = "bs[?q := None, p := Some e]"
  have p: "p < length bs" "bs ! p = None" using holed by (auto simp: holed_def)
  have q: "?q < length bs" by (rule next_bucket_less [OF p(1)])
  have pq: "p \<noteq> ?q" using e p(2) by auto
  have d: "dib ?bs i = (if i = p then Suc (distance_from_ideal_bucket bs p (snd e)) else if i = ?q then 0 else dib bs i)" for i
    using p(1) q by (simp add: dib_update)
  show ?thesis
    unfolding holed_def length_list_update update_length_only
  proof (intro conjI allI impI)
    show "?q < length bs" by (rule q)
    show "?bs ! ?q = None" using pq p(1) q by simp
  next
    fix i assume i: "i < length bs" "i \<noteq> ?q"
    show "dib ?bs (next_bucket bs i) \<le> Suc (dib ?bs i)"
    proof (cases "i = p")
      case False
      have "next_bucket bs i \<noteq> ?q" using next_bucket_inj [OF i(1) p(1)] False by auto
      moreover have "dib bs (next_bucket bs i) \<le> Suc (dib bs i)" using holed i(1) False by (simp add: holed_def)
      moreover have "dib bs ?q \<le> Suc (Suc (dib bs i))" if "next_bucket bs i = p"
        using holed i(1) False that by (simp add: holed_def)
      ultimately show ?thesis using False i(2) dq by (simp add: d)
    qed (simp add: d)
  next
    fix i assume i: "i < length bs" "next_bucket bs i = ?q" "i \<noteq> ?q"
    have "i = p" by (rule next_bucket_inj [OF i(1) p(1) i(2)])
    moreover have "dib bs (next_bucket bs ?q) \<le> Suc (dib bs ?q)" using holed q pq by (simp add: holed_def)
    ultimately show "dib ?bs (next_bucket bs ?q) \<le> Suc (Suc (dib ?bs i))" using dq by (simp add: d)
  qed
qed

lemma backward_shift_ok:
  assumes "holed bs p" "sized bs"
  shows "\<exists>bs'. backward_shift bs p = Some bs' \<and> length bs' = length bs \<and> robin_hood bs' \<and> mset bs' = mset bs"
  using assms
proof (induction "out_of_place bs" arbitrary: bs p rule: less_induct)
  case less
  let ?q = "next_bucket bs p"
  have p: "p < length bs" "bs ! p = None" using less.prems(1) by (auto simp: holed_def)
  have q: "?q < length bs" by (rule next_bucket_less [OF p(1)])
  show ?case
  proof (cases "\<exists>e. bs ! ?q = Some e \<and> 0 < distance_from_ideal_bucket bs ?q (snd e)")
    case False
    have "backward_shift bs p = Some bs"
      using False by (subst backward_shift.simps) (auto simp: Let_def split: option.split)
    moreover have "dib bs ?q \<le> 1" using False by (cases "bs ! ?q") auto
    ultimately have stop: "backward_shift bs p = Some bs" "dib bs ?q \<le> 1" by simp_all
    have "robin_hood bs"
      unfolding robin_hood_def
    proof (intro allI impI)
      fix i assume "i < length bs"
      then show "dib bs (next_bucket bs i) \<le> Suc (dib bs i)"
        using less.prems(1) stop(2) by (cases "i = p") (auto simp: holed_def)
    qed
    with stop(1) show ?thesis by simp
  next
    case True
    then obtain e where e: "bs ! ?q = Some e" "0 < distance_from_ideal_bucket bs ?q (snd e)" by blast
    have pq: "p \<noteq> ?q" using e(1) p(2) by auto
    let ?bs = "bs[?q := None, p := Some e]"
    note nearer = distance_back [OF less.prems(2) p(1) e(2)]
    have dq: "dib bs ?q = Suc (Suc (distance_from_ideal_bucket bs p (snd e)))" using e(1) nearer by simp
    have "holed ?bs ?q" by (rule holed_shift [OF less.prems(1) e(1) dq])
    moreover have "out_of_place ?bs < out_of_place bs"
      using out_of_place_shift [OF p(1) q pq p(2) e(1)] dq by simp
    ultimately obtain bs' where ih: "backward_shift ?bs ?q = Some bs'" "length bs' = length bs" "robin_hood bs'"
        "mset bs' = mset ?bs" using less.hyps [of ?bs ?q] less.prems(2) by auto
    have "backward_shift bs p = Some bs'"
      using e ih(1) p by (subst backward_shift.simps) (simp add: Let_def)
    moreover have "mset ?bs = mset bs"
      using mset_swap [OF p(1) q] p(2) e(1) pq by (simp add: list_update_swap)
    ultimately show ?thesis using ih by simp
  qed
qed

section \<open>Searching an index\<close>

lemma seek_index_ok:
  assumes "q < length bs" "bs ! q = Some (old, th)" "b < length bs"
  shows "\<exists>p th'. seek_index bs old b = Some p \<and> p < length bs \<and> bs ! p = Some (old, th')"
  using assms(3)
proof (induction "(q + length bs - b) mod length bs" arbitrary: b rule: less_induct)
  case less
  show ?case
  proof (cases "\<exists>th'. bs ! b = Some (old, th')")
    case True
    then show ?thesis using less.prems by (subst seek_index.simps) auto
  next
    case False
    have nb: "next_bucket bs b < length bs" by (rule next_bucket_less [OF less.prems])
    have "b \<noteq> q" using False assms(2) by auto
    then have "(q + length bs - next_bucket bs b) mod length bs < (q + length bs - b) mod length bs"
      unfolding ahead_mod [OF assms(1) less.prems] ahead_mod [OF assms(1) nb]
      using assms(1) less.prems by (auto simp: next_bucket_def)
    from less.hyps [OF this nb] False show ?thesis by (subst seek_index.simps) (auto split: option.split)
  qed
qed

end
