(* ===== verification/Ordered_Dict.thy ===== *)
theory Ordered_Dict
  imports Pbs_Prelude
begin

text \<open>
  What the two services rely on of their ordered maps: the interface of a dictionary that keeps its entries
  in insertion order. \<open>good n t\<close> says that \<open>t\<close> is sound after \<open>n\<close> updates; the laws hold up to a number of
  updates, because an implementation may have a largest size. \<open>Ordered_Hash_Properties\<close> interprets it on the
  model of \<open>tsl::ordered_map\<close>.
\<close>

section \<open>The specification\<close>

definition keys_of :: "('k \<times> 'v) list \<Rightarrow> 'k set" where
  "keys_of es = fst ` set es"

lemma keys_of_simps [simp]:
  "keys_of [] = {}" "keys_of (e # es) = insert (fst e) (keys_of es)" "keys_of (es @ fs) = keys_of es \<union> keys_of fs"
  by (auto simp: keys_of_def)

lemma keys_nth: "i < length vs \<Longrightarrow> fst (vs ! i) \<in> keys_of vs"
  by (simp add: keys_of_def)

lemma map_of_eq_None: "map_of es k = None \<longleftrightarrow> k \<notin> keys_of es"
  by (simp add: keys_of_def map_of_eq_None_iff)

definition dict_insert :: "'k \<times> 'v \<Rightarrow> ('k \<times> 'v) list \<Rightarrow> ('k \<times> 'v) list" where
  "dict_insert e es = (if fst e \<in> keys_of es then es else es @ [e])"

definition dict_erase :: "'k \<Rightarrow> ('k \<times> 'v) list \<Rightarrow> ('k \<times> 'v) list" where
  "dict_erase k es = filter (\<lambda>e. fst e \<noteq> k) es"

lemma keys_of_insert [simp]: "keys_of (dict_insert e es) = insert (fst e) (keys_of es)"
  by (auto simp: dict_insert_def)

lemma keys_of_erase [simp]: "keys_of (dict_erase k es) = keys_of es - {k}"
  by (auto simp: dict_erase_def keys_of_def)

lemma distinct_insert: "distinct (map fst es) \<Longrightarrow> distinct (map fst (dict_insert e es))"
  by (auto simp: dict_insert_def keys_of_def)

lemma distinct_erase: "distinct (map fst es) \<Longrightarrow> distinct (map fst (dict_erase k es))"
  by (simp add: dict_erase_def distinct_map_filter)

text \<open>An inserted entry is found; the others keep their value.\<close>

lemma map_of_insert: "map_of (dict_insert (k, v) es) = (if k \<in> keys_of es then map_of es else (map_of es)(k \<mapsto> v))"
proof (cases "k \<in> keys_of es")
  case False
  then have "map_of es k = None" by (simp add: map_of_eq_None)
  then show ?thesis using False by (auto simp: dict_insert_def fun_eq_iff map_add_def split: option.split)
qed (simp add: dict_insert_def)

lemma map_of_erase: "map_of (dict_erase k es) = (map_of es)(k := None)"
  by (induction es) (auto simp: dict_erase_def fun_eq_iff)

lemma fold_dict_insert_keys: "keys_of (fold dict_insert ps es) = keys_of es \<union> keys_of ps"
  by (induction ps arbitrary: es) auto

lemma fold_dict_insert_fresh:
  assumes "distinct (map fst ps)" "keys_of ps \<inter> keys_of es = {}"
  shows "fold dict_insert ps es = es @ ps"
  using assms
proof (induction ps arbitrary: es)
  case (Cons p ps)
  then have "dict_insert p es = es @ [p]" by (simp add: dict_insert_def)
  moreover have "keys_of ps \<inter> keys_of (es @ [p]) = {}" using Cons.prems by (auto simp: keys_of_def)
  ultimately show ?case using Cons by simp
qed simp

datatype ('k, 'v) dict_op = Insert 'k 'v | Erase 'k | Clear

fun dict_step :: "('k, 'v) dict_op \<Rightarrow> ('k \<times> 'v) list \<Rightarrow> ('k \<times> 'v) list" where
  "dict_step (Insert k v) es = dict_insert (k, v) es"
| "dict_step (Erase k) es = dict_erase k es"
| "dict_step Clear es = []"

section \<open>The interface\<close>

locale ordered_dict =
  fixes good :: "nat \<Rightarrow> 't \<Rightarrow> bool" and entries :: "'t \<Rightarrow> ('k \<times> 'v) list" and limit :: nat
    and empty :: 't and ins :: "'k \<Rightarrow> 'v \<Rightarrow> 't \<Rightarrow> 't failure + (bool \<times> 't)"
    and del :: "'k \<Rightarrow> 't \<Rightarrow> 't failure + (nat \<times> 't)" and clr :: "'t \<Rightarrow> 't"
    and has :: "'k \<Rightarrow> 't \<Rightarrow> 't failure + bool" and look :: "'k \<Rightarrow> 't \<Rightarrow> 't failure + 'v"
  assumes good_empty: "good n empty" and entries_empty: "entries empty = []"
    and ins_law: "good n t \<Longrightarrow> n < limit \<Longrightarrow>
      \<exists>t'. ins k v t = Inr (k \<notin> keys_of (entries t), t') \<and> good (Suc n) t' \<and> entries t' = dict_insert (k, v) (entries t)"
    and del_law: "good n t \<Longrightarrow>
      \<exists>t'. del k t = Inr (if k \<in> keys_of (entries t) then 1 else 0, t') \<and> good (Suc n) t' \<and> entries t' = dict_erase k (entries t)"
    and clr_law: "good n t \<Longrightarrow> good (Suc n) (clr t) \<and> entries (clr t) = []"
    and has_law: "good n t \<Longrightarrow> has k t = Inr (k \<in> keys_of (entries t))"
    and look_law: "good n t \<Longrightarrow> look k t = (case map_of (entries t) k of None \<Rightarrow> Inl (Throws OutOfRange t) | Some v \<Rightarrow> Inr v)"
    and good_distinct: "good n t \<Longrightarrow> distinct (map fst (entries t))"
begin

fun step :: "('k, 'v) dict_op \<Rightarrow> 't \<Rightarrow> 't failure + 't" where
  "step (Insert k v) t = bind_ok (ins k v t) (\<lambda>(b, t'). Inr t')"
| "step (Erase k) t = bind_ok (del k t) (\<lambda>(n, t'). Inr t')"
| "step Clear t = Inr (clr t)"

lemma step_ok: "good n t \<Longrightarrow> n < limit \<Longrightarrow> \<exists>t'. step a t = Inr t' \<and> good (Suc n) t' \<and> entries t' = dict_step a (entries t)"
proof (cases a)
  case (Insert k v)
  then show "good n t \<Longrightarrow> n < limit \<Longrightarrow> ?thesis" using ins_law [of n t k v] by auto
next
  case (Erase k)
  then show "good n t \<Longrightarrow> n < limit \<Longrightarrow> ?thesis" using del_law [of n t k] by auto
qed (simp add: clr_law)

text \<open>Every sequence of updates within the limit runs and computes what the specification says.\<close>

lemma run_ok:
  assumes "good n t" "n + length ops \<le> limit"
  shows "\<exists>t'. fold_ok step ops t = Inr t' \<and> good (n + length ops) t' \<and> entries t' = fold dict_step ops (entries t)"
  using assms
proof (induction ops arbitrary: n t)
  case (Cons a ops)
  from step_ok [OF Cons.prems(1), of a] Cons.prems(2) obtain t1 where
    t1: "step a t = Inr t1" "good (Suc n) t1" "entries t1 = dict_step a (entries t)" by auto
  from Cons.IH [OF t1(2)] Cons.prems(2) t1 show ?case by auto
qed simp

lemma insert_all_ok:
  assumes "good n t" "n + length ps \<le> limit"
  shows "\<exists>t'. fold_ok (\<lambda>(k, v) t. bind_ok (ins k v t) (\<lambda>(b, t'). Inr t')) ps t = Inr t' \<and> good (n + length ps) t' \<and>
    entries t' = fold dict_insert ps (entries t)"
proof -
  have "fold_ok (\<lambda>(k, v) t. bind_ok (ins k v t) (\<lambda>(b, t'). Inr t')) ps t = fold_ok step (map (\<lambda>(k, v). Insert k v) ps) t"
    by (induction ps arbitrary: t) (auto simp: bind_ok_def split: sum.split)
  moreover have "fold dict_step (map (\<lambda>(k, v). Insert k v) ps) es = fold dict_insert ps es" for es
    by (induction ps arbitrary: es) auto
  ultimately show ?thesis using run_ok [OF assms(1), of "map (\<lambda>(k, v). Insert k v) ps"] assms(2) by simp
qed

lemma look_present: "good n t \<Longrightarrow> (k, v) \<in> set (entries t) \<Longrightarrow> look k t = Inr v"
  using good_distinct [of n t] by (simp add: look_law map_of_eq_Some_iff)

end

end
