(* ===== verification/Ordered_Hash_Table.thy ===== *)
theory Ordered_Hash_Table
  imports Ordered_Hash_Updates Ordered_Dict
begin

text \<open>
  The invariant of the whole table of \<open>Ordered_Hash\<close> and what lookup, insertion and erasure do under it, in
  terms of the list of values alone.
\<close>

section \<open>The invariant\<close>

definition slot :: "('k \<Rightarrow> u64) \<Rightarrow> ('k \<times> 'v) list \<Rightarrow> nat \<Rightarrow> bucket_entry" where
  "slot h vs i = Some (i, truncate_hash (h (fst (vs ! i))))"

definition filed :: "('k \<Rightarrow> u64) \<Rightarrow> ('k \<times> 'v) list \<Rightarrow> bucket_entry list \<Rightarrow> bool" where
  "filed h vs bs \<longleftrightarrow> length vs \<le> length bs \<and>
     mset bs = mset (map (slot h vs) [0..<length vs]) + replicate_mset (length bs - length vs) None"

definition oh_ok :: "('k \<Rightarrow> u64) \<Rightarrow> ('k, 'v) ordered_hash \<Rightarrow> bool" where
  "oh_ok h t \<longleftrightarrow> distinct (map fst (m_values t)) \<and> m_load_threshold t = load_threshold_for (length (m_buckets t)) \<and>
     (m_buckets t = [] \<and> m_values t = [] \<or>
      sized (m_buckets t) \<and> robin_hood (m_buckets t) \<and> filed h (m_values t) (m_buckets t))"

lemma oh_ok_empty [simp]: "oh_ok h empty_hash"
  by (simp add: oh_ok_def empty_hash_def)

lemma filed_set:
  assumes "filed h vs bs"
  shows "x \<in> set bs \<longleftrightarrow> (\<exists>i < length vs. x = slot h vs i) \<or> (x = None \<and> length vs < length bs)"
proof -
  have "set_mset (mset bs) = set_mset (mset (map (slot h vs) [0..<length vs]) + replicate_mset (length bs - length vs) None)"
    using assms by (simp add: filed_def)
  then show ?thesis by (auto simp: set_eq_iff split: if_splits)
qed

lemma filed_nth:
  assumes "filed h vs bs" "b < length bs" "bs ! b = Some e"
  shows "fst e < length vs" "snd e = truncate_hash (h (fst (vs ! fst e)))"
proof -
  have "Some e \<in> set bs" using nth_mem [OF assms(2)] assms(3) by simp
  then show "fst e < length vs" "snd e = truncate_hash (h (fst (vs ! fst e)))"
    unfolding filed_set [OF assms(1)] by (auto simp: slot_def)
qed

lemma filed_indexes_in: "filed h vs bs \<Longrightarrow> indexes_in bs (length vs)"
  using filed_nth(1) by (force simp: indexes_in_def)

lemma filed_slot:
  assumes "filed h vs bs" "i < length vs"
  obtains b where "b < length bs" "bs ! b = slot h vs i"
proof -
  have "slot h vs i \<in> set bs" using assms(2) unfolding filed_set [OF assms(1)] by auto
  then show thesis using that by (auto simp: in_set_conv_nth)
qed

lemma filed_hole:
  assumes "filed h vs bs" "length vs < length bs"
  obtains z where "z < length bs" "bs ! z = None"
proof -
  have "None \<in> set bs" using assms(2) unfolding filed_set [OF assms(1)] by simp
  then show thesis using that by (auto simp: in_set_conv_nth)
qed

text \<open>An index is in one bucket only.\<close>

lemma filed_unique:
  assumes "filed h vs bs" "b < length bs" "b' < length bs" "bs ! b = Some e" "bs ! b' = Some e'" "fst e = fst e'"
  shows "b = b'"
proof -
  have "e = e'" using filed_nth(2) [OF assms(1)] assms(2-6) by (simp add: prod_eq_iff)
  have "count (mset bs) (Some e) = count (mset (map (slot h vs) [0..<length vs])) (Some e)"
    using assms(1) by (simp add: filed_def)
  also have "\<dots> \<le> 1"
  proof -
    have "distinct (map (slot h vs) [0..<length vs])" by (simp add: distinct_map inj_on_def slot_def)
    then show ?thesis by (simp add: distinct_count_atmost_1)
  qed
  finally have c: "card {i. i < length bs \<and> Some e = bs ! i} \<le> 1"
    by (simp add: count_mset count_list_eq_length_filter length_filter_conv_card)
  have "card {b, b'} \<le> card {i. i < length bs \<and> Some e = bs ! i}"
    by (rule card_mono) (use assms(2-5) \<open>e = e'\<close> in auto)
  with c have "card {b, b'} \<le> 1" by linarith
  then show ?thesis by (cases "b = b'") auto
qed

lemma filed_matches:
  assumes "filed h vs bs"
  shows "(\<exists>b < length bs. matches bs vs k (h k) b) \<longleftrightarrow> k \<in> keys_of vs"
proof
  assume "\<exists>b < length bs. matches bs vs k (h k) b"
  then show "k \<in> keys_of vs" using filed_nth(1) [OF assms] by (fastforce simp: matches_def keys_of_def)
next
  assume "k \<in> keys_of vs"
  then obtain i where "i < length vs" "k = fst (vs ! i)" by (auto simp: keys_of_def in_set_conv_nth)
  moreover from filed_slot [OF assms this(1)] obtain b where "b < length bs" "bs ! b = slot h vs i" .
  ultimately show "\<exists>b < length bs. matches bs vs k (h k) b" by (auto simp: matches_def slot_def)
qed

section \<open>Lookup\<close>

lemma find_loop_empty: "find_loop [] vs k hash i j = Some (Inr None)"
  by (subst find_loop.simps) (simp add: bucket_at_def)

lemma find_key_ok:
  assumes "oh_ok h t"
  shows "\<exists>r. find_key h k t = (Inr r :: 's failure + _) \<and>
    (case r of None \<Rightarrow> k \<notin> keys_of (m_values t)
     | Some b \<Rightarrow> b < length (m_buckets t) \<and> (\<exists>ix < length (m_values t). m_buckets t ! b = Some (ix, truncate_hash (h k)) \<and>
         fst (m_values t ! ix) = k))"
proof (cases "m_buckets t = []")
  case True
  then show ?thesis using assms sized_pos
    by (intro exI [of _ None]) (auto simp: find_key_def find_loop_empty oh_ok_def keys_of_def sized_def)
next
  case False
  with assms have t: "sized (m_buckets t)" "robin_hood (m_buckets t)" "filed h (m_values t) (m_buckets t)"
    by (auto simp: oh_ok_def)
  from find_loop_complete [OF t(2,1) filed_indexes_in [OF t(3)], of k "h k"] obtain r where
    r: "find_loop (m_buckets t) (m_values t) k (h k) (bucket_for_hash (m_buckets t) (h k)) 0 = Some (Inr r :: 's failure + _)"
      "case r of Some b \<Rightarrow> b < length (m_buckets t) \<and> matches (m_buckets t) (m_values t) k (h k) b
       | None \<Rightarrow> \<forall>b < length (m_buckets t). \<not> matches (m_buckets t) (m_values t) k (h k) b" by blast
  show ?thesis
  proof (cases r)
    case None
    with r(2) filed_matches [OF t(3), of k] have "k \<notin> keys_of (m_values t)" by auto
    with r(1) None show ?thesis by (intro exI [of _ r]) (simp add: find_key_def)
  next
    case (Some b)
    with r(2) obtain ix where "b < length (m_buckets t)" "m_buckets t ! b = Some (ix, truncate_hash (h k))"
        "k = fst (m_values t ! ix)" by (auto simp: matches_def)
    moreover from filed_nth(1) [OF t(3) this(1,2)] have "ix < length (m_values t)" by simp
    ultimately show ?thesis using r(1) Some by (intro exI [of _ r]) (simp add: find_key_def)
  qed
qed

lemma oh_find_ok:
  assumes "oh_ok h t"
  shows "\<exists>r. oh_find h k t = (Inr r :: 's failure + _) \<and>
    (case r of None \<Rightarrow> k \<notin> keys_of (m_values t) | Some i \<Rightarrow> i < length (m_values t) \<and> fst (m_values t ! i) = k)"
proof -
  from find_key_ok [OF assms, of k] obtain r where
    "find_key h k t = (Inr r :: 's failure + _)" "case r of None \<Rightarrow> k \<notin> keys_of (m_values t)
     | Some b \<Rightarrow> b < length (m_buckets t) \<and> (\<exists>ix < length (m_values t). m_buckets t ! b = Some (ix, truncate_hash (h k)) \<and>
         fst (m_values t ! ix) = k)" by blast
  then show ?thesis by (cases r) (auto simp: oh_find_def)
qed


lemma oh_find_cases:
  assumes "oh_ok h t"
  obtains (absent) "oh_find h k t = (Inr None :: 's failure + _)" "k \<notin> keys_of (m_values t)"
  | (found) i where "oh_find h k t = (Inr (Some i) :: 's failure + _)" "i < length (m_values t)" "fst (m_values t ! i) = k"
      "k \<in> keys_of (m_values t)"
proof -
  from oh_find_ok [OF assms, of k] obtain r where
    r: "oh_find h k t = (Inr r :: 's failure + _)"
      "case r of None \<Rightarrow> k \<notin> keys_of (m_values t) | Some i \<Rightarrow> i < length (m_values t) \<and> fst (m_values t ! i) = k" by blast
  then show thesis using absent found keys_nth by (cases r) auto
qed

lemma oh_contains_ok: "oh_ok h t \<Longrightarrow> oh_contains h k t = (Inr (k \<in> keys_of (m_values t)) :: 'c failure + _)"
  by (erule oh_find_cases [of h t k, where ?'s = 'c]) (simp_all add: oh_contains_def)

lemma oh_count_ok: "oh_ok h t \<Longrightarrow> oh_count h k t = (Inr (if k \<in> keys_of (m_values t) then 1 else 0) :: 'c failure + _)"
  by (erule oh_find_cases [of h t k, where ?'s = 'c]) (simp_all add: oh_count_def)

lemma map_of_distinct_nth:
  "distinct (map fst vs) \<Longrightarrow> i < length vs \<Longrightarrow> map_of vs (fst (vs ! i)) = Some (snd (vs ! i))"
  by (simp add: map_of_eq_Some_iff)

lemma oh_at_ok:
  assumes "oh_ok h t"
  shows "oh_at h (s :: 'c) k t = (case map_of (m_values t) k of None \<Rightarrow> Inl (Throws OutOfRange s) | Some v \<Rightarrow> Inr v)"
  using assms
proof (cases rule: oh_find_cases [of h t k, where ?'s = 'c])
  case absent
  then show ?thesis by (simp add: oh_at_def keys_of_def flip: map_of_eq_None_iff)
next
  case (found i)
  have "map_of (m_values t) k = Some (snd (m_values t ! i))"
    using map_of_distinct_nth [OF _ found(2)] assms found(3) by (simp add: oh_ok_def)
  then show ?thesis using found by (simp add: oh_at_def vec_get_def)
qed

section \<open>Growing\<close>

lemma is_power_of_two_exp: "m < 64 \<Longrightarrow> is_power_of_two (2 ^ m)"
proof -
  assume m: "m < 64"
  have "(2 ^ m :: u64) AND (2 ^ m - 1) = 0"
    by (rule bit_word_eqI) (auto simp: bit_simps simp flip: mask_eq_exp_minus_1)
  moreover have "(2 ^ m :: u64) \<noteq> 0" using m by simp
  ultimately show ?thesis by (simp add: is_power_of_two_def)
qed

lemma round_up_exp: "m < 64 \<Longrightarrow> unat (round_up_to_power_of_two (of_nat (2 ^ m))) = 2 ^ m"
proof -
  assume m: "m < 64"
  have "unat (of_nat (2 ^ m) :: u64) = 2 ^ m" by (rule unat_of_nat_u64) (use m in \<open>rule power_strict_increasing; simp\<close>)
  with is_power_of_two_exp [OF m] show ?thesis by (simp add: round_up_to_power_of_two_def)
qed

lemma robin_hood_replicate: "robin_hood (replicate n None)"
  by (auto simp: robin_hood_def dib_def next_bucket_def)

definition live :: "bucket_entry list \<Rightarrow> bucket_entry list" where
  "live bs = filter (\<lambda>b. b \<noteq> None) bs"

lemma rehash_entries_ok:
  assumes "robin_hood bs" "sized bs" "length (live old) \<le> count (mset bs) None"
  shows "\<exists>bs'. fold_ok rehash_entry old bs = (Inr bs' :: 's failure + _) \<and> length bs' = length bs \<and> robin_hood bs' \<and>
    mset bs' + replicate_mset (length (live old)) None = mset bs + mset (live old)"
  using assms
proof (induction old arbitrary: bs)
  case (Cons b old)
  show ?case
  proof (cases b)
    case None
    with Cons.IH [OF Cons.prems(1,2)] Cons.prems(3) show ?thesis by (simp add: rehash_entry_def live_def)
  next
    case (Some e)
    have "Suc (length (live old)) \<le> count (mset bs) None" using Cons.prems(3) Some by (simp add: live_def)
    then have "0 < count (mset bs) None" by linarith
    then have "None \<in># mset bs" by (simp only: count_greater_zero_iff)
    then obtain z where z: "z < length bs" "bs ! z = None" by (auto simp: in_set_conv_nth)
    have "bucket_for_hash bs (ucast (snd e)) < length bs" by (rule bucket_for_hash_less [OF Cons.prems(2)])
    moreover have "placeable bs (bucket_for_hash bs (ucast (snd e))) 0 (snd e)"
      using calculation by (simp add: placeable_def)
    ultimately obtain bs1 g where bs1: "insert_index 0 bs True (bucket_for_hash bs (ucast (snd e))) 0 e = Some (bs1, g)"
        "length bs1 = length bs" "robin_hood bs1" "add_mset None (mset bs1) = add_mset (Some e) (mset bs)"
      using insert_index_ok [OF Cons.prems(1,2) _ _ z] by blast
    have sz: "sized bs1" using Cons.prems(2) bs1(2) by (simp add: sized_def)
    have "count (add_mset None (mset bs1)) None = count (add_mset (Some e) (mset bs)) None" using bs1(4) by simp
    then have "length (live old) \<le> count (mset bs1) None" using Cons.prems(3) Some by (simp add: live_def)
    from Cons.IH [OF bs1(3) sz this] obtain bs' where ih: "fold_ok rehash_entry old bs1 = (Inr bs' :: 's failure + _)"
        "length bs' = length bs1" "robin_hood bs'" "mset bs' + replicate_mset (length (live old)) None = mset bs1 + mset (live old)" by blast
    have "fold_ok rehash_entry (b # old) bs = (Inr bs' :: 's failure + _)" using ih(1) bs1(1) Some by (simp add: rehash_entry_def)
    moreover have "mset bs' + replicate_mset (length (live (b # old))) None = mset bs + mset (live (b # old))"
    proof -
      have "mset bs' + replicate_mset (length (live (b # old))) None = add_mset None (mset bs1 + mset (live old))"
        using ih(4) Some by (simp add: live_def)
      also have "\<dots> = add_mset (Some e) (mset bs) + mset (live old)" using bs1(4) by (metis union_mset_add_mset_left)
      finally show ?thesis using Some by (simp add: live_def)
    qed
    ultimately show ?thesis using ih(2,3) bs1(2) by auto
  qed
qed (simp add: live_def)

lemma live_filed:
  assumes "filed h vs bs"
  shows "mset (live bs) = mset (map (slot h vs) [0..<length vs])" "length (live bs) = length vs"
proof -
  have "mset (live bs) = filter_mset (\<lambda>b. b \<noteq> None) (mset bs)" by (simp add: live_def)
  also have "\<dots> = filter_mset (\<lambda>b. b \<noteq> None) (mset (map (slot h vs) [0..<length vs]))"
    using assms by (simp add: filed_def)
  also have "\<dots> = mset (map (slot h vs) [0..<length vs])"
    by (simp add: filter_mset_eq_conv slot_def)
  finally show "mset (live bs) = mset (map (slot h vs) [0..<length vs])" .
  then show "length (live bs) = length vs" by (metis length_map length_upt minus_nat.diff_0 size_mset)
qed

text \<open>An array of twice the buckets takes all entries.\<close>

lemma rehash_ok:
  assumes "oh_ok h t" "n = max 1 (length (m_buckets t) * 2)" "n \<le> 2 ^ 32"
  shows "\<exists>bs. rehash_impl n t = Inr (t\<lparr>m_buckets := bs, m_load_threshold := load_threshold_for n, m_grow_on_next_insert := False\<rparr>) \<and>
    length bs = n \<and> length (m_values t) < n \<and> sized bs \<and> robin_hood bs \<and> filed h (m_values t) bs"
proof -
  have "\<exists>m \<le> 32. n = 2 ^ m"
  proof (cases "m_buckets t = []")
    case True
    then show ?thesis using assms(2) by (intro exI [of _ 0]) simp
  next
    case False
    with assms(1) obtain m where m: "length (m_buckets t) = 2 ^ m" by (auto simp: oh_ok_def sized_def)
    have "n = 2 ^ Suc m" using assms(2) m by simp
    moreover have "Suc m \<le> 32"
    proof (rule ccontr)
      assume "\<not> Suc m \<le> 32"
      then have "(2 :: nat) ^ 33 \<le> 2 ^ Suc m" by (intro power_increasing) auto
      with calculation assms(3) show False by simp
    qed
    ultimately show ?thesis by blast
  qed
  then obtain m where m: "m \<le> 32" "n = 2 ^ m" by blast
  have pos: "0 < n" using m(2) by simp
  have ne: "length (m_buckets t) \<noteq> n" using assms(2) by auto
  have few: "length (m_values t) < n"
    using assms(1,2) by (auto simp: oh_ok_def filed_def)
  have lv: "mset (live (m_buckets t)) = mset (map (slot h (m_values t)) [0..<length (m_values t)])"
    "length (live (m_buckets t)) = length (m_values t)"
    using assms(1) live_filed [of h "m_values t" "m_buckets t"] by (auto simp: oh_ok_def live_def)
  have sz: "sized (replicate n None)" using m by (auto simp: sized_def)
  have c: "length (live (m_buckets t)) \<le> count (mset (replicate n None)) None" using few lv(2) by simp
  from rehash_entries_ok [OF robin_hood_replicate sz c] obtain bs where
    bs: "fold_ok rehash_entry (m_buckets t) (replicate n None) = (Inr bs :: ('a, 'b) ordered_hash failure + _)" "length bs = n"
      "robin_hood bs" "mset bs + replicate_mset (length (m_values t)) None = replicate_mset n None + mset (live (m_buckets t))"
    unfolding lv(2) by auto
  have "unat (round_up_to_power_of_two (of_nat n)) = n" using round_up_exp [of m] m by simp
  moreover have "int n \<le> max_bucket_count" using assms(3) by (simp add: max_bucket_count_def)
  ultimately have r: "rehash_impl n t = Inr (t\<lparr>m_buckets := bs, m_load_threshold := load_threshold_for n, m_grow_on_next_insert := False\<rparr>)"
    using pos ne bs(1) by (simp add: rehash_impl_def Let_def)
  have "replicate_mset n None = replicate_mset (length (m_values t)) None + replicate_mset (n - length (m_values t)) (None :: bucket_entry)"
    using few by (simp add: multiset_eq_iff)
  then have "filed h (m_values t) bs"
    using bs(2,4) few lv(1) unfolding filed_def by (simp add: ac_simps)
  moreover have "sized bs" using sz bs(2) by (simp add: sized_def)
  ultimately show ?thesis using r bs few by blast
qed

section \<open>Insertion\<close>

lemma filed_append:
  assumes "filed h vs bs" "length bs' = length bs" "length vs < length bs"
    and "add_mset None (mset bs') = add_mset (slot h (vs @ [(k, v)]) (length vs)) (mset bs)"
  shows "filed h (vs @ [(k, v)]) bs'"
proof -
  have "slot h (vs @ [(k, v)]) i = slot h vs i" if "i < length vs" for i
    using that by (simp add: slot_def nth_append)
  then have m: "map (slot h (vs @ [(k, v)])) [0..<length vs] = map (slot h vs) [0..<length vs]" by simp
  have "length bs - length vs = Suc (length bs - Suc (length vs))" using assms(3) by simp
  then have "add_mset None (mset bs') = add_mset (slot h (vs @ [(k, v)]) (length vs)) (mset (map (slot h vs) [0..<length vs]) +
      replicate_mset (Suc (length bs - Suc (length vs))) None)"
    using assms(1,4) by (simp add: filed_def)
  then have "mset bs' = add_mset (slot h (vs @ [(k, v)]) (length vs)) (mset (map (slot h vs) [0..<length vs]) +
      replicate_mset (length bs - Suc (length vs)) None)"
    by (simp add: add_mset_commute)
  then show ?thesis using assms(2,3) unfolding filed_def by (simp add: m del: mset_map)
qed

text \<open>Probing for a new key ends at a bucket the key may take; the table is grown first when it has to be.\<close>

lemma probe_new:
  assumes "oh_ok h t" "k \<notin> keys_of (m_values t)"
  shows "\<exists>b d. insert_probe (m_buckets t) (m_values t) k (h k) (bucket_for_hash (m_buckets t) (h k)) 0 =
      Some (Inr (Inr (b, d)) :: ('a, 'b) ordered_hash failure + _) \<and>
    (m_buckets t = [] \<or> b < length (m_buckets t) \<and> placeable (m_buckets t) b d (truncate_hash (h k)))"
proof (cases "m_buckets t = []")
  case True
  then show ?thesis by (subst insert_probe.simps) (simp add: bucket_at_def)
next
  case False
  with assms(1) have t: "robin_hood (m_buckets t)" "sized (m_buckets t)" "filed h (m_values t) (m_buckets t)" by (auto simp: oh_ok_def)
  from insert_probe_complete [OF t(1,2) filed_indexes_in [OF t(3)], of k "h k"] obtain r where
    r: "insert_probe (m_buckets t) (m_values t) k (h k) (bucket_for_hash (m_buckets t) (h k)) 0 = Some (Inr r :: ('a, 'b) ordered_hash failure + _)"
      "case r of Inl ix \<Rightarrow> \<exists>b < length (m_buckets t). (m_buckets t) ! b = Some (ix, (truncate_hash (h k))) \<and> k = fst ((m_values t) ! ix)
       | Inr (b, d) \<Rightarrow> b < length (m_buckets t) \<and> placeable (m_buckets t) b d (truncate_hash (h k)) \<and> (\<forall>b < length (m_buckets t). \<not> matches (m_buckets t) (m_values t) k (h k) b)" by blast
  show ?thesis
  proof (cases r)
    case (Inl ix)
    with r(2) have "\<exists>b < length (m_buckets t). matches (m_buckets t) (m_values t) k (h k) b" by (auto simp: matches_def)
    with filed_matches [OF t(3), of k] assms(2) show ?thesis by simp
  qed (use r in auto)
qed

lemma grown_for_new:
  assumes "oh_ok h t" "length (m_buckets t) \<le> 2 ^ 31"
    and fits: "m_buckets t = [] \<or> b < length (m_buckets t) \<and> placeable (m_buckets t) b d (truncate_hash (h k))"
  shows "\<exists>grown t1 b1 d1. grow_on_high_load t = Inr (grown, t1) \<and>
      (if grown then (bucket_for_hash (m_buckets t1) (h k), 0) else (b, d)) = (b1, d1) \<and> m_values t1 = (m_values t) \<and>
      m_load_threshold t1 = load_threshold_for (length (m_buckets t1)) \<and> length (m_values t) < length (m_buckets t1) \<and> sized (m_buckets t1) \<and>
      robin_hood (m_buckets t1) \<and> filed h (m_values t) (m_buckets t1) \<and> b1 < length (m_buckets t1) \<and> placeable (m_buckets t1) b1 d1 (truncate_hash (h k)) \<and>
      (length (m_buckets t1) = length (m_buckets t) \<or> length (m_buckets t1) = max 1 (length (m_buckets t) * 2) \<and>
        (m_grow_on_next_insert t \<or> m_load_threshold t \<le> length (m_values t))) \<and> \<not> m_grow_on_next_insert t1"
proof (cases "m_grow_on_next_insert t \<or> m_load_threshold t \<le> length (m_values t)")
  case True
  let ?n = "max 1 (length (m_buckets t) * 2)"
  from rehash_ok [OF assms(1) refl] assms(2) obtain bs where
    bs: "rehash_impl ?n t = Inr (t\<lparr>m_buckets := bs, m_load_threshold := load_threshold_for ?n, m_grow_on_next_insert := False\<rparr>)"
      "length bs = ?n" "length (m_values t) < ?n" "sized bs" "robin_hood bs" "filed h (m_values t) bs" by auto
  have "grow_on_high_load t = Inr (True, t\<lparr>m_buckets := bs, m_load_threshold := load_threshold_for ?n, m_grow_on_next_insert := False\<rparr>)"
    using True bs(1) by (simp add: grow_on_high_load_def)
  moreover have "bucket_for_hash bs (h k) < length bs" by (rule bucket_for_hash_less [OF bs(4)])
  moreover from this have "placeable bs (bucket_for_hash bs (h k)) 0 (truncate_hash (h k))"
    by (simp add: placeable_def bucket_for_truncated [OF bs(4)])
  ultimately show ?thesis
    using True bs(2-6) by (intro exI [of _ True] exI [of _ "t\<lparr>m_buckets := bs, m_load_threshold := load_threshold_for ?n,
      m_grow_on_next_insert := False\<rparr>"] exI [of _ "bucket_for_hash bs (h k)"] exI [of _ 0] conjI) simp_all
next
  case False
  then have "grow_on_high_load t = Inr (False, t)" by (simp add: grow_on_high_load_def)
  moreover have ne: "(m_buckets t) \<noteq> []" using False assms(1) by (auto simp: oh_ok_def load_threshold_for_def)
  moreover have "length (m_values t) < length (m_buckets t)" using False assms(1) by (auto simp: oh_ok_def load_threshold_for_def)
  ultimately show ?thesis using False assms(1) fits by (auto simp: oh_ok_def)
qed

text \<open>A new key goes to the end of the values; an old one leaves the table alone.\<close>

lemma insert_impl_new:
  assumes "oh_ok h t" "k \<notin> keys_of (m_values t)" "length (m_buckets t) \<le> 2 ^ 31"
  shows "\<exists>t'. insert_impl h k v t = Inr ((length (m_values t), True), t') \<and> oh_ok h t' \<and> m_values t' = m_values t @ [(k, v)] \<and>
    (length (m_buckets t') = length (m_buckets t) \<or> length (m_buckets t') = max 1 (length (m_buckets t) * 2) \<and>
       (m_grow_on_next_insert t \<or> m_load_threshold t \<le> length (m_values t))) \<and>
    (m_grow_on_next_insert t' \<longrightarrow> high_load (Suc (length (m_values t))) (length (m_buckets t')))"
proof -
  let ?bs = "m_buckets t" and ?vs = "m_values t" and ?th = "truncate_hash (h k)"
  obtain b d where probe: "insert_probe ?bs ?vs k (h k) (bucket_for_hash ?bs (h k)) 0 = Some (Inr (Inr (b, d)) :: ('a, 'b) ordered_hash failure + _)"
      "?bs = [] \<or> b < length ?bs \<and> placeable ?bs b d ?th"
    using probe_new [OF assms(1,2)] by blast
  have size: "\<not> max_size \<le> int (length ?vs)" using assms(1,3) by (auto simp: oh_ok_def filed_def max_size_def)
  obtain grown t1 b1 d1 where t1: "grow_on_high_load t = Inr (grown, t1)"
      "(if grown then (bucket_for_hash (m_buckets t1) (h k), 0) else (b, d)) = (b1, d1)" "m_values t1 = ?vs"
      "m_load_threshold t1 = load_threshold_for (length (m_buckets t1))" "length ?vs < length (m_buckets t1)" "sized (m_buckets t1)"
      "robin_hood (m_buckets t1)" "filed h ?vs (m_buckets t1)" "b1 < length (m_buckets t1)" "placeable (m_buckets t1) b1 d1 ?th"
      "length (m_buckets t1) = length ?bs \<or> length (m_buckets t1) = max 1 (length ?bs * 2) \<and>
        (m_grow_on_next_insert t \<or> m_load_threshold t \<le> length ?vs)" "\<not> m_grow_on_next_insert t1"
    using grown_for_new [OF assms(1,3) probe(2)] by blast
  from filed_hole [OF t1(8,5)] obtain z where z: "z < length (m_buckets t1)" "m_buckets t1 ! z = None" .
  have pl: "placeable (m_buckets t1) b1 d1 (snd (length ?vs, ?th))" using t1(10) by simp
  from insert_index_ok [OF t1(7,6,9) pl z] obtain bs' g where ins:
    "insert_index (Suc (length ?vs)) (m_buckets t1) (m_grow_on_next_insert t1) b1 d1 (length ?vs, ?th) = Some (bs', g)"
    "length bs' = length (m_buckets t1)" "robin_hood bs'" "add_mset None (mset bs') = add_mset (Some (length ?vs, ?th)) (mset (m_buckets t1))"
    by blast
  define t' where "t' = t1\<lparr>m_buckets := bs', m_values := ?vs @ [(k, v)], m_grow_on_next_insert := g\<rparr>"
  have "insert_impl h k v t = Inr ((length ?vs, True), t')"
    using probe(1) size t1(1-3) ins(1) by (simp add: insert_impl_def t'_def)
  moreover have "slot h (?vs @ [(k, v)]) (length ?vs) = Some (length ?vs, ?th)" by (simp add: slot_def)
  then have "filed h (?vs @ [(k, v)]) bs'" using filed_append [OF t1(8) ins(2) t1(5)] ins(4) by simp
  then have "oh_ok h t'"
    using assms(1,2) ins(2,3) t1(4,6) by (auto simp: oh_ok_def t'_def sized_def keys_of_def)
  moreover have "g \<longrightarrow> high_load (Suc (length ?vs)) (length (m_buckets t1))"
    using insert_index_grow [OF ins(1)] t1(12) by simp
  ultimately show ?thesis using t1(11) ins(2) by (auto simp: t'_def)
qed

lemma insert_impl_old:
  assumes "oh_ok h t" "k \<in> keys_of (m_values t)"
  shows "\<exists>ix < length (m_values t). fst (m_values t ! ix) = k \<and> insert_impl h k v t = Inr ((ix, False), t)"
proof -
  let ?bs = "m_buckets t" and ?vs = "m_values t" and ?th = "truncate_hash (h k)"
  have t: "robin_hood ?bs" "sized ?bs" "filed h ?vs ?bs" using assms by (auto simp: oh_ok_def keys_of_def)
  from insert_probe_complete [OF t(1,2) filed_indexes_in [OF t(3)], of k "h k"] obtain r where
    r: "insert_probe ?bs ?vs k (h k) (bucket_for_hash ?bs (h k)) 0 = Some (Inr r :: ('a, 'b) ordered_hash failure + _)"
      "case r of Inl ix \<Rightarrow> \<exists>b < length ?bs. ?bs ! b = Some (ix, ?th) \<and> k = fst (?vs ! ix)
       | Inr (b, d) \<Rightarrow> b < length ?bs \<and> placeable ?bs b d ?th \<and> (\<forall>b < length ?bs. \<not> matches ?bs ?vs k (h k) b)" by blast
  from filed_matches [OF t(3), of k] assms(2) obtain b where b: "b < length ?bs" "matches ?bs ?vs k (h k) b" by auto
  with r(2) obtain ix where ix: "r = Inl ix" by (cases r) auto
  with r(2) obtain b' where b': "b' < length ?bs" "?bs ! b' = Some (ix, ?th)" "k = fst (?vs ! ix)" by auto
  from filed_nth(1) [OF t(3) b'(1,2)] have "ix < length ?vs" by simp
  with r(1) ix b'(3) show ?thesis by (simp add: insert_impl_def)
qed

lemma oh_insert_ok:
  assumes "oh_ok h t" "length (m_buckets t) \<le> 2 ^ 31"
  shows "\<exists>t'. oh_insert h k v t = Inr (k \<notin> keys_of (m_values t), t') \<and> oh_ok h t' \<and>
    m_values t' = (if k \<in> keys_of (m_values t) then m_values t else m_values t @ [(k, v)]) \<and>
    (length (m_buckets t') = length (m_buckets t) \<or> length (m_buckets t') = max 1 (length (m_buckets t) * 2) \<and>
       (m_grow_on_next_insert t \<or> m_load_threshold t \<le> length (m_values t))) \<and>
    (t' = t \<or> (m_grow_on_next_insert t' \<longrightarrow> high_load (Suc (length (m_values t))) (length (m_buckets t'))))"
proof (cases "k \<in> keys_of (m_values t)")
  case True
  with insert_impl_old [OF assms(1) True, of v] assms(1) show ?thesis by (auto simp: oh_insert_def)
next
  case False
  with insert_impl_new [OF assms(1) False assms(2), of v] show ?thesis by (auto simp: oh_insert_def)
qed

end
