(* ===== verification/Ordered_Hash_Erase.thy ===== *)
theory Ordered_Hash_Erase
  imports Ordered_Hash_Table
begin

text \<open>
  Erasure from the table of \<open>Ordered_Hash\<close>: the indexes behind the erased value are lowered, the bucket is
  cleared and the entries behind it move back; the invariant is kept.
\<close>

section \<open>Lowering the indexes\<close>

definition lower_index :: "nat \<Rightarrow> nat \<Rightarrow> bucket_entry \<Rightarrow> bucket_entry" where
  "lower_index ix m b = map_option (\<lambda>(j, th). (if ix < j \<and> j \<le> m then j - 1 else j, th)) b"

definition drop_value :: "nat \<Rightarrow> ('k \<times> 'v) list \<Rightarrow> ('k \<times> 'v) list" where
  "drop_value ix vs = take ix vs @ drop (Suc ix) vs"

lemma length_drop_value [simp]: "ix < length vs \<Longrightarrow> length (drop_value ix vs) = length vs - 1"
  by (auto simp: drop_value_def)

lemma nth_drop_value:
  "ix < length vs \<Longrightarrow> i < length vs - 1 \<Longrightarrow> drop_value ix vs ! i = vs ! (if i < ix then i else Suc i)"
  by (auto simp: drop_value_def nth_append)

lemma lower_index_start [simp]: "lower_index ix ix b = b"
  by (cases b) (auto simp: lower_index_def)

lemma lower_index_None [simp]: "lower_index ix m b = None \<longleftrightarrow> b = None"
  by (simp add: lower_index_def)

lemma shift_indexes_down_ok:
  assumes "filed h vs bs" "sized bs" "ix < length vs" "ix \<le> m" "m \<le> length vs - 1"
  shows "fold_ok (\<lambda>iv bs.
       bind_ok (returns (map_option Inr (seek_index bs (iv + 1) (bucket_for_hash bs (h (fst (drop_value ix vs ! iv))))))) (\<lambda>b.
         Inr (bs[b := set_index iv (bs ! b)]))) [ix..<m] bs = (Inr (map (lower_index ix m) bs) :: 's failure + _)"
  using assms(4,5)
proof (induction m rule: nat_induct_at_least)
  case base
  have "lower_index ix ix = id" by (simp add: fun_eq_iff)
  then show ?case by simp
next
  case (Suc m)
  let ?bs = "map (lower_index ix m) bs"
  let ?start = "bucket_for_hash ?bs (h (fst (drop_value ix vs ! m)))"
  have sz: "sized ?bs" using assms(2) by (simp add: sized_def)
  have "Suc m < length vs" using Suc.prems assms(3) by simp
  from filed_slot [OF assms(1) this] obtain q where q: "q < length bs" "bs ! q = slot h vs (Suc m)" .
  have q': "?bs ! q = Some (Suc m, truncate_hash (h (fst (vs ! Suc m))))" using q by (simp add: slot_def lower_index_def)
  have start: "?start < length ?bs" by (rule bucket_for_hash_less [OF sz])
  from seek_index_ok [of q ?bs, OF _ q' start] q(1) obtain p th where
    p: "seek_index ?bs (Suc m) ?start = Some p" "p < length bs" "?bs ! p = Some (Suc m, th)" by auto
  then have bp: "bs ! p = Some (Suc m, th)"
    using Suc.hyps by (cases "bs ! p") (auto simp: lower_index_def split: if_splits)
  have others: "j \<noteq> Suc m" if "i < length bs" "i \<noteq> p" "bs ! i = Some (j, th')" for i j th'
    using filed_unique [OF assms(1) that(1) p(2) that(3) bp] that(2) by auto
  have "?bs[p := set_index m (?bs ! p)] = map (lower_index ix (Suc m)) bs"
  proof (rule nth_equalityI)
    fix i assume "i < length (?bs[p := set_index m (?bs ! p)])"
    then have i: "i < length bs" by simp
    show "?bs[p := set_index m (?bs ! p)] ! i = map (lower_index ix (Suc m)) bs ! i"
    proof (cases "i = p")
      case True
      then show ?thesis using p(2) bp Suc.hyps by (simp add: lower_index_def set_index_def)
    next
      case False
      then show ?thesis using i others [OF i False] by (cases "bs ! i") (auto simp: lower_index_def)
    qed
  qed simp
  then show ?case using Suc p(1) by (simp add: fold_ok_append)
qed

lemma lower_slot:
  assumes "ix < length vs" "i < length vs" "i \<noteq> ix"
  shows "lower_index ix (length vs - 1) (slot h vs i) = slot h (drop_value ix vs) (if i < ix then i else i - 1)"
  using assms by (auto simp: lower_index_def slot_def nth_drop_value)

lemma filed_drop_value:
  assumes "filed h vs bs" "b < length bs" "bs ! b = slot h vs ix" "ix < length vs"
  shows "filed h (drop_value ix vs) ((map (lower_index ix (length vs - 1)) bs)[b := None])"
proof -
  let ?f = "lower_index ix (length vs - 1)" and ?n = "length vs - 1"
  have upt: "[0..<length vs] = [0..<ix] @ ix # [Suc ix..<length vs]"
    using assms(4) upt_add_eq_append [of 0 ix "length vs - ix"] by (simp add: upt_conv_Cons)
  have m1: "map (?f \<circ> slot h vs) [0..<ix] = map (slot h (drop_value ix vs)) [0..<ix]"
    using lower_slot [OF assms(4), of _ h] assms(4) by simp
  have m2: "map (?f \<circ> slot h vs) [Suc ix..<length vs] = map (slot h (drop_value ix vs)) [ix..<?n]"
  proof (rule nth_equalityI)
    fix i assume "i < length (map (?f \<circ> slot h vs) [Suc ix..<length vs])"
    then show "map (?f \<circ> slot h vs) [Suc ix..<length vs] ! i = map (slot h (drop_value ix vs)) [ix..<?n] ! i"
      using lower_slot [OF assms(4), of "Suc ix + i" h] by simp
  qed (use assms(4) in simp)
  have upt': "[0..<?n] = [0..<ix] @ [ix..<?n]" using assms(4) upt_add_eq_append [of 0 ix "?n - ix"] by simp
  have "mset (map ?f bs) = image_mset ?f (mset bs)" by simp
  also have "\<dots> = image_mset ?f (mset (map (slot h vs) [0..<length vs]) + replicate_mset (length bs - length vs) None)"
    using assms(1) by (simp only: filed_def)
  also have "\<dots> = mset (map (?f \<circ> slot h vs) [0..<length vs]) + replicate_mset (length bs - length vs) None"
    by (simp add: multiset.map_comp lower_index_def)
  also have "\<dots> = add_mset (?f (slot h vs ix)) (mset (map (slot h (drop_value ix vs)) [0..<?n]) + replicate_mset (length bs - length vs) None)"
    unfolding upt upt' map_append list.map m1 m2 by simp
  finally have "mset ((map ?f bs)[b := None]) =
      add_mset None (mset (map (slot h (drop_value ix vs)) [0..<?n]) + replicate_mset (length bs - length vs) None)"
    using assms(2,3) by (simp add: mset_update)
  moreover have "length bs - ?n = Suc (length bs - length vs)" using assms(1,4) by (auto simp: filed_def)
  ultimately show ?thesis using assms(1,4) unfolding filed_def by simp
qed

lemma robin_hood_map_lower: "robin_hood bs \<Longrightarrow> robin_hood (map (lower_index ix m) bs)"
proof -
  assume r: "robin_hood bs"
  have l: "length (map (lower_index ix m) bs) = length bs" by simp
  have "dib (map (lower_index ix m) bs) i = dib bs i" if "i < length bs" for i
    using that by (cases "bs ! i") (auto simp: dib_def lower_index_def same_length_only(2) [OF l])
  with r next_bucket_less [of _ bs] show ?thesis by (simp add: robin_hood_def same_length_only(1) [OF l])
qed

section \<open>Erasing\<close>

lemma drop_value_filter:
  assumes "distinct (map fst vs)" "ix < length vs"
  shows "drop_value ix vs = filter (\<lambda>p. fst p \<noteq> fst (vs ! ix)) vs"
proof -
  have vs: "vs = take ix vs @ vs ! ix # drop (Suc ix) vs" using assms(2) by (simp add: id_take_nth_drop)
  have "distinct (map fst (take ix vs) @ fst (vs ! ix) # map fst (drop (Suc ix) vs))"
    using assms(1) by (subst (asm) vs) simp
  then have "fst (vs ! ix) \<notin> fst ` set (take ix vs)" "fst (vs ! ix) \<notin> fst ` set (drop (Suc ix) vs)" by auto
  then have "filter (\<lambda>p. fst p \<noteq> fst (vs ! ix)) (take ix vs) = take ix vs"
    "filter (\<lambda>p. fst p \<noteq> fst (vs ! ix)) (drop (Suc ix) vs) = drop (Suc ix) vs"
    unfolding filter_id_conv by (metis imageI)+
  then show ?thesis by (subst (3) vs) (simp add: drop_value_def)
qed

lemma erase_value_from_bucket_ok:
  assumes "oh_ok h t" "b < length (m_buckets t)" "m_buckets t ! b = Some (ix, th)"
  shows "\<exists>t'. erase_value_from_bucket h b t = (Inr t' :: 's failure + _) \<and> oh_ok h t' \<and> m_values t' = drop_value ix (m_values t) \<and>
    length (m_buckets t') = length (m_buckets t) \<and> m_grow_on_next_insert t' = m_grow_on_next_insert t"
proof -
  let ?bs = "m_buckets t" and ?vs = "m_values t"
  have t: "sized ?bs" "robin_hood ?bs" "filed h ?vs ?bs" "distinct (map fst ?vs)" using assms(1,2) by (auto simp: oh_ok_def)
  have ix: "ix < length ?vs" "?bs ! b = slot h ?vs ix" using filed_nth [OF t(3) assms(2,3)] assms(3) by (simp_all add: slot_def)
  let ?low = "map (lower_index ix (length ?vs - 1)) ?bs"
  have low: "(if ix \<noteq> length (drop_value ix ?vs) then shift_indexes_down h (drop_value ix ?vs) ix ?bs else Inr ?bs) = (Inr ?low :: 's failure + _)"
  proof (cases "ix = length ?vs - 1")
    case True
    have "lower_index ix ix = id" by (simp add: fun_eq_iff)
    with True ix show ?thesis by simp
  next
    case False
    have "ix \<le> length ?vs - 1" using ix(1) by simp
    from shift_indexes_down_ok [OF t(3,1) ix(1) this order.refl] False ix(1) show ?thesis by (simp add: shift_indexes_down_def)
  qed
  have sz: "sized ?low" using t(1) by (simp add: sized_def)
  have "holed (?low[b := None]) b" using holed_clear [OF robin_hood_map_lower [OF t(2)]] assms(2) by simp
  from backward_shift_ok [OF this] sz obtain bs' where
    bs': "backward_shift (?low[b := None]) b = Some bs'" "length bs' = length ?bs" "robin_hood bs'" "mset bs' = mset (?low[b := None])" by auto
  define t' where "t' = t\<lparr>m_buckets := bs', m_values := drop_value ix ?vs\<rparr>"
  have "erase_value_from_bucket h b t = (Inr t' :: 's failure + _)"
    using low bs'(1) ix(1) assms(3) by (simp add: erase_value_from_bucket_def t'_def Let_def flip: drop_value_def)
  moreover have "filed h (drop_value ix ?vs) bs'"
    using filed_drop_value [OF t(3) assms(2) ix(2,1)] bs'(2,4) by (simp add: filed_def)
  moreover have "distinct (map fst (drop_value ix ?vs))"
    using distinct_map_filter [OF t(4)] drop_value_filter [OF t(4) ix(1)] by simp
  ultimately show ?thesis using assms(1) t(1) bs'(2,3) by (auto simp: oh_ok_def t'_def sized_def)
qed

lemma oh_erase_ok:
  assumes "oh_ok h t"
  shows "\<exists>t'. oh_erase h k t = Inr (if k \<in> keys_of (m_values t) then 1 else 0, t') \<and> oh_ok h t' \<and>
    m_values t' = filter (\<lambda>p. fst p \<noteq> k) (m_values t) \<and> length (m_buckets t') = length (m_buckets t) \<and>
    m_grow_on_next_insert t' = m_grow_on_next_insert t"
proof -
  from find_key_ok [OF assms, of k] obtain r where
    r: "find_key h k t = (Inr r :: ('a, 'b) ordered_hash failure + _)"
      "case r of None \<Rightarrow> k \<notin> keys_of (m_values t)
     | Some b \<Rightarrow> b < length (m_buckets t) \<and> (\<exists>ix < length (m_values t). m_buckets t ! b = Some (ix, truncate_hash (h k)) \<and>
         fst (m_values t ! ix) = k)" by blast
  show ?thesis
  proof (cases r)
    case None
    then have "filter (\<lambda>p. fst p \<noteq> k) (m_values t) = m_values t" using r(2) by (auto simp: filter_id_conv keys_of_def)
    then show ?thesis using r None assms by (simp add: oh_erase_def)
  next
    case (Some b)
    with r(2) obtain ix where ix: "b < length (m_buckets t)" "ix < length (m_values t)"
        "m_buckets t ! b = Some (ix, truncate_hash (h k))" "fst (m_values t ! ix) = k" by auto
    from erase_value_from_bucket_ok [OF assms ix(1,3)] obtain t' where
      t': "erase_value_from_bucket h b t = (Inr t' :: ('a, 'b) ordered_hash failure + _)" "oh_ok h t'"
        "m_values t' = drop_value ix (m_values t)" "length (m_buckets t') = length (m_buckets t)"
        "m_grow_on_next_insert t' = m_grow_on_next_insert t" by blast
    have "k \<in> keys_of (m_values t)" using keys_nth [OF ix(2)] ix(4) by simp
    moreover have "drop_value ix (m_values t) = filter (\<lambda>p. fst p \<noteq> k) (m_values t)"
      using drop_value_filter [OF _ ix(2)] assms ix(4) by (simp add: oh_ok_def)
    ultimately show ?thesis using r(1) Some t' by (simp add: oh_erase_def)
  qed
qed

end
