(* ===== verification/Ordered_Hash_Properties.thy ===== *)
theory Ordered_Hash_Properties
  imports Ordered_Hash_Erase
begin

text \<open>
  The ordered hash table implements the interface \<open>ordered_dict\<close>: the interpretation, the refinement of
  every sequence of updates, and the two operations of \<open>tsl/ordered_hash.h\<close> that break the table.
\<close>

section \<open>The interface\<close>

text \<open>
  A table after \<open>n\<close> updates: the number of buckets is bounded by \<open>n\<close>, so the 32-bit hashes and indexes
  suffice for \<open>2 ^ 27\<close> updates.
\<close>

definition oh_good :: "('k \<Rightarrow> u64) \<Rightarrow> nat \<Rightarrow> ('k, 'v) ordered_hash \<Rightarrow> bool" where
  "oh_good h n t \<longleftrightarrow> oh_ok h t \<and> length (m_values t) \<le> n \<and> length (m_buckets t) \<le> 14 * n \<and>
     (m_grow_on_next_insert t \<longrightarrow> length (m_buckets t) \<le> 7 * n)"

definition oh_limit :: nat where "oh_limit = 2 ^ 27"

lemma oh_good_empty: "oh_good h n empty_hash"
  by (simp add: oh_good_def) (simp add: empty_hash_def)

lemma high_load_bound: "high_load s b \<Longrightarrow> b \<le> 7 * s"
  by (simp add: high_load_def)

lemma oh_insert_good:
  assumes "oh_good h n t" "n < oh_limit"
  shows "\<exists>t'. oh_insert h k v t = Inr (k \<notin> keys_of (m_values t), t') \<and> oh_good h (Suc n) t' \<and>
    m_values t' = dict_insert (k, v) (m_values t)"
proof -
  have b: "length (m_buckets t) \<le> 2 ^ 31" using assms by (simp add: oh_good_def oh_limit_def)
  have ok: "oh_ok h t" using assms(1) by (simp add: oh_good_def)
  from oh_insert_ok [OF ok b, of k v] obtain t' where
    t': "oh_insert h k v t = Inr (k \<notin> keys_of (m_values t), t')" "oh_ok h t'"
      "m_values t' = (if k \<in> keys_of (m_values t) then m_values t else m_values t @ [(k, v)])"
      "length (m_buckets t') = length (m_buckets t) \<or> length (m_buckets t') = max 1 (length (m_buckets t) * 2) \<and>
         (m_grow_on_next_insert t \<or> m_load_threshold t \<le> length (m_values t))"
      "t' = t \<or> (m_grow_on_next_insert t' \<longrightarrow> high_load (Suc (length (m_values t))) (length (m_buckets t')))" by blast
  have n: "length (m_values t) \<le> n" "length (m_buckets t) \<le> 14 * n" "m_grow_on_next_insert t \<longrightarrow> length (m_buckets t) \<le> 7 * n"
    "m_load_threshold t = 3 * length (m_buckets t) div 4"
    using assms(1) by (simp_all add: oh_good_def oh_ok_def load_threshold_for_def)
  have "length (m_buckets t') \<le> 14 * Suc n" using t'(4) n by auto
  moreover have "length (m_buckets t') \<le> 7 * Suc n" if "m_grow_on_next_insert t'"
    using t'(5)
  proof
    assume "m_grow_on_next_insert t' \<longrightarrow> high_load (Suc (length (m_values t))) (length (m_buckets t'))"
    from high_load_bound [OF mp [OF this that]] n(1) show ?thesis by simp
  qed (use n that in simp)
  moreover have "length (m_values t') \<le> Suc n" using t'(3) n(1) by simp
  ultimately show ?thesis using t'(1-3) by (auto simp: oh_good_def dict_insert_def)
qed

lemma oh_erase_good:
  assumes "oh_good h n t"
  shows "\<exists>t'. oh_erase h k t = Inr (if k \<in> keys_of (m_values t) then 1 else 0, t') \<and> oh_good h (Suc n) t' \<and>
    m_values t' = dict_erase k (m_values t)"
proof -
  have ok: "oh_ok h t" using assms by (simp add: oh_good_def)
  have "length (filter P (m_values t)) \<le> Suc n" for P
    using order_trans [OF length_filter_le [of P "m_values t"]] assms by (simp add: oh_good_def le_SucI)
  moreover from oh_erase_ok [OF ok, of k] obtain t' where
    "oh_erase h k t = Inr (if k \<in> keys_of (m_values t) then 1 else 0, t')" "oh_ok h t'"
    "m_values t' = filter (\<lambda>p. fst p \<noteq> k) (m_values t)" "length (m_buckets t') = length (m_buckets t)"
    "m_grow_on_next_insert t' = m_grow_on_next_insert t" by blast
  ultimately show ?thesis using assms by (auto simp: oh_good_def dict_erase_def)
qed

lemma robin_hood_clear: "robin_hood (map (\<lambda>_. None) bs)"
  using robin_hood_replicate [of "length bs"] by (simp add: map_replicate_const)

lemma oh_clear_good:
  assumes "oh_good h n t"
  shows "oh_good h (Suc n) (oh_clear t) \<and> m_values (oh_clear t) = []"
proof -
  have "filed h [] (map (\<lambda>_. None) (m_buckets t))" by (simp add: filed_def map_replicate_const)
  moreover have "sized (map (\<lambda>_. None) (m_buckets t)) = sized (m_buckets t)" by (simp add: sized_def)
  ultimately have "oh_ok h (oh_clear t)"
    using assms robin_hood_clear [of "m_buckets t"] by (auto simp: oh_good_def oh_ok_def oh_clear_def)
  with assms show ?thesis by (simp add: oh_good_def) (simp add: oh_clear_def)
qed

interpretation omap: ordered_dict "oh_good h" m_values oh_limit empty_hash "oh_insert h" "oh_erase h" oh_clear
    "oh_contains h" "\<lambda>k t. oh_at h t k t" for h :: "'k \<Rightarrow> u64"
proof (unfold_locales, goal_cases)
  case 1 show ?case by (rule oh_good_empty)
next
  case 2 show ?case by (simp add: empty_hash_def)
next
  case (3 n t k v) then show ?case by (rule oh_insert_good)
next
  case (4 n t k) then show ?case by (rule oh_erase_good)
next
  case (5 n t) then show ?case by (rule oh_clear_good)
next
  case (6 n t k) then show ?case by (simp add: oh_good_def oh_contains_ok)
next
  case (7 n t k) then show ?case by (simp add: oh_good_def oh_at_ok)
next
  case (8 n t) then show ?case by (simp add: oh_good_def oh_ok_def)
qed

section \<open>Properties\<close>

text \<open>One update of the table, and a run of updates.\<close>

fun oh_step :: "('k \<Rightarrow> u64) \<Rightarrow> ('k, 'v) dict_op \<Rightarrow> ('k, 'v) ordered_hash \<Rightarrow> ('k, 'v) ordered_hash failure + ('k, 'v) ordered_hash" where
  "oh_step h (Insert k v) t = bind_ok (oh_insert h k v t) (\<lambda>(b, t'). Inr t')"
| "oh_step h (Erase k) t = bind_ok (oh_erase h k t) (\<lambda>(n, t'). Inr t')"
| "oh_step h Clear t = Inr (oh_clear t)"

lemma oh_step_eq: "omap.step h = oh_step h"
proof (intro ext)
  fix a t show "omap.step h a t = oh_step h a t" by (cases a) simp_all
qed

text \<open>C15. The ordered hash table refines its list of values: from the empty table every sequence of up to
  \<open>2 ^ 27\<close> insertions, erasures and clearings returns (no probe loop runs for ever, nothing is read out of
  bounds, nothing is thrown), leaves the values the specification on lists computes, and a lookup then
  answers exactly which keys are there and with which value.\<close>

theorem ordered_hash_refines_list:
  assumes "length ops \<le> 2 ^ 27"
  shows "\<exists>t. fold_ok (oh_step h) ops empty_hash = Inr t \<and> m_values t = fold dict_step ops [] \<and> distinct (map fst (m_values t)) \<and>
    (\<forall>k. oh_contains h k t = (Inr (k \<in> keys_of (m_values t)) :: unit failure + _)) \<and>
    (\<forall>k. oh_at h () k t = (case map_of (m_values t) k of None \<Rightarrow> Inl (Throws OutOfRange ()) | Some v \<Rightarrow> Inr v))"
proof -
  from omap.run_ok [OF omap.good_empty, of 0 ops h] assms obtain t where
    t: "fold_ok (oh_step h) ops empty_hash = Inr t" "oh_good h (length ops) t" "m_values t = fold dict_step ops []"
    by (auto simp: oh_step_eq oh_limit_def omap.entries_empty)
  then have "oh_ok h t" by (simp add: oh_good_def)
  then have "oh_contains h k t = (Inr (k \<in> keys_of (m_values t)) :: unit failure + _)"
    "oh_at h () k t = (case map_of (m_values t) k of None \<Rightarrow> Inl (Throws OutOfRange ()) | Some v \<Rightarrow> Inr v)" for k
    by (simp_all add: oh_contains_ok oh_at_ok)
  with t omap.good_distinct [OF t(2)] show ?thesis by blast
qed

theorem ordered_hash_refines_list_witness:
  "\<exists>t. fold_ok (oh_step (\<lambda>k. k)) [Insert 7 ''a'', Insert 15 ''b'', Erase 7, Insert 7 ''c''] empty_hash = Inr t \<and>
    m_values t = fold dict_step [Insert 7 ''a'', Insert 15 ''b'', Erase 7, Insert 7 ''c''] [] \<and> distinct (map fst (m_values t)) \<and>
    (\<forall>k. oh_contains (\<lambda>k. k) k t = (Inr (k \<in> keys_of (m_values t)) :: unit failure + _)) \<and>
    (\<forall>k. oh_at (\<lambda>k. k) () k t = (case map_of (m_values t) k of None \<Rightarrow> Inl (Throws OutOfRange ()) | Some v \<Rightarrow> Inr v))"
  by (rule ordered_hash_refines_list) simp

text \<open>C30. The probe sequences and the index search of an update keep the robin hood invariant: from a table that
  satisfies the invariant (every value in exactly one bucket, under its hash, distances growing by at most one
  along the array), with at most \<open>2 ^ 31\<close> buckets, insertion returns with the invariant and appends an absent
  key; erasure returns with the invariant and removes exactly the key, whatever its position.\<close>

theorem ordered_hash_invariant:
  assumes "oh_ok h t" "length (m_buckets t) \<le> 2 ^ 31"
  shows "(\<exists>t'. oh_insert h k v t = Inr (k \<notin> keys_of (m_values t), t') \<and> oh_ok h t' \<and> m_values t' = dict_insert (k, v) (m_values t)) \<and>
    (\<exists>n t'. oh_erase h k t = Inr (n, t') \<and> oh_ok h t' \<and> m_values t' = dict_erase k (m_values t) \<and>
       n = (if k \<in> keys_of (m_values t) then 1 else 0))"
  using oh_insert_ok [OF assms, of k v] oh_erase_ok [OF assms(1), of k] by (fastforce simp: dict_insert_def dict_erase_def)

theorem ordered_hash_invariant_witness:
  "(\<exists>t'. oh_insert (\<lambda>k. k) 7 () empty_hash = Inr (7 \<notin> keys_of (m_values (empty_hash :: (u64, unit) ordered_hash)), t') \<and>
      oh_ok (\<lambda>k. k) t' \<and> m_values t' = dict_insert (7, ()) (m_values empty_hash)) \<and>
    (\<exists>n t'. oh_erase (\<lambda>k. k) 7 (empty_hash :: (u64, unit) ordered_hash) = Inr (n, t') \<and> oh_ok (\<lambda>k. k) t' \<and>
      m_values t' = dict_erase 7 (m_values empty_hash) \<and>
      n = (if 7 \<in> keys_of (m_values (empty_hash :: (u64, unit) ordered_hash)) then 1 else 0))"
  by (rule ordered_hash_invariant [of "\<lambda>k. k" "empty_hash :: (u64, unit) ordered_hash" 7 "()"]) (simp_all add: empty_hash_def oh_ok_def load_threshold_for_def)

text \<open>The table with some keys, in their order.\<close>

definition table_of :: "u64 list \<Rightarrow> (u64, unit) ordered_hash failure + (u64, unit) ordered_hash" where
  "table_of ks = fold_ok (\<lambda>k. oh_step (\<lambda>k. k) (Insert k ())) ks empty_hash"

text \<open>Erasing a range can lose a key: the sweep of \<open>erase(first, last)\<close> lowers the index of a wrapped entry,
  later clears a bucket before it, shifts the entry back into the cleared bucket and takes its lowered
  index for an erased one. With the identity as hash and the keys 7, 15, 3, 4 in eight buckets, erasing
  the first value alone leaves 15 among the values but no lookup finds it.\<close>

lemma erase_range_loses_key:
  "bind_ok (table_of [7, 15, 3, 4]) (\<lambda>t. bind_ok (oh_erase_range 0 1 t) (\<lambda>t'. bind_ok (oh_contains (\<lambda>k. k) 15 t') (\<lambda>found.
     Inr (map fst (m_values t'), found)))) = Inr ([15, 3, 4], False)"
  by code_simp

text \<open>Inserting before the end can lose a key: \<open>insert_at_position\<close> puts the new index into the buckets before
  it raises the indexes behind it, so for a moment two buckets hold the same index, and the search for the
  one to raise can find the wrong one. With the identity as hash, putting 17 in front of 5, 6, 3, 1, 9 leaves
  1 and 9 among the values but a lookup finds neither.\<close>

lemma insert_at_position_loses_key:
  "bind_ok (table_of [5, 6, 3, 1, 9]) (\<lambda>t. bind_ok (oh_insert_at (\<lambda>k. k) 0 17 () t) (\<lambda>(r, t').
     bind_ok (oh_contains (\<lambda>k. k) 1 t') (\<lambda>found. bind_ok (oh_contains (\<lambda>k. k) 9 t') (\<lambda>found'.
       Inr (map fst (m_values t'), found, found'))))) = Inr ([17, 5, 6, 3, 1, 9], False, False)"
  by code_simp

section \<open>Serialisation\<close>

lemma read_all_map:
  assumes "\<And>x rest. x \<in> set xs \<Longrightarrow> f (g x @ rest) = Inr (p x, rest)"
  shows "read_all f (length xs) (concat (map g xs) @ rest) = Inr (map p xs, rest)"
  using assms by (induction xs) auto

lemma small_hash: "\<not> 0xFFFFFFFF < (ucast (th :: u32) :: u64)" "ucast (ucast th :: u64) = th"
proof -
  have "unat th < 2 ^ 32" using unsigned_less [of th] by simp
  moreover from this have "unat (ucast th :: u64) = unat th"
    by (simp add: unsigned_ucast_eq take_bit_nat_eq_self)
  ultimately show "\<not> 0xFFFFFFFF < (ucast th :: u64)" by (simp add: word_less_nat_alt)
  show "ucast (ucast th :: u64) = th" by (intro bit_word_eqI) (auto simp: bit_unsigned_iff)
qed

lemma deserialize_serialize_bucket:
  assumes "\<And>e. b = Some e \<Longrightarrow> fst e < 2 ^ 32 - 1"
  shows "deserialize_bucket s (serialize_bucket stale b @ rest) = Inr (b, rest)"
proof (cases b)
  case None
  then show ?thesis using small_hash(1) [of stale] by (simp add: deserialize_bucket_def serialize_bucket_def EMPTY_MARKER_INDEX_def)
next
  case (Some e)
  obtain ix th where e: "e = (ix, th)" by (cases e)
  have ix: "ix < 2 ^ 32 - 1" using assms Some e by auto
  then have u: "unat (of_nat ix :: u64) = ix" by (intro unat_of_nat_u64) simp
  have "\<not> 0xFFFFFFFF < (of_nat ix :: u64)" "(of_nat ix :: u64) \<noteq> 0xFFFFFFFF"
    using ix u by (auto simp: word_less_nat_alt dest: arg_cong [of _ _ unat])
  then show ?thesis
    using Some e u small_hash [of th] by (simp add: deserialize_bucket_def serialize_bucket_def EMPTY_MARKER_INDEX_def)
qed

text \<open>C31. Reading back what was written with the same hash function, whatever hashes erased entries left in empty
  buckets, restores values and buckets and consumes exactly what was written. Two fields are lost: the load
  threshold is left at zero, so the next insertion doubles the table, and a pending request to grow at the next
  insertion is forgotten. The mask is the one of the buckets provided that \<open>reserve\<close> gave their vector exactly the
  capacity asked for. Stated for tables in which every lookup invariant holds, with some and with fewer than
  \<open>2 ^ 32\<close> buckets.\<close>

theorem ordered_hash_serialization:
  assumes "oh_ok h t" "m_buckets t \<noteq> []" "length (m_buckets t) < 2 ^ 32" "capacity (length (m_buckets t)) = length (m_buckets t)"
  shows "oh_deserialize capacity h True (oh_serialize stale t @ rest) =
    Inr (t\<lparr>m_load_threshold := 0, m_grow_on_next_insert := False\<rparr>, hash_mask (m_buckets t), rest)"
proof -
  have t: "sized (m_buckets t)" "filed h (m_values t) (m_buckets t)" using assms(1,2) by (auto simp: oh_ok_def)
  then have le: "length (m_values t) \<le> length (m_buckets t)" by (simp add: filed_def)
  have n: "unat (of_nat (length (m_values t)) :: u64) = length (m_values t)"
    "unat (of_nat (length (m_buckets t)) :: u64) = length (m_buckets t)" using le assms(3) by (auto intro: unat_of_nat_u64)
  then have nz: "(of_nat (length (m_buckets t)) :: u64) \<noteq> 0" using assms(2) by (metis length_0_conv unsigned_0)
  have vals: "read_all (next_value s) (length (m_values t)) (map Val (m_values t) @ rest') = Inr (m_values t, rest')"
    for rest' :: "('a, 'b) item list" and s :: "('a, 'b) ordered_hash"
    using read_all_map [of "m_values t" "next_value s" "\<lambda>p. [Val p]" "\<lambda>p. p" rest'] by simp
  let ?out = "\<lambda>(i, b). serialize_bucket (stale i) b :: ('a, 'b) item list"
  have small: "fst e < 2 ^ 32 - 1" if "Some e \<in> set (m_buckets t)" for e
    using filed_nth(1) [OF t(2)] that le assms(3) unfolding in_set_conv_nth by fastforce
  have "deserialize_bucket s (?out x @ rest') = Inr (snd x, rest')" if "x \<in> set (enumerate 0 (m_buckets t))"
    for x rest' and s :: "('a, 'b) ordered_hash"
  proof -
    have "snd x \<in> set (m_buckets t)" using in_set_enumerate_eq [of x 0 "m_buckets t"] that nth_mem by fastforce
    with small show ?thesis by (simp add: case_prod_unfold) (intro deserialize_serialize_bucket; auto)
  qed
  note this_bucket = this
  have bucks:
    "read_all (deserialize_bucket s) (length (m_buckets t)) (concat (map ?out (enumerate 0 (m_buckets t))) @ rest) = Inr (m_buckets t, rest)"
    for s :: "('a, 'b) ordered_hash"
    using read_all_map [of "enumerate 0 (m_buckets t)" "deserialize_bucket s" ?out snd rest, OF this_bucket] by simp
  show ?thesis
    using n nz vals [where rest' = "concat (map ?out (enumerate 0 (m_buckets t))) @ rest"] bucks assms(2,4)
    by (simp add: oh_deserialize_def oh_serialize_def SERIALIZATION_PROTOCOL_VERSION_def empty_hash_def load_threshold_for_def
        hash_mask_def Let_def)
qed

lemma table_7:
  "oh_insert (\<lambda>k. k) (7 :: u64) () empty_hash =
     Inr (True, \<lparr>m_buckets = [Some (0, 7)], m_values = [(7, ())], m_load_threshold = 0, m_grow_on_next_insert = False\<rparr>)"
  by code_simp

text \<open>A table that is cleared keeps the hash of its key in an empty bucket.\<close>

theorem ordered_hash_serialization_witness:
  "let t = oh_clear \<lparr>m_buckets = [Some (0, 7)], m_values = [(7 :: u64, ())], m_load_threshold = 0, m_grow_on_next_insert = False\<rparr>
   in oh_deserialize (\<lambda>n. n) (\<lambda>k. k) True (oh_serialize (\<lambda>_. 7) t @ []) =
     Inr (t\<lparr>m_load_threshold := 0, m_grow_on_next_insert := False\<rparr>, hash_mask (m_buckets t), [])"
  unfolding Let_def
proof (rule ordered_hash_serialization)
  from oh_insert_good [OF oh_good_empty, of 0 "\<lambda>k. k" 7 "()"] table_7
  have "oh_good (\<lambda>k. k) (Suc 0) \<lparr>m_buckets = [Some (0, 7)], m_values = [(7 :: u64, ())], m_load_threshold = 0, m_grow_on_next_insert = False\<rparr>"
    by (auto simp: oh_limit_def)
  from conjunct1 [OF oh_clear_good [OF this]]
  show "oh_ok (\<lambda>k. k) (oh_clear \<lparr>m_buckets = [Some (0, 7)], m_values = [(7 :: u64, ())], m_load_threshold = 0, m_grow_on_next_insert = False\<rparr>)"
    by (simp add: oh_limit_def oh_good_def)
qed (simp_all add: oh_clear_def)

end
