(* ===== verification/Host_Data.thy ===== *)
theory Host_Data
  imports Ordered_Hash_Properties
begin

text \<open>
  What the two services share: \<open>constants.h\<close> (key and value types, the scaled estimate), \<open>bench_utils.h\<close>
  (random key-value pairs and their comparison) and \<open>tow.h\<close> (the tug-of-war estimator). The random engine of
  the standard library and the hash function XXH32 are parameters.
\<close>

section \<open>Floating point\<close>

text \<open>
  The nearest rational with \<open>p\<close> significant bits, ties to even: the IEEE rounding of \<open>float\<close> (\<open>p = 24\<close>) and
  \<open>double\<close> (\<open>p = 53\<close>) away from overflow and underflow.
\<close>

definition magnitude :: "rat \<Rightarrow> int" where
  "magnitude x =
     (let (a, b) = quotient_of \<bar>x\<bar>; k = int (floorlog 2 (nat a)) - int (floorlog 2 (nat b))
      in if 2 powi k \<le> \<bar>x\<bar> then k else k - 1)"

definition round_half_even :: "rat \<Rightarrow> int" where
  "round_half_even x =
     (let n = \<lfloor>x\<rfloor>; r = x - of_int n
      in if r < 1 / 2 \<or> r = 1 / 2 \<and> even n then n else n + 1)"

definition fround :: "nat \<Rightarrow> rat \<Rightarrow> rat" where
  "fround p x =
     (if x = 0 then 0
      else let u = 2 powi (magnitude x - int p + 1) in of_int (round_half_even (x / u)) * u)"

abbreviation to_float :: "rat \<Rightarrow> rat" where "to_float \<equiv> fround 24"
abbreviation to_double :: "rat \<Rightarrow> rat" where "to_double \<equiv> fround 53"

text \<open>The range of \<open>int\<close>; a sum or difference of \<open>int\<close> outside it is undefined.\<close>

definition fits_int :: "int \<Rightarrow> bool" where
  "fits_int i \<longleftrightarrow> - (2 ^ 31) \<le> i \<and> i < 2 ^ 31"

definition int_result :: "int \<Rightarrow> 's failure + int" where
  "int_result i = (if fits_int i then Inr i else Inl (Undefined SignedOverflow))"

lemma int_result_ok [ok_simps]: "fits_int i \<Longrightarrow> int_result i = Inr i"
  by (simp add: int_result_def)

lemma fits_int_abs: "\<bar>i\<bar> < 2 ^ 31 \<Longrightarrow> fits_int i"
  by (auto simp: fits_int_def)

section \<open>Constants\<close>

definition DEFAULT_SKETCHES :: nat where "DEFAULT_SKETCHES = 128"
definition DEFAULT_SEED :: u32 where "DEFAULT_SEED = 142857"
definition INFLATION_RATIO :: rat where "INFLATION_RATIO = to_double (138 / 100)"

type_synonym key = u32       \<comment> \<open>\<open>int32_t\<close>\<close>
type_synonym kv_map = "(key, string) ordered_hash"

text \<open>
  \<open>static_cast<size_t>(std::ceil(INFLATION_RATIO * estimate))\<close> for a \<open>float\<close> estimate; the cast of a negative
  number is undefined.
\<close>

definition ESTIMATE_SM99 :: "rat \<Rightarrow> 's failure + nat" where
  "ESTIMATE_SM99 estimate =
     (let c = \<lceil>to_double (INFLATION_RATIO * estimate)\<rceil>
      in if c < 0 then Inl (Undefined BadCast) else Inr (nat c))"

text \<open>\<open>std::hash<int>\<close> of the standard library, the identity after sign extension; keys of other types are converted.\<close>

definition hash_key :: "key \<Rightarrow> u64" where
  "hash_key k = scast k"

definition key_element :: "key \<Rightarrow> u64" where
  "key_element k = scast k"

definition element_key :: "u64 \<Rightarrow> key" where
  "element_key e = ucast e"

lemma element_key_inverse [simp]: "element_key (key_element k) = k"
  by (simp add: element_key_def key_element_def) (rule bit_word_eqI, simp add: bit_simps)

lemma inj_key_element: "inj key_element"
  by (rule inj_on_inverseI [of _ element_key]) simp

section \<open>Random key-value pairs\<close>

text \<open>
  The engine \<open>std::mt19937_64\<close> and the two distributions: how a seed starts it, the next key in \<open>[1, INT_MAX]\<close>,
  the next index below a bound.
\<close>

record 'g random_engine =
  rnd_seed :: "u32 \<Rightarrow> 'g"
  rnd_key :: "'g \<Rightarrow> key \<times> 'g"
  rnd_index :: "nat \<Rightarrow> 'g \<Rightarrow> nat \<times> 'g"

definition alphanum :: string where
  "alphanum = ''0123456789ABCDEFGHIJKLMNOPQRSTUVWXYZabcdefghijklmnopqrstuvwxyz''"

fun GenerateRandomString :: "'g random_engine \<Rightarrow> nat \<Rightarrow> string \<Rightarrow> 'g \<Rightarrow> string \<times> 'g" where
  "GenerateRandomString rnd 0 alphabet g = ([], g)"
| "GenerateRandomString rnd (Suc n) alphabet g =
     (let (i, g1) = rnd_index rnd (length alphabet) g; (s, g2) = GenerateRandomString rnd n alphabet g1
      in (alphabet ! i # s, g2))"

text \<open>Pairs are drawn until the map has the size wanted; equal keys are drawn again.\<close>

partial_function (option) generate_loop ::
    "'g random_engine \<Rightarrow> nat \<Rightarrow> nat \<Rightarrow> 'g \<Rightarrow> kv_map \<Rightarrow> (kv_map failure + kv_map) option" where
  [code]: "generate_loop rnd sz value_size g t =
     (if sz \<le> oh_size t then Some (Inr t)
      else let (k, g1) = rnd_key rnd g; (v, g2) = GenerateRandomString rnd value_size alphanum g1
           in case oh_insert hash_key k v t of
                Inl e \<Rightarrow> Some (Inl e)
              | Inr (b, t') \<Rightarrow> generate_loop rnd sz value_size g2 t')"

definition GenerateKeyValuePairs ::
    "'g random_engine \<Rightarrow> nat \<Rightarrow> nat \<Rightarrow> u32 \<Rightarrow> kv_map \<Rightarrow> kv_map failure + kv_map" where
  "GenerateKeyValuePairs rnd sz value_size seed t = returns (generate_loop rnd sz value_size (rnd_seed rnd seed) t)"

definition is_equal :: "kv_map \<Rightarrow> kv_map \<Rightarrow> kv_map failure + bool" where
  "is_equal a b =
     (if oh_size a \<noteq> oh_size b then Inr False
      else fold_ok (\<lambda>(k, v) r. if \<not> r then Inr False
             else bind_ok (oh_count hash_key k b) (\<lambda>n. if n = 0 then Inr False
                  else bind_ok (oh_at hash_key b k b) (\<lambda>w. Inr (w = v)))) (m_values a) True)"

section \<open>The tug-of-war estimator\<close>

text \<open>\<open>XXH32\<close> of a key under a seed is a parameter; a sketch counts the keys with odd hash against the others.\<close>

type_synonym hash32 = "key \<Rightarrow> u32 \<Rightarrow> u32"

record tug_of_war =
  tow_m :: nat
  tow_hashes :: "u32 list"     \<comment> \<open>the seeds of the hash functions\<close>

text \<open>
  \<open>generate_hashes\<close>: seeds are drawn until \<open>m\<close> different ones are there; the draws are a parameter, a stream of
  numbers; the set is visited in an unspecified order, here that of the draws.
\<close>

partial_function (option) draw_seeds :: "(nat \<Rightarrow> u32) \<Rightarrow> nat \<Rightarrow> nat \<Rightarrow> u32 list \<Rightarrow> u32 list option" where
  [code]: "draw_seeds draws m i seeds =
     (if m \<le> length seeds then Some seeds else draw_seeds draws m (Suc i) (List.insert (draws i) seeds))"

definition TugOfWarHash :: "(nat \<Rightarrow> u32) \<Rightarrow> nat \<Rightarrow> 's failure + tug_of_war" where
  "TugOfWarHash draws m = bind_ok (returns (map_option Inr (draw_seeds draws m 0 []))) (\<lambda>seeds.
     Inr \<lparr>tow_m = m, tow_hashes = seeds\<rparr>)"

definition tow_sign :: "hash32 \<Rightarrow> u32 \<Rightarrow> key \<Rightarrow> int" where
  "tow_sign xxh seed k = (if xxh k seed mod 2 = 0 then -1 else 1)"

definition tow_apply_one :: "hash32 \<Rightarrow> tug_of_war \<Rightarrow> key list \<Rightarrow> nat \<Rightarrow> 's failure + int" where
  "tow_apply_one xxh e ks i =
     fold_ok (\<lambda>k res. bind_ok (vec_get (tow_hashes e) i) (\<lambda>seed. int_result (res + tow_sign xxh seed k))) ks 0"

definition tow_apply :: "hash32 \<Rightarrow> tug_of_war \<Rightarrow> key list \<Rightarrow> 's failure + int list" where
  "tow_apply xxh e ks =
     fold_ok (\<lambda>i sketches. bind_ok (tow_apply_one xxh e ks i) (\<lambda>x. vec_set sketches i x)) [0..<tow_m e] (replicate (tow_m e) 0)"

definition tow_apply_key_value_pairs :: "hash32 \<Rightarrow> tug_of_war \<Rightarrow> (key \<times> string) list \<Rightarrow> 's failure + int list" where
  "tow_apply_key_value_pairs xxh e kvs = tow_apply xxh e (map fst kvs)"

section \<open>What they compute\<close>

definition tow_sum :: "hash32 \<Rightarrow> u32 \<Rightarrow> key list \<Rightarrow> int" where
  "tow_sum xxh seed ks = sum_list (map (tow_sign xxh seed) ks)"

lemma abs_tow_sum: "\<bar>tow_sum xxh seed ks\<bar> \<le> int (length ks)"
  by (induction ks) (auto simp: tow_sum_def tow_sign_def)

text \<open>Fewer than \<open>2 ^ 31\<close> keys cannot make a counter overflow.\<close>

lemma tow_apply_one_eq:
  assumes "i < length (tow_hashes e)" "length ks < 2 ^ 31"
  shows "tow_apply_one xxh e ks i = (Inr (tow_sum xxh (tow_hashes e ! i) ks) :: 's failure + _)"
proof -
  have "fold_ok (\<lambda>k res. bind_ok (vec_get (tow_hashes e) i) (\<lambda>seed. int_result (res + tow_sign xxh seed k))) ks r =
      (Inr (r + tow_sum xxh (tow_hashes e ! i) ks) :: 's failure + _)" if "\<bar>r\<bar> + int (length ks) < 2 ^ 31" for r
    using that
  proof (induction ks arbitrary: r)
    case (Cons k ks)
    let ?r = "r + tow_sign xxh (tow_hashes e ! i) k"
    have "\<bar>?r\<bar> \<le> \<bar>r\<bar> + 1" by (auto simp: tow_sign_def)
    with Cons.prems have "\<bar>?r\<bar> + int (length ks) < 2 ^ 31" by simp
    moreover from this have "fits_int ?r" by (intro fits_int_abs) linarith
    ultimately show ?case using Cons.IH [of ?r] assms(1) by (simp add: tow_sum_def ok_simps)
  qed (simp add: tow_sum_def)
  from this [of 0] assms(2) show ?thesis by (simp add: tow_apply_one_def)
qed

definition tow_ok :: "tug_of_war \<Rightarrow> bool" where
  "tow_ok e \<longleftrightarrow> tow_m e = length (tow_hashes e) \<and> 0 < tow_m e"

lemma tow_apply_eq:
  assumes "tow_ok e" "length ks < 2 ^ 31"
  shows "tow_apply xxh e ks = (Inr (map (\<lambda>seed. tow_sum xxh seed ks) (tow_hashes e)) :: 's failure + _)"
proof -
  let ?s = "\<lambda>i. tow_sum xxh (tow_hashes e ! i) ks"
  have m: "tow_m e = length (tow_hashes e)" using assms(1) by (simp add: tow_ok_def)
  have "n \<le> tow_m e \<Longrightarrow> fold_ok (\<lambda>i sketches. bind_ok (tow_apply_one xxh e ks i) (\<lambda>x. vec_set sketches i x)) [0..<n] (replicate (tow_m e) 0) =
      (Inr (map ?s [0..<n] @ replicate (tow_m e - n) 0) :: 's failure + _)" for n
  proof (induction n)
    case (Suc n)
    have "(map ?s [0..<n] @ replicate (tow_m e - n) 0)[n := ?s n] = map ?s [0..<Suc n] @ replicate (tow_m e - Suc n) 0"
      using Suc.prems by (simp add: list_update_append Suc_diff_Suc [symmetric] del: Suc_diff_Suc)
    with Suc show ?case by (simp add: fold_ok_append tow_apply_one_eq [OF _ assms(2)] m vec_set_def)
  qed simp
  note r = this [of "tow_m e"]
  have "map ?s [0..<length (tow_hashes e)] = map (\<lambda>seed. tow_sum xxh seed ks) (tow_hashes e)"
    by (rule nth_equalityI) auto
  with r show ?thesis by (simp add: tow_apply_def m)
qed

end
