(* ===== verification/Xor_Algebra.thy ===== *)
theory Xor_Algebra
  imports Pbs_Prelude
begin

text \<open>
  The algebra of the parity sketches. Every encoder of the library accumulates its elements with
  an operation in which each element is its own inverse: XOR of 64-bit words for the bins and
  the checksums, toggling for the bitmaps and for the sketches. What such an encoder computes
  depends only on the elements that occur an odd number of times (\<open>odd_set\<close>), so common
  elements of the two hosts cancel. \<open>boolean_group\<close> states this once.
\<close>

section \<open>The elements of odd multiplicity\<close>

definition odd_set :: "'a list \<Rightarrow> 'a set" where
  "odd_set xs = {x \<in> set xs. odd (count_list xs x)}"

lemma odd_set_Nil [simp]: "odd_set [] = {}"
  by (simp add: odd_set_def)

lemma in_odd_set: "x \<in> odd_set xs \<longleftrightarrow> odd (count_list xs x)"
  by (auto simp: odd_set_def) (metis count_notin dvd_0_right)

lemma odd_set_subset: "odd_set xs \<subseteq> set xs"
  by (auto simp: odd_set_def)

lemma finite_odd_set [simp]: "finite (odd_set xs)"
  by (rule finite_subset [OF odd_set_subset]) simp

lemma odd_set_append: "odd_set (xs @ ys) = sym_diff (odd_set xs) (odd_set ys)"
  by (auto simp: in_odd_set)

lemma odd_set_Cons: "odd_set (x # xs) = sym_diff {x} (odd_set xs)"
  by (auto simp: in_odd_set split: if_splits)

lemma odd_set_distinct: "distinct xs \<Longrightarrow> odd_set xs = set xs"
  by (induction xs) (auto simp: odd_set_Cons)

lemma count_list_filter: "count_list (filter P xs) x = (if P x then count_list xs x else 0)"
  by (induction xs) auto

lemma odd_set_filter: "odd_set (filter P xs) = {x \<in> odd_set xs. P x}"
  by (auto simp: in_odd_set count_list_filter split: if_splits)

section \<open>Groups in which every element is its own inverse\<close>

locale boolean_group = comm_monoid_set f z
  for f :: "'b \<Rightarrow> 'b \<Rightarrow> 'b" and z +
  assumes self_inverse: "f a a = z"
begin

lemma cancel_left: "f a (f a b) = b"
  by (simp add: assoc [symmetric] self_inverse)

lemma F_sym_diff:
  assumes "finite A" "finite B"
  shows "F g (sym_diff A B) = f (F g A) (F g B)"
proof -
  have A: "F g A = f (F g (A - B)) (F g (A \<inter> B))"
    using assms subset_diff [of "A \<inter> B" A g] by (simp add: Diff_Int2 Diff_Int)
  have B: "F g B = f (F g (B - A)) (F g (A \<inter> B))"
    using assms subset_diff [of "A \<inter> B" B g] by (simp add: Diff_Int2 Diff_Int)
  have "f (F g A) (F g B) = f (F g (A - B)) (F g (B - A))"
    unfolding A B by (metis assoc commute cancel_left)
  also have "\<dots> = F g ((A - B) \<union> (B - A))"
    using assms by (intro union_disjoint [symmetric]) auto
  finally show ?thesis by simp
qed

lemma F_toggle:
  assumes "finite A"
  shows "F g (sym_diff {x} A) = f (g x) (F g A)"
  using assms by (subst F_sym_diff) auto

text \<open>An accumulating loop computes the combination of the elements of odd multiplicity.\<close>

lemma fold_odd: "fold (\<lambda>x acc. f acc (g x)) xs a = f a (F g (odd_set xs))"
proof (induction xs arbitrary: a)
  case (Cons x xs)
  then show ?case by (simp add: odd_set_Cons F_toggle assoc)
qed simp

lemma fold_odd_cong: "odd_set xs = odd_set ys \<Longrightarrow>
    fold (\<lambda>x acc. f acc (g x)) xs a = fold (\<lambda>x acc. f acc (g x)) ys a"
  by (simp add: fold_odd)

lemma fold_append_cancel: "fold (\<lambda>x acc. f acc (g x)) (xs @ xs) a = a"
  by (simp add: fold_odd assoc self_inverse)

end

interpretation xor64: boolean_group "(XOR) :: u64 \<Rightarrow> u64 \<Rightarrow> u64" 0
  by unfold_locales (simp_all add: ac_simps)

interpretation toggles: boolean_group "sym_diff :: 'a set \<Rightarrow> 'a set \<Rightarrow> 'a set" "{}"
  by unfold_locales auto

text \<open>The XOR of a list of keys, as the code's accumulators compute it.\<close>

definition xor_list :: "u64 list \<Rightarrow> u64" where
  "xor_list xs = fold (\<lambda>x acc. acc XOR x) xs 0"

lemma fold_xor: "fold (\<lambda>x acc. acc XOR x) xs a = a XOR xor_list xs"
  using xor64.fold_odd [of "\<lambda>x. x" xs a] xor64.fold_odd [of "\<lambda>x. x" xs 0]
  by (simp add: xor_list_def)

lemma xor_list_simps [simp]:
  "xor_list [] = 0" "xor_list (x # xs) = x XOR xor_list xs"
  "xor_list (xs @ ys) = xor_list xs XOR xor_list ys"
proof -
  show "xor_list [] = 0" by (simp add: xor_list_def)
  show "xor_list (x # xs) = x XOR xor_list xs"
    using fold_xor [of xs "0 XOR x"] by (simp add: xor_list_def)
  show "xor_list (xs @ ys) = xor_list xs XOR xor_list ys"
    using fold_xor [of ys "xor_list xs"] by (simp add: xor_list_def)
qed

lemma xor_list_odd: "xor_list xs = xor64.F (\<lambda>x. x) (odd_set xs)"
  using xor64.fold_odd [of "\<lambda>x. x" xs 0] by (simp add: xor_list_def)

lemma xor_list_cong: "odd_set xs = odd_set ys \<Longrightarrow> xor_list xs = xor_list ys"
  by (simp add: xor_list_odd)

text \<open>Parities of images: the bins of odd occupancy.\<close>

lemma odd_set_map: "odd_set (map h xs) = toggles.F (\<lambda>x. {h x}) (odd_set xs)"
proof -
  have "fold (\<lambda>x acc. sym_diff acc {h x}) xs A = sym_diff A (odd_set (map h xs))" for A
    by (induction xs arbitrary: A) (auto simp: odd_set_Cons)
  from this [of "{}"] show ?thesis
    using toggles.fold_odd [of "\<lambda>x. {h x}" xs "{}"] by simp
qed

lemma odd_set_map_cong: "odd_set xs = odd_set ys \<Longrightarrow> odd_set (map h xs) = odd_set (map h ys)"
  by (simp add: odd_set_map)

lemma odd_set_map_inj:
  assumes "inj_on h (odd_set xs)"
  shows "odd_set (map h xs) = h ` odd_set xs"
proof -
  have "toggles.F (\<lambda>x. {h x}) A = h ` A" if "finite A" "inj_on h A" for A
    using that by (induction A rule: finite_induct) auto
  with assms show ?thesis by (simp add: odd_set_map)
qed

end
