(* ===== verification/Bit_Utils.thy ===== *)
theory Bit_Utils
  imports Pbs_Prelude
begin

text \<open>
  \<open>src/bit_utils.h\<close>: the integer helpers, the set difference of two ordered sets, and the
  bit-granular writer and reader over byte buffers. A writer is specified by the bits it has
  put out (whole bytes in the buffer, then the bits pending in \<open>state\<close>), a reader by the bits
  it has still to deliver; the two are interfaces (\<open>bit_sink\<close>, \<open>bit_source\<close>) for the message
  codecs, and \<open>bit_codec\<close> is their composition.
\<close>

section \<open>Integer helpers\<close>

definition BITS_IN_ONE_BYTE :: nat where
  "BITS_IN_ONE_BYTE = 8"

definition UIntXMax :: "u32 \<Rightarrow> u32" where
  "UIntXMax bits = push_bit (unat bits) 1 - 1"

definition Bits2Bytes :: "nat \<Rightarrow> nat" where
  "Bits2Bytes bits = (bits + BITS_IN_ONE_BYTE - 1) div BITS_IN_ONE_BYTE"

text \<open>
  \<open>ceil(log2(data))\<close> for a positive integer. The code computes it in \<open>double\<close>; for values
  below \<open>2 ^ 32\<close> (all its uses) the logarithm of a number just above a power of two is more
  than an ulp above the integer, so the rounded result is the exact one. \<open>log2(0)\<close> is minus
  infinity, whose conversion to an integer is undefined.
\<close>

definition CeilLog2 :: "nat \<Rightarrow> 's failure + nat" where
  "CeilLog2 data = (if data = 0 then Inl (Undefined BadCast) else Inr (ceillog2 data))"

text \<open>
  The set difference of two ordered sets (their elements in insertion order, without
  repetition), and the in-place variant on vectors, which first builds the ordered sets.
\<close>

definition setDifference_sets :: "'a list \<Rightarrow> 'a list \<Rightarrow> 'a list" where
  "setDifference_sets sa sb =
     filter (\<lambda>x. x \<notin> set sb) sa @ filter (\<lambda>x. x \<notin> set sa) sb"

definition ordered_set_of :: "'a list \<Rightarrow> 'a list" where
  "ordered_set_of xs = rev (remdups (rev xs))"

definition setDifference :: "'a list \<Rightarrow> 'a list \<Rightarrow> 'a list" where
  "setDifference sa sb = setDifference_sets (ordered_set_of sa) (ordered_set_of sb)"

lemma set_ordered_set_of [simp]: "set (ordered_set_of xs) = set xs"
  and distinct_ordered_set_of [simp]: "distinct (ordered_set_of xs)"
  by (simp_all add: ordered_set_of_def)

lemma set_setDifference: "set (setDifference sa sb) = (set sa - set sb) \<union> (set sb - set sa)"
  by (auto simp: setDifference_def setDifference_sets_def)

lemma distinct_setDifference: "distinct (setDifference sa sb)"
  by (auto simp: setDifference_def setDifference_sets_def)

lemma Bits2Bytes_ceil: "Bits2Bytes n = (n + 7) div 8"
  by (simp add: Bits2Bytes_def BITS_IN_ONE_BYTE_def)

lemma Bits2Bytes_bounds: "n \<le> 8 * Bits2Bytes n" "8 * Bits2Bytes n < n + 8"
  unfolding Bits2Bytes_ceil by linarith+

lemma unat_UIntXMax: "unat bits < 32 \<Longrightarrow> unat (UIntXMax bits) = 2 ^ unat bits - 1"
proof -
  have "UIntXMax bits = mask (unat bits)"
    by (simp add: UIntXMax_def mask_eq_exp_minus_1 push_bit_eq_mult)
  moreover assume "unat bits < 32"
  then have "unat (mask (unat bits) :: u32) = mask (unat bits)"
    by (intro bit_eqI) (auto simp: bit_simps)
  ultimately show ?thesis by (simp add: mask_eq_exp_minus_1)
qed

section \<open>BitWriter\<close>

record bit_writer =
  wr_state :: u8
  wr_offset :: nat
  wr_pos :: nat    \<comment> \<open>\<open>out\<close>, as an offset into the caller's buffer\<close>
  wr_buf :: bytes

definition BitWriter :: "bytes \<Rightarrow> nat \<Rightarrow> bit_writer" where
  "BitWriter buf pos = \<lparr>wr_state = 0, wr_offset = 0, wr_pos = pos, wr_buf = buf\<rparr>"

text \<open>\<open>*(out++) = b\<close>; \<open>None\<close> is a store outside the buffer.\<close>

definition put_byte :: "u8 \<Rightarrow> bit_writer \<Rightarrow> bit_writer option" where
  "put_byte b w =
     (if wr_pos w < length (wr_buf w)
      then Some (w\<lparr>wr_buf := (wr_buf w)[wr_pos w := b], wr_pos := Suc (wr_pos w)\<rparr>)
      else None)"

text \<open>The \<open>while (bits >= 8)\<close> loop of \<open>Write\<close>.\<close>

fun write_bytes :: "'a::len word \<Rightarrow> nat \<Rightarrow> bit_writer \<Rightarrow> ('a word \<times> nat \<times> bit_writer) option" where
  "write_bytes val bits w =
     (if 8 \<le> bits
      then (case put_byte (ucast (val AND 255)) w of
              None \<Rightarrow> None
            | Some w' \<Rightarrow> write_bytes (drop_bit 8 val) (bits - 8) w')
      else Some (val, bits, w))"

declare write_bytes.simps [simp del]

definition write_first :: "'a::len word \<Rightarrow> nat \<Rightarrow> bit_writer \<Rightarrow> ('a word \<times> nat \<times> bit_writer) option" where
  "write_first val bits w =
     (if 8 \<le> bits + wr_offset w
      then (let k = 8 - wr_offset w;
                s = wr_state w OR ucast (push_bit (wr_offset w) (val AND (push_bit k 1 - 1)))
            in case put_byte s w of
                 None \<Rightarrow> None
               | Some w' \<Rightarrow> Some (drop_bit k val, bits - k, w'\<lparr>wr_offset := 0, wr_state := 0\<rparr>))
      else Some (val, bits, w))"

definition write_last :: "'a::len word \<Rightarrow> nat \<Rightarrow> bit_writer \<Rightarrow> bit_writer" where
  "write_last val bits w =
     w\<lparr>wr_state := wr_state w OR ucast (push_bit (wr_offset w) (val AND (push_bit bits 1 - 1))),
       wr_offset := wr_offset w + bits\<rparr>"

definition Write :: "'a::len word \<Rightarrow> nat \<Rightarrow> bit_writer \<Rightarrow> bit_writer option" where
  "Write val bits w =
     (case write_first val bits w of
        None \<Rightarrow> None
      | Some (v1, b1, w1) \<Rightarrow>
          (case write_bytes v1 b1 w1 of
             None \<Rightarrow> None
           | Some (v2, b2, w2) \<Rightarrow> Some (write_last v2 b2 w2)))"

definition Flush :: "bit_writer \<Rightarrow> bit_writer option" where
  "Flush w =
     (if wr_offset w \<noteq> 0
      then (case put_byte (wr_state w) w of
              None \<Rightarrow> None
            | Some w' \<Rightarrow> Some (w'\<lparr>wr_state := 0, wr_offset := 0\<rparr>))
      else Some w)"

section \<open>BitReader\<close>

record bit_reader =
  rd_state :: u8
  rd_offset :: nat
  rd_pos :: nat    \<comment> \<open>\<open>in\<close>, as an offset into the buffer\<close>
  rd_buf :: bytes

definition BitReader :: "bytes \<Rightarrow> nat \<Rightarrow> bit_reader" where
  "BitReader buf pos = \<lparr>rd_state = 0, rd_offset = 0, rd_pos = pos, rd_buf = buf\<rparr>"

text \<open>\<open>*(in++)\<close>; \<open>None\<close> is a load outside the buffer.\<close>

definition get_byte :: "bit_reader \<Rightarrow> (u8 \<times> bit_reader) option" where
  "get_byte r =
     (if rd_pos r < length (rd_buf r)
      then Some (rd_buf r ! rd_pos r, r\<lparr>rd_pos := Suc (rd_pos r)\<rparr>)
      else None)"

text \<open>The loop \<open>while (out + 8 <= bits)\<close> of \<open>Read\<close>.\<close>

function read_bytes ::
    "'a::len word \<Rightarrow> nat \<Rightarrow> nat \<Rightarrow> bit_reader \<Rightarrow> ('a word \<times> nat \<times> bit_reader) option" where
  "read_bytes val out bits r =
     (if out + 8 \<le> bits
      then (case get_byte r of
              None \<Rightarrow> None
            | Some (c, r') \<Rightarrow> read_bytes (val OR push_bit out (ucast c)) (out + 8) bits r')
      else Some (val, out, r))"
  by pat_completeness auto
termination
  by (relation "measure (\<lambda>(val, out, bits, r). bits - out)") auto

declare read_bytes.simps [simp del]

definition read_last ::
    "'a::len word \<Rightarrow> nat \<Rightarrow> nat \<Rightarrow> bit_reader \<Rightarrow> ('a word \<times> bit_reader) option" where
  "read_last val out bits r =
     (if out < bits
      then (case get_byte r of
              None \<Rightarrow> None
            | Some (c, r') \<Rightarrow>
                Some (val OR push_bit out (ucast c AND (push_bit (bits - out) 1 - 1)),
                      r'\<lparr>rd_state := drop_bit (bits - out) c, rd_offset := 8 - (bits - out)\<rparr>))
      else Some (val, r\<lparr>rd_state := 0, rd_offset := 0\<rparr>))"

definition Read :: "nat \<Rightarrow> bit_reader \<Rightarrow> ('a::len word \<times> bit_reader) option" where
  "Read bits r =
     (if bits \<le> rd_offset r
      then Some (ucast (rd_state r AND (push_bit bits 1 - 1)),
                 r\<lparr>rd_state := drop_bit bits (rd_state r), rd_offset := rd_offset r - bits\<rparr>)
      else (case read_bytes (ucast (rd_state r)) (rd_offset r) bits r of
              None \<Rightarrow> None
            | Some (v, out, r') \<Rightarrow> read_last v out bits r'))"

section \<open>What the writer promises\<close>

text \<open>
  \<open>wr_bits p w\<close>: the bits the writer has put out since position \<open>p\<close> of the buffer, stored bytes
  first, then the pending ones. \<open>wr_ok\<close>: its invariant (fewer than eight pending bits, none
  above them set). \<open>wr_step p w bs w'\<close>: from \<open>w\<close> to \<open>w'\<close> exactly the bits \<open>bs\<close> were put out and
  nothing before the old position changed.
\<close>

definition wr_bits :: "nat \<Rightarrow> bit_writer \<Rightarrow> bool list" where
  "wr_bits p w =
     buf_bits (drop p (take (wr_pos w) (wr_buf w))) @ word_bits (wr_offset w) (wr_state w)"

definition wr_ok :: "nat \<Rightarrow> bit_writer \<Rightarrow> bool" where
  "wr_ok p w \<longleftrightarrow>
     wr_offset w < 8 \<and> unat (wr_state w) < 2 ^ wr_offset w \<and>
     p \<le> wr_pos w \<and> wr_pos w \<le> length (wr_buf w)"

definition wr_step :: "nat \<Rightarrow> bit_writer \<Rightarrow> bool list \<Rightarrow> bit_writer \<Rightarrow> bool" where
  "wr_step p w bs w' \<longleftrightarrow>
     wr_ok p w' \<and> wr_bits p w' = wr_bits p w @ bs \<and>
     length (wr_buf w') = length (wr_buf w) \<and> take p (wr_buf w') = take p (wr_buf w)"

lemma length_wr_bits: "wr_ok p w \<Longrightarrow> length (wr_bits p w) = 8 * (wr_pos w - p) + wr_offset w"
  by (auto simp: wr_bits_def wr_ok_def)

lemma wr_step_trans: "wr_step p w as w1 \<Longrightarrow> wr_step p w1 bs w2 \<Longrightarrow> wr_step p w (as @ bs) w2"
  by (simp add: wr_step_def)

lemma wr_step_refl: "wr_ok p w \<Longrightarrow> wr_step p w [] w"
  by (simp add: wr_step_def)

text \<open>Storing a whole byte that holds the pending bits followed by \<open>bs\<close>.\<close>

lemma put_byte_step:
  assumes "wr_ok p w" "wr_pos w < length (wr_buf w)"
    and "word_bits 8 b = word_bits (wr_offset w) (wr_state w) @ bs"
  shows "\<exists>w'. put_byte b w = Some w' \<and>
    wr_step p w bs (w'\<lparr>wr_offset := 0, wr_state := 0\<rparr>) \<and>
    wr_pos w' = Suc (wr_pos w) \<and> wr_buf w' = (wr_buf w)[wr_pos w := b]"
proof -
  let ?w' = "w\<lparr>wr_buf := (wr_buf w)[wr_pos w := b], wr_pos := Suc (wr_pos w)\<rparr>"
  have "drop p (take (Suc (wr_pos w)) ((wr_buf w)[wr_pos w := b])) =
        drop p (take (wr_pos w) (wr_buf w)) @ [b]"
    using assms(1,2) by (auto simp: take_Suc_conv_app_nth wr_ok_def)
  then have "wr_step p w bs (?w'\<lparr>wr_offset := 0, wr_state := 0\<rparr>)"
    using assms by (simp add: wr_step_def wr_ok_def wr_bits_def)
  with assms(2) show ?thesis by (simp add: put_byte_def)
qed

lemma word_bits_fill:
  fixes v :: "'a::len word" and s :: u8
  assumes "unat s < 2 ^ k" "k + n \<le> 8" "8 \<le> LENGTH('a)"
  shows "word_bits (k + n) (s OR ucast (push_bit k (v AND (push_bit n 1 - 1)))) =
         word_bits k s @ word_bits n v"
proof (rule nth_equalityI)
  fix i assume "i < length (word_bits (k + n) (s OR ucast (push_bit k (v AND (push_bit n 1 - 1)))))"
  then have i: "i < k + n" by simp
  show "word_bits (k + n) (s OR ucast (push_bit k (v AND (push_bit n 1 - 1)))) ! i =
        (word_bits k s @ word_bits n v) ! i"
  proof (cases "i < k")
    case True
    with i show ?thesis by (simp add: nth_append bit_simps)
  next
    case False
    then have "\<not> bit s i" using assms(1) by (simp add: bit_ge_of_less_2p)
    with i False assms(2,3) show ?thesis
      by (auto simp: nth_append bit_simps bits_simps dest: bit_imp_le_length)
  qed
qed simp

lemma write_first_step:
  fixes val :: "'a::len word"
  assumes ok: "wr_ok p w" and a8: "8 \<le> LENGTH('a)" and big: "8 \<le> bits + wr_offset w"
    and room: "length (wr_bits p w) + bits \<le> 8 * (length (wr_buf w) - p)"
  shows "\<exists>w1. write_first val bits w =
      Some (drop_bit (8 - wr_offset w) val, bits - (8 - wr_offset w), w1) \<and>
      wr_step p w (word_bits (8 - wr_offset w) val) w1 \<and> wr_offset w1 = 0 \<and> wr_state w1 = 0"
proof -
  let ?k = "8 - wr_offset w"
  let ?s = "wr_state w OR ucast (push_bit (wr_offset w) (val AND (push_bit ?k 1 - 1)))"
  have pos: "wr_pos w < length (wr_buf w)"
    using length_wr_bits [OF ok] room big ok by (auto simp: wr_ok_def)
  have "word_bits (wr_offset w + ?k) ?s = word_bits (wr_offset w) (wr_state w) @ word_bits ?k val"
    using ok a8 by (intro word_bits_fill) (auto simp: wr_ok_def)
  then have "word_bits 8 ?s = word_bits (wr_offset w) (wr_state w) @ word_bits ?k val"
    using ok by (simp add: wr_ok_def)
  then obtain w' where "put_byte ?s w = Some w'"
    and "wr_step p w (word_bits ?k val) (w'\<lparr>wr_offset := 0, wr_state := 0\<rparr>)"
    using put_byte_step [OF ok pos] by blast
  with big show ?thesis by (auto simp: write_first_def Let_def)
qed

lemma write_bytes_step:
  fixes val :: "'a::len word"
  assumes "wr_ok p w" "8 \<le> LENGTH('a)" "wr_offset w = 0" "wr_state w = 0"
    and "length (wr_bits p w) + bits \<le> 8 * (length (wr_buf w) - p)"
  shows "\<exists>w'. write_bytes val bits w =
      Some (drop_bit (8 * (bits div 8)) val, bits mod 8, w') \<and>
      wr_step p w (word_bits (8 * (bits div 8)) val) w' \<and> wr_offset w' = 0 \<and> wr_state w' = 0"
  using assms
proof (induction val bits w rule: write_bytes.induct)
  case (1 val bits w)
  show ?case
  proof (cases "8 \<le> bits")
    case False
    with "1.prems"(1,3,4) show ?thesis
      by (auto simp: write_bytes.simps [of val bits w] wr_step_refl)
  next
    case True
    let ?b = "ucast (val AND 255) :: u8"
    have pos: "wr_pos w < length (wr_buf w)"
      using length_wr_bits [OF "1.prems"(1)] "1.prems"(1,5) True by (auto simp: wr_ok_def)
    have b: "word_bits 8 ?b = word_bits 8 val"
      by (rule nth_equalityI)
        (use "1.prems"(2) in \<open>simp_all only: length_word_bits nth_word_bits bit_ucast_iff
          bit_and_iff bit_255, auto\<close>)
    obtain w1 where w1: "put_byte ?b w = Some w1"
        and "wr_step p w (word_bits 8 val) (w1\<lparr>wr_offset := 0, wr_state := 0\<rparr>)"
        and same: "wr_offset w1 = 0" "wr_state w1 = 0"
      using put_byte_step [OF "1.prems"(1) pos, of ?b "word_bits 8 val"] b "1.prems"(3,4)
      by (auto simp: put_byte_def split: if_splits)
    then have step: "wr_step p w (word_bits 8 val) w1" by (cases w1) simp
    then have "length (wr_bits p w1) + (bits - 8) \<le> 8 * (length (wr_buf w1) - p)"
      using True "1.prems"(5) by (simp add: wr_step_def)
    with "1.IH" [OF True w1] step same "1.prems"(2) obtain w' where
        w': "write_bytes (drop_bit 8 val) (bits - 8) w1 =
          Some (drop_bit (8 * ((bits - 8) div 8)) (drop_bit 8 val), (bits - 8) mod 8, w')"
        and step': "wr_step p w1 (word_bits (8 * ((bits - 8) div 8)) (drop_bit 8 val)) w'"
        and same': "wr_offset w' = 0" "wr_state w' = 0"
      by (auto simp: wr_step_def)
    have d: "8 * (bits div 8) = 8 + 8 * ((bits - 8) div 8)" "(bits - 8) mod 8 = bits mod 8"
      using True by (simp_all add: le_div_geq le_mod_geq)
    have "wr_step p w (word_bits (8 * (bits div 8)) val) w'"
      using wr_step_trans [OF step step'] by (simp only: d word_bits_add)
    with w' w1 same' d show ?thesis
      by (auto simp: write_bytes.simps [of val bits w] True add.commute)
  qed
qed

lemma write_last_step:
  fixes val :: "'a::len word"
  assumes ok: "wr_ok p w" and a8: "8 \<le> LENGTH('a)" and small: "wr_offset w + bits < 8"
  shows "wr_step p w (word_bits bits val) (write_last val bits w)"
proof -
  let ?s = "wr_state w OR ucast (push_bit (wr_offset w) (val AND (push_bit bits 1 - 1)))"
  have "word_bits (wr_offset w + bits) ?s =
        word_bits (wr_offset w) (wr_state w) @ word_bits bits val"
    using ok a8 small by (intro word_bits_fill) (auto simp: wr_ok_def)
  moreover have "unat ?s < 2 ^ (wr_offset w + bits)"
  proof (rule less_2p_of_no_high_bits)
    fix i assume i: "wr_offset w + bits \<le> i"
    then have "\<not> bit (wr_state w) i"
      using ok by (intro bit_ge_of_less_2p [of _ "wr_offset w"]) (auto simp: wr_ok_def)
    with i show "\<not> bit ?s i" by (auto simp: bit_simps bits_simps)
  qed
  ultimately show ?thesis
    using ok small by (simp add: wr_step_def write_last_def wr_ok_def wr_bits_def)
qed

text \<open>\<open>Write\<close> puts out exactly the \<open>bits\<close> low bits of the value.\<close>

lemma Write_step:
  fixes val :: "'a::len word"
  assumes ok: "wr_ok p w" and a8: "8 \<le> LENGTH('a)"
    and room: "length (wr_bits p w) + bits \<le> 8 * (length (wr_buf w) - p)"
  shows "\<exists>w'. Write val bits w = Some w' \<and> wr_step p w (word_bits bits val) w'"
proof (cases "8 \<le> bits + wr_offset w")
  case False
  then have "wr_step p w (word_bits bits val) (write_last val bits w)"
    using ok a8 by (intro write_last_step) auto
  with False show ?thesis
    by (auto simp: Write_def write_first_def write_bytes.simps [of val bits w])
next
  case True
  let ?k = "8 - wr_offset w" and ?m = "bits - (8 - wr_offset w)"
  obtain w1 where w1: "write_first val bits w = Some (drop_bit ?k val, ?m, w1)"
      and s1: "wr_step p w (word_bits ?k val) w1" and z1: "wr_offset w1 = 0" "wr_state w1 = 0"
    using write_first_step [OF ok a8 True room] by blast
  have ok1: "wr_ok p w1" and room1: "length (wr_bits p w1) + ?m \<le> 8 * (length (wr_buf w1) - p)"
    using s1 room True by (auto simp: wr_step_def)
  obtain w2 where w2: "write_bytes (drop_bit ?k val) ?m w1 =
        Some (drop_bit (8 * (?m div 8)) (drop_bit ?k val), ?m mod 8, w2)"
      and s2: "wr_step p w1 (word_bits (8 * (?m div 8)) (drop_bit ?k val)) w2"
      and z2: "wr_offset w2 = 0"
    using write_bytes_step [OF ok1 a8 z1 room1] by blast
  let ?v = "drop_bit (8 * (?m div 8)) (drop_bit ?k val)"
  have s3: "wr_step p w2 (word_bits (?m mod 8) ?v) (write_last ?v (?m mod 8) w2)"
    using s2 a8 z2 by (intro write_last_step) (auto simp: wr_step_def)
  have "bits = ?k + (8 * (?m div 8) + ?m mod 8)" using True by simp
  then have "word_bits bits val =
      word_bits ?k val @ word_bits (8 * (?m div 8)) (drop_bit ?k val) @ word_bits (?m mod 8) ?v"
    by (metis word_bits_add)
  with s1 s2 s3 w1 w2 show ?thesis
    by (auto simp: Write_def intro: wr_step_trans)
qed

text \<open>\<open>Flush\<close> pads the pending bits with zeros to a whole byte.\<close>

lemma Flush_step:
  assumes ok: "wr_ok p w" and room: "length (wr_bits p w) \<le> 8 * (length (wr_buf w) - p)"
  shows "\<exists>w'. Flush w = Some w' \<and> wr_offset w' = 0 \<and>
    wr_step p w (replicate ((8 - wr_offset w) mod 8) False) w'"
proof (cases "wr_offset w = 0")
  case True
  with ok show ?thesis by (auto simp: Flush_def wr_step_refl)
next
  case False
  have pos: "wr_pos w < length (wr_buf w)"
    using length_wr_bits [OF ok] room False ok by (auto simp: wr_ok_def)
  have "word_bits 8 (wr_state w) = word_bits (wr_offset w) (wr_state w) @
      replicate (8 - wr_offset w) False"
    by (rule nth_equalityI) (use ok in \<open>auto simp: nth_append wr_ok_def bit_ge_of_less_2p\<close>)
  then obtain w' where "put_byte (wr_state w) w = Some w'"
    and "wr_step p w (replicate (8 - wr_offset w) False) (w'\<lparr>wr_offset := 0, wr_state := 0\<rparr>)"
    using put_byte_step [OF ok pos] by blast
  moreover have "w'\<lparr>wr_offset := 0, wr_state := 0\<rparr> = w'\<lparr>wr_state := 0, wr_offset := 0\<rparr>" for w' :: bit_writer
    by simp
  ultimately show ?thesis using False by (auto simp: Flush_def)
qed

section \<open>What the reader promises\<close>

text \<open>
  \<open>rd_bits r\<close>: the bits still to be delivered, first those left over in \<open>state\<close>, then the
  unread bytes.
\<close>

definition rd_bits :: "bit_reader \<Rightarrow> bool list" where
  "rd_bits r = word_bits (rd_offset r) (rd_state r) @ buf_bits (drop (rd_pos r) (rd_buf r))"

definition rd_ok :: "bit_reader \<Rightarrow> bool" where
  "rd_ok r \<longleftrightarrow> rd_offset r < 8 \<and> unat (rd_state r) < 2 ^ rd_offset r \<and> rd_pos r \<le> length (rd_buf r)"

lemma length_rd_bits: "length (rd_bits r) = rd_offset r + 8 * (length (rd_buf r) - rd_pos r)"
  by (simp add: rd_bits_def)

lemma get_byte_None: "get_byte r = None \<longleftrightarrow> length (rd_buf r) \<le> rd_pos r"
  by (auto simp: get_byte_def)

lemma get_byte_Some:
  assumes "get_byte r = Some (c, r')"
  shows "buf_bits (drop (rd_pos r) (rd_buf r)) = word_bits 8 c @ buf_bits (drop (rd_pos r') (rd_buf r'))"
    and "rd_pos r' = Suc (rd_pos r)" "rd_pos r' \<le> length (rd_buf r')"
    and "rd_buf r' = rd_buf r" "rd_state r' = rd_state r" "rd_offset r' = rd_offset r"
  using assms by (auto simp: get_byte_def Cons_nth_drop_Suc [symmetric] split: if_splits)

lemma word_bits_or_push:
  fixes v x :: "'a::len word"
  assumes "unat v < 2 ^ k" "k + n \<le> LENGTH('a)"
  shows "word_bits (k + n) (v OR push_bit k x) = word_bits k v @ word_bits n x"
proof (rule nth_equalityI)
  fix i assume "i < length (word_bits (k + n) (v OR push_bit k x))"
  then show "word_bits (k + n) (v OR push_bit k x) ! i = (word_bits k v @ word_bits n x) ! i"
    using assms(2) bit_ge_of_less_2p [OF assms(1), of i]
    by (cases "i < k") (auto simp: nth_append bit_simps)
qed simp

lemma or_push_less:
  fixes v x :: "'a::len word"
  assumes "unat v < 2 ^ k" "\<And>i. n \<le> i \<Longrightarrow> \<not> bit x i"
  shows "unat (v OR push_bit k x) < 2 ^ (k + n)"
  using assms bit_ge_of_less_2p [OF assms(1)]
  by (intro less_2p_of_no_high_bits) (auto simp: bit_simps)

lemma bit_ucast_u8: "8 \<le> i \<Longrightarrow> \<not> bit (ucast (c :: u8) :: 'a::len word) i"
  by (auto simp: bit_simps dest: bit_imp_le_length)

lemma word_bits_ucast_u8: "8 \<le> LENGTH('a) \<Longrightarrow> n \<le> 8 \<Longrightarrow>
    word_bits n (ucast (c :: u8) :: 'a::len word) = word_bits n c"
  by (rule nth_equalityI) (auto simp: bit_simps)

text \<open>The byte loop, started with \<open>out\<close> bits already in \<open>val\<close>.\<close>

lemma read_bytes_step:
  fixes val :: "'a::len word"
  assumes "bits \<le> LENGTH('a)" "8 \<le> LENGTH('a)" "unat val < 2 ^ out" "out \<le> bits"
    and "rd_pos r \<le> length (rd_buf r)"
    and "bits - out \<le> 8 * (length (rd_buf r) - rd_pos r)"
  shows "\<exists>v out' r'. read_bytes val out bits r = Some (v, out', r') \<and>
      word_bits out val @ buf_bits (drop (rd_pos r) (rd_buf r)) =
      word_bits out' v @ buf_bits (drop (rd_pos r') (rd_buf r')) \<and>
      unat v < 2 ^ out' \<and> out' \<le> bits \<and> bits < out' + 8 \<and>
      rd_buf r' = rd_buf r \<and> rd_pos r' \<le> length (rd_buf r') \<and>
      bits - out' \<le> 8 * (length (rd_buf r') - rd_pos r')"
  using assms
proof (induction val out bits r rule: read_bytes.induct)
  case (1 val out bits r)
  show ?case
  proof (cases "out + 8 \<le> bits")
    case False
    with "1.prems" show ?thesis by (simp add: read_bytes.simps [of val out bits r])
  next
    case True
    with "1.prems"(6) obtain c r1 where c: "get_byte r = Some (c, r1)"
      by (cases "get_byte r") (auto simp: get_byte_None)
    note g = get_byte_Some [OF c]
    let ?v = "val OR push_bit out (ucast c)"
    have bits: "word_bits (out + 8) ?v = word_bits out val @ word_bits 8 c"
      using word_bits_or_push [OF "1.prems"(3), of 8 "ucast c"] True "1.prems"(1,2)
      by (simp add: word_bits_ucast_u8)
    have "unat ?v < 2 ^ (out + 8)"
      by (rule or_push_less [OF "1.prems"(3)]) (rule bit_ucast_u8)
    moreover have "bits - (out + 8) \<le> 8 * (length (rd_buf r1) - rd_pos r1)"
      using "1.prems"(5,6) True g by simp
    ultimately have "\<exists>v out' r'. read_bytes ?v (out + 8) bits r1 = Some (v, out', r') \<and>
      word_bits (out + 8) ?v @ buf_bits (drop (rd_pos r1) (rd_buf r1)) =
      word_bits out' v @ buf_bits (drop (rd_pos r') (rd_buf r')) \<and>
      unat v < 2 ^ out' \<and> out' \<le> bits \<and> bits < out' + 8 \<and>
      rd_buf r' = rd_buf r1 \<and> rd_pos r' \<le> length (rd_buf r') \<and>
      bits - out' \<le> 8 * (length (rd_buf r') - rd_pos r')"
      using "1.IH" [OF True c] "1.prems"(1,2) True g(3) by blast
    then show ?thesis
      by (simp add: read_bytes.simps [of val out bits r] True c bits g)
  qed
qed

text \<open>A value that lies within the bits kept from the last byte.\<close>

lemma Read_kept:
  assumes ok: "rd_ok r" and fits: "bits \<le> rd_offset r" and a8: "8 \<le> LENGTH('a::len)"
  shows "\<exists>(v :: 'a word) r'. Read bits r = Some (v, r') \<and> rd_ok r' \<and>
    rd_bits r = word_bits bits v @ rd_bits r' \<and> unat v < 2 ^ bits"
proof -
  let ?v = "ucast (rd_state r AND (push_bit bits 1 - 1)) :: 'a word"
  let ?r = "r\<lparr>rd_state := drop_bit bits (rd_state r), rd_offset := rd_offset r - bits\<rparr>"
  have "unat ?v < 2 ^ bits"
    by (rule less_2p_of_no_high_bits) (auto simp: bit_simps bits_simps)
  moreover have "word_bits bits ?v = word_bits bits (rd_state r)"
    by (rule nth_equalityI) (use fits ok a8 in \<open>auto simp: bit_simps bits_simps rd_ok_def\<close>)
  moreover have hi: "\<not> bit (rd_state r) j" if "rd_offset r \<le> j" for j
    using ok that by (auto simp: rd_ok_def dest: bit_ge_of_less_2p)
  have "unat (drop_bit bits (rd_state r)) < 2 ^ (rd_offset r - bits)"
    by (rule less_2p_of_no_high_bits) (simp add: bit_simps hi)
  then have "rd_ok ?r" using ok by (auto simp: rd_ok_def)
  ultimately show ?thesis
    using fits by (simp add: Read_def rd_bits_def word_bits_split [OF fits])
qed

text \<open>
  \<open>Read\<close> delivers the next \<open>bits\<close> bits as a value below \<open>2 ^ bits\<close>, whenever the source holds
  that many.
\<close>

lemma Read_step:
  assumes ok: "rd_ok r" and bits: "bits \<le> LENGTH('a::len)" and a8: "8 \<le> LENGTH('a)"
    and room: "bits \<le> length (rd_bits r)"
  shows "\<exists>(v :: 'a word) r'. Read bits r = Some (v, r') \<and> rd_ok r' \<and>
    rd_bits r = word_bits bits v @ rd_bits r' \<and> unat v < 2 ^ bits"
proof (cases "bits \<le> rd_offset r")
  case True
  then show ?thesis by (rule Read_kept [OF ok _ a8])
next
  case False
  have "unat (ucast (rd_state r) :: 'a word) < 2 ^ rd_offset r"
    using ok by (intro less_2p_of_no_high_bits)
      (auto simp: bit_simps rd_ok_def dest: bit_ge_of_less_2p)
  moreover have "word_bits (rd_offset r) (ucast (rd_state r) :: 'a word) =
      word_bits (rd_offset r) (rd_state r)"
    using ok a8 by (intro word_bits_ucast_u8) (auto simp: rd_ok_def)
  moreover have "bits - rd_offset r \<le> 8 * (length (rd_buf r) - rd_pos r)"
    using room by (simp add: length_rd_bits le_diff_conv add.commute)
  ultimately obtain v :: "'a word" and out r1
    where v: "read_bytes (ucast (rd_state r)) (rd_offset r) bits r = Some (v, out, r1)"
      and src: "rd_bits r = word_bits out v @ buf_bits (drop (rd_pos r1) (rd_buf r1))"
      and lim: "unat v < 2 ^ out" "out \<le> bits" "bits < out + 8"
        "rd_pos r1 \<le> length (rd_buf r1)" "bits - out \<le> 8 * (length (rd_buf r1) - rd_pos r1)"
    using read_bytes_step [of bits "ucast (rd_state r) :: 'a word" "rd_offset r" r]
      bits a8 False ok by (auto simp: rd_ok_def rd_bits_def)
  show ?thesis
  proof (cases "out < bits")
    case True
    with lim(5) obtain c r2 where c: "get_byte r1 = Some (c, r2)"
      by (cases "get_byte r1") (auto simp: get_byte_None)
    note g = get_byte_Some [OF c]
    let ?n = "bits - out"
    let ?x = "ucast c AND (push_bit ?n 1 - 1) :: 'a word"
    have x: "word_bits ?n ?x = word_bits ?n c"
      by (rule nth_equalityI) (use lim a8 in \<open>auto simp: bit_simps bits_simps\<close>)
    have "word_bits bits (v OR push_bit out ?x) = word_bits out v @ word_bits ?n c"
      using word_bits_or_push [OF lim(1), of ?n ?x] lim(2) bits x by simp
    moreover have "unat (v OR push_bit out ?x) < 2 ^ bits"
      using or_push_less [OF lim(1), of ?n ?x] lim(2) by (auto simp: bit_simps bits_simps)
    moreover have "unat (drop_bit ?n c) < 2 ^ (8 - ?n)"
      by (rule less_2p_of_no_high_bits) (auto simp: bit_simps dest: bit_imp_le_length)
    moreover have "word_bits 8 c = word_bits ?n c @ word_bits (8 - ?n) (drop_bit ?n c)"
      using lim(3) by (intro word_bits_split) simp
    ultimately show ?thesis
      using False True v c g src lim(3)
      by (auto simp: Read_def read_last_def rd_ok_def rd_bits_def)
  next
    case False
    with lim(2) have "out = bits" by simp
    with v src lim \<open>\<not> bits \<le> rd_offset r\<close> show ?thesis
      by (auto simp: Read_def read_last_def rd_ok_def rd_bits_def)
  qed
qed

text \<open>When the source is short, \<open>Read\<close> loads past the end of the buffer.\<close>

lemma read_bytes_short:
  "rd_pos r \<le> length (rd_buf r) \<Longrightarrow> out \<le> bits \<Longrightarrow>
   8 * (length (rd_buf r) - rd_pos r) < bits - out \<Longrightarrow>
   (case read_bytes (val :: 'a::len word) out bits r of None \<Rightarrow> True
    | Some (v, out', r') \<Rightarrow> out' < bits \<and> length (rd_buf r') \<le> rd_pos r')"
proof (induction val out bits r rule: read_bytes.induct)
  case (1 val out bits r)
  show ?case
  proof (cases "out + 8 \<le> bits")
    case False
    with "1.prems" show ?thesis by (auto simp: read_bytes.simps [of val out bits r])
  next
    case True
    show ?thesis
    proof (cases "get_byte r")
      case None
      with True show ?thesis by (simp add: read_bytes.simps [of val out bits r])
    next
      case (Some cr)
      then obtain c r1 where c: "get_byte r = Some (c, r1)" by (cases cr) auto
      note g = get_byte_Some [OF c]
      have "8 * (length (rd_buf r1) - rd_pos r1) < bits - (out + 8)"
        using "1.prems"(1,3) g by simp
      with "1.IH" [OF True c refl] True c g show ?thesis
        by (auto simp: read_bytes.simps [of val out bits r])
    qed
  qed
qed

lemma Read_short:
  assumes ok: "rd_ok r" and short: "length (rd_bits r) < bits"
  shows "(Read bits r :: ('a::len word \<times> bit_reader) option) = None"
proof -
  have "\<not> bits \<le> rd_offset r" using short by (simp add: length_rd_bits)
  moreover have "case read_bytes (ucast (rd_state r) :: 'a word) (rd_offset r) bits r of None \<Rightarrow> True
      | Some (v, out', r') \<Rightarrow> out' < bits \<and> length (rd_buf r') \<le> rd_pos r'"
    using ok short by (intro read_bytes_short) (auto simp: rd_ok_def length_rd_bits)
  ultimately show ?thesis
    by (auto simp: Read_def read_last_def get_byte_None [symmetric] split: option.splits)
qed

section \<open>The codec as an interface\<close>

text \<open>
  What a message codec needs of the bit streams, for values of one type. A sink appends the
  encoding of a value as long as its capacity lasts and leaves everything before its start
  alone; a source delivers the value whose encoding comes next.
\<close>

locale bit_sink =
  fixes put :: "'v \<Rightarrow> nat \<Rightarrow> 'w \<Rightarrow> 'w option"
    and enc :: "nat \<Rightarrow> 'v \<Rightarrow> bool list"
    and sink_ok :: "'w \<Rightarrow> bool"
    and out :: "'w \<Rightarrow> bool list"
    and capacity :: "'w \<Rightarrow> nat"
    and before :: "'w \<Rightarrow> bytes"
  assumes length_enc: "length (enc n v) = n"
    and put: "sink_ok w \<Longrightarrow> length (out w) + n \<le> capacity w \<Longrightarrow>
      \<exists>w'. put v n w = Some w' \<and> sink_ok w' \<and> out w' = out w @ enc n v \<and>
        capacity w' = capacity w \<and> before w' = before w"
begin

lemma put_all:
  assumes "sink_ok w" "length (out w) + n * length vs \<le> capacity w"
  shows "\<exists>w'. fold_opt (\<lambda>v. put v n) vs w = Some w' \<and> sink_ok w' \<and>
    out w' = out w @ concat (map (enc n) vs) \<and> capacity w' = capacity w \<and> before w' = before w"
  using assms
proof (induction vs arbitrary: w)
  case (Cons v vs)
  then obtain w1 where "put v n w = Some w1" "sink_ok w1" "out w1 = out w @ enc n v"
    and "capacity w1 = capacity w" "before w1 = before w"
    using put [of w n v] by auto
  with Cons.IH [of w1] Cons.prems(2) show ?case by (simp add: length_enc algebra_simps)
qed simp

lemma length_enc_all: "length (concat (map (enc n) vs)) = n * length vs"
  by (induction vs) (simp_all add: length_enc)

end

locale bit_source =
  fixes get :: "nat \<Rightarrow> 'r \<Rightarrow> ('v \<times> 'r) option"
    and enc :: "nat \<Rightarrow> 'v \<Rightarrow> bool list"
    and fits :: "nat \<Rightarrow> 'v \<Rightarrow> bool"
    and widest :: nat
    and source_ok :: "'r \<Rightarrow> bool"
    and avail :: "'r \<Rightarrow> bool list"
  assumes get: "source_ok r \<Longrightarrow> n \<le> widest \<Longrightarrow> n \<le> length (avail r) \<Longrightarrow>
      \<exists>v r'. get n r = Some (v, r') \<and> source_ok r' \<and> avail r = enc n v @ avail r' \<and> fits n v"
    and get_short: "source_ok r \<Longrightarrow> length (avail r) < n \<Longrightarrow> get n r = None"
    and enc_inject: "fits n v \<Longrightarrow> fits n v' \<Longrightarrow> enc n v = enc n v' \<Longrightarrow> v = v'"
    and length_enc_source: "length (enc n v) = n"
begin

lemma get_enc:
  assumes "source_ok r" "n \<le> widest" "avail r = enc n v @ rest" "fits n v"
  shows "\<exists>r'. get n r = Some (v, r') \<and> source_ok r' \<and> avail r' = rest"
proof -
  obtain v' r' where "get n r = Some (v', r')" "source_ok r'" and eq: "enc n v @ rest = enc n v' @ avail r'"
    and "fits n v'"
    using get [of r n] assms by (auto simp: length_enc_source)
  moreover have "v' = v"
    using eq assms(4) \<open>fits n v'\<close> by (auto simp: length_enc_source append_eq_append_conv intro: enc_inject)
  ultimately show ?thesis using eq by simp
qed

lemma get_all:
  assumes "source_ok r" "n \<le> widest" "avail r = concat (map (enc n) vs) @ rest"
    and "list_all (fits n) vs"
  shows "\<exists>r'. repeat_opt (length vs) (get n) r = Some (vs, r') \<and> source_ok r' \<and> avail r' = rest"
  using assms(1,3,4)
proof (induction vs arbitrary: r)
  case (Cons v vs)
  then obtain r1 where "get n r = Some (v, r1)" "source_ok r1" "avail r1 = concat (map (enc n) vs) @ rest"
    using get_enc [of r n v "concat (map (enc n) vs) @ rest"] assms(2) by auto
  with Cons.IH [of r1] Cons.prems(3) show ?case by auto
qed simp

lemma get_all_short:
  assumes "source_ok r" "n \<le> widest" "length (avail r) < n * k"
  shows "repeat_opt k (get n) r = None"
  using assms(1,3)
proof (induction k arbitrary: r)
  case (Suc k)
  show ?case
  proof (cases "n \<le> length (avail r)")
    case True
    then obtain v r1 where "get n r = Some (v, r1)" "source_ok r1" "avail r = enc n v @ avail r1"
      using get [OF Suc.prems(1) assms(2)] by blast
    with Suc.IH [of r1] Suc.prems(2) show ?thesis by (simp add: length_enc_source)
  next
    case False
    with get_short [OF Suc.prems(1)] show ?thesis by simp
  qed
qed simp

end

text \<open>Sink and source over the same encoding: what was put is what is got.\<close>

locale bit_codec =
  bit_sink put enc sink_ok out capacity before +
  bit_source get enc fits widest source_ok avail
  for put :: "'v \<Rightarrow> nat \<Rightarrow> 'w \<Rightarrow> 'w option" and enc sink_ok out capacity before
    and get :: "nat \<Rightarrow> 'r \<Rightarrow> ('v \<times> 'r) option" and fits widest source_ok avail
begin

lemma put_get_all:
  assumes "sink_ok w" "out w = []" "n * length vs \<le> capacity w"
    and "n \<le> widest" "list_all (fits n) vs"
  shows "\<exists>w'. fold_opt (\<lambda>v. put v n) vs w = Some w' \<and>
    (\<forall>r rest. source_ok r \<and> avail r = out w' @ rest \<longrightarrow>
       (\<exists>r'. repeat_opt (length vs) (get n) r = Some (vs, r') \<and> source_ok r' \<and> avail r' = rest))"
proof -
  obtain w' where "fold_opt (\<lambda>v. put v n) vs w = Some w'" "out w' = concat (map (enc n) vs)"
    using put_all [of w n vs] assms(1-3) by auto
  with get_all [OF _ assms(4) _ assms(5)] show ?thesis by metis
qed

end

text \<open>
  The writer and reader of the library satisfy the interface at the three value types the
  messages use.
\<close>

definition wr_capacity :: "nat \<Rightarrow> bit_writer \<Rightarrow> nat" where
  "wr_capacity p w = 8 * (length (wr_buf w) - p)"

definition wr_before :: "nat \<Rightarrow> bit_writer \<Rightarrow> bytes" where
  "wr_before p w = take p (wr_buf w)"

definition fits_bits :: "nat \<Rightarrow> 'a::len word \<Rightarrow> bool" where
  "fits_bits n v \<longleftrightarrow> unat v < 2 ^ n"

lemma Write_sink:
  fixes v :: "'a::len word"
  assumes "8 \<le> LENGTH('a)" "wr_ok p w" "length (wr_bits p w) + n \<le> wr_capacity p w"
  shows "\<exists>w'. Write v n w = Some w' \<and> wr_ok p w' \<and> wr_bits p w' = wr_bits p w @ word_bits n v \<and>
    wr_capacity p w' = wr_capacity p w \<and> wr_before p w' = wr_before p w"
  using Write_step [of p w n v] assms by (auto simp: wr_step_def wr_capacity_def wr_before_def)

lemma Read_source:
  assumes "8 \<le> LENGTH('a::len)" "rd_ok r" "n \<le> LENGTH('a)" "n \<le> length (rd_bits r)"
  shows "\<exists>(v :: 'a word) r'. Read n r = Some (v, r') \<and> rd_ok r' \<and>
    rd_bits r = word_bits n v @ rd_bits r' \<and> fits_bits n v"
  using Read_step [of r n, where 'a = 'a] assms by (auto simp: fits_bits_def)

lemma fits_bits_inject: "fits_bits n v \<Longrightarrow> fits_bits n w \<Longrightarrow> word_bits n v = word_bits n w \<Longrightarrow> v = w"
  by (auto simp: fits_bits_def intro: word_bits_inject)

lemmas codec_laws = Write_sink Read_source Read_short fits_bits_inject length_word_bits

interpretation c8: bit_codec "Write :: u8 \<Rightarrow> _" word_bits "wr_ok p" "wr_bits p" "wr_capacity p"
    "wr_before p" Read fits_bits 8 rd_ok rd_bits for p
  by unfold_locales (rule codec_laws; simp)+

interpretation c32: bit_codec "Write :: u32 \<Rightarrow> _" word_bits "wr_ok p" "wr_bits p" "wr_capacity p"
    "wr_before p" Read fits_bits 32 rd_ok rd_bits for p
  by unfold_locales (rule codec_laws; simp)+

interpretation c64: bit_codec "Write :: u64 \<Rightarrow> _" word_bits "wr_ok p" "wr_bits p" "wr_capacity p"
    "wr_before p" Read fits_bits 64 rd_ok rd_bits for p
  by unfold_locales (rule codec_laws; simp)+

text \<open>Fresh streams, and what \<open>Flush\<close> leaves in a buffer of exactly the right size.\<close>

lemma BitWriter_fresh [simp]:
  "wr_bits p (BitWriter buf p) = []" "wr_capacity p (BitWriter buf q) = 8 * (length buf - p)"
  "wr_before p (BitWriter buf q) = take p buf" "wr_buf (BitWriter buf q) = buf"
  by (simp_all add: wr_bits_def BitWriter_def wr_capacity_def wr_before_def)

lemma BitWriter_ok [simp]: "p \<le> length buf \<Longrightarrow> wr_ok p (BitWriter buf p)"
  by (simp add: wr_ok_def BitWriter_def)

lemma BitReader_fresh [simp]:
  "p \<le> length buf \<Longrightarrow> rd_ok (BitReader buf p)"
  "rd_bits (BitReader buf p) = buf_bits (drop p buf)"
  by (simp_all add: rd_ok_def rd_bits_def BitReader_def)

lemma Flush_all:
  assumes ok: "wr_ok p w" and len: "length (wr_buf w) = p + Bits2Bytes (length (wr_bits p w))"
  shows "\<exists>w'. Flush w = Some w' \<and> wr_pos w' = length (wr_buf w) \<and>
    length (wr_buf w') = length (wr_buf w) \<and> wr_before p w' = wr_before p w \<and>
    (\<exists>pad. buf_bits (drop p (wr_buf w')) = wr_bits p w @ replicate pad False)"
proof -
  have "length (wr_bits p w) \<le> 8 * (length (wr_buf w) - p)"
    using Bits2Bytes_bounds(1) len by simp
  then obtain w' where w': "Flush w = Some w'" "wr_offset w' = 0"
    and step: "wr_step p w (replicate ((8 - wr_offset w) mod 8) False) w'"
    using Flush_step [OF ok] by blast
  then have ok': "wr_ok p w'" and bits: "wr_bits p w' = wr_bits p w @ replicate ((8 - wr_offset w) mod 8) False"
    and len': "length (wr_buf w') = length (wr_buf w)"
    by (auto simp: wr_step_def)
  have "8 * (wr_pos w' - p) = length (wr_bits p w) + (8 - wr_offset w) mod 8"
    using length_wr_bits [OF ok'] bits w'(2) by simp
  then have "wr_pos w' - p = Bits2Bytes (length (wr_bits p w))"
    unfolding Bits2Bytes_ceil using ok length_wr_bits [OF ok] by (auto simp: wr_ok_def)
  then have "wr_pos w' = length (wr_buf w)"
    using ok' len by (auto simp: wr_ok_def)
  with w' step bits len' show ?thesis
    by (auto simp: wr_bits_def wr_step_def wr_before_def intro: exI)
qed

section \<open>Properties of the helpers and the streams\<close>

text \<open>C27. Writing values of \<open>n\<close> bits each and flushing fills a buffer of exactly \<open>Bits2Bytes\<close> bytes,
  and reading \<open>n\<close> bits at a time from it gives the values back, in their order.\<close>

theorem bit_stream_roundtrip:
  fixes vs :: "u64 list"
  assumes "n \<le> 64" "\<forall>v \<in> set vs. unat v < 2 ^ n" "length buf = Bits2Bytes (n * length vs)"
  shows "\<exists>w w' r. fold_opt (\<lambda>v. Write v n) vs (BitWriter buf 0) = Some w \<and> Flush w = Some w' \<and>
    length (wr_buf w') = length buf \<and> repeat_opt (length vs) (Read n) (BitReader (wr_buf w') 0) = Some (vs, r)"
proof -
  have "n * length vs \<le> 8 * length buf" using Bits2Bytes_bounds(1) assms(3) by metis
  then obtain w where w: "fold_opt (\<lambda>v. Write v n) vs (BitWriter buf 0) = Some w" "wr_ok 0 w"
      "wr_bits 0 w = concat (map (word_bits n) vs)" "wr_capacity 0 w = 8 * length buf"
    using c64.put_all [of 0 "BitWriter buf 0" n vs] by auto
  have len: "length (wr_bits 0 w) = n * length vs" using w(3) c64.length_enc_all [of n vs] by simp
  have "length (wr_buf w) = length buf" using w(4) by (simp add: wr_capacity_def)
  then obtain w' pad where w': "Flush w = Some w'" "length (wr_buf w') = length buf"
      "buf_bits (wr_buf w') = concat (map (word_bits n) vs) @ replicate pad False"
    using Flush_all [OF w(2)] w(3) len assms(3) by auto
  have "list_all (fits_bits n) vs" using assms(2) by (simp add: fits_bits_def list_all_iff)
  then obtain r where "repeat_opt (length vs) (Read n) (BitReader (wr_buf w') 0) = Some (vs, r)"
    using c64.get_all [of "BitReader (wr_buf w') 0" n vs "replicate pad False"] assms(1) w'(3) by auto
  with w(1) w' show ?thesis by auto
qed

theorem bit_stream_roundtrip_witness:
  "\<exists>w w' r. fold_opt (\<lambda>v. Write v 11) [5 :: u64, 2047, 1024] (BitWriter [9, 9, 9, 9, 9] 0) = Some w \<and> Flush w = Some w' \<and>
    length (wr_buf w') = length [9 :: u8, 9, 9, 9, 9] \<and>
    repeat_opt (length [5 :: u64, 2047, 1024]) (Read 11) (BitReader (wr_buf w') 0) = Some ([5, 2047, 1024 :: u64], r)"
  by (rule bit_stream_roundtrip) (simp_all add: Bits2Bytes_def BITS_IN_ONE_BYTE_def)

text \<open>The writer stays inside its part of the buffer: while the bits fit, a \<open>Write\<close> succeeds, appends
  exactly the low \<open>n\<close> bits of the value, and leaves the length and every byte before the start as they are.\<close>

lemma bit_writer_safe:
  fixes v :: u32
  assumes "wr_ok p w" "length (wr_bits p w) + n \<le> 8 * (length (wr_buf w) - p)"
  shows "\<exists>w'. Write v n w = Some w' \<and> wr_ok p w' \<and> wr_bits p w' = wr_bits p w @ word_bits n v \<and>
    length (wr_buf w') = length (wr_buf w) \<and> take p (wr_buf w') = take p (wr_buf w)"
  using Write_step [of p w n v] assms by (auto simp: wr_step_def)

text \<open>\<open>setDifference\<close> is the symmetric difference of the two collections, without repetition.\<close>

lemma setDifference_symmetric:
  "set (setDifference sa sb) = (set sa - set sb) \<union> (set sb - set sa) \<and> distinct (setDifference sa sb)"
  by (simp add: set_setDifference distinct_setDifference)

end
