(* ===== verification/Minisketch_Api.thy ===== *)
theory Minisketch_Api
  imports Xor_Algebra Bit_Utils
begin

text \<open>
  The minisketch library (\<open>src/3rd/include/minisketch.h\<close> declares it; its code is not part of the
  repository) is a parameter of the model: a record of the functions the code calls.
  \<open>ms_contract\<close> collects what the header and the library's documentation promise, for sketches
  of one element size and capacity; a null pointer is \<open>None\<close>.
\<close>

record 'sk minisketch_api =
  ms_create :: "u32 \<Rightarrow> u32 \<Rightarrow> nat \<Rightarrow> 'sk option"
  ms_add_uint64 :: "'sk \<Rightarrow> u64 \<Rightarrow> 'sk"
  ms_merge :: "'sk \<Rightarrow> 'sk \<Rightarrow> 'sk"
  ms_decode :: "'sk \<Rightarrow> nat \<Rightarrow> u64 list option"
  ms_serialize :: "'sk \<Rightarrow> bytes"
  ms_deserialize :: "'sk \<Rightarrow> bytes \<Rightarrow> 'sk"

text \<open>The sketch of a list of elements: created empty, each element added in turn.\<close>

definition sketch_of :: "'sk minisketch_api \<Rightarrow> u32 \<Rightarrow> nat \<Rightarrow> u64 list \<Rightarrow> 'sk option" where
  "sketch_of api m t es =
     map_option (\<lambda>s. fold (\<lambda>e s. ms_add_uint64 api s e) es s) (ms_create api m 0 t)"

text \<open>
  The elements a list leaves in a sketch of element size \<open>m\<close>: values are truncated to \<open>m\<close> bits,
  zero is ignored, adding an element twice removes it.
\<close>

definition sketch_elems :: "nat \<Rightarrow> u64 list \<Rightarrow> u64 set" where
  "sketch_elems m es = odd_set (filter (\<lambda>e. e \<noteq> 0) (map (take_bit m) es))"

text \<open>
  The documented behaviour: creation succeeds; merging is the exclusive or of the elements; a
  sketch with no more elements than its capacity decodes to exactly them; the output of
  \<open>decode\<close> never exceeds \<open>max_elements\<close>; a sketch serializes to \<open>m * t\<close> bits rounded up to
  bytes, deserializing looks at those bits only and restores the sketch.
\<close>

definition ms_contract :: "'sk minisketch_api \<Rightarrow> u32 \<Rightarrow> nat \<Rightarrow> bool" where
  "ms_contract api m t \<longleftrightarrow>
     ms_create api m 0 t \<noteq> None \<and>
     (\<forall>es fs a b. sketch_of api m t es = Some a \<and> sketch_of api m t fs = Some b \<longrightarrow>
        sketch_of api m t (es @ fs) = Some (ms_merge api a b)) \<and>
     (\<forall>es a k. sketch_of api m t es = Some a \<and> card (sketch_elems (unat m) es) \<le> t \<and> t \<le> k \<longrightarrow>
        (\<exists>xs. ms_decode api a k = Some xs \<and> distinct xs \<and> set xs = sketch_elems (unat m) es)) \<and>
     (\<forall>a k xs. ms_decode api a k = Some xs \<longrightarrow> length xs \<le> k) \<and>
     (\<forall>es a. sketch_of api m t es = Some a \<longrightarrow>
        length (ms_serialize api a) = Bits2Bytes (unat m * t)) \<and>
     (\<forall>es fs a b bs. sketch_of api m t es = Some a \<and> sketch_of api m t fs = Some b \<and>
        take (unat m * t) (buf_bits bs) = take (unat m * t) (buf_bits (ms_serialize api a)) \<longrightarrow>
        ms_deserialize api b bs = a)"

lemma ms_contractD:
  assumes "ms_contract api m t"
  shows ms_created: "ms_create api m 0 t \<noteq> None"
    and ms_merged: "sketch_of api m t es = Some a \<Longrightarrow> sketch_of api m t fs = Some b \<Longrightarrow>
      sketch_of api m t (es @ fs) = Some (ms_merge api a b)"
    and ms_decoded: "sketch_of api m t es = Some a \<Longrightarrow> card (sketch_elems (unat m) es) \<le> t \<Longrightarrow>
      t \<le> k \<Longrightarrow> \<exists>xs. ms_decode api a k = Some xs \<and> distinct xs \<and> set xs = sketch_elems (unat m) es"
    and ms_decode_bound: "ms_decode api a k = Some xs \<Longrightarrow> length xs \<le> k"
    and ms_serialized: "sketch_of api m t es = Some a \<Longrightarrow>
      length (ms_serialize api a) = Bits2Bytes (unat m * t)"
    and ms_deserialized: "sketch_of api m t es = Some a \<Longrightarrow> sketch_of api m t fs = Some b \<Longrightarrow>
      take (unat m * t) (buf_bits bs) = take (unat m * t) (buf_bits (ms_serialize api a)) \<Longrightarrow>
      ms_deserialize api b bs = a"
  using assms unfolding ms_contract_def by blast+

lemma sketch_of_Some: "ms_contract api m t \<Longrightarrow> \<exists>a. sketch_of api m t es = Some a"
  using ms_created by (fastforce simp: sketch_of_def)

lemma sketch_of_snoc:
  "sketch_of api m t (es @ [e]) = map_option (\<lambda>s. ms_add_uint64 api s e) (sketch_of api m t es)"
  by (cases "ms_create api m 0 t") (simp_all add: sketch_of_def)

text \<open>Elements in \<open>1 .. 2 ^ m - 1\<close> are kept as they are.\<close>

lemma sketch_elems_in_range:
  assumes "\<And>e. e \<in> set es \<Longrightarrow> e \<noteq> 0 \<and> unat e < 2 ^ m"
  shows "sketch_elems m es = odd_set es"
proof -
  have "take_bit m e = e" if "e \<in> set es" for e
  proof (rule bit_word_eqI)
    fix i show "bit (take_bit m e) i = bit e i"
      using assms [OF that] bit_ge_of_less_2p [of e m i] by (cases "i < m") (auto simp: bit_take_bit_iff)
  qed
  then have "map (take_bit m) es = es" by (simp add: map_idI)
  moreover have "filter (\<lambda>e. e \<noteq> 0) es = es" using assms by simp
  ultimately show ?thesis by (simp add: sketch_elems_def)
qed

section \<open>An instance\<close>

text \<open>
  A bitmap over the elements \<open>1 .. 2 ^ m - 1\<close>, kept in \<open>m * t\<close> bits: a sketch that meets the
  contract whenever \<open>2 ^ m - 1 \<le> m * t\<close>. It shows that the contract can hold and lets closed
  instances be evaluated; no property of the development is about it.
\<close>

definition bitmap_toggle :: "nat \<Rightarrow> bool list \<Rightarrow> u64 \<Rightarrow> bool list" where
  "bitmap_toggle m s e =
     (let k = unat (take_bit m e) in if k = 0 then s else s[k - 1 := \<not> s ! (k - 1)])"

definition bitmap_elems :: "bool list \<Rightarrow> u64 list" where
  "bitmap_elems s = map (\<lambda>k. of_nat (Suc k)) (filter (\<lambda>k. s ! k) [0..<length s])"

fun pack_byte :: "bool list \<Rightarrow> u8" where
  "pack_byte [] = 0"
| "pack_byte (b # bs) = (if b then 1 else 0) + 2 * pack_byte bs"

fun pack_bytes :: "nat \<Rightarrow> bool list \<Rightarrow> bytes" where
  "pack_bytes 0 bs = []"
| "pack_bytes (Suc n) bs = pack_byte (take 8 bs) # pack_bytes n (drop 8 bs)"

definition bitmap_api :: "nat \<Rightarrow> nat \<Rightarrow> (bool list) minisketch_api" where
  "bitmap_api m t =
     \<lparr>ms_create = (\<lambda>_ _ _. Some (replicate (m * t) False)),
      ms_add_uint64 = bitmap_toggle m,
      ms_merge = (\<lambda>a b. map2 (\<noteq>) a b),
      ms_decode = (\<lambda>s k. if length (bitmap_elems s) \<le> k then Some (bitmap_elems s) else None),
      ms_serialize = (\<lambda>s. pack_bytes (Bits2Bytes (length s)) s),
      ms_deserialize = (\<lambda>s bs. take (length s) (buf_bits bs))\<rparr>"

lemma bitmap_api_simps [simp]:
  "ms_create (bitmap_api m t) m' i t' = Some (replicate (m * t) False)"
  "ms_add_uint64 (bitmap_api m t) = bitmap_toggle m"
  "ms_merge (bitmap_api m t) a b = map2 (\<noteq>) a b"
  "ms_decode (bitmap_api m t) a k = (if length (bitmap_elems a) \<le> k then Some (bitmap_elems a) else None)"
  "ms_serialize (bitmap_api m t) a = pack_bytes (Bits2Bytes (length a)) a"
  "ms_deserialize (bitmap_api m t) a bs = take (length a) (buf_bits bs)"
  by (simp_all add: bitmap_api_def)

text \<open>The bitmap of a set of elements, and what each operation does to it.\<close>

definition bitmap_of :: "nat \<Rightarrow> u64 set \<Rightarrow> bool list" where
  "bitmap_of n S = map (\<lambda>k. \<exists>e \<in> S. unat e = Suc k) [0..<n]"

lemma length_bitmap_of [simp]: "length (bitmap_of n S) = n"
  by (simp add: bitmap_of_def)

lemma bitmap_of_empty: "bitmap_of n {} = replicate n False"
  by (rule nth_equalityI) (simp_all add: bitmap_of_def)

lemma of_nat_unat_u64: "of_nat (unat e) = (e :: u64)"
  by simp

lemma unat_witness: "unat e = Suc k \<Longrightarrow> (\<exists>f \<in> S. unat f = Suc k) \<longleftrightarrow> e \<in> S"
  for e :: u64
  by (metis word_unat_eq_iff)

lemma nth_bitmap_of: "i < n \<Longrightarrow> bitmap_of n S ! i \<longleftrightarrow> (\<exists>e \<in> S. unat e = Suc i)"
  by (simp add: bitmap_of_def)

lemma bitmap_of_sym_diff: "bitmap_of n (sym_diff A B) = map2 (\<noteq>) (bitmap_of n A) (bitmap_of n B)"
proof (rule nth_equalityI)
  fix i assume "i < length (bitmap_of n (sym_diff A B))"
  moreover have "(\<exists>e \<in> sym_diff A B. unat e = Suc i) \<longleftrightarrow> (\<exists>e \<in> A. unat e = Suc i) \<noteq> (\<exists>e \<in> B. unat e = Suc i)"
  proof (cases "\<exists>e :: u64. unat e = Suc i")
    case True
    then obtain e :: u64 where "unat e = Suc i" ..
    from unat_witness [OF this] show ?thesis by auto
  qed auto
  ultimately show "bitmap_of n (sym_diff A B) ! i = map2 (\<noteq>) (bitmap_of n A) (bitmap_of n B) ! i"
    by (simp add: nth_bitmap_of)
qed simp

lemma bitmap_of_toggle:
  "bitmap_toggle m (bitmap_of n S) e =
   bitmap_of n (sym_diff S (if take_bit m e = 0 then {} else {take_bit m e}))"
proof (cases "take_bit m e = 0")
  case True
  then show ?thesis by (simp add: bitmap_toggle_def)
next
  case False
  then obtain k where k: "unat (take_bit m e) = Suc k"
    by (metis not0_implies_Suc unat_eq_0)
  have "(bitmap_of n S)[k := \<not> bitmap_of n S ! k] = bitmap_of n (sym_diff S {take_bit m e})"
  proof (rule nth_equalityI)
    fix i assume "i < length ((bitmap_of n S)[k := \<not> bitmap_of n S ! k])"
    then have i: "i < n" by simp
    show "(bitmap_of n S)[k := \<not> bitmap_of n S ! k] ! i = bitmap_of n (sym_diff S {take_bit m e}) ! i"
    proof (cases "i = k")
      case True
      then show ?thesis using i k by (simp add: nth_bitmap_of unat_witness [OF k] del: Diff_insert0)
    next
      case False
      then show ?thesis using i k by (auto simp: nth_bitmap_of)
    qed
  qed simp
  then show ?thesis using False k by (simp add: bitmap_toggle_def Let_def)
qed

lemma sketch_elems_snoc:
  "sketch_elems m (es @ [e]) = sym_diff (sketch_elems m es) (if take_bit m e = 0 then {} else {take_bit m e})"
  by (simp add: sketch_elems_def odd_set_append odd_set_Cons)

lemma sketch_elems_append:
  "sketch_elems m (es @ fs) = sym_diff (sketch_elems m es) (sketch_elems m fs)"
  by (simp add: sketch_elems_def odd_set_append)

lemma sketch_of_bitmap: "sketch_of (bitmap_api m t) m' t es = Some (bitmap_of (m * t) (sketch_elems m es))"
proof (induction es rule: rev_induct)
  case Nil
  show ?case by (simp add: sketch_of_def bitmap_api_def sketch_elems_def bitmap_of_empty)
next
  case (snoc e es)
  then show ?case
    by (simp add: sketch_of_snoc sketch_elems_snoc bitmap_of_toggle)
qed

lemma bitmap_elems_of:
  assumes "\<And>e. e \<in> S \<Longrightarrow> e \<noteq> 0 \<and> unat e \<le> n"
  shows "set (bitmap_elems (bitmap_of n S)) = S" "distinct (bitmap_elems (bitmap_of n S))"
proof -
  have elem: "e = of_nat (Suc k)" if "unat e = Suc k" for e :: u64 and k
    using that of_nat_unat_u64 [of e] by simp
  have "set (bitmap_elems (bitmap_of n S)) = (\<lambda>k. of_nat (Suc k)) ` {k. k < n \<and> (\<exists>e \<in> S. unat e = Suc k)}"
    unfolding bitmap_elems_def by (auto simp: nth_bitmap_of intro!: image_eqI simp del: of_nat_Suc)
  also have "\<dots> = S"
  proof (intro equalityI subsetI)
    fix e assume "e \<in> S"
    with assms obtain k where "unat e = Suc k" "k < n"
      by (metis Suc_le_lessD not0_implies_Suc unat_eq_0)
    with elem \<open>e \<in> S\<close> show "e \<in> (\<lambda>k. of_nat (Suc k)) ` {k. k < n \<and> (\<exists>e \<in> S. unat e = Suc k)}"
      by blast
  next
    fix e :: u64 assume "e \<in> (\<lambda>k. of_nat (Suc k)) ` {k. k < n \<and> (\<exists>e \<in> S. unat e = Suc k)}"
    then obtain k f where "e = of_nat (Suc k)" "f \<in> S" "unat f = Suc k" by auto
    with elem [of f k] show "e \<in> S" by simp
  qed
  finally show "set (bitmap_elems (bitmap_of n S)) = S" .
  have "inj_on (\<lambda>k. of_nat (Suc k) :: u64) {k. k < n \<and> bitmap_of n S ! k}"
  proof (rule inj_onI)
    fix i j assume "i \<in> {k. k < n \<and> bitmap_of n S ! k}" "j \<in> {k. k < n \<and> bitmap_of n S ! k}"
      and eq: "(of_nat (Suc i) :: u64) = of_nat (Suc j)"
    then obtain e f :: u64 where ef: "unat e = Suc i" "unat f = Suc j" by (auto simp: bitmap_of_def)
    from elem [OF ef(1)] elem [OF ef(2)] eq have "e = f" by metis
    with ef show "i = j" by simp
  qed
  then have "inj_on (\<lambda>k. of_nat (Suc k) :: u64) (set (filter (\<lambda>k. bitmap_of n S ! k) [0..<n]))"
    by (rule inj_on_subset) auto
  then show "distinct (bitmap_elems (bitmap_of n S))"
    by (simp add: bitmap_elems_def distinct_map del: of_nat_Suc)
qed

text \<open>Packing bits into bytes.\<close>

lemma word_bits_pack_byte:
  "length xs \<le> 8 \<Longrightarrow> i < 8 \<Longrightarrow> bit (pack_byte xs) i \<longleftrightarrow> i < length xs \<and> xs ! i"
proof (induction xs arbitrary: i)
  case (Cons b xs)
  have double: "bit (2 * pack_byte xs) j \<longleftrightarrow> 0 < j \<and> bit (pack_byte xs) (j - 1)" if "j < 8" for j
    using that by (simp add: bit_double_iff)
  have or: "(if b then 1 else 0) + 2 * pack_byte xs = (if b then 1 else 0) OR (2 * pack_byte xs)"
    by (rule disjunctive_add) (auto simp: bit_1_iff bit_double_iff)
  show ?case
    using Cons by (cases i) (auto simp: or bit_or_iff bit_1_iff double)
qed simp

lemma length_pack_bytes [simp]: "length (pack_bytes n s) = n"
  by (induction n arbitrary: s) simp_all

lemma take_pack_bytes: "length s \<le> 8 * n \<Longrightarrow> take (length s) (buf_bits (pack_bytes n s)) = s"
proof (induction n arbitrary: s)
  case (Suc n)
  have "take (length (take 8 s)) (word_bits 8 (pack_byte (take 8 s))) = take 8 s"
    by (rule nth_equalityI) (auto simp: word_bits_pack_byte)
  moreover have "take (length (drop 8 s)) (buf_bits (pack_bytes n (drop 8 s))) = drop 8 s"
    using Suc.prems by (intro Suc.IH) simp
  moreover have "take (length s) (word_bits 8 (pack_byte (take 8 s)) @ buf_bits (pack_bytes n (drop 8 s))) =
      take (length (take 8 s)) (word_bits 8 (pack_byte (take 8 s))) @
      take (length (drop 8 s)) (buf_bits (pack_bytes n (drop 8 s)))"
    by (cases "length s \<le> 8") (simp_all add: min_def)
  ultimately show ?case by simp
qed simp

theorem bitmap_contract:
  assumes "2 ^ unat m - 1 \<le> unat m * t"
  shows "ms_contract (bitmap_api (unat m) t) m t"
  unfolding ms_contract_def
proof (intro conjI allI impI; (elim conjE)?)
  let ?api = "bitmap_api (unat m) t" and ?n = "unat m * t"
  show "ms_create ?api m 0 t \<noteq> None" by simp
  show "sketch_of ?api m t (es @ fs) = Some (ms_merge ?api a b)"
    if "sketch_of ?api m t es = Some a" "sketch_of ?api m t fs = Some b" for es fs a b
    using that by (auto simp: sketch_of_bitmap sketch_elems_append bitmap_of_sym_diff)
  show "\<exists>xs. ms_decode ?api a k = Some xs \<and> distinct xs \<and> set xs = sketch_elems (unat m) es"
    if "sketch_of ?api m t es = Some a" "card (sketch_elems (unat m) es) \<le> t" "t \<le> k" for es a k
  proof -
    have "e \<noteq> 0 \<and> unat e \<le> ?n" if "e \<in> sketch_elems (unat m) es" for e
    proof -
      have "e \<in> set (filter (\<lambda>e. e \<noteq> 0) (map (take_bit (unat m)) es))"
        using that unfolding sketch_elems_def by (rule subsetD [OF odd_set_subset])
      then obtain x where "e = take_bit (unat m) x" "e \<noteq> 0" by auto
      moreover from this(1) have "unat e < 2 ^ unat m" by (simp add: unsigned_take_bit_eq)
      ultimately show ?thesis using assms by simp
    qed
    note b = bitmap_elems_of [of "sketch_elems (unat m) es" ?n, OF this]
    have a: "a = bitmap_of ?n (sketch_elems (unat m) es)" using that(1) by (simp add: sketch_of_bitmap)
    have "length (bitmap_elems a) = card (sketch_elems (unat m) es)"
      using distinct_card [OF b(2)] b(1) unfolding a by simp
    then show ?thesis using that(2,3) b unfolding a by simp
  qed
  show "length xs \<le> k" if "ms_decode ?api a k = Some xs" for a k xs
    using that by (auto simp: bitmap_api_def split: if_splits)
  show "length (ms_serialize ?api a) = Bits2Bytes ?n" if "sketch_of ?api m t es = Some a" for es a
    using that by (auto simp: sketch_of_bitmap)
  show "ms_deserialize ?api b bs = a"
    if "sketch_of ?api m t es = Some a" "sketch_of ?api m t fs = Some b"
      "take ?n (buf_bits bs) = take ?n (buf_bits (ms_serialize ?api a))" for es fs a b bs
    using that take_pack_bytes [of a "Bits2Bytes ?n"] Bits2Bytes_bounds(1) [of ?n]
    by (auto simp: sketch_of_bitmap)
qed

end
