(* ===== verification/Pin_Sketch.thy ===== *)
theory Pin_Sketch
  imports Host_Data Minisketch_Api
begin

text \<open>
  \<open>pinsketch.h\<close>: the wrapper of one minisketch over all keys of a host. The size and the capacity that
  \<open>minisketch_bits\<close> and \<open>minisketch_capacity\<close> report are those the sketch was created with. A failed decode
  leaves the output vector as it was, full of zeros.
\<close>

record 'sk pin_sketch =
  ps_sketch :: "'sk option"
  ps_bits :: nat
  ps_capacity :: nat

definition PinSketch :: "'sk minisketch_api \<Rightarrow> nat \<Rightarrow> nat \<Rightarrow> 'sk pin_sketch" where
  "PinSketch api m t = \<lparr>ps_sketch = ms_create api (of_nat m) 0 t, ps_bits = m, ps_capacity = t\<rparr>"

definition ps_deref :: "'sk pin_sketch \<Rightarrow> 's failure + 'sk" where
  "ps_deref ps = (case ps_sketch ps of None \<Rightarrow> Inl (Undefined NullPointer) | Some s \<Rightarrow> Inr s)"

definition ps_encode :: "'sk minisketch_api \<Rightarrow> u64 list \<Rightarrow> 'sk pin_sketch \<Rightarrow> 's failure + 'sk pin_sketch" where
  "ps_encode api es ps =
     fold_ok (\<lambda>e ps. bind_ok (ps_deref ps) (\<lambda>s. Inr (ps\<lparr>ps_sketch := Some (ms_add_uint64 api s e)\<rparr>))) es ps"

definition ps_encode_key_value_pairs ::
    "'sk minisketch_api \<Rightarrow> (key \<times> string) list \<Rightarrow> 'sk pin_sketch \<Rightarrow> 's failure + 'sk pin_sketch" where
  "ps_encode_key_value_pairs api kvs ps = ps_encode api (map (key_element \<circ> fst) kvs) ps"

definition ps_serialize :: "'sk minisketch_api \<Rightarrow> 'sk pin_sketch \<Rightarrow> 's failure + bytes" where
  "ps_serialize api ps = bind_ok (ps_deref ps) (\<lambda>s. Inr (ms_serialize api s))"

definition ps_encode_and_serialize :: "'sk minisketch_api \<Rightarrow> u64 list \<Rightarrow> 'sk pin_sketch \<Rightarrow> 's failure + bytes" where
  "ps_encode_and_serialize api es ps = bind_ok (ps_encode api es ps) (ps_serialize api)"

definition ps_encode_and_serialize_key_value_pairs ::
    "'sk minisketch_api \<Rightarrow> (key \<times> string) list \<Rightarrow> 'sk pin_sketch \<Rightarrow> 's failure + bytes" where
  "ps_encode_and_serialize_key_value_pairs api kvs ps = bind_ok (ps_encode_key_value_pairs api kvs ps) (ps_serialize api)"

definition ps_decode :: "'sk minisketch_api \<Rightarrow> bytes \<Rightarrow> 'sk pin_sketch \<Rightarrow> 's failure + (bool \<times> u64 list)" where
  "ps_decode api other ps =
     bind_ok (ps_deref ps) (\<lambda>own.
     case ms_create api (of_nat (ps_bits ps)) 0 (ps_capacity ps) of
       None \<Rightarrow> Inl (Undefined NullPointer)
     | Some s0 \<Rightarrow>
         if length other < Bits2Bytes (ps_bits ps * ps_capacity ps) then Inl (Undefined OutOfBounds)
         else if ps_capacity ps = 0 then Inl (Undefined OutOfBounds)
         else case ms_decode api (ms_merge api (ms_deserialize api s0 other) own) (ps_capacity ps) of
                None \<Rightarrow> Inr (False, replicate (ps_capacity ps) 0)
              | Some xs \<Rightarrow> Inr (True, xs))"

section \<open>What a sketch over a host's keys decodes to\<close>

definition unsigned_key :: "key \<Rightarrow> u64" where
  "unsigned_key k = ucast k"

lemma take_bit_key_element: "take_bit 32 (key_element k) = unsigned_key k"
proof (rule bit_word_eqI)
  fix n assume "n < LENGTH(64)"
  have "bit k n \<Longrightarrow> n < 32" using bit_imp_le_length [of k n] by simp
  then show "bit (take_bit 32 (key_element k)) n = bit (unsigned_key k) n"
    using \<open>n < LENGTH(64)\<close> by (cases "n = 31") (auto simp: key_element_def unsigned_key_def bit_simps min_def)
qed

lemma element_of_unsigned [simp]: "element_key (unsigned_key k) = k"
  by (simp add: element_key_def unsigned_key_def) (rule bit_word_eqI, simp add: bit_simps)

lemma inj_unsigned_key: "inj unsigned_key"
  by (rule inj_on_inverseI [of _ element_key]) simp

lemma unsigned_key_0: "unsigned_key k = 0 \<longleftrightarrow> k = 0"
proof -
  have "unsigned_key 0 = 0" by (simp add: unsigned_key_def)
  then show ?thesis using injD [OF inj_unsigned_key, of k 0] by auto
qed

lemma ps_encode_eq:
  assumes "sketch_of api (of_nat m) t ds = Some s"
  shows "ps_encode api es \<lparr>ps_sketch = Some s, ps_bits = m, ps_capacity = t\<rparr> =
    (Inr \<lparr>ps_sketch = sketch_of api (of_nat m) t (ds @ es), ps_bits = m, ps_capacity = t\<rparr> :: 's failure + _)"
  using assms
proof (induction es arbitrary: ds s)
  case (Cons e es)
  have snoc: "sketch_of api (of_nat m) t (ds @ [e]) = Some (ms_add_uint64 api s e)"
    using Cons.prems by (simp add: sketch_of_snoc)
  from Cons.IH [OF snoc] show ?case by (simp add: ps_encode_def ps_deref_def)
qed (simp add: ps_encode_def)

lemma host_sketch:
  assumes "ms_contract api (of_nat m) t"
  obtains s where "sketch_of api (of_nat m) t (map (key_element \<circ> fst) kvs) = Some s"
    "ps_encode_key_value_pairs api kvs (PinSketch api m t) = (Inr \<lparr>ps_sketch = Some s, ps_bits = m, ps_capacity = t\<rparr> :: 's failure + _)"
proof -
  from ms_created [OF assms] obtain s0 where s0: "ms_create api (of_nat m) 0 t = Some s0" by auto
  then have "sketch_of api (of_nat m) t [] = Some s0" by (simp add: sketch_of_def)
  from ps_encode_eq [OF this, of "map (key_element \<circ> fst) kvs", where 's = 's] sketch_of_Some [OF assms, of "map (key_element \<circ> fst) kvs"] s0
  show thesis using that by (auto simp: ps_encode_key_value_pairs_def PinSketch_def)
qed

text \<open>Two hosts whose keys differ in no more places than the capacity: the difference is decoded.\<close>

lemma ps_decode_difference:
  fixes as bs :: "(key \<times> string) list"
  assumes c: "ms_contract api 32 t" "0 < t"
    and own: "sketch_of api 32 t (map (key_element \<circ> fst) as) = Some a"
    and oth: "sketch_of api 32 t (map (key_element \<circ> fst) bs) = Some b"
    and keys: "distinct (map fst as)" "distinct (map fst bs)" "0 \<notin> keys_of as" "0 \<notin> keys_of bs"
    and few: "card (keys_of as - keys_of bs \<union> (keys_of bs - keys_of as)) \<le> t"
  shows "\<exists>xs. ps_decode api (ms_serialize api b) \<lparr>ps_sketch = Some a, ps_bits = 32, ps_capacity = t\<rparr> = (Inr (True, xs) :: 's failure + _) \<and>
    distinct xs \<and> set xs = unsigned_key ` (keys_of as - keys_of bs \<union> (keys_of bs - keys_of as))"
proof -
  let ?e = "\<lambda>kvs :: (key \<times> string) list. map (key_element \<circ> fst) kvs"
  from ms_created [OF c(1)] obtain s0 where s0: "ms_create api 32 0 t = Some s0" by auto
  then have s0': "sketch_of api 32 t [] = Some s0" by (simp add: sketch_of_def)
  have len: "length (ms_serialize api b) = Bits2Bytes (32 * t)" using ms_serialized [OF c(1) oth] by simp
  have "ms_deserialize api s0 (ms_serialize api b) = b" by (rule ms_deserialized [OF c(1) oth s0']) simp
  moreover have merged: "sketch_of api 32 t (?e bs @ ?e as) = Some (ms_merge api b a)" by (rule ms_merged [OF c(1) oth own])
  moreover have elems: "sketch_elems 32 (?e bs @ ?e as) = unsigned_key ` (keys_of as - keys_of bs \<union> (keys_of bs - keys_of as))"
  proof -
    have tb: "map (take_bit 32) (?e kvs) = map (unsigned_key \<circ> fst) kvs" for kvs :: "(key \<times> string) list"
      by (simp add: take_bit_key_element)
    have nz: "filter (\<lambda>e. e \<noteq> 0) (map (unsigned_key \<circ> fst) kvs) = map (unsigned_key \<circ> fst) kvs" if "0 \<notin> keys_of kvs"
      for kvs :: "(key \<times> string) list"
      using that by (auto simp: filter_id_conv unsigned_key_0 keys_of_def image_iff)
    have d: "distinct (map (unsigned_key \<circ> fst) kvs)" if "distinct (map fst kvs)" for kvs :: "(key \<times> string) list"
      using that inj_on_subset [OF inj_unsigned_key subset_UNIV] by (simp add: distinct_map comp_inj_on_iff [symmetric])
    have s: "set (map (unsigned_key \<circ> fst) kvs) = unsigned_key ` keys_of kvs" for kvs :: "(key \<times> string) list"
      by (simp add: keys_of_def image_comp)
    have "sketch_elems 32 (?e bs @ ?e as) = odd_set (map (unsigned_key \<circ> fst) bs @ map (unsigned_key \<circ> fst) as)"
      by (simp only: sketch_elems_def map_append tb filter_append nz [OF keys(3)] nz [OF keys(4)])
    also have "\<dots> = sym_diff (unsigned_key ` keys_of bs) (unsigned_key ` keys_of as)"
      unfolding odd_set_append odd_set_distinct [OF d [OF keys(1)]] odd_set_distinct [OF d [OF keys(2)]] s ..
    also have "\<dots> = unsigned_key ` (keys_of as - keys_of bs \<union> (keys_of bs - keys_of as))"
      using inj_unsigned_key by (auto simp: image_Un image_set_diff [symmetric])
    finally show ?thesis .
  qed
  moreover have "card (unsigned_key ` (keys_of as - keys_of bs \<union> (keys_of bs - keys_of as))) \<le> t"
    using few card_image [OF inj_on_subset [OF inj_unsigned_key]] by simp
  ultimately obtain xs where "ms_decode api (ms_merge api b a) t = Some xs" "distinct xs"
      "set xs = unsigned_key ` (keys_of as - keys_of bs \<union> (keys_of bs - keys_of as))"
    using ms_decoded [OF c(1) merged, of t] by auto
  with \<open>ms_deserialize api s0 (ms_serialize api b) = b\<close> show ?thesis
    using s0 len c(2) by (simp add: ps_decode_def ps_deref_def)
qed

end
