(* ===== verification/Pbs_Message.thy ===== *)
theory Pbs_Message
  imports Bit_Utils
begin

text \<open>
  \<open>src/pbs_message.h\<close>: the base class of the three messages. Its pure virtual methods are the
  interface \<open>pbs_message\<close>; \<open>transmit\<close> is what the client and the server do with any message:
  the sender resizes a string to the serialized size and writes into it, the receiver parses
  the characters of the string it got.
\<close>

datatype PbsMessageType = ENCODING | DECODING | ENCODING_HINT

fun PbsMessageType_value :: "PbsMessageType \<Rightarrow> u8" where
  "PbsMessageType_value ENCODING = 1"
| "PbsMessageType_value DECODING = 2"
| "PbsMessageType_value ENCODING_HINT = 3"

text \<open>
  A buffer of the receiver is the block of memory the pointer refers to: the \<open>msg_sz\<close> message
  bytes and whatever follows them (for \<open>c_str()\<close>, the terminating zero).
\<close>

definition transmit ::
    "('m \<Rightarrow> int) \<Rightarrow> ('m \<Rightarrow> bytes \<Rightarrow> 'm failure + (bytes \<times> int)) \<Rightarrow>
     ('m \<Rightarrow> bytes \<Rightarrow> nat \<Rightarrow> 'm failure + (int \<times> 'm)) \<Rightarrow> 'm \<Rightarrow> 'm \<Rightarrow> 'm failure + (int \<times> 'm)" where
  "transmit serializedSize write_msg parse_msg sender receiver =
     bind_ok (write_msg sender (replicate (nat (serializedSize sender)) 0))
       (\<lambda>(bs, _). parse_msg receiver (bs @ [0]) (length bs))"

text \<open>
  The contract of a message class: the serialized size of a valid message is not negative,
  \<open>write\<close> fills a buffer of exactly that size without leaving it and reports the size, and
  \<open>parse\<close> into a receiver built from the agreed parameters (\<open>receiver_for\<close>) restores the
  message, whatever lies behind it in memory.
\<close>

locale pbs_message =
  fixes serializedSize :: "'m \<Rightarrow> int"
    and write_msg :: "'m \<Rightarrow> bytes \<Rightarrow> 'm failure + (bytes \<times> int)"
    and parse_msg :: "'m \<Rightarrow> bytes \<Rightarrow> nat \<Rightarrow> 'm failure + (int \<times> 'm)"
    and valid :: "'m \<Rightarrow> bool"
    and receiver_for :: "'m \<Rightarrow> 'm \<Rightarrow> bool"
  assumes size_nonneg: "valid m \<Longrightarrow> 0 \<le> serializedSize m"
    and write_fills: "valid m \<Longrightarrow> length buf = nat (serializedSize m) \<Longrightarrow>
      \<exists>bs. write_msg m buf = Inr (bs, serializedSize m) \<and> length bs = length buf"
    and parse_write: "valid m \<Longrightarrow> receiver_for m r \<Longrightarrow> length buf = nat (serializedSize m) \<Longrightarrow>
      write_msg m buf = Inr (bs, k) \<Longrightarrow> parse_msg r (bs @ rest) (length bs) = Inr (serializedSize m, m)"
begin

lemma transmit_roundtrip:
  assumes "valid m" "receiver_for m r"
  shows "transmit serializedSize write_msg parse_msg m r = Inr (serializedSize m, m)"
proof -
  obtain bs where "write_msg m (replicate (nat (serializedSize m)) 0) = Inr (bs, serializedSize m)"
    using write_fills [OF assms(1)] by (metis length_replicate)
  with parse_write [OF assms, of "replicate (nat (serializedSize m)) 0" bs] show ?thesis
    by (simp add: transmit_def)
qed

text \<open>A message is determined by its bytes: two valid messages for one receiver that serialize alike are equal.\<close>

lemma write_inject:
  assumes "valid m" "valid m'" "receiver_for m r" "receiver_for m' r"
    and "length buf = nat (serializedSize m)" "length buf' = nat (serializedSize m')"
    and "write_msg m buf = Inr (bs, k)" "write_msg m' buf' = Inr (bs, k')"
  shows "m = m'"
  using parse_write [OF assms(1,3,5,7), of "[]"] parse_write [OF assms(2,4,6,8), of "[]"] by simp

end

end
