(* ===== verification/Encoding_Message.thy ===== *)
theory Encoding_Message
  imports Pbs_Message Minisketch_Api
begin

text \<open>
  \<open>src/pbs_encoding_message.h\<close>: a collection of sketches, one per group. When the bits of a
  sketch fill whole bytes the sketches are written one after the other; otherwise the whole
  bytes of all sketches come first and the remaining bits of all sketches are packed behind
  them. Sizes and offsets are computed in 32 bits, as in the code.
\<close>

record 'sk encoding_message =
  enc_field_sz :: u32
  enc_n :: u32
  enc_capacity :: u32
  enc_num_groups :: u32
  sketches :: "'sk option list"

definition create_sketches :: "'sk minisketch_api \<Rightarrow> u32 \<Rightarrow> u32 \<Rightarrow> u32 \<Rightarrow> 'sk option list" where
  [simp]: "create_sketches api m t g = replicate (unat g) (ms_create api m 0 (unat t))"

definition PbsEncodingMessage ::
    "'sk minisketch_api \<Rightarrow> u32 \<Rightarrow> u32 \<Rightarrow> u32 \<Rightarrow> 'sk encoding_message" where
  "PbsEncodingMessage api m t g =
     \<lparr>enc_field_sz = m, enc_n = push_bit (unat m) 1 - 1, enc_capacity = t, enc_num_groups = g,
      sketches = create_sketches api m t g\<rparr>"

definition getSketch :: "'sk encoding_message \<Rightarrow> nat \<Rightarrow> 'sk option" where
  "getSketch msg i = (if unat (enc_num_groups msg) \<le> i then None else sketches msg ! i)"

definition enc_serializedSize :: "'sk encoding_message \<Rightarrow> int" where
  "enc_serializedSize msg =
     (if enc_field_sz msg = 0 \<or> enc_capacity msg = 0 \<or> enc_num_groups msg = 0 then -1
      else int (Bits2Bytes (unat (enc_field_sz msg * enc_capacity msg * enc_num_groups msg))))"

text \<open>A sketch read through its pointer.\<close>

definition deref :: "'sk option \<Rightarrow> 's failure + 'sk" where
  "deref p = (case p of None \<Rightarrow> Inl (Undefined NullPointer) | Some s \<Rightarrow> Inr s)"

lemma deref_Some [simp]: "deref (Some s) = Inr s"
  by (simp add: deref_def)

definition write_good ::
    "'sk minisketch_api \<Rightarrow> 'sk encoding_message \<Rightarrow> u32 \<Rightarrow> bytes \<Rightarrow> 's failure + bytes" where
  "write_good api msg sketch_bytes to_buf =
     fold_ok (\<lambda>i buf.
         bind_ok (vec_get (sketches msg) i) (\<lambda>p.
         bind_ok (deref p) (\<lambda>s.
           from_mem (mem_write buf (unat (of_nat i * sketch_bytes)) (ms_serialize api s)))))
       [0..<unat (enc_num_groups msg)] to_buf"

text \<open>
  The loop of \<open>write_bad\<close> serializes into a scratch buffer of \<open>sketch_bytes + 1\<close> bytes, copies the
  whole bytes, and hands the last byte's \<open>sketch_bits_remainder\<close> bits to the bit writer, which
  works on the same buffer behind the whole bytes.
\<close>

definition write_bad ::
    "'sk minisketch_api \<Rightarrow> 'sk encoding_message \<Rightarrow> u32 \<Rightarrow> u32 \<Rightarrow> bytes \<Rightarrow> 's failure + bytes" where
  "write_bad api msg sketch_bytes sketch_bits_remainder to_buf =
     bind_ok
       (fold_ok (\<lambda>i w.
           bind_ok (vec_get (sketches msg) i) (\<lambda>p.
           bind_ok (deref p) (\<lambda>s.
           bind_ok (from_mem (mem_write (replicate (unat sketch_bytes + 1) 0) 0 (ms_serialize api s))) (\<lambda>buf.
           bind_ok (from_mem (mem_write (wr_buf w) (unat (of_nat i * sketch_bytes))
                      (take (unat sketch_bytes) buf))) (\<lambda>out.
             from_mem (Write (buf ! unat sketch_bytes) (unat sketch_bits_remainder)
                        (w\<lparr>wr_buf := out\<rparr>)))))))
         [0..<unat (enc_num_groups msg)]
         (BitWriter to_buf (unat (sketch_bytes * enc_num_groups msg))))
       (\<lambda>w. bind_ok (from_mem (Flush w)) (\<lambda>w'. Inr (wr_buf w')))"

text \<open>
  \<open>write\<close>: a size of \<open>-1\<close> becomes the largest \<open>size_t\<close>, and the fill runs out of the buffer.
\<close>

definition enc_write ::
    "'sk minisketch_api \<Rightarrow> 'sk encoding_message \<Rightarrow> bytes \<Rightarrow> 's failure + (bytes \<times> int)" where
  "enc_write api msg to_buf =
     (let sketch_sz = enc_field_sz msg * enc_capacity msg;
          sketch_bytes = sketch_sz div 8;
          sketch_bits_remainder = sketch_sz mod 8;
          size = enc_serializedSize msg
      in if size < 0 then Inl (Undefined OutOfBounds)
         else bind_ok (from_mem (mem_write to_buf 0 (replicate (nat size) 0))) (\<lambda>buf.
              bind_ok (if sketch_bits_remainder = 0 then write_good api msg sketch_bytes buf
                       else write_bad api msg sketch_bytes sketch_bits_remainder buf) (\<lambda>buf'.
                Inr (buf', size))))"

text \<open>\<open>parse_good\<close> replaces the sketches by new ones, \<open>parse_bad\<close> overwrites the existing ones.\<close>

definition parse_good ::
    "'sk minisketch_api \<Rightarrow> 'sk encoding_message \<Rightarrow> bytes \<Rightarrow> u32 \<Rightarrow> 's failure + 'sk encoding_message" where
  "parse_good api msg from_buf sketch_bytes =
     fold_ok (\<lambda>i msg'.
         bind_ok (from_mem (mem_read from_buf (unat (of_nat i * sketch_bytes)) (unat sketch_bytes))) (\<lambda>buf.
         bind_ok (deref (ms_create api (enc_field_sz msg') 0 (unat (enc_capacity msg')))) (\<lambda>s.
           Inr (msg'\<lparr>sketches := sketches msg' @ [Some (ms_deserialize api s buf)]\<rparr>))))
       [0..<unat (enc_num_groups msg)] (msg\<lparr>sketches := []\<rparr>)"

definition parse_bad ::
    "'sk minisketch_api \<Rightarrow> 'sk encoding_message \<Rightarrow> bytes \<Rightarrow> u32 \<Rightarrow> u8 \<Rightarrow> 's failure + 'sk encoding_message" where
  "parse_bad api msg from_buf sketch_bytes sketch_bits_remainder =
     bind_ok
       (fold_ok (\<lambda>i (r, msg').
           bind_ok (from_mem (mem_read from_buf (unat (of_nat i * sketch_bytes)) (unat sketch_bytes))) (\<lambda>buf.
           bind_ok (from_mem (Read (unat sketch_bits_remainder) r)) (\<lambda>(b, r').
           bind_ok (vec_get (sketches msg') i) (\<lambda>p.
           bind_ok (deref p) (\<lambda>s.
             Inr (r', msg'\<lparr>sketches := (sketches msg')[i := Some (ms_deserialize api s (buf @ [b]))]\<rparr>))))))
         [0..<unat (enc_num_groups msg)]
         (BitReader from_buf (unat (sketch_bytes * enc_num_groups msg)), msg))
       (\<lambda>(r, msg'). Inr msg')"

definition enc_parse ::
    "'sk minisketch_api \<Rightarrow> 'sk encoding_message \<Rightarrow> bytes \<Rightarrow> nat \<Rightarrow>
     's failure + (int \<times> 'sk encoding_message)" where
  "enc_parse api msg from_buf msg_sz =
     (if enc_field_sz msg = 0 \<or> enc_capacity msg = 0 \<or> enc_num_groups msg = 0 then Inr (-1, msg)
      else
        let sketch_sz = enc_field_sz msg * enc_capacity msg;
            total_bytes = of_nat (Bits2Bytes (unat (sketch_sz * enc_num_groups msg))) :: u32;
            sketch_bytes = sketch_sz div 8;
            sketch_bits_remainder = sketch_sz mod 8
        in if msg_sz < unat total_bytes then Inr (-1, msg)
           else bind_ok (if sketch_bits_remainder = 0 then parse_good api msg from_buf sketch_bytes
                         else parse_bad api msg from_buf sketch_bytes (ucast sketch_bits_remainder))
                  (\<lambda>msg'. Inr (uint total_bytes, msg')))"


section \<open>Valid messages\<close>

text \<open>
  What the class maintains: as many sketches as groups, each the sketch of some elements, and
  parameters whose product (the size in bits) does not overflow 32 bits.
\<close>

definition enc_valid :: "'sk minisketch_api \<Rightarrow> 'sk encoding_message \<Rightarrow> bool" where
  "enc_valid api msg \<longleftrightarrow>
     ms_contract api (enc_field_sz msg) (unat (enc_capacity msg)) \<and>
     enc_field_sz msg \<noteq> 0 \<and> enc_capacity msg \<noteq> 0 \<and> enc_num_groups msg \<noteq> 0 \<and>
     enc_n msg = push_bit (unat (enc_field_sz msg)) 1 - 1 \<and>
     unat (enc_field_sz msg) * unat (enc_capacity msg) * unat (enc_num_groups msg) < 2 ^ 32 \<and>
     length (sketches msg) = unat (enc_num_groups msg) \<and>
     (\<forall>p \<in> set (sketches msg). p \<noteq> None \<and>
        (\<exists>es. sketch_of api (enc_field_sz msg) (unat (enc_capacity msg)) es = p))"

definition enc_receiver_for :: "'sk minisketch_api \<Rightarrow> 'sk encoding_message \<Rightarrow> 'sk encoding_message \<Rightarrow> bool" where
  "enc_receiver_for api msg r \<longleftrightarrow>
     r = PbsEncodingMessage api (enc_field_sz msg) (enc_capacity msg) (enc_num_groups msg)"

definition sketch_list :: "'sk encoding_message \<Rightarrow> 'sk list" where
  "sketch_list msg = map the (sketches msg)"

lemma enc_validD:
  assumes "enc_valid api msg"
  shows "sketches msg = map Some (sketch_list msg)"
    and "length (sketch_list msg) = unat (enc_num_groups msg)"
    and "s \<in> set (sketch_list msg) \<Longrightarrow>
      \<exists>es. sketch_of api (enc_field_sz msg) (unat (enc_capacity msg)) es = Some s"
  using assms by (auto simp: enc_valid_def sketch_list_def map_idI intro!: map_idI [symmetric])

text \<open>The 32-bit sizes of a valid message, as numbers.\<close>

lemma enc_sizes:
  fixes msg :: "'sk encoding_message"
  assumes v: "enc_valid api msg"
  defines "m \<equiv> unat (enc_field_sz msg)" and "t \<equiv> unat (enc_capacity msg)"
    and "g \<equiv> unat (enc_num_groups msg)"
    and "sz \<equiv> enc_field_sz msg * enc_capacity msg"
  shows "unat sz = m * t" "unat (sz div 8) = m * t div 8" "unat (sz mod 8) = m * t mod 8"
    and "unat (sz * enc_num_groups msg) = m * t * g"
    and "i \<le> g \<Longrightarrow> unat (of_nat i * (sz div 8)) = i * (m * t div 8)"
    and "unat ((sz div 8) * enc_num_groups msg) = g * (m * t div 8)"
    and "unat (ucast (sz mod 8) :: u8) = m * t mod 8"
    and "enc_serializedSize msg = int (Bits2Bytes (m * t * g))"
    and "unat (of_nat (Bits2Bytes (m * t * g)) :: u32) = Bits2Bytes (m * t * g)"
proof -
  have pos: "0 < m" "0 < t" "0 < g" and small: "m * t * g < 2 ^ 32"
    using v by (auto simp: enc_valid_def m_def t_def g_def unat_gt_0)
  have mt: "m * t \<le> m * t * g" using pos by simp
  then have "m * t < 2 ^ 32" using small by linarith
  then show sz: "unat sz = m * t"
    unfolding sz_def m_def t_def by (rule unat_mult_u32)
  then show d: "unat (sz div 8) = m * t div 8" and md: "unat (sz mod 8) = m * t mod 8"
    by (simp_all add: unat_div unat_mod)
  show all: "unat (sz * enc_num_groups msg) = m * t * g"
    using unat_mult_u32 [of sz "enc_num_groups msg"] sz small by (simp add: g_def)
  have gg: "g \<le> m * t * g" using pos by simp
  show *: "unat (of_nat i * (sz div 8)) = i * (m * t div 8)" if i: "i \<le> g" for i
  proof -
    have "i * (m * t div 8) \<le> m * t * g"
      using mult_le_mono [OF i div_le_dividend [of "m * t" 8]] by (simp add: mult.commute)
    then have "i * (m * t div 8) < 2 ^ 32" using small by linarith
    moreover have "unat (of_nat i :: u32) = i"
      using i gg small by (intro unat_of_nat_u32) linarith
    ultimately show ?thesis using unat_mult_u32 [of "of_nat i" "sz div 8"] d by simp
  qed
  show "unat ((sz div 8) * enc_num_groups msg) = g * (m * t div 8)"
    using * [of g] by (simp add: g_def mult.commute)
  show "unat (ucast (sz mod 8) :: u8) = m * t mod 8"
    using md by (simp add: unsigned_ucast_eq take_bit_nat_eq_self)
  show "enc_serializedSize msg = int (Bits2Bytes (m * t * g))"
    using all v by (simp add: enc_serializedSize_def enc_valid_def sz_def)
  show "unat (of_nat (Bits2Bytes (m * t * g)) :: u32) = Bits2Bytes (m * t * g)"
    using small Bits2Bytes_bounds(2) [of "m * t * g"] by (intro unat_of_nat_u32) linarith
qed


section \<open>Writing\<close>

text \<open>
  The bytes of a message, as the format describes them: the whole bytes of each sketch, then the
  remaining bits of each, packed.
\<close>

definition whole_bytes :: "'sk minisketch_api \<Rightarrow> nat \<Rightarrow> 'sk list \<Rightarrow> bytes" where
  "whole_bytes api k ss = concat (map (\<lambda>s. take k (ms_serialize api s)) ss)"

definition rest_bits :: "'sk minisketch_api \<Rightarrow> nat \<Rightarrow> nat \<Rightarrow> 'sk list \<Rightarrow> bool list" where
  "rest_bits api k n ss = concat (map (\<lambda>s. word_bits n (ms_serialize api s ! k)) ss)"

lemma length_whole_bytes:
  "(\<And>s. s \<in> set ss \<Longrightarrow> k \<le> length (ms_serialize api s)) \<Longrightarrow> length (whole_bytes api k ss) = length ss * k"
  by (induction ss) (auto simp: whole_bytes_def)

lemma length_rest_bits [simp]: "length (rest_bits api k n ss) = n * length ss"
  by (induction ss) (simp_all add: rest_bits_def)

lemma whole_bytes_snoc: "i < length ss \<Longrightarrow> whole_bytes api k (take (Suc i) ss) =
    whole_bytes api k (take i ss) @ take k (ms_serialize api (ss ! i))"
  by (simp add: whole_bytes_def take_Suc_conv_app_nth)

lemma rest_bits_snoc: "i < length ss \<Longrightarrow> rest_bits api k n (take (Suc i) ss) =
    rest_bits api k n (take i ss) @ word_bits n (ms_serialize api (ss ! i) ! k)"
  by (simp add: rest_bits_def take_Suc_conv_app_nth)

text \<open>The chunk of sketch \<open>i\<close> among the whole bytes.\<close>

lemma whole_bytes_nth:
  assumes "\<And>s. s \<in> set ss \<Longrightarrow> k \<le> length (ms_serialize api s)" "i < length ss"
  shows "take k (drop (i * k) (whole_bytes api k ss @ rest)) = take k (ms_serialize api (ss ! i))"
proof -
  have "whole_bytes api k ss = whole_bytes api k (take i ss @ ss ! i # drop (Suc i) ss)"
    using id_take_nth_drop [OF assms(2)] by simp
  also have "\<dots> = whole_bytes api k (take i ss) @ take k (ms_serialize api (ss ! i)) @
      whole_bytes api k (drop (Suc i) ss)"
    by (simp add: whole_bytes_def)
  finally have "whole_bytes api k ss = \<dots>" .
  moreover have "length (whole_bytes api k (take i ss)) = i * k"
    using assms by (subst length_whole_bytes) (auto dest: in_set_takeD)
  moreover have "length (take k (ms_serialize api (ss ! i))) = k" using assms by simp
  ultimately show ?thesis by simp
qed

text \<open>Appending a chunk behind the ones already copied.\<close>

lemma mem_write_chunk:
  assumes "take n buf = pre" "n + length bs \<le> length buf"
  shows "\<exists>buf'. mem_write buf n bs = Some buf' \<and> take (n + length bs) buf' = pre @ bs \<and>
    length buf' = length buf \<and> (\<forall>p. n + length bs \<le> p \<longrightarrow> drop p buf' = drop p buf)"
  using assms by (auto simp: mem_write_def)

lemma write_good_eq:
  fixes msg :: "'sk encoding_message"
  assumes v: "enc_valid api msg"
    and k: "k = unat sketch_bytes" "\<And>i. i \<le> unat (enc_num_groups msg) \<Longrightarrow> unat (of_nat i * sketch_bytes) = i * k"
    and ser: "\<And>s. s \<in> set (sketch_list msg) \<Longrightarrow> length (ms_serialize api s) = k"
    and len: "length buf = unat (enc_num_groups msg) * k"
  shows "write_good api msg sketch_bytes buf = Inr (whole_bytes api k (sketch_list msg))"
proof -
  let ?g = "unat (enc_num_groups msg)" and ?ss = "sketch_list msg"
  note d = enc_validD [OF v]
  let ?P = "\<lambda>i buf. length buf = ?g * k \<and> take (i * k) buf = whole_bytes api k (take i ?ss)"
  have "\<exists>buf'. bind_ok (vec_get (sketches msg) i) (\<lambda>p. bind_ok (deref p) (\<lambda>s.
      from_mem (mem_write b (unat (of_nat i * sketch_bytes)) (ms_serialize api s)))) = Inr buf' \<and> ?P (Suc i) buf'"
    if i: "i < ?g" and P: "?P i b" for i b
  proof -
    have s: "?ss ! i \<in> set ?ss" using i d(2) by simp
    have "Suc i * k \<le> ?g * k" using i by (intro mult_le_mono) auto
    then have fit: "i * k + k \<le> length b" using P by simp
    obtain b' where "mem_write b (i * k) (ms_serialize api (?ss ! i)) = Some b'" "length b' = length b"
        "take (i * k + k) b' = whole_bytes api k (take i ?ss) @ ms_serialize api (?ss ! i)"
      using mem_write_chunk [of "i * k" b _ "ms_serialize api (?ss ! i)"] P fit ser [OF s] by auto
    then show ?thesis
      using i d P k(2) [of i] ser [OF s]
      by (auto simp: ok_simps whole_bytes_snoc add.commute)
  qed
  then have "\<exists>buf'. write_good api msg sketch_bytes buf = Inr buf' \<and> ?P ?g buf'"
    unfolding write_good_def using len by (intro fold_ok_upt) (auto simp: whole_bytes_def)
  then show ?thesis using d(2) by auto
qed


text \<open>
  The writer's side of \<open>write_bad\<close> is not disturbed by copies in front of its start.
\<close>

lemma wr_update_front:
  assumes "wr_ok p w" "length buf = length (wr_buf w)" "drop p buf = drop p (wr_buf w)"
  shows "wr_ok p (w\<lparr>wr_buf := buf\<rparr>)" "wr_bits p (w\<lparr>wr_buf := buf\<rparr>) = wr_bits p w"
    "wr_capacity p (w\<lparr>wr_buf := buf\<rparr>) = wr_capacity p w"
  using assms by (auto simp: wr_ok_def wr_bits_def wr_capacity_def drop_take)

lemma write_bad_step:
  fixes w :: bit_writer
  assumes w: "wr_ok p w" "wr_bits p w = bits" "length (wr_buf w) = L" "take n (wr_buf w) = pre"
    and ser: "length ser = Suc k" and fit: "n + k \<le> p" "p \<le> L" "length bits + rem \<le> 8 * (L - p)"
  shows "\<exists>out w'. mem_write (wr_buf w) n (take k ser) = Some out \<and>
    Write (ser ! k) rem (w\<lparr>wr_buf := out\<rparr>) = Some w' \<and>
    wr_ok p w' \<and> wr_bits p w' = bits @ word_bits rem (ser ! k) \<and> length (wr_buf w') = L \<and>
    take (n + k) (wr_buf w') = pre @ take k ser"
proof -
  obtain out where out: "mem_write (wr_buf w) n (take k ser) = Some out"
      "take (n + k) out = pre @ take k ser" "length out = L" "drop p out = drop p (wr_buf w)"
    using mem_write_chunk [of n "wr_buf w" pre "take k ser"] assms by auto
  note u = wr_update_front [OF w(1), of out]
  have "wr_ok p (w\<lparr>wr_buf := out\<rparr>)" "wr_bits p (w\<lparr>wr_buf := out\<rparr>) = bits"
      "wr_capacity p (w\<lparr>wr_buf := out\<rparr>) = 8 * (L - p)"
    using u out w by (auto simp: wr_capacity_def)
  then obtain w' where w': "Write (ser ! k) rem (w\<lparr>wr_buf := out\<rparr>) = Some w'" "wr_ok p w'"
      "wr_bits p w' = bits @ word_bits rem (ser ! k)" "wr_capacity p w' = 8 * (L - p)"
      "wr_before p w' = take p out"
    using Write_sink [of p "w\<lparr>wr_buf := out\<rparr>" rem "ser ! k"] fit(3) by (auto simp: wr_before_def)
  have "length (wr_buf w') = L"
    using w'(2,4) fit(2) by (auto simp: wr_capacity_def wr_ok_def)
  moreover have "take (n + k) (wr_buf w') = take (n + k) out"
    using w'(5) fit(1) by (metis min.absorb1 take_take wr_before_def)
  ultimately show ?thesis using out w' by auto
qed

lemma write_bad_eq:
  fixes msg :: "'sk encoding_message"
  assumes v: "enc_valid api msg"
    and k: "k = unat sketch_bytes" "\<And>i. i \<le> unat (enc_num_groups msg) \<Longrightarrow> unat (of_nat i * sketch_bytes) = i * k"
    and p: "unat (sketch_bytes * enc_num_groups msg) = unat (enc_num_groups msg) * k"
    and ser: "\<And>s. s \<in> set (sketch_list msg) \<Longrightarrow> length (ms_serialize api s) = Suc k"
    and len: "length buf = unat (enc_num_groups msg) * k + Bits2Bytes (unat rem * unat (enc_num_groups msg))"
  shows "\<exists>bs pad. (write_bad api msg sketch_bytes rem buf :: 's failure + bytes) = Inr bs \<and> length bs = length buf \<and>
    take (unat (enc_num_groups msg) * k) bs = whole_bytes api k (sketch_list msg) \<and>
    buf_bits (drop (unat (enc_num_groups msg) * k) bs) =
      rest_bits api k (unat rem) (sketch_list msg) @ replicate pad False"
proof -
  let ?g = "unat (enc_num_groups msg)" and ?ss = "sketch_list msg" and ?r = "unat rem"
  let ?p = "?g * k" and ?L = "length buf"
  note d = enc_validD [OF v]
  let ?P = "\<lambda>i w. wr_ok ?p w \<and> wr_bits ?p w = rest_bits api k ?r (take i ?ss) \<and>
    length (wr_buf w) = ?L \<and> take (i * k) (wr_buf w) = whole_bytes api k (take i ?ss)"
  let ?body = "\<lambda>i w :: bit_writer. (bind_ok (vec_get (sketches msg) i) (\<lambda>p. bind_ok (deref p) (\<lambda>s.
      bind_ok (from_mem (mem_write (replicate (unat sketch_bytes + 1) 0) 0 (ms_serialize api s))) (\<lambda>buf.
      bind_ok (from_mem (mem_write (wr_buf w) (unat (of_nat i * sketch_bytes)) (take (unat sketch_bytes) buf)))
        (\<lambda>out. from_mem (Write (buf ! unat sketch_bytes) (unat rem) (w\<lparr>wr_buf := out\<rparr>))))))
      :: 's failure + bit_writer)"
  have "\<exists>w'. ?body i w = Inr w' \<and> ?P (Suc i) w'" if i: "i < ?g" and P: "?P i w" for i w
  proof -
    let ?ser = "ms_serialize api (?ss ! i)"
    have s: "length ?ser = Suc k" using ser i d(2) by simp
    have "Suc i * k \<le> ?g * k" using i by (intro mult_le_mono) auto
    then have fit: "i * k + k \<le> ?p" by simp
    have "?r * i + ?r \<le> ?r * ?g" using i by (metis Suc_leI mult_Suc_right mult_le_mono2 add.commute)
    then have room: "length (rest_bits api k ?r (take i ?ss)) + ?r \<le> 8 * (?L - ?p)"
      using Bits2Bytes_bounds(1) [of "?r * ?g"] len i d(2) by simp
    from P have P1: "wr_ok ?p w" "wr_bits ?p w = rest_bits api k ?r (take i ?ss)"
      "length (wr_buf w) = ?L" "take (i * k) (wr_buf w) = whole_bytes api k (take i ?ss)" by auto
    have "?p \<le> ?L" using len by simp
    from write_bad_step [OF P1 s fit this room] obtain out w' where "mem_write (wr_buf w) (i * k) (take k ?ser) = Some out"
        "Write (?ser ! k) ?r (w\<lparr>wr_buf := out\<rparr>) = Some w'"
        "wr_ok ?p w'" "wr_bits ?p w' = rest_bits api k ?r (take i ?ss) @ word_bits ?r (?ser ! k)"
        "length (wr_buf w') = ?L" "take (i * k + k) (wr_buf w') = whole_bytes api k (take i ?ss) @ take k ?ser"
      by blast
    moreover have "mem_write (replicate (unat sketch_bytes + 1) 0) 0 ?ser = Some ?ser"
      using s k(1) by (simp add: mem_write_def)
    ultimately show ?thesis
      using i d k(1) k(2) [of i]
      by (simp add: ok_simps whole_bytes_snoc rest_bits_snoc add.commute del: replicate.simps)
  qed
  moreover have "?P 0 (BitWriter buf ?p)"
    using len by (simp add: whole_bytes_def rest_bits_def)
  ultimately obtain w where w: "fold_ok ?body [0..<?g] (BitWriter buf ?p) = Inr w" "?P ?g w"
    using fold_ok_upt [of ?g ?P ?body "BitWriter buf ?p"] by blast
  then obtain w' pad where "Flush w = Some w'" "length (wr_buf w') = ?L" "wr_before ?p w' = wr_before ?p w"
      "buf_bits (drop ?p (wr_buf w')) = wr_bits ?p w @ replicate pad False"
    using Flush_all [of ?p w] len d(2) by auto
  with w d(2) p show ?thesis by (auto simp: write_bad_def wr_before_def)
qed


lemma rest_bits_0 [simp]: "rest_bits api k 0 ss = []"
  by (induction ss) (simp_all add: rest_bits_def)

lemma Bits2Bytes_mult:
  "Bits2Bytes (b * g) = g * (b div 8) + Bits2Bytes (b mod 8 * g)"
proof -
  have "b * g = 8 * (g * (b div 8)) + b mod 8 * g"
    by (metis (no_types) add_mult_distrib mult.assoc mult.commute mult_div_mod_eq)
  then show ?thesis by (simp add: Bits2Bytes_ceil)
qed

text \<open>
  \<open>write\<close> lays a valid message out as the format says, in exactly \<open>serializedSize\<close> bytes.
\<close>

lemma enc_write_layout:
  fixes msg :: "'sk encoding_message"
  assumes v: "enc_valid api msg" and len: "length buf = nat (enc_serializedSize msg)"
  defines "k \<equiv> unat (enc_field_sz msg) * unat (enc_capacity msg) div 8"
    and "n \<equiv> unat (enc_field_sz msg) * unat (enc_capacity msg) mod 8"
    and "g \<equiv> unat (enc_num_groups msg)"
  shows "\<exists>bs pad. (enc_write api msg buf :: 's failure + _) = Inr (bs, enc_serializedSize msg) \<and>
    length bs = length buf \<and> take (g * k) bs = whole_bytes api k (sketch_list msg) \<and>
    buf_bits (drop (g * k) bs) = rest_bits api k n (sketch_list msg) @ replicate pad False"
proof -
  let ?sz = "enc_field_sz msg * enc_capacity msg"
  note z = enc_sizes [OF v, folded g_def, folded k_def n_def]
  have c: "ms_contract api (enc_field_sz msg) (unat (enc_capacity msg))"
    using v by (simp add: enc_valid_def)
  have ser: "length (ms_serialize api s) = k + Bits2Bytes n" if "s \<in> set (sketch_list msg)" for s
    using enc_validD(3) [OF v that] ms_serialized [OF c]
      Bits2Bytes_mult [of "unat (enc_field_sz msg) * unat (enc_capacity msg)" 1]
    by (auto simp: k_def n_def)
  have "length buf = Bits2Bytes (unat (enc_field_sz msg) * unat (enc_capacity msg) * g)"
    using len z(8) by simp
  then have size: "length buf = g * k + Bits2Bytes (n * g)"
    unfolding k_def n_def by (rule trans [OF _ Bits2Bytes_mult])
  let ?buf = "replicate (length buf) 0 :: bytes"
  have clear: "mem_write buf 0 (replicate (nat (enc_serializedSize msg)) 0) = Some ?buf"
    using len by (simp add: mem_write_def)
  show ?thesis
  proof (cases "n = 0")
    case True
    have "?sz mod 8 = 0" using z(3) True by (simp add: unat_eq_zero)
    moreover have "(write_good api msg (?sz div 8) ?buf :: 's failure + _) = Inr (whole_bytes api k (sketch_list msg))"
      using z(2,5) ser size True by (intro write_good_eq [OF v]) (auto simp: g_def Bits2Bytes_ceil)
    moreover have "length (whole_bytes api k (sketch_list msg)) = g * k"
      using ser enc_validD(2) [OF v] by (subst length_whole_bytes) (auto simp: g_def)
    ultimately show ?thesis
      using clear size True z(8) by (auto simp: enc_write_def Let_def Bits2Bytes_ceil)
  next
    case False
    have "?sz mod 8 \<noteq> 0" using z(3) False by (metis unat_0)
    moreover have "Bits2Bytes n = 1" using False by (auto simp: Bits2Bytes_ceil n_def)
    ultimately show ?thesis
      using write_bad_eq [OF v z(2) [symmetric] z(5), of ?buf "?sz mod 8", where 's = 's] ser size clear z(3,6,8)
      by (auto simp: enc_write_def Let_def g_def)
  qed
qed

section \<open>Parsing\<close>

lemma take_word_bits: "n \<le> m \<Longrightarrow> take n (word_bits m v) = word_bits n v"
  by (simp add: word_bits_split)

lemma parse_good_eq:
  fixes msg :: "'sk encoding_message"
  assumes v: "enc_valid api msg" and r: "enc_receiver_for api msg r"
    and k: "k = unat sketch_bytes" "\<And>i. i \<le> unat (enc_num_groups msg) \<Longrightarrow> unat (of_nat i * sketch_bytes) = i * k"
    and ser: "\<And>s. s \<in> set (sketch_list msg) \<Longrightarrow> length (ms_serialize api s) = k"
    and buf: "buf = whole_bytes api k (sketch_list msg) @ rest"
  shows "(parse_good api r buf sketch_bytes :: 's failure + _) = Inr msg"
proof -
  let ?g = "unat (enc_num_groups msg)" and ?ss = "sketch_list msg"
  let ?m = "enc_field_sz msg" and ?t = "unat (enc_capacity msg)"
  note d = enc_validD [OF v]
  have c: "ms_contract api ?m ?t" using v by (simp add: enc_valid_def)
  then obtain s0 where s0: "ms_create api ?m 0 ?t = Some s0" using ms_created by blast
  have r': "r = msg\<lparr>sketches := replicate ?g (Some s0)\<rparr>"
    using r v s0 by (cases msg) (auto simp: enc_receiver_for_def PbsEncodingMessage_def enc_valid_def)
  let ?P = "\<lambda>i (x :: 'sk encoding_message). x = msg\<lparr>sketches := map Some (take i ?ss)\<rparr>"
  have len: "length buf \<ge> ?g * k"
    using buf d(2) ser by (simp add: length_whole_bytes)
  let ?body = "\<lambda>i x. (bind_ok (from_mem (mem_read buf (unat (of_nat i * sketch_bytes)) (unat sketch_bytes))) (\<lambda>b.
      bind_ok (deref (ms_create api (enc_field_sz x) 0 (unat (enc_capacity x)))) (\<lambda>s.
        Inr (x\<lparr>sketches := sketches x @ [Some (ms_deserialize api s b)]\<rparr>)))
      :: 's failure + 'sk encoding_message)"
  have "\<exists>x'. ?body i x = Inr x' \<and> ?P (Suc i) x'"
    if i: "i < ?g" and P: "?P i x" for i x
  proof -
    have s: "?ss ! i \<in> set ?ss" using i d(2) by simp
    have "Suc i * k \<le> ?g * k" using i by (intro mult_le_mono) auto
    then have "mem_read buf (i * k) k = Some (take k (drop (i * k) buf))"
      using len by (simp add: mem_read_def)
    moreover have "take k (drop (i * k) buf) = ms_serialize api (?ss ! i)"
      using whole_bytes_nth [of ?ss k api i rest] ser i d(2) buf by simp
    moreover have "ms_deserialize api s0 (ms_serialize api (?ss ! i)) = ?ss ! i"
      using ms_deserialized [OF c, of _ "?ss ! i" "[]" s0] d(3) [OF s] s0 by (auto simp: sketch_of_def)
    ultimately show ?thesis
      using P i d k(1) k(2) [of i] s0 by (simp add: take_Suc_conv_app_nth)
  qed
  moreover have "?P 0 (r\<lparr>sketches := []\<rparr>)" using r' by simp
  ultimately have "\<exists>x'. fold_ok ?body [0..<?g] (r\<lparr>sketches := []\<rparr>) = Inr x' \<and> ?P ?g x'"
    using fold_ok_upt [of ?g ?P ?body "r\<lparr>sketches := []\<rparr>"] by blast
  moreover have "enc_num_groups r = enc_num_groups msg" using r' by simp
  ultimately show ?thesis using d(1,2) by (cases msg) (auto simp: parse_good_def)
qed

lemma enc_receiver_eq:
  assumes "enc_valid api msg" "enc_receiver_for api msg r"
    and "ms_create api (enc_field_sz msg) 0 (unat (enc_capacity msg)) = Some s0"
  shows "r = msg\<lparr>sketches := replicate (unat (enc_num_groups msg)) (Some s0)\<rparr>"
  using assms by (cases msg) (auto simp: enc_receiver_for_def PbsEncodingMessage_def enc_valid_def)

text \<open>The bits of a serialized sketch are those of its whole bytes and of the rest.\<close>

lemma sketch_bits:
  assumes "length ser = Suc k" "b8 = 8 * k + n" "n \<le> 8" "word_bits n b = word_bits n (ser ! k)"
  shows "take b8 (buf_bits (take k ser @ [b])) = take b8 (buf_bits ser)"
proof -
  have "ser = take k ser @ [ser ! k]"
    using assms(1) by (metis lessI take_Suc_conv_app_nth take_all_iff order_refl)
  then obtain xs where "ser = xs @ [ser ! k]" "take k ser = xs" "length xs = k"
    using assms(1) by fastforce
  then show ?thesis
    using assms(2-4) by (metis append_same_eq buf_bits_simps(1,2,3) append_Nil2 length_buf_bits
        take_append take_word_bits diff_add_inverse)
qed

lemma parse_bad_eq:
  fixes msg :: "'sk encoding_message"
  assumes v: "enc_valid api msg" and r: "enc_receiver_for api msg r"
    and k: "k = unat sketch_bytes" "\<And>i. i \<le> unat (enc_num_groups msg) \<Longrightarrow> unat (of_nat i * sketch_bytes) = i * k"
    and p: "unat (sketch_bytes * enc_num_groups msg) = unat (enc_num_groups msg) * k"
    and mt: "unat (enc_field_sz msg) * unat (enc_capacity msg) = 8 * k + unat rem" "unat rem < 8"
    and ser: "\<And>s. s \<in> set (sketch_list msg) \<Longrightarrow> length (ms_serialize api s) = Suc k"
    and buf: "take (unat (enc_num_groups msg) * k) buf = whole_bytes api k (sketch_list msg)"
      "buf_bits (drop (unat (enc_num_groups msg) * k) buf) = rest_bits api k (unat rem) (sketch_list msg) @ pad"
      "unat (enc_num_groups msg) * k \<le> length buf"
  shows "(parse_bad api r buf sketch_bytes rem :: 's failure + _) = Inr msg"
proof -
  let ?g = "unat (enc_num_groups msg)" and ?ss = "sketch_list msg"
  let ?m = "enc_field_sz msg" and ?t = "unat (enc_capacity msg)" and ?r = "unat rem"
  note d = enc_validD [OF v]
  have c: "ms_contract api ?m ?t" using v by (simp add: enc_valid_def)
  then obtain s0 where s0: "ms_create api ?m 0 ?t = Some s0" using ms_created by blast
  note r' = enc_receiver_eq [OF v r s0]
  let ?P = "\<lambda>i (x :: bit_reader \<times> 'sk encoding_message). rd_ok (fst x) \<and>
    rd_bits (fst x) = rest_bits api k ?r (drop i ?ss) @ pad \<and>
    snd x = msg\<lparr>sketches := map Some (take i ?ss) @ replicate (?g - i) (Some s0)\<rparr>"
  let ?body = "\<lambda>i (rd, msg'). (bind_ok (from_mem (mem_read buf (unat (of_nat i * sketch_bytes)) (unat sketch_bytes))) (\<lambda>bb.
      bind_ok (from_mem (Read (unat rem) rd)) (\<lambda>(b, rd').
      bind_ok (vec_get (sketches msg') i) (\<lambda>p.
      bind_ok (deref p) (\<lambda>s.
        Inr (rd', msg'\<lparr>sketches := (sketches msg')[i := Some (ms_deserialize api s (bb @ [b]))]\<rparr>)))))
      :: 's failure + bit_reader \<times> 'sk encoding_message)"
  have "\<exists>x'. ?body i x = Inr x' \<and> ?P (Suc i) x'" if i: "i < ?g" and P: "?P i x" for i x
  proof -
    let ?ser = "ms_serialize api (?ss ! i)"
    obtain rd m' where x: "x = (rd, m')" by (cases x)
    have s: "?ss ! i \<in> set ?ss" using i d(2) by simp
    have "Suc i * k \<le> ?g * k" using i by (intro mult_le_mono) auto
    then have "mem_read buf (i * k) k = Some (take k (drop (i * k) buf))"
      using buf(3) by (simp add: mem_read_def)
    moreover have "take k (drop (i * k) buf) = take k ?ser"
      using whole_bytes_nth [of ?ss k api i "drop (?g * k) buf"] ser i d(2) buf(1)
      by (metis append_take_drop_id le_SucI order_refl)
    moreover have "rd_bits rd = word_bits ?r (?ser ! k) @ rest_bits api k ?r (drop (Suc i) ?ss) @ pad"
      using P i d(2) by (simp add: x rest_bits_def Cons_nth_drop_Suc [symmetric])
    then obtain b :: u8 and rd' where "Read ?r rd = Some (b, rd')" "rd_ok rd'"
        "word_bits ?r b = word_bits ?r (?ser ! k)" "rd_bits rd' = rest_bits api k ?r (drop (Suc i) ?ss) @ pad"
      using c8.get [of rd ?r] P mt(2) by (auto simp: x)
    moreover from this(3) have "ms_deserialize api s0 (take k ?ser @ [b]) = ?ss ! i"
      using ms_deserialized [OF c, of _ "?ss ! i" "[]" s0] d(3) [OF s] s0
        sketch_bits [OF ser [OF s] mt(1)] mt(2) by (auto simp: sketch_of_def)
    moreover have "(map Some (take i ?ss) @ replicate (?g - i) (Some s0))[i := Some (?ss ! i)] =
        map Some (take (Suc i) ?ss) @ replicate (?g - Suc i) (Some s0)"
      using i d(2) by (simp add: take_Suc_conv_app_nth list_update_append Suc_diff_Suc [symmetric] del: Suc_diff_Suc)
    ultimately show ?thesis
      using P i d k(1) k(2) [of i] s0 by (simp add: x ok_simps nth_append)
  qed
  moreover have "?P 0 (BitReader buf (?g * k), r)" using buf r' by simp
  ultimately have "\<exists>x'. fold_ok ?body [0..<?g] (BitReader buf (?g * k), r) = Inr x' \<and> ?P ?g x'"
    using fold_ok_upt [of ?g ?P ?body "(BitReader buf (?g * k), r)"] by blast
  moreover have "enc_num_groups r = enc_num_groups msg" using r' by simp
  ultimately show ?thesis using d(1,2) p by (cases msg) (auto simp: parse_bad_def)
qed

lemma enc_parse_write:
  fixes msg :: "'sk encoding_message"
  assumes v: "enc_valid api msg" and r: "enc_receiver_for api msg r"
    and len: "length buf = nat (enc_serializedSize msg)"
    and w: "(enc_write api msg buf :: 's failure + _) = Inr (bs, sz)"
  shows "(enc_parse api r (bs @ rest) (length bs) :: 't failure + _) = Inr (enc_serializedSize msg, msg)"
proof -
  let ?m = "unat (enc_field_sz msg)" and ?t = "unat (enc_capacity msg)"
  let ?g = "unat (enc_num_groups msg)" and ?sz = "enc_field_sz msg * enc_capacity msg"
  define k where "k = ?m * ?t div 8"
  define n where "n = ?m * ?t mod 8"
  note z = enc_sizes [OF v, folded k_def n_def]
  have c: "ms_contract api (enc_field_sz msg) ?t" and nz: "enc_field_sz msg \<noteq> 0" "enc_capacity msg \<noteq> 0" "enc_num_groups msg \<noteq> 0"
    using v by (auto simp: enc_valid_def)
  from c obtain s0 where s0: "ms_create api (enc_field_sz msg) 0 ?t = Some s0" using ms_created by blast
  have r': "enc_field_sz r = enc_field_sz msg" "enc_capacity r = enc_capacity msg" "enc_num_groups r = enc_num_groups msg"
    using enc_receiver_eq [OF v r s0] by auto
  obtain pad where bs: "length bs = length buf" "take (?g * k) bs = whole_bytes api k (sketch_list msg)"
      "buf_bits (drop (?g * k) bs) = rest_bits api k n (sketch_list msg) @ replicate pad False"
    using enc_write_layout [OF v len, where 's = 's] w by (auto simp: k_def n_def)
  have lb: "length bs = Bits2Bytes (?m * ?t * ?g)" using bs(1) len z(8) by simp
  then have le: "?g * k \<le> length bs" using Bits2Bytes_mult [of "?m * ?t" ?g] by (simp add: k_def)
  have mt: "?m * ?t = 8 * k + n" by (simp add: k_def n_def)
  have ser: "length (ms_serialize api s) = k + Bits2Bytes n" if "s \<in> set (sketch_list msg)" for s
    using enc_validD(3) [OF v that] ms_serialized [OF c] Bits2Bytes_mult [of "?m * ?t" 1]
    by (auto simp: k_def n_def)
  have "(if ?sz mod 8 = 0 then parse_good api r (bs @ rest) (?sz div 8)
      else parse_bad api r (bs @ rest) (?sz div 8) (ucast (?sz mod 8)) :: 't failure + _) = Inr msg"
  proof (cases "n = 0")
    case True
    have "?sz mod 8 = 0" using z(3) True by (simp add: unat_eq_zero)
    moreover have "bs = whole_bytes api k (sketch_list msg) @ drop (?g * k) bs"
      using bs(2) by (metis append_take_drop_id)
    ultimately show ?thesis
      using parse_good_eq [OF v r z(2) [symmetric] z(5), of "bs @ rest" "drop (?g * k) bs @ rest", where 's = 't] ser True
      by (simp add: Bits2Bytes_ceil)
  next
    case False
    then have "Bits2Bytes n = 1" by (auto simp: Bits2Bytes_ceil n_def)
    moreover have "?sz mod 8 \<noteq> 0" using z(3) False by (metis unat_0)
    moreover have "(parse_bad api r (bs @ rest) (?sz div 8) (ucast (?sz mod 8)) :: 't failure + _) = Inr msg"
    proof (rule parse_bad_eq [OF v r z(2) [symmetric] z(5) z(6), of "ucast (?sz mod 8)" "bs @ rest" "replicate pad False @ buf_bits rest"])
      show "?m * ?t = 8 * k + unat (ucast (?sz mod 8) :: u8)" using mt z(7) by simp
      show "unat (ucast (?sz mod 8) :: u8) < 8" using z(7) by (simp add: n_def)
      show "length (ms_serialize api s) = Suc k" if "s \<in> set (sketch_list msg)" for s
        using ser [OF that] \<open>Bits2Bytes n = 1\<close> by simp
      show "take (?g * k) (bs @ rest) = whole_bytes api k (sketch_list msg)" using bs(2) le by simp
      show "buf_bits (drop (?g * k) (bs @ rest)) = rest_bits api k (unat (ucast (?sz mod 8) :: u8)) (sketch_list msg) @
          replicate pad False @ buf_bits rest" using bs(3) le z(7) by simp
      show "?g * k \<le> length (bs @ rest)" using le by simp
    qed
    ultimately show ?thesis by simp
  qed
  then show ?thesis
    using z(4,8,9) r' nz lb by (simp add: enc_parse_def Let_def uint_nat)
qed

lemma enc_write_fills:
  assumes "enc_valid api msg" "length buf = nat (enc_serializedSize msg)"
  shows "\<exists>bs. (enc_write api msg buf :: 's failure + _) = Inr (bs, enc_serializedSize msg) \<and> length bs = length buf"
  using enc_write_layout [OF assms, where 's = 's] by auto

interpretation enc_msg: pbs_message enc_serializedSize "enc_write api" "enc_parse api" "enc_valid api"
    "enc_receiver_for api" for api
proof unfold_locales
  fix m r :: "'a encoding_message" and buf bs rest k
  show "enc_valid api m \<Longrightarrow> 0 \<le> enc_serializedSize m"
    by (simp add: enc_sizes(8))
  show "enc_valid api m \<Longrightarrow> length buf = nat (enc_serializedSize m) \<Longrightarrow>
      \<exists>bs. (enc_write api m buf :: 'a encoding_message failure + _) = Inr (bs, enc_serializedSize m) \<and> length bs = length buf"
    by (rule enc_write_fills)
  show "enc_valid api m \<Longrightarrow> enc_receiver_for api m r \<Longrightarrow> length buf = nat (enc_serializedSize m) \<Longrightarrow>
      (enc_write api m buf :: 'a encoding_message failure + _) = Inr (bs, k) \<Longrightarrow>
      (enc_parse api r (bs @ rest) (length bs) :: 'a encoding_message failure + _) = Inr (enc_serializedSize m, m)"
    by (rule enc_parse_write)
qed

text \<open>C25. An encoding message survives the transmission: every sketch is restored, in its order, for both
  layouts (sketches of whole bytes, and sketches whose last bits are packed behind the whole bytes of all).\<close>

theorem encoding_message_roundtrip:
  fixes msg :: "'sk encoding_message"
  assumes "enc_valid api msg" "enc_receiver_for api msg r"
  shows "transmit enc_serializedSize (enc_write api) (enc_parse api) msg r = Inr (enc_serializedSize msg, msg)"
  using assms by (rule enc_msg.transmit_roundtrip)

theorem encoding_message_roundtrip_witness:
  "transmit enc_serializedSize (enc_write (bitmap_api 3 3)) (enc_parse (bitmap_api 3 3))
     (PbsEncodingMessage (bitmap_api 3 3) 3 3 2) (PbsEncodingMessage (bitmap_api 3 3) 3 3 2) =
   Inr (enc_serializedSize (PbsEncodingMessage (bitmap_api 3 3) 3 3 2), PbsEncodingMessage (bitmap_api 3 3) 3 3 2)"
proof (rule encoding_message_roundtrip)
  have "ms_contract (bitmap_api 3 3) 3 3" using bitmap_contract [of 3 3] by simp
  moreover have "sketch_of (bitmap_api 3 3) 3 3 [] = ms_create (bitmap_api 3 3) 3 0 3"
    by (simp add: sketch_of_def)
  ultimately show "enc_valid (bitmap_api 3 3) (PbsEncodingMessage (bitmap_api 3 3) 3 3 2)"
    by (auto simp: enc_valid_def PbsEncodingMessage_def intro: exI [of _ "[]"])
qed (simp add: enc_receiver_for_def PbsEncodingMessage_def)

text \<open>The layout \<open>write\<close> promises: the whole bytes of every sketch one after the other, then the
  remaining bits of every sketch packed, then zero padding up to the serialized size.\<close>

lemma encoding_message_layout:
  fixes msg :: "'sk encoding_message"
  assumes "enc_valid api msg" "length buf = nat (enc_serializedSize msg)"
  shows "let k = unat (enc_field_sz msg) * unat (enc_capacity msg) div 8;
      n = unat (enc_field_sz msg) * unat (enc_capacity msg) mod 8; g = unat (enc_num_groups msg)
    in \<exists>bs pad. (enc_write api msg buf :: 'sk encoding_message failure + _) = Inr (bs, enc_serializedSize msg) \<and>
      length bs = length buf \<and> take (g * k) bs = whole_bytes api k (sketch_list msg) \<and>
      buf_bits (drop (g * k) bs) = rest_bits api k n (sketch_list msg) @ replicate pad False"
  unfolding Let_def using assms by (rule enc_write_layout)

end
