(* ===== verification/Decoding_Message.thy ===== *)
theory Decoding_Message
  imports Pbs_Message Minisketch_Api
begin

text \<open>
  \<open>src/pbs_decoding_message.h\<close>: per group the number of decoded bit errors (\<open>-1\<close> when BCH
  decoding failed), followed by the positions of all of them.
\<close>

record decoding_message =
  dec_field_sz :: u32
  dec_capacity :: u32
  dec_num_groups :: nat
  sizeof_each_d :: u32
  decoding_failure_flag :: u32
  decoded_num_differences :: "int list"
  decoded_differences :: "u64 list"

text \<open>The constructor; \<open>capacity + 2\<close> is computed in 32 bits.\<close>

definition PbsDecodingMessage :: "u32 \<Rightarrow> u32 \<Rightarrow> nat \<Rightarrow> 's failure + decoding_message" where
  "PbsDecodingMessage m t g =
     bind_ok (CeilLog2 (unat (t + 2))) (\<lambda>s.
       Inr \<lparr>dec_field_sz = m, dec_capacity = t, dec_num_groups = g,
            sizeof_each_d = of_nat s, decoding_failure_flag = UIntXMax (of_nat s),
            decoded_num_differences = replicate g 0,
            decoded_differences = replicate (g * unat t) 0\<rparr>)"

definition dec_serializedSize :: "decoding_message \<Rightarrow> int" where
  "dec_serializedSize msg =
     int (Bits2Bytes (unat (sizeof_each_d msg) * dec_num_groups msg +
       unat (dec_field_sz msg) * length (decoded_differences msg)))"

text \<open>The value written for one group, and the value read back for it.\<close>

definition d_encode :: "decoding_message \<Rightarrow> int \<Rightarrow> u32" where
  "d_encode msg d = (if d < 0 then decoding_failure_flag msg else of_int d)"

definition d_decode :: "decoding_message \<Rightarrow> u32 \<Rightarrow> int" where
  "d_decode msg d = (if d = decoding_failure_flag msg then -1 else uint d)"

definition dec_write :: "decoding_message \<Rightarrow> bytes \<Rightarrow> decoding_message failure + (bytes \<times> int)" where
  "dec_write msg to_buf =
     (case fold_opt (\<lambda>d. Write (d_encode msg d) (unat (sizeof_each_d msg)))
             (decoded_num_differences msg) (BitWriter to_buf 0) of
        None \<Rightarrow> Inl (Undefined OutOfBounds)
      | Some w1 \<Rightarrow>
          (case fold_opt (\<lambda>x. Write x (unat (dec_field_sz msg))) (decoded_differences msg) w1 of
             None \<Rightarrow> Inl (Undefined OutOfBounds)
           | Some w2 \<Rightarrow>
               (case Flush w2 of
                  None \<Rightarrow> Inl (Undefined OutOfBounds)
                | Some w3 \<Rightarrow> Inr (wr_buf w3, dec_serializedSize msg))))"

text \<open>
  \<open>parse\<close>: the d part is read before the size of the buffer is looked at; the size check that
  follows guards the positions only.
\<close>

definition dec_parse ::
    "decoding_message \<Rightarrow> bytes \<Rightarrow> nat \<Rightarrow> decoding_message failure + (int \<times> decoding_message)" where
  "dec_parse msg from_buf msg_sz =
     (case repeat_opt (length (decoded_num_differences msg)) (Read (unat (sizeof_each_d msg)))
             (BitReader from_buf 0) of
        None \<Rightarrow> Inl (Undefined OutOfBounds)
      | Some (ds, r1) \<Rightarrow>
          (let count = sum_list (map unat (filter (\<lambda>d. d \<noteq> decoding_failure_flag msg) ds));
               msg1 = msg\<lparr>decoded_num_differences := map (d_decode msg) ds,
                          decoded_differences := resize count 0 (decoded_differences msg)\<rparr>;
               total_bytes = dec_serializedSize msg1
           in if total_bytes > int msg_sz then Inr (-1, msg1)
              else (case repeat_opt count (Read (unat (dec_field_sz msg))) r1 of
                      None \<Rightarrow> Inl (Undefined OutOfBounds)
                    | Some (xs, r2) \<Rightarrow> Inr (total_bytes, msg1\<lparr>decoded_differences := xs\<rparr>))))"

text \<open>
  \<open>setWith\<close> merges the two hosts' sketches group by group and decodes each. The sketches of the
  first range are overwritten by the merged ones; a decoding writes its elements at \<open>offset\<close>
  into the preallocated vector.
\<close>

definition doDecoding ::
    "'sk minisketch_api \<Rightarrow> decoding_message \<Rightarrow> 'sk option \<Rightarrow> 'sk option \<Rightarrow>
     's failure + ('sk \<times> u64 list option)" where
  "doDecoding api msg sketch_a sketch_b =
     (case (sketch_a, sketch_b) of
        (Some a, Some b) \<Rightarrow>
          (let a' = ms_merge api a b in Inr (a', ms_decode api a' (unat (dec_capacity msg))))
      | _ \<Rightarrow> Inl (Undefined NullPointer))"

text \<open>
  The loop state: the group index \<open>g\<close>, the \<open>offset\<close>, the two vectors, and the merged sketches so
  far.
\<close>

fun setWith_loop ::
    "'sk minisketch_api \<Rightarrow> decoding_message \<Rightarrow> 'sk option list \<Rightarrow> 'sk option list \<Rightarrow>
     nat \<Rightarrow> nat \<Rightarrow> 's failure + (decoding_message \<times> nat \<times> 'sk option list)" where
  "setWith_loop api msg [] bs g offset = Inr (msg, offset, [])"
| "setWith_loop api msg (a # as) [] g offset = Inl (Undefined OutOfBounds)"
| "setWith_loop api msg (a # as) (b # bs) g offset =
     bind_ok (doDecoding api msg a b) (\<lambda>(a', res).
       let count = (case res of None \<Rightarrow> -1 | Some xs \<Rightarrow> int (length xs));
           xs = (case res of None \<Rightarrow> [] | Some xs \<Rightarrow> xs)
       in if \<not> (g < length (decoded_num_differences msg) \<and>
                offset + length xs \<le> length (decoded_differences msg))
          then Inl (Undefined OutOfBounds)
          else bind_ok
            (setWith_loop api
              (msg\<lparr>decoded_num_differences := (decoded_num_differences msg)[g := count],
                   decoded_differences := take offset (decoded_differences msg) @ xs @
                     drop (offset + length xs) (decoded_differences msg)\<rparr>)
              as bs (Suc g) (if count > 0 then offset + nat count else offset))
            (\<lambda>(msg', offset', as'). Inr (msg', offset', Some a' # as')))"

definition setWith ::
    "'sk minisketch_api \<Rightarrow> decoding_message \<Rightarrow> 'sk option list \<Rightarrow> 'sk option list \<Rightarrow>
     's failure + (decoding_message \<times> 'sk option list)" where
  "setWith api msg sketch_a sketch_b =
     bind_ok (setWith_loop api msg sketch_a sketch_b 0 0) (\<lambda>(msg', offset, as').
       Inr (msg'\<lparr>decoded_differences := resize offset 0 (decoded_differences msg')\<rparr>, as'))"


section \<open>The failure flag never collides with a count\<close>

lemma ceillog2_plus_2:
  "t + 2 \<le> 2 ^ ceillog2 (t + 2)" "t + 2 \<le> 2 ^ 31 \<Longrightarrow> ceillog2 (t + 2) \<le> 31"
  "0 < ceillog2 (t + 2)"
  using le_two_power_ceillog2 [of "t + 2"] ceillog2_le_iff [of "t + 2" 31] ceillog2_ge_iff [of "t + 2" 1]
  by auto

definition dec_params_ok :: "decoding_message \<Rightarrow> bool" where
  "dec_params_ok msg \<longleftrightarrow>
     unat (dec_capacity msg) + 2 \<le> 2 ^ 31 \<and> unat (dec_field_sz msg) \<le> 64 \<and>
     sizeof_each_d msg = of_nat (ceillog2 (unat (dec_capacity msg) + 2)) \<and>
     decoding_failure_flag msg = UIntXMax (sizeof_each_d msg) \<and>
     length (decoded_num_differences msg) = dec_num_groups msg"

lemma PbsDecodingMessage_ok:
  assumes "unat t + 2 \<le> 2 ^ 31" "unat m \<le> 64"
  shows "\<exists>msg. (PbsDecodingMessage m t g :: 's failure + _) = Inr msg \<and> dec_params_ok msg \<and>
    dec_field_sz msg = m \<and> dec_capacity msg = t \<and> dec_num_groups msg = g \<and>
    length (decoded_differences msg) = g * unat t"
proof -
  have "unat (t + 2) = unat t + 2"
    using assms(1) by (simp add: unat_word_ariths)
  with assms show ?thesis
    by (auto simp: PbsDecodingMessage_def CeilLog2_def dec_params_ok_def)
qed

lemma sizeof_each_d_bounds:
  assumes "dec_params_ok msg"
  shows "unat (sizeof_each_d msg) \<le> 31" "unat (dec_capacity msg) + 2 \<le> 2 ^ unat (sizeof_each_d msg)"
    and "unat (decoding_failure_flag msg) = 2 ^ unat (sizeof_each_d msg) - 1"
proof -
  let ?s = "ceillog2 (unat (dec_capacity msg) + 2)"
  have s: "?s \<le> 31" "unat (dec_capacity msg) + 2 \<le> 2 ^ ?s"
    using assms ceillog2_plus_2 by (auto simp: dec_params_ok_def)
  then have u: "unat (sizeof_each_d msg) = ?s"
    using assms by (simp add: dec_params_ok_def unat_of_nat)
  with s show "unat (sizeof_each_d msg) \<le> 31" "unat (dec_capacity msg) + 2 \<le> 2 ^ unat (sizeof_each_d msg)"
    by simp_all
  show "unat (decoding_failure_flag msg) = 2 ^ unat (sizeof_each_d msg) - 1"
    using assms unat_UIntXMax [of "sizeof_each_d msg"] u s by (simp add: dec_params_ok_def)
qed

lemma d_encode_fits:
  assumes "dec_params_ok msg" "d \<le> uint (dec_capacity msg)"
  shows "fits_bits (unat (sizeof_each_d msg)) (d_encode msg d)"
    and "0 \<le> d \<Longrightarrow> d_encode msg d \<noteq> decoding_failure_flag msg \<and> uint (d_encode msg d) = d"
proof -
  note b = sizeof_each_d_bounds [OF assms(1)]
  have e: "unat (d_encode msg d) = nat d" if "0 \<le> d"
  proof -
    have "nat d < 2 ^ 32" using assms(2) unsigned_less [of "dec_capacity msg", where 'a = int] by simp
    then show ?thesis using that by (simp add: d_encode_def unat_of_nat flip: of_nat_nat)
  qed
  have c: "nat d \<le> unat (dec_capacity msg)"
    using assms(2) by (metis nat_mono unat_eq_nat_uint)
  show "fits_bits (unat (sizeof_each_d msg)) (d_encode msg d)"
  proof (cases "0 \<le> d")
    case True
    with e c b(2) show ?thesis by (simp only: fits_bits_def)
  next
    case False
    with b(3) show ?thesis by (simp add: fits_bits_def d_encode_def)
  qed
  assume d: "0 \<le> d"
  then have "unat (d_encode msg d) < unat (decoding_failure_flag msg)"
    using b(2,3) e c by linarith
  moreover have "uint (d_encode msg d) = d"
    using e [OF d] d by (metis int_nat_eq uint_nat)
  ultimately show "d_encode msg d \<noteq> decoding_failure_flag msg \<and> uint (d_encode msg d) = d" by auto
qed

lemma d_decode_encode:
  "dec_params_ok msg \<Longrightarrow> -1 \<le> d \<Longrightarrow> d \<le> uint (dec_capacity msg) \<Longrightarrow>
   d_decode msg (d_encode msg d) = d"
  using d_encode_fits(2) [of msg d] by (cases "0 \<le> d") (auto simp: d_decode_def d_encode_def)

section \<open>Serialization\<close>

definition dec_valid :: "decoding_message \<Rightarrow> bool" where
  "dec_valid msg \<longleftrightarrow> dec_params_ok msg \<and>
     (\<forall>d \<in> set (decoded_num_differences msg). -1 \<le> d \<and> d \<le> uint (dec_capacity msg)) \<and>
     (\<forall>x \<in> set (decoded_differences msg). fits_bits (unat (dec_field_sz msg)) x) \<and>
     length (decoded_differences msg) = sum_list (map nat (decoded_num_differences msg))"

definition dec_receiver_for :: "decoding_message \<Rightarrow> decoding_message \<Rightarrow> bool" where
  "dec_receiver_for msg r \<longleftrightarrow>
     (PbsDecodingMessage (dec_field_sz msg) (dec_capacity msg) (dec_num_groups msg) ::
        unit failure + decoding_message) = Inr r"

text \<open>The bits of a serialized message: the d part, then the positions.\<close>

definition dec_bits :: "decoding_message \<Rightarrow> bool list" where
  "dec_bits msg =
     concat (map (word_bits (unat (sizeof_each_d msg)))
       (map (d_encode msg) (decoded_num_differences msg))) @
     concat (map (word_bits (unat (dec_field_sz msg))) (decoded_differences msg))"

lemma length_dec_bits:
  "length (decoded_num_differences msg) = dec_num_groups msg \<Longrightarrow>
   dec_serializedSize msg = int (Bits2Bytes (length (dec_bits msg)))"
  by (simp add: dec_serializedSize_def dec_bits_def c32.length_enc_all c64.length_enc_all del: map_map)

lemma dec_write_bits:
  assumes n: "length (decoded_num_differences msg) = dec_num_groups msg"
    and len: "length buf = nat (dec_serializedSize msg)"
  shows "\<exists>bs pad. dec_write msg buf = Inr (bs, dec_serializedSize msg) \<and>
    length bs = length buf \<and> buf_bits bs = dec_bits msg @ replicate pad False"
proof -
  let ?s = "unat (sizeof_each_d msg)" and ?f = "unat (dec_field_sz msg)"
  let ?ds = "map (d_encode msg) (decoded_num_differences msg)" and ?xs = "decoded_differences msg"
  have size: "length buf = Bits2Bytes (length (dec_bits msg))"
    using len length_dec_bits [OF n] by simp
  have room: "?s * length ?ds + ?f * length ?xs \<le> 8 * length buf"
    using Bits2Bytes_bounds(1) [of "length (dec_bits msg)"]
    by (simp add: size dec_bits_def c32.length_enc_all c64.length_enc_all del: map_map)
  obtain w1 where w1: "fold_opt (\<lambda>v. Write v ?s) ?ds (BitWriter buf 0) = Some w1" "wr_ok 0 w1"
      "wr_bits 0 w1 = concat (map (word_bits ?s) ?ds)" "wr_capacity 0 w1 = 8 * length buf"
    using c32.put_all [of 0 "BitWriter buf 0" ?s ?ds] room by (auto simp del: map_map)
  obtain w2 where w2: "fold_opt (\<lambda>v. Write v ?f) ?xs w1 = Some w2" "wr_ok 0 w2"
      "wr_bits 0 w2 = dec_bits msg" "wr_capacity 0 w2 = 8 * length buf"
    using c64.put_all [of 0 w1 ?f ?xs] w1 room
    by (auto simp: dec_bits_def c32.length_enc_all simp del: map_map)
  then have "length (wr_buf w2) = length buf" by (simp add: wr_capacity_def)
  then obtain w3 pad where "Flush w2 = Some w3" "length (wr_buf w3) = length buf"
      "buf_bits (wr_buf w3) = dec_bits msg @ replicate pad False"
    using Flush_all [OF w2(2)] w2(3) size by auto
  with w1(1) w2(1) show ?thesis by (auto simp: dec_write_def fold_opt_map)
qed

lemma map_d_decode_encode:
  "dec_valid msg \<Longrightarrow> map (d_decode msg) (map (d_encode msg) (decoded_num_differences msg)) =
     decoded_num_differences msg"
  by (auto simp: dec_valid_def d_decode_encode intro!: map_idI)

lemma count_d_encode:
  assumes "dec_params_ok msg" "\<forall>d \<in> set ds. -1 \<le> d \<and> d \<le> uint (dec_capacity msg)"
  shows "sum_list (map unat (filter (\<lambda>d. d \<noteq> decoding_failure_flag msg) (map (d_encode msg) ds))) =
    sum_list (map nat ds)"
  using assms(2)
proof (induction ds)
  case (Cons d ds)
  show ?case
  proof (cases "0 \<le> d")
    case True
    moreover have "d \<le> uint (dec_capacity msg)" using Cons.prems by simp
    ultimately have "d_encode msg d \<noteq> decoding_failure_flag msg" "uint (d_encode msg d) = d"
      using d_encode_fits(2) [OF assms(1)] by blast+
    moreover from this(2) have "unat (d_encode msg d) = nat d" by (metis unat_eq_nat_uint)
    ultimately show ?thesis using Cons by simp
  next
    case False
    with Cons show ?thesis by (simp add: d_encode_def)
  qed
qed simp

lemma dec_parse_bits:
  assumes v: "dec_valid msg" and r: "dec_receiver_for msg r"
    and bits: "buf_bits buf = dec_bits msg @ rest" and sz: "dec_serializedSize msg \<le> int sz"
  shows "dec_parse r buf sz = Inr (dec_serializedSize msg, msg)"
proof -
  let ?s = "unat (sizeof_each_d msg)" and ?f = "unat (dec_field_sz msg)"
  let ?ds = "map (d_encode msg) (decoded_num_differences msg)" and ?xs = "decoded_differences msg"
  have p: "dec_params_ok msg" using v by (simp add: dec_valid_def)
  have same: "dec_field_sz r = dec_field_sz msg" "dec_capacity r = dec_capacity msg"
      "dec_num_groups r = dec_num_groups msg" "sizeof_each_d r = sizeof_each_d msg"
      "decoding_failure_flag r = decoding_failure_flag msg"
      "length (decoded_num_differences r) = length ?ds"
    using r p PbsDecodingMessage_ok [of "dec_capacity msg" "dec_field_sz msg" "dec_num_groups msg",
        where 's = unit]
    by (auto simp: dec_receiver_for_def dec_params_ok_def)
  have fits: "list_all (fits_bits ?s) ?ds" "list_all (fits_bits ?f) ?xs"
    using v d_encode_fits(1) [OF p] by (auto simp: dec_valid_def list_all_iff)
  have "?s \<le> 32" "?f \<le> 64"
    using sizeof_each_d_bounds(1) [OF p] p by (auto simp: dec_params_ok_def)
  moreover have "rd_bits (BitReader buf 0) = concat (map (word_bits ?s) ?ds) @
      concat (map (word_bits ?f) ?xs) @ rest"
    using bits by (simp add: dec_bits_def)
  ultimately obtain r1 where r1: "repeat_opt (length ?ds) (Read ?s) (BitReader buf 0) = Some (?ds, r1)"
      "rd_ok r1" "rd_bits r1 = concat (map (word_bits ?f) ?xs) @ rest"
    using c32.get_all [OF BitReader_fresh(1) _ _ fits(1)] by blast
  obtain r2 where r2: "repeat_opt (length ?xs) (Read ?f) r1 = Some (?xs, r2)"
    using c64.get_all [OF r1(2) \<open>?f \<le> 64\<close> r1(3) fits(2)] by blast
  have "d_decode r = d_decode msg" by (simp add: d_decode_def same fun_eq_iff)
  then have nums: "map (d_decode r) ?ds = decoded_num_differences msg"
    using map_d_decode_encode [OF v] by simp
  have count: "sum_list (map unat (filter (\<lambda>d. d \<noteq> decoding_failure_flag msg) ?ds)) = length ?xs"
    using count_d_encode [OF p] v by (simp add: dec_valid_def)
  show ?thesis
    using r1(1) r2 sz nums count same
    by (cases msg, cases r) (simp add: dec_parse_def Let_def dec_serializedSize_def)
qed

lemma dec_parse_write:
  assumes "dec_valid msg" "dec_receiver_for msg r" "length buf = nat (dec_serializedSize msg)"
    and "dec_write msg buf = Inr (bs, k)"
  shows "dec_parse r (bs @ rest) (length bs) = Inr (dec_serializedSize msg, msg)"
proof -
  have n: "length (decoded_num_differences msg) = dec_num_groups msg"
    using assms(1) by (simp add: dec_valid_def dec_params_ok_def)
  then obtain pad where "length bs = length buf" "buf_bits bs = dec_bits msg @ replicate pad False"
    using dec_write_bits [OF n assms(3)] assms(4) by auto
  with dec_parse_bits [OF assms(1,2), of "bs @ rest" "replicate pad False @ buf_bits rest"] assms(3)
  show ?thesis by simp
qed

interpretation dec_msg: pbs_message dec_serializedSize dec_write dec_parse dec_valid dec_receiver_for
proof
  show "0 \<le> dec_serializedSize m" for m by (simp add: dec_serializedSize_def)
  show "\<exists>bs. dec_write m buf = Inr (bs, dec_serializedSize m) \<and> length bs = length buf"
    if "dec_valid m" "length buf = nat (dec_serializedSize m)" for m buf
    using dec_write_bits [of m buf] that by (auto simp: dec_valid_def dec_params_ok_def)
qed (rule dec_parse_write)


text \<open>A buffer that does not even hold the d part is read past its end, whatever size is passed.\<close>

lemma dec_parse_short:
  assumes "dec_params_ok r" "8 * length buf < unat (sizeof_each_d r) * dec_num_groups r"
  shows "dec_parse r buf sz = Inl (Undefined OutOfBounds)"
proof -
  have "repeat_opt (length (decoded_num_differences r)) (Read (unat (sizeof_each_d r)))
      (BitReader buf 0) = (None :: (u32 list \<times> bit_reader) option)"
    using assms sizeof_each_d_bounds(1) [OF assms(1)]
    by (intro c32.get_all_short) (auto simp: dec_params_ok_def)
  then show ?thesis by (simp add: dec_parse_def)
qed

section \<open>Decoding the merged sketches\<close>

text \<open>Count and elements of one decoding result.\<close>

definition res_count :: "u64 list option \<Rightarrow> int" where
  "res_count r = (case r of None \<Rightarrow> -1 | Some xs \<Rightarrow> int (length xs))"

definition res_elems :: "u64 list option \<Rightarrow> u64 list" where
  "res_elems r = (case r of None \<Rightarrow> [] | Some xs \<Rightarrow> xs)"

definition merge_decode :: "'sk minisketch_api \<Rightarrow> nat \<Rightarrow> 'sk list \<Rightarrow> 'sk list \<Rightarrow> u64 list option list" where
  "merge_decode api cap as bs = map2 (\<lambda>a b. ms_decode api (ms_merge api a b) cap) as bs"

lemma setWith_loop_eq:
  assumes "length as = length bs" "length pre = g" "length acc = offset" "length post = length as"
    and "decoded_num_differences msg = pre @ post" "decoded_differences msg = acc @ free"
    and "length as * unat (dec_capacity msg) \<le> length free"
    and "\<And>a k xs. ms_decode api a k = Some xs \<Longrightarrow> length xs \<le> k"
  shows "\<exists>free'. (setWith_loop api msg (map Some as) (map Some bs) g offset :: 's failure + _) = Inr
    (msg\<lparr>decoded_num_differences := pre @ map res_count (merge_decode api (unat (dec_capacity msg)) as bs),
         decoded_differences := acc @
           concat (map res_elems (merge_decode api (unat (dec_capacity msg)) as bs)) @ free'\<rparr>,
     offset + length (concat (map res_elems (merge_decode api (unat (dec_capacity msg)) as bs))),
     map Some (map2 (ms_merge api) as bs))"
  using assms(1-7)
proof (induction as bs arbitrary: msg g offset pre acc post free rule: list_induct2)
  case Nil
  then show ?case by (cases msg) (auto simp: merge_decode_def)
next
  case (Cons a as b bs)
  let ?cap = "unat (dec_capacity msg)"
  let ?r = "ms_decode api (ms_merge api a b) ?cap"
  let ?xs = "res_elems ?r"
  have len: "length ?xs \<le> ?cap" "length ?xs \<le> length free"
    using assms(8) [of "ms_merge api a b" ?cap] Cons.prems(6)
    by (auto simp: res_elems_def split: option.splits intro: le_trans)
  obtain d post' where post: "post = d # post'" "length post' = length as"
    using Cons.prems(3) by (cases post) auto
  let ?msg = "msg\<lparr>decoded_num_differences := (decoded_num_differences msg)[g := res_count ?r],
      decoded_differences := take offset (decoded_differences msg) @ ?xs @
        drop (offset + length ?xs) (decoded_differences msg)\<rparr>"
  have n: "decoded_num_differences ?msg = (pre @ [res_count ?r]) @ post'"
    using Cons.prems(1,4) post by (simp add: list_update_append)
  have d: "decoded_differences ?msg = (acc @ ?xs) @ drop (length ?xs) free"
    using Cons.prems(2,5) by simp
  have step: "(setWith_loop api msg (map Some (a # as)) (map Some (b # bs)) g offset :: 's failure + _) =
      bind_ok (setWith_loop api ?msg (map Some as) (map Some bs) (Suc g) (offset + length ?xs))
        (\<lambda>(msg', offset', as'). Inr (msg', offset', Some (ms_merge api a b) # as'))"
    using Cons.prems(1-6) len post(1)
    by (cases ?r) (auto simp: doDecoding_def Let_def res_count_def res_elems_def)
  from Cons.prems(6) len(1) have "length as * unat (dec_capacity ?msg) \<le> length (drop (length ?xs) free)"
    by simp
  from Cons.IH [OF _ _ post(2) n d this, of "Suc g" "offset + length ?xs"] Cons.prems(1,2)
  show ?case unfolding step by (auto simp: merge_decode_def)
qed

lemma setWith_eq:
  assumes "length as = length bs" "length (decoded_num_differences msg) = length as"
    and "length as * unat (dec_capacity msg) \<le> length (decoded_differences msg)"
    and "\<And>a k xs. ms_decode api a k = Some xs \<Longrightarrow> length xs \<le> k"
  shows "(setWith api msg (map Some as) (map Some bs) :: 's failure + _) = Inr
    (msg\<lparr>decoded_num_differences := map res_count (merge_decode api (unat (dec_capacity msg)) as bs),
         decoded_differences := concat (map res_elems (merge_decode api (unat (dec_capacity msg)) as bs))\<rparr>,
     map Some (map2 (ms_merge api) as bs))"
  using setWith_loop_eq [of as bs "[]" 0 "[]" 0 "decoded_num_differences msg" msg
      "decoded_differences msg" api, where 's = 's] assms
  by (auto simp: setWith_def resize_def)

text \<open>C26. A decoding message survives the transmission: the numbers of differing bins (with -1 for a group
  that did not decode) and the bins themselves come back, read into a receiver built from the same parameters.\<close>

theorem decoding_message_roundtrip:
  assumes "dec_valid msg" "dec_receiver_for msg r"
  shows "transmit dec_serializedSize dec_write dec_parse msg r = Inr (dec_serializedSize msg, msg)"
  using assms by (rule dec_msg.transmit_roundtrip)

theorem decoding_message_roundtrip_witness:
  "let msg = \<lparr>dec_field_sz = 7, dec_capacity = 6, dec_num_groups = 3, sizeof_each_d = 3, decoding_failure_flag = 7,
         decoded_num_differences = [2, -1, 1], decoded_differences = [100, 3, 126]\<rparr>
   in transmit dec_serializedSize dec_write dec_parse msg
        (msg\<lparr>decoded_num_differences := replicate 3 0, decoded_differences := replicate 18 0\<rparr>) =
      Inr (dec_serializedSize msg, msg)"
proof -
  have c: "ceillog2 8 = 3" using ceillog2_2_power [of 3] by simp
  have f: "UIntXMax 3 = 7" by (simp add: UIntXMax_def)
  show ?thesis unfolding Let_def
  proof (rule decoding_message_roundtrip)
    show "dec_valid \<lparr>dec_field_sz = 7, dec_capacity = 6, dec_num_groups = 3, sizeof_each_d = 3, decoding_failure_flag = 7,
         decoded_num_differences = [2, -1, 1], decoded_differences = [100, 3, 126]\<rparr>"
      by (simp add: dec_valid_def dec_params_ok_def c f fits_bits_def)
  qed (simp add: dec_receiver_for_def PbsDecodingMessage_def CeilLog2_def c f)
qed

text \<open>\<open>parse\<close> does not look at the message size before it reads the difference counts: on a buffer too
  short for them it reads past the end, whatever size it is told, instead of returning -1.\<close>

lemma decoding_parse_reads_past_end:
  assumes "dec_params_ok r" "8 * length buf < unat (sizeof_each_d r) * dec_num_groups r"
  shows "dec_parse r buf sz = Inl (Undefined OutOfBounds)"
  using assms by (rule dec_parse_short)

end
