(* ===== verification/Hint_Message.thy ===== *)
theory Hint_Message
  imports Pbs_Message
begin

text \<open>
  \<open>src/pbs_encoding_hint_message.h\<close>: the ids of the groups in which a type I or II exception
  happened, each in \<open>bits_each = ceil(log2 max_range)\<close> bits, without a count. A zero after the
  first id ends the list on the receiving side.
\<close>

record hint_message =
  max_range :: nat
  bits_each :: nat
  groups_with_exceptions :: "u32 list"

definition PbsEncodingHintMessage :: "nat \<Rightarrow> 's failure + hint_message" where
  "PbsEncodingHintMessage r =
     bind_ok (CeilLog2 r) (\<lambda>b. Inr \<lparr>max_range = r, bits_each = b, groups_with_exceptions = []\<rparr>)"

definition addGroupId :: "u32 \<Rightarrow> hint_message \<Rightarrow> hint_message failure + hint_message" where
  "addGroupId gid msg =
     (if max_range msg \<le> unat gid then Inl (Throws OutOfRange msg)
      else Inr (msg\<lparr>groups_with_exceptions := groups_with_exceptions msg @ [gid]\<rparr>))"

definition hint_serializedSize :: "hint_message \<Rightarrow> int" where
  "hint_serializedSize msg = int (Bits2Bytes (length (groups_with_exceptions msg) * bits_each msg))"

lemma hint_size_nonneg [simp]: "0 \<le> hint_serializedSize msg"
  by (simp add: hint_serializedSize_def)

definition hint_write :: "hint_message \<Rightarrow> bytes \<Rightarrow> hint_message failure + (bytes \<times> int)" where
  "hint_write msg to_buf =
     (let sz = nat (hint_serializedSize msg)
      in case mem_write to_buf 0 (replicate sz 0) of
           None \<Rightarrow> Inl (Undefined OutOfBounds)
         | Some buf \<Rightarrow>
             (case fold_opt (\<lambda>gid. Write gid (bits_each msg)) (groups_with_exceptions msg)
                     (BitWriter buf 0) of
                None \<Rightarrow> Inl (Undefined OutOfBounds)
              | Some w \<Rightarrow>
                  (case Flush w of
                     None \<Rightarrow> Inl (Undefined OutOfBounds)
                   | Some w' \<Rightarrow> Inr (wr_buf w', int sz))))"

text \<open>
  The reading loop, for \<open>i\<close> up to \<open>count\<close>: stops at a zero that is not the first id, throws on an
  id out of range (the ids read so far stay in the message).
\<close>

function hint_parse_loop ::
    "nat \<Rightarrow> nat \<Rightarrow> bit_reader \<Rightarrow> hint_message \<Rightarrow> hint_message failure + hint_message" where
  "hint_parse_loop i count r msg =
     (if i < count
      then (case Read (bits_each msg) r of
              None \<Rightarrow> Inl (Undefined OutOfBounds)
            | Some (gid, r') \<Rightarrow>
                if gid = 0 \<and> i > 0 then Inr msg
                else if max_range msg \<le> unat (gid :: u32) then Inl (Throws OutOfRange msg)
                else hint_parse_loop (Suc i) count r'
                  (msg\<lparr>groups_with_exceptions := groups_with_exceptions msg @ [gid]\<rparr>))
      else Inr msg)"
  by pat_completeness auto
termination
  by (relation "measure (\<lambda>(i, count, r, msg). count - i)") auto

declare hint_parse_loop.simps [simp del]

definition hint_parse ::
    "hint_message \<Rightarrow> bytes \<Rightarrow> nat \<Rightarrow> hint_message failure + (int \<times> hint_message)" where
  "hint_parse msg from_buf msg_sz =
     (if msg_sz = 0 then Inr (0, msg)
      else if bits_each msg = 0 then Inl (Undefined DivisionByZero)
      else bind_ok (hint_parse_loop 0 (msg_sz * 8 div bits_each msg) (BitReader from_buf 0) msg)
             (\<lambda>msg'. Inr (int msg_sz, msg')))"

section \<open>Round trip\<close>

text \<open>
  What the encoder produces: ids below the range, none of them zero except possibly the first,
  and at least one bit per id (see \<open>hint_range_one\<close> for a range of one).
\<close>

definition hint_valid :: "hint_message \<Rightarrow> bool" where
  "hint_valid msg \<longleftrightarrow>
     bits_each msg = ceillog2 (max_range msg) \<and> 2 \<le> max_range msg \<and> max_range msg \<le> 2 ^ 32 \<and>
     (\<forall>g \<in> set (groups_with_exceptions msg). unat g < max_range msg) \<and>
     0 \<notin> set (tl (groups_with_exceptions msg))"

definition hint_receiver_for :: "hint_message \<Rightarrow> hint_message \<Rightarrow> bool" where
  "hint_receiver_for msg r \<longleftrightarrow>
     (PbsEncodingHintMessage (max_range msg) :: unit failure + hint_message) = Inr r"

lemma hint_bits_each:
  assumes "hint_valid msg"
  shows "0 < bits_each msg" "bits_each msg \<le> 32"
    "\<forall>g \<in> set (groups_with_exceptions msg). fits_bits (bits_each msg) g"
  using assms ceillog2_ge_iff [of "max_range msg" 1] ceillog2_le_iff [of "max_range msg" 32]
    le_two_power_ceillog2 [of "max_range msg"]
  by (auto simp: hint_valid_def fits_bits_def intro: less_le_trans)

lemma hint_write_bits:
  assumes len: "length buf = nat (hint_serializedSize msg)"
  shows "\<exists>bs pad. hint_write msg buf = Inr (bs, hint_serializedSize msg) \<and> length bs = length buf \<and>
    buf_bits bs = concat (map (word_bits (bits_each msg)) (groups_with_exceptions msg)) @
      replicate pad False"
proof -
  let ?gs = "groups_with_exceptions msg" and ?b = "bits_each msg"
  let ?bits = "concat (map (word_bits ?b) ?gs)"
  have size: "length buf = Bits2Bytes (length ?bits)" "length ?bits = ?b * length ?gs"
    using len by (simp_all add: hint_serializedSize_def c32.length_enc_all mult.commute)
  let ?buf = "replicate (length buf) 0 :: bytes"
  have clear: "mem_write buf 0 (replicate (length buf) 0) = Some ?buf"
    by (simp add: mem_write_def)
  obtain w where w: "fold_opt (\<lambda>g. Write g ?b) ?gs (BitWriter ?buf 0) = Some w" "wr_ok 0 w"
      "wr_bits 0 w = ?bits" "wr_capacity 0 w = 8 * length buf"
    using c32.put_all [of 0 "BitWriter ?buf 0" ?b ?gs] Bits2Bytes_bounds(1) [of "length ?bits"] size
    by auto
  then have "length (wr_buf w) = length buf" by (simp add: wr_capacity_def)
  then obtain w' pad where "Flush w = Some w'" "length (wr_buf w') = length buf"
      "buf_bits (wr_buf w') = ?bits @ replicate pad False"
    using Flush_all [OF w(2)] w(3) size(1) by auto
  with w(1) clear len show ?thesis by (auto simp: hint_write_def Let_def)
qed

text \<open>
  The loop reads the ids back and then either has no room for another id or meets a zero (the
  padding of the last byte).
\<close>

lemma hint_parse_loop_ids:
  assumes "rd_ok r" "rd_bits r = concat (map (word_bits (bits_each msg)) gs) @ replicate pad False @ rest"
    and "0 < bits_each msg" "bits_each msg \<le> 32"
    and "\<forall>g \<in> set gs. unat g < max_range msg \<and> fits_bits (bits_each msg) g"
    and "0 \<notin> set (if i = 0 then tl gs else gs)" "i = 0 \<longrightarrow> gs \<noteq> []"
    and "(count - i) * bits_each msg \<le> bits_each msg * length gs + pad" "i + length gs \<le> count"
  shows "hint_parse_loop i count r msg =
    Inr (msg\<lparr>groups_with_exceptions := groups_with_exceptions msg @ gs\<rparr>)"
  using assms
proof (induction gs arbitrary: i r msg)
  case Nil
  show ?case
  proof (cases "i < count")
    case False
    then show ?thesis by (simp add: hint_parse_loop.simps [of i])
  next
    case True
    then have "bits_each msg \<le> (count - i) * bits_each msg" by (cases "count - i") auto
    moreover have "(count - i) * bits_each msg \<le> pad" using Nil.prems(8) by simp
    ultimately have pad: "bits_each msg \<le> pad" by (rule order_trans)
    have "rd_bits r = word_bits (bits_each msg) (0 :: u32) @ replicate (pad - bits_each msg) False @ rest"
      using Nil.prems(2) pad by (simp add: word_bits_zero append_assoc [symmetric] flip: replicate_add)
    moreover have "fits_bits (bits_each msg) (0 :: u32)" by (simp add: fits_bits_def)
    ultimately obtain r' where "Read (bits_each msg) r = Some (0 :: u32, r')"
      using c32.get_enc [OF Nil.prems(1,4)] by blast
    with True Nil.prems(7) show ?thesis by (simp add: hint_parse_loop.simps [of i])
  qed
next
  case (Cons g gs)
  let ?msg = "msg\<lparr>groups_with_exceptions := groups_with_exceptions msg @ [g]\<rparr>"
  obtain r' where r': "Read (bits_each msg) r = Some (g, r')" "rd_ok r'"
      "rd_bits r' = concat (map (word_bits (bits_each msg)) gs) @ replicate pad False @ rest"
    using c32.get_enc [OF Cons.prems(1,4), of g] Cons.prems(2,5) by auto
  have "count - i = Suc (count - Suc i)" using Cons.prems(9) by simp
  then have "(count - Suc i) * bits_each ?msg \<le> bits_each ?msg * length gs + pad"
    using Cons.prems(8) by simp
  moreover have "0 \<notin> set gs" using Cons.prems(6) by (auto split: if_splits)
  ultimately have "hint_parse_loop (Suc i) count r' ?msg =
      Inr (?msg\<lparr>groups_with_exceptions := groups_with_exceptions ?msg @ gs\<rparr>)"
    using Cons.prems r' by (intro Cons.IH) auto
  moreover have "\<not> (g = 0 \<and> 0 < i)" using Cons.prems(6) by (auto split: if_splits)
  ultimately show ?case
    using r'(1) Cons.prems(5,9) by (auto simp: hint_parse_loop.simps [of i] not_le)
qed

lemma hint_parse_write:
  assumes v: "hint_valid msg" and r: "hint_receiver_for msg r"
    and len: "length buf = nat (hint_serializedSize msg)" and w: "hint_write msg buf = Inr (bs, k)"
  shows "hint_parse r (bs @ rest) (length bs) = Inr (hint_serializedSize msg, msg)"
proof -
  let ?gs = "groups_with_exceptions msg" and ?b = "bits_each msg"
  note b = hint_bits_each [OF v]
  have r': "r = msg\<lparr>groups_with_exceptions := []\<rparr>"
    using r v by (cases msg) (auto simp: hint_receiver_for_def PbsEncodingHintMessage_def CeilLog2_def hint_valid_def)
  obtain pad where bs: "length bs = length buf" "buf_bits bs = concat (map (word_bits ?b) ?gs) @ replicate pad False"
    using hint_write_bits [OF len] w by auto
  show ?thesis
  proof (cases "?gs = []")
    case True
    with len bs(1) r' show ?thesis
      by (cases msg) (simp add: hint_parse_def hint_serializedSize_def Bits2Bytes_ceil)
  next
    case False
    have total: "8 * length bs = ?b * length ?gs + pad"
      using arg_cong [OF bs(2), of length] by (simp add: c32.length_enc_all)
    have pos: "length bs \<noteq> 0" using False b(1) total by auto
    let ?count = "length bs * 8 div ?b"
    have "?count * ?b \<le> ?b * length ?gs + pad"
      using total by (metis mult.commute times_div_less_eq_dividend)
    moreover have "length ?gs \<le> ?count"
      using total b(1) by (simp add: less_eq_div_iff_mult_less_eq mult.commute)
    ultimately have "hint_parse_loop 0 ?count (BitReader (bs @ rest) 0) r = Inr msg"
      using hint_parse_loop_ids [of "BitReader (bs @ rest) 0" r ?gs pad "buf_bits rest" 0 ?count]
        bs(2) b v r' False by (cases msg) (auto simp: hint_valid_def)
    moreover have "int (length bs) = hint_serializedSize msg"
      using len bs(1) by (simp add: hint_serializedSize_def)
    ultimately show ?thesis using pos b(1) r' by (simp add: hint_parse_def)
  qed
qed

interpretation hint_msg: pbs_message hint_serializedSize hint_write hint_parse hint_valid hint_receiver_for
proof
  show "0 \<le> hint_serializedSize m" for m by simp
  show "\<exists>bs. hint_write m buf = Inr (bs, hint_serializedSize m) \<and> length bs = length buf"
    if "length buf = nat (hint_serializedSize m)" for m buf
    using hint_write_bits [OF that] by blast
qed (rule hint_parse_write)

text \<open>
  With a single group (\<open>max_range = 1\<close>) an id takes no bits: the message is empty and its id does
  not reach the other side.
\<close>

lemma hint_range_one:
  assumes "max_range msg = 1" "bits_each msg = 0" "hint_receiver_for msg r"
  shows "transmit hint_serializedSize hint_write hint_parse msg r = Inr (0, msg\<lparr>groups_with_exceptions := []\<rparr>)"
proof -
  have r: "r = msg\<lparr>groups_with_exceptions := []\<rparr>"
    using assms by (cases msg) (auto simp: hint_receiver_for_def PbsEncodingHintMessage_def CeilLog2_def)
  have size: "hint_serializedSize msg = 0"
    by (simp add: hint_serializedSize_def assms(2) Bits2Bytes_ceil)
  then obtain bs where "hint_write msg [] = Inr (bs, 0)" "bs = []"
    using hint_write_bits [of "[]" msg] by auto
  with r size show ?thesis by (simp add: transmit_def hint_parse_def)
qed

text \<open>A hint message over at least two groups survives the transmission: the receiver, built from the
  same range, parses exactly the group ids that were added (the ids are distinct from 0 but for the first).\<close>

lemma hint_message_roundtrip:
  assumes "hint_valid msg" "hint_receiver_for msg r"
  shows "transmit hint_serializedSize hint_write hint_parse msg r = Inr (hint_serializedSize msg, msg)"
  using assms by (rule hint_msg.transmit_roundtrip)

text \<open>With a single group an id takes no bits: the hint message is empty on the wire, and the receiver
  parses no group id at all, whatever ids were added.\<close>

lemma hint_single_group_lost:
  assumes "max_range msg = 1" "bits_each msg = 0" "hint_receiver_for msg r"
  shows "transmit hint_serializedSize hint_write hint_parse msg r = Inr (0, msg\<lparr>groups_with_exceptions := []\<rparr>)"
  using assms by (rule hint_range_one)

end
