(* ===== verification/Parity_Sketch.thy ===== *)
theory Parity_Sketch
  imports Encoding_Message Decoding_Message Hint_Message
begin

text \<open>
  \<open>src/pbs.h\<close>: the class \<open>ParityBitmapSketch\<close>. One host (Alice) encodes her groups of elements
  into sketches, the other (Bob) merges them with his, decodes the positions in which the two
  parity bitmaps of a group differ and answers with these positions, the XOR of each such bin
  and a checksum per group; Alice recovers the elements. Groups whose checksum does not match and
  groups whose sketch does not decode are carried to the next round.

  The hash function XXH3 is a parameter (element, then seed), and so is minisketch. \<open>size_t\<close>
  values count things held in memory and are natural numbers; hash values, seeds, keys and the
  round counter keep their width. Assertions are off, as in the default release build.
\<close>

section \<open>State\<close>

datatype PbsRole = Alice | Bob | Undetermined

definition SEED_OFFSET :: u64 where "SEED_OFFSET = 142857"
definition BCH_FAILURE_PARTITION_SEED :: u64 where "BCH_FAILURE_PARTITION_SEED = 0x5A8923A"

type_synonym hash_fn = "u64 \<Rightarrow> u64 \<Rightarrow> u64"

record 'sk pbs_sketch =
  num_groups_when_bch_fail :: nat
  group_partition_seed :: u64
  parity_encoding_seed :: u64
  bch_m :: nat
  bch_n :: nat
  bch_t :: nat
  num_diffs :: nat
  num_groups :: nat
  num_groups_remaining :: nat
  round_count :: u32
  role :: PbsRole
  groups :: "u64 list list"
  to_original_group_id :: "nat list"
  pbs_encoding :: "'sk encoding_message option"
  pbs_decoding :: "decoding_message option"
  hint_max_range :: nat
  xors :: "u64 list"
  checksums :: "u64 list"
  groups_exp_I_or_II :: "nat list"
  groups_bch_failed :: "nat list"
  recovered :: "u64 list list"

text \<open>
  The constructor, given the number of groups \<open>ceil(num_diffs / avg_diffs_per_group)\<close> and the best
  BCH parameters \<open>(m, t)\<close>. \<open>1u << m\<close> is undefined for \<open>m \<ge> 32\<close>.
\<close>

definition calcBchParams :: "nat \<times> nat \<Rightarrow> 'sk pbs_sketch \<Rightarrow> 's failure + 'sk pbs_sketch" where
  "calcBchParams best st =
     (if 32 \<le> fst best then Inl (Undefined BadShift)
      else Inr (st\<lparr>bch_m := fst best, bch_n := unat (push_bit (fst best) 1 - 1 :: u32), bch_t := snd best\<rparr>))"

definition ParityBitmapSketch ::
    "nat \<Rightarrow> nat \<Rightarrow> nat \<times> nat \<Rightarrow> nat \<Rightarrow> u64 \<Rightarrow> 's failure + 'sk pbs_sketch" where
  "ParityBitmapSketch d ng best c seed =
     bind_ok (calcBchParams best
       \<lparr>num_groups_when_bch_fail = c, group_partition_seed = seed,
        parity_encoding_seed = seed + SEED_OFFSET, bch_m = 0, bch_n = 0, bch_t = 0,
        num_diffs = d, num_groups = ng, num_groups_remaining = ng, round_count = 0,
        role = Undetermined, groups = replicate ng [], to_original_group_id = replicate ng 0,
        pbs_encoding = None, pbs_decoding = None, hint_max_range = ng, xors = [],
        checksums = replicate ng 0, groups_exp_I_or_II = [], groups_bch_failed = [], recovered = []\<rparr>)
     (\<lambda>st. Inr (st\<lparr>xors := resize (ng * bch_n st) 0 (xors st), to_original_group_id := [0..<ng]\<rparr>))"

section \<open>Hashing\<close>

definition getGroupId :: "hash_fn \<Rightarrow> 'sk pbs_sketch \<Rightarrow> u64 \<Rightarrow> 's failure + nat" where
  "getGroupId h st element =
     (if num_groups st = 0 then Inl (Undefined DivisionByZero)
      else Inr (unat (h element (group_partition_seed st)) mod num_groups st))"

text \<open>The subtraction \<open>bch_n_ - 1\<close> wraps in 64 bits, so only \<open>bch_n_ = 1\<close> divides by zero.\<close>

definition getBinId :: "hash_fn \<Rightarrow> 'sk pbs_sketch \<Rightarrow> u64 \<Rightarrow> 's failure + nat" where
  "getBinId h st element =
     (let n1 = of_nat (bch_n st) - 1 :: u64
      in if n1 = 0 then Inl (Undefined DivisionByZero)
         else Inr (unat (h element (parity_encoding_seed st + ucast (round_count st)) mod n1 + 1)))"

definition add :: "hash_fn \<Rightarrow> u64 \<Rightarrow> 'sk pbs_sketch \<Rightarrow> 's failure + 'sk pbs_sketch" where
  "add h element st =
     bind_ok (getGroupId h st element) (\<lambda>gid.
     bind_ok (vec_get (groups st) gid) (\<lambda>g.
       Inr (st\<lparr>groups := (groups st)[gid := g @ [element]]\<rparr>)))"

definition add_all :: "hash_fn \<Rightarrow> u64 list \<Rightarrow> 'sk pbs_sketch \<Rightarrow> 's failure + 'sk pbs_sketch" where
  "add_all h es st = fold_ok (add h) es st"

section \<open>Encoding\<close>

text \<open>
  \<open>doEncode_\<close>: one pass over the group fills the parity bitmap, the XOR of every bin and the
  checksum; a second pass adds the positions set in the bitmap to the sketch.
\<close>

definition doEncode_element ::
    "hash_fn \<Rightarrow> nat \<Rightarrow> u64 \<Rightarrow> bytes \<times> 'sk pbs_sketch \<Rightarrow> 's failure + (bytes \<times> 'sk pbs_sketch)" where
  "doEncode_element h gid elm = (\<lambda>(bitmap, st).
     bind_ok (getBinId h st elm) (\<lambda>loc.
     bind_ok (vec_get bitmap loc) (\<lambda>b.
     bind_ok (vec_get (xors st) (gid * bch_n st + loc)) (\<lambda>x.
     bind_ok (vec_get (checksums st) gid) (\<lambda>c.
       Inr (bitmap[loc := b XOR 1],
            st\<lparr>xors := (xors st)[gid * bch_n st + loc := x XOR elm],
               checksums := (checksums st)[gid := c XOR elm]\<rparr>))))))"

definition add_positions ::
    "'sk minisketch_api \<Rightarrow> nat \<Rightarrow> bytes \<Rightarrow> 'sk option \<Rightarrow> 's failure + 'sk option" where
  "add_positions api n bitmap sketch =
     fold_ok (\<lambda>k p. if bitmap ! k \<noteq> 0
                    then bind_ok (deref p) (\<lambda>s. Inr (Some (ms_add_uint64 api s (of_nat k))))
                    else Inr p) [0..<n] sketch"

definition doEncode ::
    "'sk minisketch_api \<Rightarrow> hash_fn \<Rightarrow> nat \<Rightarrow> 'sk option \<Rightarrow> 'sk pbs_sketch \<Rightarrow>
     's failure + ('sk option \<times> 'sk pbs_sketch)" where
  "doEncode api h gid sketch st =
     bind_ok (vec_get (groups st) gid) (\<lambda>g.
     bind_ok (fold_ok (doEncode_element h gid) g (replicate (bch_n st) 0, st)) (\<lambda>(bitmap, st').
     bind_ok (add_positions api (bch_n st) bitmap sketch) (\<lambda>sketch'.
       Inr (sketch', st'))))"

text \<open>
  The loop of \<open>encode\<close> and \<open>encodeWithHint\<close> over the groups: the sketch of group \<open>gid\<close> is changed
  through the pointer \<open>getSketch\<close> returns.
\<close>

definition encode_group ::
    "'sk minisketch_api \<Rightarrow> hash_fn \<Rightarrow> nat \<Rightarrow> 'sk encoding_message \<times> 'sk pbs_sketch \<Rightarrow>
     's failure + ('sk encoding_message \<times> 'sk pbs_sketch)" where
  "encode_group api h gid = (\<lambda>(msg, st).
     bind_ok (doEncode api h gid (getSketch msg gid) st) (\<lambda>(p, st').
       Inr (if gid < unat (enc_num_groups msg) then msg\<lparr>sketches := (sketches msg)[gid := p]\<rparr> else msg,
            st')))"

definition encode_groups ::
    "'sk minisketch_api \<Rightarrow> hash_fn \<Rightarrow> 'sk encoding_message \<Rightarrow> 'sk pbs_sketch \<Rightarrow>
     's failure + ('sk encoding_message \<times> 'sk pbs_sketch)" where
  "encode_groups api h msg st =
     bind_ok (fold_ok (encode_group api h) [0..<num_groups_remaining st] (msg, st)) (\<lambda>(msg', st').
       Inr (msg', st'\<lparr>pbs_encoding := Some msg'\<rparr>))"

text \<open>A throw out of the hint message leaves the sketch as it is at that point.\<close>

definition thrown_in :: "'s \<Rightarrow> 't failure + 'a \<Rightarrow> 's failure + 'a" where
  "thrown_in st r =
     (case r of Inl (Throws e _) \<Rightarrow> Inl (Throws e st) | Inl (Undefined u) \<Rightarrow> Inl (Undefined u)
      | Inr x \<Rightarrow> Inr x)"

definition encode ::
    "'sk minisketch_api \<Rightarrow> hash_fn \<Rightarrow> 'sk pbs_sketch \<Rightarrow>
     'sk pbs_sketch failure + (('sk encoding_message \<times> hint_message option) \<times> 'sk pbs_sketch)" where
  "encode api h st =
     bind_ok (encode_groups api h
       (PbsEncodingMessage api (of_nat (bch_m st)) (of_nat (bch_t st)) (of_nat (num_groups_remaining st))) st)
     (\<lambda>(msg, st1).
       if groups_exp_I_or_II st1 = [] then Inr ((msg, None), st1)
       else bind_ok (PbsEncodingHintMessage (hint_max_range st1)) (\<lambda>hint.
            bind_ok (thrown_in st1 (fold_ok (\<lambda>gid. addGroupId (of_nat gid)) (groups_exp_I_or_II st1) hint))
              (\<lambda>hint'. Inr ((msg, Some hint'), st1\<lparr>groups_exp_I_or_II := []\<rparr>))))"

section \<open>Moving groups between rounds\<close>

definition removeCompletedGroups :: "'sk pbs_sketch \<Rightarrow> 's failure + 'sk pbs_sketch" where
  "removeCompletedGroups st =
     (let k = num_groups_remaining st;
          st1 = (if role st = Alice then st\<lparr>hint_max_range := k\<rparr> else st)
      in if length (groups st) < k \<or> length (xors st) < bch_n st * k \<or>
            length (checksums st) < k \<or> length (to_original_group_id st) < k
         then Inl (Undefined OutOfBounds)
         else Inr (st1\<lparr>groups := drop k (groups st), xors := drop (bch_n st * k) (xors st),
                       checksums := drop k (checksums st),
                       to_original_group_id := drop k (to_original_group_id st),
                       num_groups_remaining := length (groups st) - k\<rparr>))"

text \<open>\<open>threeWaySplit_\<close>: the elements of a group whose sketch did not decode go to new sub-groups.\<close>

definition split_index :: "hash_fn \<Rightarrow> 'sk pbs_sketch \<Rightarrow> u64 \<Rightarrow> nat" where
  "split_index h st e =
     unat (h e (BCH_FAILURE_PARTITION_SEED + ucast (round_count st))) mod num_groups_when_bch_fail st"

definition threeWaySplit ::
    "hash_fn \<Rightarrow> nat \<Rightarrow> 'sk pbs_sketch \<Rightarrow> 's failure + 'sk pbs_sketch" where
  "threeWaySplit h gid st =
     (let old_size = length (groups st); c = num_groups_when_bch_fail st;
          resized = resize (old_size + c) [] (groups st)
      in bind_ok (vec_get resized gid) (\<lambda>g.
         bind_ok (fold_ok (\<lambda>e gs.
             if c = 0 then Inl (Undefined DivisionByZero)
             else let i = old_size + split_index h st e
                  in bind_ok (vec_get gs i) (\<lambda>sub. Inr (gs[i := sub @ [e]]))) g resized) (\<lambda>gs.
         bind_ok (vec_get (to_original_group_id st) gid) (\<lambda>orig.
           Inr (st\<lparr>groups := gs,
                   xors := resize (length (xors st) + c * bch_n st) 0 (xors st),
                   checksums := resize (length (checksums st) + c) 0 (checksums st),
                   to_original_group_id :=
                     resize (length (to_original_group_id st) + c) orig (to_original_group_id st)\<rparr>)))))"

text \<open>
  \<open>encodeWithHint\<close>: Bob appends the groups Alice names (their vector is moved out, the old entry
  is left empty), drops the finished ones and encodes again.
\<close>

definition move_group :: "u32 \<Rightarrow> 'sk pbs_sketch \<Rightarrow> 'sk pbs_sketch failure + 'sk pbs_sketch" where
  "move_group old_gid st =
     (if length (groups st) \<le> unat old_gid then Inl (Throws OutOfRange st)
      else bind_ok (vec_get (to_original_group_id st) (unat old_gid)) (\<lambda>orig.
        Inr (st\<lparr>groups := (groups st)[unat old_gid := []] @ [groups st ! unat old_gid],
                to_original_group_id := to_original_group_id st @ [orig]\<rparr>)))"

definition encodeWithHint ::
    "'sk minisketch_api \<Rightarrow> hash_fn \<Rightarrow> u32 list \<Rightarrow> 'sk pbs_sketch \<Rightarrow>
     'sk pbs_sketch failure + ('sk encoding_message \<times> 'sk pbs_sketch)" where
  "encodeWithHint api h ids st =
     (if role st \<noteq> Bob then Inl (Throws LogicError st)
      else
        let num = length ids + length (groups_bch_failed st) * num_groups_when_bch_fail st;
            msg = PbsEncodingMessage api (of_nat (bch_m st)) (of_nat (bch_t st)) (of_nat num);
            st1 = st\<lparr>pbs_encoding := Some msg,
                     xors := resize (length (xors st) + length ids * bch_n st) 0 (xors st),
                     checksums := resize (length (checksums st) + length ids) 0 (checksums st)\<rparr>
        in bind_ok (fold_ok move_group ids st1) (\<lambda>st2.
           bind_ok (removeCompletedGroups (st2\<lparr>groups_bch_failed := []\<rparr>)) (\<lambda>st3.
             if num \<noteq> num_groups_remaining st3 then Inl (Throws RuntimeError st3)
             else encode_groups api h msg st3)))"

section \<open>Decoding\<close>

text \<open>
  \<open>decode\<close>: the loop over the groups keeps the offset into the decoded positions and fills the
  two output vectors.
\<close>

definition decode_group ::
    "hash_fn \<Rightarrow> decoding_message \<Rightarrow> nat \<Rightarrow> nat \<times> u64 list \<times> u64 list \<times> 'sk pbs_sketch \<Rightarrow>
     's failure + (nat \<times> u64 list \<times> u64 list \<times> 'sk pbs_sketch)" where
  "decode_group h msg gid = (\<lambda>(offset, out_xors, out_checksums, st).
     let p = decoded_num_differences msg ! gid
     in if 0 \<le> p
        then bind_ok (fold_ok (\<lambda>k acc.
               bind_ok (vec_get (decoded_differences msg) (offset + k)) (\<lambda>bid.
               bind_ok (vec_get (xors st) (gid * bch_n st + unat bid)) (\<lambda>x. Inr (acc @ [x]))))
               [0..<nat p] out_xors) (\<lambda>out_xors'.
             bind_ok (vec_get (checksums st) gid) (\<lambda>c.
               Inr (offset + nat p, out_xors', out_checksums @ [c], st)))
        else bind_ok (threeWaySplit h gid (st\<lparr>groups_bch_failed := groups_bch_failed st @ [gid]\<rparr>)) (\<lambda>st'.
               Inr (offset, out_xors, out_checksums, st')))"

definition decode ::
    "'sk minisketch_api \<Rightarrow> hash_fn \<Rightarrow> 'sk encoding_message \<Rightarrow> 'sk pbs_sketch \<Rightarrow>
     'sk pbs_sketch failure + ((decoding_message \<times> u64 list \<times> u64 list) \<times> 'sk pbs_sketch)" where
  "decode api h other st =
     (if role st = Alice then Inl (Throws LogicError st)
      else bind_ok (PbsDecodingMessage (of_nat (bch_m st)) (of_nat (bch_t st)) (num_groups_remaining st)) (\<lambda>msg0.
        (case pbs_encoding st of
           None \<Rightarrow> Inl (Undefined NullPointer)
         | Some enc \<Rightarrow>
             bind_ok (setWith api msg0 (sketches enc) (sketches other)) (\<lambda>(msg, merged).
             let st1 = st\<lparr>hint_max_range := num_groups_remaining st, role := Bob,
                          pbs_encoding := Some (enc\<lparr>sketches := merged\<rparr>), pbs_decoding := Some msg\<rparr>
             in bind_ok (fold_ok (decode_group h msg) [0..<length (decoded_num_differences msg)]
                           (0, [], [], st1)) (\<lambda>(offset, out_xors, out_checksums, st2).
                  Inr ((msg, out_xors, out_checksums), st2\<lparr>round_count := round_count st2 + 1\<rparr>))))))"

section \<open>Recovering\<close>

text \<open>
  \<open>doDecodeCheck_\<close>: an element is taken when its bin and its group are the expected ones; on a
  checksum mismatch the group, with the recovered elements appended, is moved to the end.
\<close>

definition check_element ::
    "hash_fn \<Rightarrow> nat \<Rightarrow> decoding_message \<Rightarrow> u64 list \<Rightarrow> nat \<Rightarrow> 'sk pbs_sketch \<Rightarrow> nat \<Rightarrow>
     u64 list \<times> u64 \<Rightarrow> 's failure + (u64 list \<times> u64)" where
  "check_element h gid msg a_xor offset st i = (\<lambda>(rec, b_checksum).
     bind_ok (vec_get (decoded_differences msg) (offset + i)) (\<lambda>bid.
     bind_ok (vec_get a_xor (offset + i)) (\<lambda>ax.
     bind_ok (vec_get (xors st) (bch_n st * gid + unat bid)) (\<lambda>bx.
     bind_ok (vec_get (to_original_group_id st) gid) (\<lambda>expected_gid.
     let elm = ax XOR bx
     in bind_ok (getGroupId h st elm) (\<lambda>obtained_gid.
        bind_ok (getBinId h st elm) (\<lambda>obtained_bid.
          if obtained_bid = unat bid \<and> obtained_gid = expected_gid
          then Inr (rec @ [elm], b_checksum XOR elm) else Inr (rec, b_checksum))))))))"

definition doDecodeCheck ::
    "hash_fn \<Rightarrow> nat \<Rightarrow> nat \<Rightarrow> decoding_message \<Rightarrow> u64 list \<Rightarrow> nat \<Rightarrow> u64 \<Rightarrow> 'sk pbs_sketch \<Rightarrow>
     's failure + 'sk pbs_sketch" where
  "doDecodeCheck h gid p msg a_xor offset checksum st =
     bind_ok (vec_get (checksums st) gid) (\<lambda>b_checksum0.
     bind_ok (fold_ok (check_element h gid msg a_xor offset st) [0..<p] ([], b_checksum0)) (\<lambda>(rec, b_checksum).
     bind_ok (vec_get (recovered st) (unat (round_count st))) (\<lambda>r.
     let st1 = st\<lparr>recovered := (recovered st)[unat (round_count st) := r @ rec]\<rparr>
     in if checksum \<noteq> b_checksum
        then bind_ok (vec_get (groups st1) gid) (\<lambda>g.
             bind_ok (vec_get (to_original_group_id st1) gid) (\<lambda>orig.
               Inr (st1\<lparr>groups := (groups st1)[gid := []] @ [g @ rec],
                        to_original_group_id := to_original_group_id st1 @ [orig],
                        xors := resize (length (xors st1) + bch_n st1) 0 (xors st1),
                        checksums := checksums st1 @ [0],
                        groups_exp_I_or_II := groups_exp_I_or_II st1 @ [gid]\<rparr>)))
        else Inr st1)))"

text \<open>The first loop of \<open>decodeCheck\<close> handles the failed groups, the second checks the others.\<close>

definition failed_group ::
    "hash_fn \<Rightarrow> decoding_message \<Rightarrow> nat \<Rightarrow> nat \<times> nat \<times> 'sk pbs_sketch \<Rightarrow>
     's failure + (nat \<times> nat \<times> 'sk pbs_sketch)" where
  "failed_group h msg gid = (\<lambda>(xor_sz, checksum_sz, st).
     bind_ok (vec_get (decoded_num_differences msg) gid) (\<lambda>p.
       if p < 0
       then bind_ok (threeWaySplit h gid (st\<lparr>groups_bch_failed := groups_bch_failed st @ [gid]\<rparr>)) (\<lambda>st'.
              Inr (xor_sz, checksum_sz, st'))
       else Inr (xor_sz + nat p, Suc checksum_sz, st)))"

definition checked_group ::
    "hash_fn \<Rightarrow> decoding_message \<Rightarrow> u64 list \<Rightarrow> u64 list \<Rightarrow> nat \<Rightarrow>
     nat \<times> nat \<times> 'sk pbs_sketch \<Rightarrow> 's failure + (nat \<times> nat \<times> 'sk pbs_sketch)" where
  "checked_group h msg in_xors in_checksums gid = (\<lambda>(offset, cid, st).
     bind_ok (vec_get (decoded_num_differences msg) gid) (\<lambda>p.
       if p < 0 then Inr (offset, cid, st)
       else bind_ok (vec_get in_checksums cid) (\<lambda>c.
            bind_ok (doDecodeCheck h gid (nat p) msg in_xors offset c st) (\<lambda>st'.
              Inr (offset + nat p, Suc cid, st')))))"

definition decodeCheck ::
    "hash_fn \<Rightarrow> decoding_message \<Rightarrow> u64 list \<Rightarrow> u64 list \<Rightarrow> 'sk pbs_sketch \<Rightarrow>
     'sk pbs_sketch failure + (bool \<times> 'sk pbs_sketch)" where
  "decodeCheck h msg in_xors in_checksums st =
     (if role st = Bob then Inl (Throws LogicError st)
      else
        let st1 = st\<lparr>role := Alice, recovered := recovered st @ [[]], groups_bch_failed := []\<rparr>
        in bind_ok (fold_ok (failed_group h msg) [0..<dec_num_groups msg] (0, 0, st1)) (\<lambda>(xor_sz, checksum_sz, st2).
           if length in_xors < xor_sz \<or> length in_checksums < checksum_sz
           then Inl (Throws RuntimeError st2)
           else bind_ok (fold_ok (checked_group h msg in_xors in_checksums) [0..<dec_num_groups msg]
                           (0, 0, st2\<lparr>groups_exp_I_or_II := []\<rparr>)) (\<lambda>(offset, cid, st3).
                bind_ok (removeCompletedGroups st3) (\<lambda>st4.
                  Inr (num_groups_remaining st4 = 0, st4\<lparr>round_count := round_count st4 + 1\<rparr>)))))"

definition differencesLastRound :: "'sk pbs_sketch \<Rightarrow> 's failure + u64 list" where
  "differencesLastRound st =
     (if recovered st = [] then Inl (Undefined OutOfBounds) else Inr (last (recovered st)))"

definition differencesAll :: "'sk pbs_sketch \<Rightarrow> u64 list list" where
  "differencesAll st = recovered st"

definition rounds :: "'sk pbs_sketch \<Rightarrow> u32" where "rounds st = round_count st"
definition bchParameterM :: "'sk pbs_sketch \<Rightarrow> nat" where "bchParameterM st = bch_m st"
definition bchParameterT :: "'sk pbs_sketch \<Rightarrow> nat" where "bchParameterT st = bch_t st"
definition numberOfGroups :: "'sk pbs_sketch \<Rightarrow> nat" where "numberOfGroups st = num_groups_remaining st"

end
