(* ===== verification/Murmur_Hash.thy ===== *)
theory Murmur_Hash
  imports Pbs_Prelude
begin

text \<open>
  \<open>3rd/include/iblt/murmurhash3.cpp\<close>: MurmurHash3 (x86, 32 bits) over a byte vector, as the lookup
  table (\<open>Iblt\<close>) uses it for the buckets of a key and for its check sum.
\<close>

definition ROTL32 :: "u32 \<Rightarrow> nat \<Rightarrow> u32" where
  "ROTL32 x r = push_bit r x OR drop_bit (32 - r) x"

definition murmur_c1 :: u32 where "murmur_c1 = 0xcc9e2d51"
definition murmur_c2 :: u32 where "murmur_c2 = 0x1b873593"

text \<open>A 32-bit load from the data, on a little-endian machine.\<close>

definition load32 :: "bytes \<Rightarrow> nat \<Rightarrow> u32" where
  "load32 v p = ucast (v ! p) OR push_bit 8 (ucast (v ! (p + 1))) OR push_bit 16 (ucast (v ! (p + 2))) OR
     push_bit 24 (ucast (v ! (p + 3)))"

definition murmur_k1 :: "u32 \<Rightarrow> u32" where
  "murmur_k1 k1 = ROTL32 (k1 * murmur_c1) 15 * murmur_c2"

text \<open>The body: one step per block of four bytes.\<close>

definition murmur_block :: "bytes \<Rightarrow> nat \<Rightarrow> u32 \<Rightarrow> u32" where
  "murmur_block v i h1 = ROTL32 (h1 XOR murmur_k1 (load32 v (4 * i))) 13 * 5 + 0xe6546b64"

text \<open>The tail of up to three bytes, with the fall-through of the \<open>switch\<close>.\<close>

definition murmur_tail :: "bytes \<Rightarrow> u32 \<Rightarrow> u32" where
  "murmur_tail rest h1 =
     (if rest = [] then h1
      else h1 XOR murmur_k1
        ((if 3 \<le> length rest then push_bit 16 (ucast (rest ! 2)) else 0) XOR
         (if 2 \<le> length rest then push_bit 8 (ucast (rest ! 1)) else 0) XOR ucast (rest ! 0)))"

definition murmur_final :: "u32 \<Rightarrow> u32" where
  "murmur_final h0 =
     (let h1 = (h0 XOR drop_bit 16 h0) * 0x85ebca6b;
          h2 = (h1 XOR drop_bit 13 h1) * 0xc2b2ae35
      in h2 XOR drop_bit 16 h2)"

definition MurmurHash3 :: "u32 \<Rightarrow> bytes \<Rightarrow> u32" where
  "MurmurHash3 nHashSeed vDataToHash =
     (let nblocks = length vDataToHash div 4;
          h1 = fold (murmur_block vDataToHash) [0..<nblocks] nHashSeed;
          h2 = murmur_tail (drop (4 * nblocks) vDataToHash) h1
      in murmur_final (h2 XOR of_nat (length vDataToHash)))"

text \<open>Published test vectors of the function.\<close>

lemma murmur_vectors:
  "MurmurHash3 0 [] = 0" "MurmurHash3 1 [] = 0x514E28B7" "MurmurHash3 0xffffffff [] = 0x81F16F39"
  "MurmurHash3 0 [0x21, 0x43, 0x65, 0x87] = 0xF55B516B" "MurmurHash3 0 [0x21, 0x43, 0x65] = 0x7E4A8634"
  "MurmurHash3 0 [0x21] = 0x72661CF4"
  by code_simp+

end
