(* ===== verification/Iblt.thy ===== *)
theory Iblt
  imports Murmur_Hash "HOL-Library.Sublist" "HOL-Library.Product_Lexorder" "HOL-Library.List_Lexorder"
begin

text \<open>
  \<open>3rd/include/iblt/iblt.h\<close> and \<open>iblt.cpp\<close>: the invertible Bloom lookup table. A key is added to one
  cell of each of \<open>numHashes\<close> sub-tables; a cell holds a count, the XOR of its keys and of their check
  sums, so subtracting two tables cancels the common keys, and cells with a single key left (\<open>isPure\<close>)
  are peeled off until the table is empty. The model follows the code; the counts wrap at 32 bits, which
  fewer than \<open>2 ^ 31\<close> insertions never reach. Assertions are off, as in the default release build. A
  \<open>std::set\<close> is its sorted list of elements.
\<close>

section \<open>Cells\<close>

record iblt_cell =
  cell_count :: u32
  keySum :: u64
  keyCheck :: u32
  valueSum :: bytes

definition N_HASHCHECK :: u32 where "N_HASHCHECK = 11"

definition ToVec :: "u64 \<Rightarrow> bytes" where
  "ToVec number = map (\<lambda>i. ucast (drop_bit (i * 8) number AND 0xff)) [0..<8]"

definition key_check :: "u64 \<Rightarrow> u32" where
  "key_check k = MurmurHash3 N_HASHCHECK (ToVec k)"

definition isPure :: "iblt_cell \<Rightarrow> bool" where
  "isPure c \<longleftrightarrow> (cell_count c = 1 \<or> cell_count c = -1) \<and> keyCheck c = key_check (keySum c)"

definition cell_empty :: "iblt_cell \<Rightarrow> bool" where
  "cell_empty c \<longleftrightarrow> cell_count c = 0 \<and> keySum c = 0 \<and> keyCheck c = 0"

definition addValue :: "bytes \<Rightarrow> iblt_cell \<Rightarrow> iblt_cell" where
  "addValue v c =
     (if v = [] then c
      else let vs = (if length (valueSum c) < length v then resize (length v) 0 (valueSum c) else valueSum c)
           in c\<lparr>valueSum := map2 (XOR) (take (length v) vs) v @ drop (length v) vs\<rparr>)"

section \<open>The table\<close>

record iblt =
  valueSize :: nat
  numHashes :: nat
  hashTable :: "iblt_cell list"

text \<open>
  The constructors, given the truncated product \<open>expectedNumEntries * hedge\<close>: the size is raised to a
  multiple of \<open>numHashes\<close> by the loop of the code.
\<close>

definition zero_cell :: iblt_cell where
  "zero_cell = \<lparr>cell_count = 0, keySum = 0, keyCheck = 0, valueSum = []\<rparr>"

function raise_to_multiple :: "nat \<Rightarrow> nat \<Rightarrow> nat" where
  "raise_to_multiple h n = (if h = 0 \<or> h * (n div h) = n then n else raise_to_multiple h (Suc n))"
  by auto
termination
proof (relation "measure (\<lambda>(h, n). if n mod h = 0 then 0 else h - n mod h)")
  fix h n :: nat assume a: "\<not> (h = 0 \<or> h * (n div h) = n)"
  have "n mod h \<noteq> 0" using a by (metis mult_div_mod_eq add.right_neutral)
  moreover have "n mod h < h" using a by simp
  ultimately show "((h, Suc n), (h, n)) \<in> measure (\<lambda>(h, n). if n mod h = 0 then 0 else h - n mod h)"
    by (auto simp: mod_Suc)
qed simp

declare raise_to_multiple.simps [simp del]

definition IBLT :: "nat \<Rightarrow> nat \<Rightarrow> nat \<Rightarrow> 's failure + iblt" where
  "IBLT nEntries vsize h =
     (if h = 0 then Inl (Undefined DivisionByZero)
      else Inr \<lparr>valueSize = vsize, numHashes = h, hashTable = replicate (raise_to_multiple h nEntries) zero_cell\<rparr>)"

text \<open>The entry a key belongs to in the sub-table of hash \<open>i\<close>.\<close>

definition entry_index :: "iblt \<Rightarrow> nat \<Rightarrow> u64 \<Rightarrow> 's failure + nat" where
  "entry_index t i k =
     (if numHashes t = 0 then Inl (Undefined DivisionByZero)
      else let b = length (hashTable t) div numHashes t
           in if b = 0 then Inl (Undefined DivisionByZero)
              else Inr (i * b + unat (MurmurHash3 (of_nat i) (ToVec k)) mod b))"

definition add_to_cell :: "u32 \<Rightarrow> u64 \<Rightarrow> bytes \<Rightarrow> iblt_cell \<Rightarrow> iblt_cell" where
  "add_to_cell plusOrMinus k v c =
     (let c' = c\<lparr>cell_count := cell_count c + plusOrMinus, keySum := keySum c XOR k,
                 keyCheck := keyCheck c XOR key_check k\<rparr>
      in if cell_empty c' then c'\<lparr>valueSum := []\<rparr> else addValue v c')"

text \<open>\<open>hashTable.at(i)\<close> throws outside the table.\<close>

definition at_entry :: "'s \<Rightarrow> iblt \<Rightarrow> nat \<Rightarrow> 's failure + iblt_cell" where
  "at_entry s t i = (if i < length (hashTable t) then Inr (hashTable t ! i) else Inl (Throws OutOfRange s))"

definition insert_one :: "u32 \<Rightarrow> u64 \<Rightarrow> bytes \<Rightarrow> iblt \<Rightarrow> iblt failure + iblt" where
  "insert_one plusOrMinus k v t =
     (if numHashes t = 0 then Inl (Undefined DivisionByZero)
      else fold_ok (\<lambda>i t. bind_ok (entry_index t i k) (\<lambda>j. bind_ok (at_entry t t j) (\<lambda>c.
             Inr (t\<lparr>hashTable := (hashTable t)[j := add_to_cell plusOrMinus k v c]\<rparr>)))) [0..<numHashes t] t)"

definition iblt_insert :: "u64 \<Rightarrow> bytes \<Rightarrow> iblt \<Rightarrow> iblt failure + iblt" where
  "iblt_insert k v t = insert_one 1 k v t"

definition iblt_erase :: "u64 \<Rightarrow> bytes \<Rightarrow> iblt \<Rightarrow> iblt failure + iblt" where
  "iblt_erase k v t = insert_one (-1) k v t"

text \<open>Subtraction, cell by cell.\<close>

definition subtract_cell :: "iblt_cell \<Rightarrow> iblt_cell \<Rightarrow> iblt_cell" where
  "subtract_cell e1 e2 =
     (let c = e1\<lparr>cell_count := cell_count e1 - cell_count e2, keySum := keySum e1 XOR keySum e2,
                 keyCheck := keyCheck e1 XOR keyCheck e2\<rparr>
      in if cell_empty c then c\<lparr>valueSum := []\<rparr> else addValue (valueSum e2) c)"

definition iblt_minus :: "iblt \<Rightarrow> iblt \<Rightarrow> iblt failure + iblt" where
  "iblt_minus a b =
     fold_ok (\<lambda>i r. bind_ok (at_entry r r i) (\<lambda>e1. bind_ok (at_entry r b i) (\<lambda>e2.
       Inr (r\<lparr>hashTable := (hashTable r)[i := subtract_cell e1 e2]\<rparr>)))) [0..<length (hashTable a)] a"

section \<open>Listing the entries\<close>

type_synonym entries = "(u64 \<times> bytes) list"

text \<open>One pass over the table: every pure entry met is recorded and removed.\<close>

definition peel_entry :: "nat \<Rightarrow> nat \<times> iblt \<times> entries \<times> entries \<Rightarrow> iblt failure + (nat \<times> iblt \<times> entries \<times> entries)" where
  "peel_entry i = (\<lambda>(nErased, t, pos, neg).
     bind_ok (at_entry t t i) (\<lambda>entry.
       if isPure entry
       then let e = (keySum entry, valueSum entry);
                pos' = (if cell_count entry = 1 then insort_insert e pos else pos);
                neg' = (if cell_count entry = 1 then neg else insort_insert e neg)
            in bind_ok (insert_one (- cell_count entry) (keySum entry) (valueSum entry) t) (\<lambda>t'.
                 Inr (Suc nErased, t', pos', neg'))
       else Inr (nErased, t, pos, neg)))"

definition peel_pass :: "iblt \<Rightarrow> entries \<Rightarrow> entries \<Rightarrow> iblt failure + (nat \<times> iblt \<times> entries \<times> entries)" where
  "peel_pass t pos neg = fold_ok peel_entry [0..<length (hashTable t)] (0, t, pos, neg)"

text \<open>
  The passes repeat while something was peeled. False check sums can keep this loop going for ever, so
  it is a partial function: not returning is \<open>None\<close>.
\<close>

partial_function (option) peel_loop ::
    "iblt \<Rightarrow> entries \<Rightarrow> entries \<Rightarrow> (iblt failure + (iblt \<times> entries \<times> entries)) option" where
  [code]: "peel_loop t pos neg =
     (case peel_pass t pos neg of
        Inl e \<Rightarrow> Some (Inl e)
      | Inr (nErased, t', pos', neg') \<Rightarrow>
          if nErased = 0 then Some (Inr (t', pos', neg')) else peel_loop t' pos' neg')"

definition listEntries :: "iblt \<Rightarrow> (iblt failure + (bool \<times> entries \<times> entries)) option" where
  "listEntries t =
     map_option (\<lambda>r. bind_ok r (\<lambda>(peeled, pos, neg).
       if numHashes t = 0 then Inl (Undefined DivisionByZero)
       else Inr (list_all cell_empty (take (length (hashTable peeled) div numHashes t) (hashTable peeled)), pos, neg)))
     (peel_loop t [] [])"

definition peelEntries :: "iblt \<Rightarrow> entries \<Rightarrow> entries \<Rightarrow> (iblt failure + (iblt \<times> entries \<times> entries)) option" where
  "peelEntries t pos neg = peel_loop t pos neg"

section \<open>Looking a key up\<close>

text \<open>
  The loop of \<open>get\<close> over the sub-tables: an answer is \<open>Some\<close> of the value found (empty when the key is
  definitely absent).
\<close>

fun get_direct :: "iblt \<Rightarrow> u64 \<Rightarrow> nat list \<Rightarrow> iblt failure + bytes option" where
  "get_direct t k [] = Inr None"
| "get_direct t k (i # is) =
     bind_ok (entry_index t i k) (\<lambda>j. bind_ok (at_entry t t j) (\<lambda>entry.
       if cell_empty entry then Inr (Some [])
       else if isPure entry then Inr (Some (if keySum entry = k then valueSum entry else []))
       else get_direct t k is))"

text \<open>The peeling pass of \<open>get\<close>, which stops at the key.\<close>

fun get_peel :: "u64 \<Rightarrow> nat list \<Rightarrow> nat \<times> iblt \<Rightarrow> iblt failure + (bytes option \<times> nat \<times> iblt)" where
  "get_peel k [] (n, t) = Inr (None, n, t)"
| "get_peel k (i # is) (n, t) =
     bind_ok (at_entry t t i) (\<lambda>entry.
       if isPure entry
       then if keySum entry = k then Inr (Some (valueSum entry), n, t)
            else bind_ok (insert_one (- cell_count entry) (keySum entry) (valueSum entry) t) (\<lambda>t'.
                   get_peel k is (Suc n, t'))
       else get_peel k is (n, t))"

partial_function (option) iblt_get :: "iblt \<Rightarrow> u64 \<Rightarrow> (iblt failure + (bool \<times> bytes)) option" where
  [code]: "iblt_get t k =
     (case get_direct t k [0..<numHashes t] of
        Inl e \<Rightarrow> Some (Inl e)
      | Inr (Some v) \<Rightarrow> Some (Inr (True, v))
      | Inr None \<Rightarrow>
          (case get_peel k [0..<length (hashTable t)] (0, t) of
             Inl e \<Rightarrow> Some (Inl e)
           | Inr (Some v, n, t') \<Rightarrow> Some (Inr (True, v))
           | Inr (None, n, t') \<Rightarrow> if n = 0 then Some (Inr (False, [])) else iblt_get t' k))"

text \<open>\<open>set\<close> fills the table from the cells of a message; more cells than entries are stored past the end.\<close>

definition set_cells :: "(u32 \<times> u64 \<times> u32) list \<Rightarrow> iblt \<Rightarrow> 's failure + iblt" where
  "set_cells cells t =
     (if length (hashTable t) < length cells then Inl (Undefined OutOfBounds)
      else Inr (t\<lparr>hashTable := map (\<lambda>(c, ks, kc). \<lparr>cell_count = c, keySum = ks, keyCheck = kc, valueSum = [0]\<rparr>) cells @
                    drop (length cells) (hashTable t)\<rparr>))"

text \<open>
  \<open>OptimalParameters\<close>: the parameters of the largest tabulated number of items not above the given one,
  found by counting down from it (in \<open>size_t\<close>, looked up as \<open>int\<close>).
\<close>

partial_function (option) OptimalParameters :: "(int \<Rightarrow> 'p option) \<Rightarrow> u64 \<Rightarrow> 'p option" where
  [code]: "OptimalParameters parameters n =
     (case parameters (sint (ucast n :: u32)) of Some p \<Rightarrow> Some p | None \<Rightarrow> OptimalParameters parameters (n - 1))"

end
