(* ===== verification/Bloom_Filter.thy ===== *)
theory Bloom_Filter
  imports Host_Data Murmur_Hash
begin

text \<open>
  \<open>3rd/include/bloom/bloom_filter.h\<close>: the Bloom filter Graphene sends, and its compressible variant. A \<open>double\<close> is
  a rational, an infinity or not a number; the \<open>log\<close> and \<open>pow\<close> of the search for the parameters, and the \<open>rand\<close> of
  more than 128 salts, are parameters. The virtual \<open>compute_indices\<close> is an argument of the operations that call it.
\<close>

section \<open>Parameters\<close>

definition bits_per_char :: nat where "bits_per_char = 8"

definition bit_mask :: "u8 list" where
  "bit_mask = [0x01, 0x02, 0x04, 0x08, 0x10, 0x20, 0x40, 0x80]"

datatype double = Finite rat | PosInf | NegInf | NotANumber

fun double_less :: "double \<Rightarrow> double \<Rightarrow> bool" where
  "double_less (Finite x) (Finite y) \<longleftrightarrow> x < y"
| "double_less (Finite x) PosInf \<longleftrightarrow> True"
| "double_less NegInf (Finite y) \<longleftrightarrow> True"
| "double_less NegInf PosInf \<longleftrightarrow> True"
| "double_less _ _ \<longleftrightarrow> False"

definition double_eq :: "double \<Rightarrow> double \<Rightarrow> bool" where
  "double_eq x y \<longleftrightarrow> x \<noteq> NotANumber \<and> x = y"

record bloom_parameters =
  minimum_size :: u64
  maximum_size :: u64
  minimum_number_of_hashes :: u32
  maximum_number_of_hashes :: u32
  projected_element_count :: u64
  false_positive_probability :: double
  random_seed :: u64
  number_of_hashes :: u32       \<comment> \<open>\<open>optimal_parameters\<close>\<close>
  table_size :: u64

definition default_parameters :: bloom_parameters where
  "default_parameters =
     \<lparr>minimum_size = 1, maximum_size = -1, minimum_number_of_hashes = 1, maximum_number_of_hashes = -1,
      projected_element_count = 10000, false_positive_probability = Finite (to_double (1 / 10000)),
      random_seed = 0xA5A5A5A55A5A5A5A, number_of_hashes = 0, table_size = 0\<rparr>"

definition invalid_parameters :: "bloom_parameters \<Rightarrow> bool" where
  "invalid_parameters p \<longleftrightarrow>
     minimum_size p > maximum_size p \<or> minimum_number_of_hashes p > maximum_number_of_hashes p \<or>
     minimum_number_of_hashes p < 1 \<or> maximum_number_of_hashes p = 0 \<or> projected_element_count p = 0 \<or>
     double_less (false_positive_probability p) (Finite 0) \<or> false_positive_probability p \<in> {PosInf, NegInf} \<or>
     random_seed p = 0 \<or> random_seed p = 0xFFFFFFFFFFFFFFFF"

text \<open>
  The number of bits for \<open>k\<close> hash functions, the value of \<open>numerator / denominator\<close>, is a parameter: of \<open>k\<close>, the
  number of elements and the probability. The loop keeps the least over \<open>k = 1, ..., 999\<close> and its \<open>k\<close>.
\<close>

type_synonym bits_formula = "nat \<Rightarrow> u64 \<Rightarrow> double \<Rightarrow> double"

definition least_bits :: "bits_formula \<Rightarrow> bloom_parameters \<Rightarrow> double \<times> nat" where
  "least_bits curr_m p =
     fold (\<lambda>k (min_m, min_k).
         let m = curr_m k (projected_element_count p) (false_positive_probability p)
         in if double_less m min_m then (m, k) else (min_m, min_k))
       [1..<1000] (PosInf, 0)"

text \<open>The cast to \<open>unsigned long long\<close> truncates; out of range it is undefined.\<close>

definition cast_u64 :: "double \<Rightarrow> 's failure + u64" where
  "cast_u64 x =
     (case x of
        Finite r \<Rightarrow> if -1 < r \<and> r < 2 ^ 64 then Inr (of_int (if 0 \<le> r then \<lfloor>r\<rfloor> else 0)) else Inl (Undefined BadCast)
      | _ \<Rightarrow> Inl (Undefined BadCast))"

definition pad_to_char :: "u64 \<Rightarrow> u64" where
  "pad_to_char n = n + (if n mod 8 \<noteq> 0 then 8 - n mod 8 else 0)"

definition clamp :: "'a::linorder \<Rightarrow> 'a \<Rightarrow> 'a \<Rightarrow> 'a" where
  "clamp lo hi x = (if x < lo then lo else if x > hi then hi else x)"

definition compute_optimal_parameters :: "bits_formula \<Rightarrow> bloom_parameters \<Rightarrow> 's failure + (bool \<times> bloom_parameters)" where
  "compute_optimal_parameters curr_m p =
     (if invalid_parameters p then Inr (False, p)
      else let (min_m, min_k) = least_bits curr_m p
           in bind_ok (cast_u64 min_m) (\<lambda>n.
              Inr (True, p\<lparr>number_of_hashes := clamp (minimum_number_of_hashes p) (maximum_number_of_hashes p) (of_nat min_k),
                           table_size := clamp (minimum_size p) (maximum_size p) (pad_to_char n)\<rparr>)))"

section \<open>Salts and hashes\<close>

definition predef_salt :: "u32 list" where
  "predef_salt =
    [0xAAAAAAAA, 0x55555555, 0x33333333, 0xCCCCCCCC, 0x66666666, 0x99999999, 0xB5B5B5B5, 0x4B4B4B4B,
     0xAA55AA55, 0x55335533, 0x33CC33CC, 0xCC66CC66, 0x66996699, 0x99B599B5, 0xB54BB54B, 0x4BAA4BAA,
     0xAA33AA33, 0x55CC55CC, 0x33663366, 0xCC99CC99, 0x66B566B5, 0x994B994B, 0xB5AAB5AA, 0xAAAAAA33,
     0x555555CC, 0x33333366, 0xCCCCCC99, 0x666666B5, 0x9999994B, 0xB5B5B5AA, 0xFFFFFFFF, 0xFFFF0000,
     0xB823D5EB, 0xC1191CDF, 0xF623AEB3, 0xDB58499F, 0xC8D42E70, 0xB173F616, 0xA91A5967, 0xDA427D63,
     0xB1E8A2EA, 0xF6C0D155, 0x4909FEA3, 0xA68CC6A7, 0xC395E782, 0xA26057EB, 0x0CD5DA28, 0x467C5492,
     0xF15E6982, 0x61C6FAD3, 0x9615E352, 0x6E9E355A, 0x689B563E, 0x0C9831A8, 0x6753C18B, 0xA622689B,
     0x8CA63C47, 0x42CC2884, 0x8E89919B, 0x6EDBD7D3, 0x15B6796C, 0x1D6FDFE4, 0x63FF9092, 0xE7401432,
     0xEFFE9412, 0xAEAEDF79, 0x9F245A31, 0x83C136FC, 0xC3DA4A8C, 0xA5112C8C, 0x5271F491, 0x9A948DAB,
     0xCEE59A8D, 0xB5F525AB, 0x59D13217, 0x24E7C331, 0x697C2103, 0x84B0A460, 0x86156DA9, 0xAEF2AC68,
     0x23243DA5, 0x3F649643, 0x5FA495A8, 0x67710DF8, 0x9A6C499E, 0xDCFB0227, 0x46A43433, 0x1832B07A,
     0xC46AFF3C, 0xB9C8FFF0, 0xC9500467, 0x34431BDF, 0xB652432B, 0xE367F12B, 0x427F4C1B, 0x224C006E,
     0x2E7E5A89, 0x96F99AA5, 0x0BEB452A, 0x2FD87C39, 0x74B2E1FB, 0x222EFD24, 0xF357F60C, 0x440FCB1E,
     0x8BBE030F, 0x6704DC29, 0x1144D12F, 0x948B1355, 0x6D8FD7E9, 0x1C11A014, 0xADD1592F, 0xFB3C712E,
     0xFC77642F, 0xF9C4CE8C, 0x31312FB9, 0x08B0DD79, 0x318FA6E7, 0xC040D23D, 0xC0589AA7, 0x0CA5C075,
     0xF874B172, 0x0CF914D5, 0x784D3280, 0x4E8CFEBC, 0xC569F575, 0xCDB2A091, 0x2CC016B4, 0x5C5F4421]"

text \<open>The seed is mixed in from left to right, in place: later salts see the new values of earlier ones.\<close>

definition mix_salts :: "u32 \<Rightarrow> u32 list \<Rightarrow> u32 list" where
  "mix_salts seed salts =
     fold (\<lambda>i s. s[i := s ! i * s ! ((i + 3) mod length s) + seed]) [0..<length salts] salts"

text \<open>More salts than predefined: products of two draws, without zero and repetitions.\<close>

partial_function (option) draw_salts :: "(nat \<Rightarrow> u32) \<Rightarrow> nat \<Rightarrow> nat \<Rightarrow> u32 list \<Rightarrow> u32 list option" where
  [code]: "draw_salts rand n i salts =
     (if n \<le> length salts then Some salts
      else let current_salt = rand (2 * i) * rand (2 * i + 1)
           in draw_salts rand n (Suc i)
                (if current_salt = 0 \<or> current_salt \<in> set salts then salts else salts @ [current_salt]))"

definition generate_unique_salt :: "(u32 \<Rightarrow> nat \<Rightarrow> u32) \<Rightarrow> u32 \<Rightarrow> u64 \<Rightarrow> 's failure + u32 list" where
  "generate_unique_salt srand n seed =
     (if unat n \<le> 128 then Inr (mix_salts (ucast seed) (take (unat n) predef_salt))
      else returns (map_option Inr (draw_salts (srand (ucast seed)) (unat n) 0 predef_salt)))"

text \<open>\<open>hash_ap\<close> on a little-endian machine; the arithmetic is that of \<open>unsigned int\<close>.\<close>

definition hash_pair :: "u32 \<Rightarrow> u32 \<Rightarrow> u32 \<Rightarrow> u32" where
  "hash_pair i1 i2 h =
     h XOR (push_bit 7 h XOR i1 * drop_bit 3 h XOR NOT (push_bit 11 h + (i2 XOR drop_bit 5 h)))"

definition hash_one :: "nat \<Rightarrow> u32 \<Rightarrow> u32 \<Rightarrow> u32" where
  "hash_one loop i h =
     (if odd loop then h XOR (push_bit 7 h XOR i * drop_bit 3 h)
      else h XOR NOT (push_bit 11 h + (i XOR drop_bit 5 h)))"

definition read_u16 :: "bytes \<Rightarrow> u32" where
  "read_u16 bs = ucast (bs ! 0) + push_bit 8 (ucast (bs ! 1))"

definition hash_tail :: "bytes \<Rightarrow> u32 \<Rightarrow> u32" where
  "hash_tail bs h =
     (let (bs1, h1, l1) = (if 4 \<le> length bs then (drop 4 bs, hash_one 0 (load32 bs 0) h, 1) else (bs, h, 0));
          (bs2, h2, l2) = (if 2 \<le> length bs1 then (drop 2 bs1, hash_one l1 (read_u16 bs1) h1, Suc l1) else (bs1, h1, l1))
      in if bs2 = [] then h2 else h2 + ((ucast (hd bs2) XOR h2 * 0xA5A5A5A5) + of_nat l2))"

function hash_ap :: "bytes \<Rightarrow> u32 \<Rightarrow> u32" where
  "hash_ap bs h =
     (if 8 \<le> length bs then hash_ap (drop 8 bs) (hash_pair (load32 bs 0) (load32 bs 4) h)
      else if bs = [] then h else hash_tail bs h)"
  by auto
termination by (relation "measure (\<lambda>(bs, h). length bs)") auto

declare hash_ap.simps [simp del]

section \<open>The filter\<close>

record bloom_filter =
  salt :: "u32 list"
  bit_table :: bytes
  salt_count :: u32
  bf_table_size :: u64
  bf_projected_element_count :: u64
  inserted_element_count :: u64
  bf_random_seed :: u64
  desired_false_positive_probability :: double

definition empty_bloom_filter :: bloom_filter where
  "empty_bloom_filter =
     \<lparr>salt = [], bit_table = [], salt_count = 0, bf_table_size = 0, bf_projected_element_count = 0,
      inserted_element_count = 0, bf_random_seed = 0, desired_false_positive_probability = Finite 0\<rparr>"

definition make_bloom_filter :: "(u32 \<Rightarrow> nat \<Rightarrow> u32) \<Rightarrow> bloom_parameters \<Rightarrow> 's failure + bloom_filter" where
  "make_bloom_filter srand p =
     (let seed = random_seed p * 0xA5A5A5A5 + 1
      in bind_ok (generate_unique_salt srand (number_of_hashes p) seed) (\<lambda>salts.
         Inr \<lparr>salt = salts, bit_table = replicate (unat (table_size p) div bits_per_char) 0,
              salt_count = number_of_hashes p, bf_table_size = table_size p,
              bf_projected_element_count = projected_element_count p, inserted_element_count = 0,
              bf_random_seed = seed, desired_false_positive_probability = false_positive_probability p\<rparr>))"

text \<open>An object equals itself, whatever its probability.\<close>

definition bloom_equal :: "bool \<Rightarrow> bloom_filter \<Rightarrow> bloom_filter \<Rightarrow> bool" where
  "bloom_equal same_object a b \<longleftrightarrow>
     same_object \<or>
     salt_count a = salt_count b \<and> bf_table_size a = bf_table_size b \<and> length (bit_table a) = length (bit_table b) \<and>
     bf_projected_element_count a = bf_projected_element_count b \<and> inserted_element_count a = inserted_element_count b \<and>
     bf_random_seed a = bf_random_seed b \<and>
     double_eq (desired_false_positive_probability a) (desired_false_positive_probability b) \<and>
     salt a = salt b \<and> bit_table a = bit_table b"

definition bloom_assign :: "bloom_filter \<Rightarrow> bloom_filter \<Rightarrow> bloom_filter" where
  "bloom_assign f this =
     this\<lparr>salt_count := salt_count f, bf_table_size := bf_table_size f, bit_table := bit_table f, salt := salt f,
          bf_projected_element_count := bf_projected_element_count f, inserted_element_count := inserted_element_count f,
          bf_random_seed := bf_random_seed f, desired_false_positive_probability := desired_false_positive_probability f\<rparr>"

definition bloom_not :: "'x bloom_filter_scheme \<Rightarrow> bool" where
  "bloom_not f \<longleftrightarrow> bf_table_size f = 0"

definition bloom_clear :: "'x bloom_filter_scheme \<Rightarrow> 'x bloom_filter_scheme" where
  "bloom_clear f = f\<lparr>bit_table := replicate (length (bit_table f)) 0, inserted_element_count := 0\<rparr>"

definition compute_indices :: "bloom_filter \<Rightarrow> u32 \<Rightarrow> 's failure + nat" where
  "compute_indices f h =
     (if bf_table_size f = 0 then Inl (Undefined DivisionByZero)
      else Inr (unat ((ucast h :: u64) mod bf_table_size f)))"

text \<open>\<open>insert\<close> sets one bit for each salt; \<open>index\<close> is the virtual \<open>compute_indices\<close> of the object.\<close>

type_synonym 'x index_fn = "'x bloom_filter_scheme \<Rightarrow> u32 \<Rightarrow> unit failure + nat"

definition set_bit_of :: "'x index_fn \<Rightarrow> bytes \<Rightarrow> u32 \<Rightarrow> 'x bloom_filter_scheme \<Rightarrow> unit failure + 'x bloom_filter_scheme" where
  "set_bit_of index key s f =
     bind_ok (index f (hash_ap key s)) (\<lambda>bit_index.
     bind_ok (vec_get (bit_table f) (bit_index div bits_per_char)) (\<lambda>b.
     Inr (f\<lparr>bit_table := (bit_table f)[bit_index div bits_per_char := b OR bit_mask ! (bit_index mod bits_per_char)]\<rparr>)))"

definition bloom_insert :: "'x index_fn \<Rightarrow> bytes \<Rightarrow> 'x bloom_filter_scheme \<Rightarrow> unit failure + 'x bloom_filter_scheme" where
  "bloom_insert index key f =
     bind_ok (fold_ok (set_bit_of index key) (salt f) f) (\<lambda>f1.
     Inr (f1\<lparr>inserted_element_count := inserted_element_count f1 + 1\<rparr>))"

definition bloom_insert_range :: "'x index_fn \<Rightarrow> bytes list \<Rightarrow> 'x bloom_filter_scheme \<Rightarrow> unit failure + 'x bloom_filter_scheme" where
  "bloom_insert_range index = fold_ok (bloom_insert index)"

fun contains_salts :: "'x index_fn \<Rightarrow> bytes \<Rightarrow> u32 list \<Rightarrow> 'x bloom_filter_scheme \<Rightarrow> unit failure + bool" where
  "contains_salts index key [] f = Inr True"
| "contains_salts index key (s # salts) f =
     bind_ok (index f (hash_ap key s)) (\<lambda>bit_index.
     bind_ok (vec_get (bit_table f) (bit_index div bits_per_char)) (\<lambda>b.
     let m = bit_mask ! (bit_index mod bits_per_char)
     in if b AND m \<noteq> m then Inr False else contains_salts index key salts f))"

definition bloom_contains :: "'x index_fn \<Rightarrow> bytes \<Rightarrow> 'x bloom_filter_scheme \<Rightarrow> unit failure + bool" where
  "bloom_contains index key f = contains_salts index key (salt f) f"

text \<open>The position of the first key that is not in the filter, or is, or of the end.\<close>

fun contains_all :: "'x index_fn \<Rightarrow> bytes list \<Rightarrow> 'x bloom_filter_scheme \<Rightarrow> unit failure + nat" where
  "contains_all index [] f = Inr 0"
| "contains_all index (key # keys) f =
     bind_ok (bloom_contains index key f) (\<lambda>b.
     if \<not> b then Inr 0 else bind_ok (contains_all index keys f) (\<lambda>i. Inr (Suc i)))"

fun contains_none :: "'x index_fn \<Rightarrow> bytes list \<Rightarrow> 'x bloom_filter_scheme \<Rightarrow> unit failure + nat" where
  "contains_none index [] f = Inr 0"
| "contains_none index (key # keys) f =
     bind_ok (bloom_contains index key f) (\<lambda>b.
     if b then Inr 0 else bind_ok (contains_none index keys f) (\<lambda>i. Inr (Suc i)))"

text \<open>The in-place operators combine filters of the same salts, size and seed, and leave others alone.\<close>

definition compatible :: "bloom_filter \<Rightarrow> bloom_filter \<Rightarrow> bool" where
  "compatible a b \<longleftrightarrow> salt_count a = salt_count b \<and> bf_table_size a = bf_table_size b \<and> bf_random_seed a = bf_random_seed b"

definition combine :: "(u8 \<Rightarrow> u8 \<Rightarrow> u8) \<Rightarrow> bloom_filter \<Rightarrow> bloom_filter \<Rightarrow> unit failure + bloom_filter" where
  "combine oper a b =
     (if compatible a b
      then fold_ok (\<lambda>i r. bind_ok (vec_get (bit_table b) i) (\<lambda>y. Inr (r\<lparr>bit_table := (bit_table r)[i := oper (bit_table r ! i) y]\<rparr>)))
             [0..<length (bit_table a)] a
      else Inr a)"

definition bloom_and :: "bloom_filter \<Rightarrow> bloom_filter \<Rightarrow> unit failure + bloom_filter" where
  "bloom_and = combine (AND)"

definition bloom_or :: "bloom_filter \<Rightarrow> bloom_filter \<Rightarrow> unit failure + bloom_filter" where
  "bloom_or = combine (OR)"

definition bloom_xor :: "bloom_filter \<Rightarrow> bloom_filter \<Rightarrow> unit failure + bloom_filter" where
  "bloom_xor = combine (XOR)"

text \<open>\<open>set\<close> takes over the bits of another table of the size wanted; the count of elements stays as it is.\<close>

definition bloom_set :: "bytes \<Rightarrow> bloom_filter \<Rightarrow> unit failure + (int \<times> bloom_filter)" where
  "bloom_set bs f =
     (if length bs \<noteq> unat (bf_table_size f div 8) then Inr (-1, f)
      else if length (bit_table f) < length bs then Inl (Undefined OutOfBounds)
      else Inr (int (length bs), f\<lparr>bit_table := bs @ drop (length bs) (bit_table f)\<rparr>))"

definition bloom_table :: "'x bloom_filter_scheme \<Rightarrow> bytes" where
  "bloom_table f = bit_table f"

definition element_count :: "'x bloom_filter_scheme \<Rightarrow> u64" where
  "element_count f = inserted_element_count f"

definition hash_count :: "'x bloom_filter_scheme \<Rightarrow> nat" where
  "hash_count f = length (salt f)"

section \<open>The compressible filter\<close>

record compressible_filter = bloom_filter +
  size_list :: "u64 list"

definition make_compressible_filter :: "(u32 \<Rightarrow> nat \<Rightarrow> u32) \<Rightarrow> bloom_parameters \<Rightarrow> 's failure + compressible_filter" where
  "make_compressible_filter srand p =
     bind_ok (make_bloom_filter srand p) (\<lambda>f. Inr (bloom_filter.extend f (compressible_filter.fields [bf_table_size f])))"

definition compressible_size :: "compressible_filter \<Rightarrow> u64" where
  "compressible_size f = List.last (size_list f)"

definition compressible_indices :: "compressible_filter \<Rightarrow> u32 \<Rightarrow> unit failure + nat" where
  "compressible_indices f h =
     fold_ok (\<lambda>n bit_index. if n = 0 then Inl (Undefined DivisionByZero) else Inr (bit_index mod unat n)) (size_list f) (unat h)"

text \<open>
  The upper part of the table is folded onto the lower one from its start; \<open>fpp\<close> stands for \<open>effective_fpp\<close>.
\<close>

definition compressed_size :: "rat \<Rightarrow> u64 \<Rightarrow> 's failure + u64" where
  "compressed_size percentage n =
     bind_ok (cast_u64 (Finite (to_double (to_double (of_nat (unat n)) * to_double (1 - to_double (percentage / 100)))))) (\<lambda>m.
     Inr (m - m mod 8))"

definition fold_table :: "nat \<Rightarrow> nat \<Rightarrow> bytes \<Rightarrow> unit failure + bytes" where
  "fold_table new old bt =
     (if length bt < new \<or> length bt < old then Inl (Undefined OutOfBounds)
      else fold_ok (\<lambda>i tmp. bind_ok (vec_get tmp (i - new)) (\<lambda>b. Inr (tmp[i - new := b OR bt ! i]))) [new..<old] (take new bt))"

definition compress :: "(compressible_filter \<Rightarrow> double) \<Rightarrow> rat \<Rightarrow> compressible_filter \<Rightarrow> unit failure + (bool \<times> compressible_filter)" where
  "compress fpp percentage f =
     (if percentage < 0 \<or> 100 \<le> percentage then Inr (False, f)
      else let original = compressible_size f
           in bind_ok (compressed_size percentage original) (\<lambda>new.
              if unat new < bits_per_char \<or> original \<le> new then Inr (False, f)
              else bind_ok (fold_table (unat new div bits_per_char) (unat original div bits_per_char) (bit_table f)) (\<lambda>tmp.
                   Inr (True, f\<lparr>desired_false_positive_probability := fpp f, bit_table := tmp, size_list := size_list f @ [new]\<rparr>))))"

end
