(* ===== verification/Graphene_Params.thy ===== *)
theory Graphene_Params
  imports Host_Data
begin

text \<open>
  \<open>3rd/include/iblt/search_params.h\<close>: the trade-off between the Bloom filter and the lookup table of Graphene.
  The rounding of \<open>double\<close> and the functions \<open>log\<close>, \<open>sqrt\<close>, \<open>exp\<close> and \<open>pow\<close> are parameters; an \<open>int\<close> is an integer
  whose conversion or product out of range is undefined; the quotient of \<open>bf_num_bytes\<close> is converted, so a division by
  zero there is undefined too. Elsewhere the values that are infinite or not a number are outside the model. What the
  code prints is left out.
\<close>

section \<open>Numbers\<close>

record libm =
  round_double :: "rat \<Rightarrow> rat"
  ln_of :: "rat \<Rightarrow> rat"
  sqrt_of :: "rat \<Rightarrow> rat"
  exp_of :: "rat \<Rightarrow> rat"
  pow_of :: "rat \<Rightarrow> rat \<Rightarrow> rat"

definition exact_libm :: "libm \<Rightarrow> bool" where
  "exact_libm lm \<longleftrightarrow> round_double lm = (\<lambda>x. x)"

definition to_int :: "int \<Rightarrow> 's failure + int" where
  "to_int i = (if fits_int i then Inr i else Inl (Undefined BadCast))"

definition START :: rat where "START = to_double (1 / 1000)"
definition NUM :: nat where "NUM = 5000"
definition CONSIDER_TOBE_ZERO :: rat where "CONSIDER_TOBE_ZERO = to_double (1 / 10 ^ 10)"

section \<open>The table\<close>

record csvdata =
  csv_item :: int
  csv_hedge :: rat
  csv_numhash :: int
  csv_size :: int
  csv_p :: rat

text \<open>
  The rows read from the file that is opened, if it is there; a last read behind the newline of the last row
  leaves the variable as it was, uninitialised at first. Reading through a null pointer is undefined.
\<close>

definition search_params :: "(csvdata list \<times> bool) option \<Rightarrow> csvdata \<Rightarrow> 's failure + csvdata list" where
  "search_params file uninitialised =
     (case file of
        None \<Rightarrow> Inl (Undefined NullPointer)
      | Some (rows, ends_in_newline) \<Rightarrow>
          Inr (rows @ (if ends_in_newline then [List.last (uninitialised # rows)] else [])))"

section \<open>The cost\<close>

definition bf_num_bytes :: "libm \<Rightarrow> rat \<Rightarrow> int \<Rightarrow> 's failure + rat" where
  "bf_num_bytes lm error_rate capacity =
     (let rd = round_double lm; l2 = ln_of lm 2; l = - ln_of lm error_rate
      in bind_ok (to_int \<lceil>rd (l / l2)\<rceil>) (\<lambda>num_slices.
         bind_ok (if num_slices = 0 then Inl (Undefined BadCast) else to_int \<lceil>rd (rd (of_int capacity * l) / rd (rd (of_int num_slices * l2) * l2))\<rceil>) (\<lambda>bits_per_slice.
         bind_ok (to_int (num_slices * bits_per_slice)) (\<lambda>bits. Inr (rd (of_int bits / 8))))))"

definition total :: "libm \<Rightarrow> csvdata list \<Rightarrow> rat \<Rightarrow> rat \<Rightarrow> int \<Rightarrow> int \<Rightarrow> 's failure + (rat \<times> int)" where
  "total lm params a fpr n y =
     (let rd = round_double lm
      in bind_ok (if \<bar>rd (1 - fpr)\<bar> < CONSIDER_TOBE_ZERO then Inr 0 else bf_num_bytes lm fpr n) (\<lambda>s.
         let pos = \<lceil>a\<rceil> + y - 1
         in bind_ok (if int (length params) \<le> pos then to_int \<lceil>rd (of_int (\<lceil>a\<rceil> + y) * to_double (1362549 / 10 ^ 6))\<rceil>
              else if pos < 0 then Inl (Undefined BadCast) else Inr (csv_size (params ! nat pos))) (\<lambda>rows.
            bind_ok (to_int (rows * 12)) (\<lambda>i. Inr (rd (s + of_int i), rows)))))"

section \<open>The search\<close>

record choice =
  min_total :: rat
  min_a :: rat
  min_fpr :: rat
  min_iblt_rows :: int

definition denominator :: "int \<Rightarrow> int \<Rightarrow> rat" where
  "denominator m x = (if x = m then 1 else of_int (m - x))"

text \<open>The points tried, each the last one plus the gap.\<close>

fun grid :: "libm \<Rightarrow> rat \<Rightarrow> nat \<Rightarrow> rat" where
  "grid lm denom 0 = START"
| "grid lm denom (Suc i) =
     round_double lm (grid lm denom i + round_double lm (round_double lm (denom - START) / of_nat NUM))"

definition solve_a :: "libm \<Rightarrow> csvdata list \<Rightarrow> int \<Rightarrow> int \<Rightarrow> int \<Rightarrow> int \<Rightarrow> 's failure + choice" where
  "solve_a lm params m n x y =
     (let denom = denominator m x; fpr0 = round_double lm (START / denom)
      in bind_ok (total lm params START fpr0 n y) (\<lambda>(t0, rows0).
         fold_ok (\<lambda>i best.
             let c = grid lm denom i; fpr = round_double lm (c / denom)
             in bind_ok (total lm params c fpr n y) (\<lambda>(t, rows).
                Inr (if t < min_total best then \<lparr>min_total = t, min_a = of_int \<lceil>c\<rceil>, min_fpr = fpr, min_iblt_rows = rows\<rparr> else best)))
           [0..<NUM] \<lparr>min_total = t0, min_a = of_int \<lceil>START\<rceil>, min_fpr = fpr0, min_iblt_rows = rows0\<rparr>))"

definition CB_bound :: "libm \<Rightarrow> rat \<Rightarrow> rat \<Rightarrow> rat \<Rightarrow> rat" where
  "CB_bound lm a fpr bound =
     (let rd = round_double lm; s = rd (- ln_of lm bound / a); temp = sqrt_of lm (rd (s * rd (s + 8)));
          delta_1 = rd (1 / 2 * rd (s + temp))
      in rd (rd (1 + delta_1) * a))"

definition CB_solve_a :: "libm \<Rightarrow> csvdata list \<Rightarrow> int \<Rightarrow> int \<Rightarrow> int \<Rightarrow> rat \<Rightarrow> 's failure + choice" where
  "CB_solve_a lm params m n x bound =
     (let denom = denominator m x; fpr0 = round_double lm (START / denom); a0 = CB_bound lm START fpr0 bound
      in bind_ok (total lm params a0 fpr0 n 0) (\<lambda>(t0, rows0).
         let temp_min_a = CB_bound lm denom 1 bound
         in bind_ok (total lm params temp_min_a 1 n 0) (\<lambda>(t_wo_bf, rows).
            fold_ok (\<lambda>i best.
                let c = grid lm denom i; fpr = round_double lm (c / denom); b = CB_bound lm c fpr bound
                in bind_ok (total lm params b fpr n 0) (\<lambda>(t, rows).
                   Inr (if t < min_total best then \<lparr>min_total = t, min_a = of_int \<lceil>b\<rceil>, min_fpr = fpr, min_iblt_rows = rows\<rparr> else best)))
              [0..<NUM]
              (if t_wo_bf < t0
               then \<lparr>min_total = t_wo_bf, min_a = of_int \<lceil>temp_min_a\<rceil>, min_fpr = 1, min_iblt_rows = rows\<rparr>
               else \<lparr>min_total = t0, min_a = a0, min_fpr = fpr0, min_iblt_rows = rows0\<rparr>))))"

section \<open>The search for the number of elements that passed\<close>

definition compute_delta :: "libm \<Rightarrow> int \<Rightarrow> int \<Rightarrow> int \<Rightarrow> rat \<Rightarrow> rat" where
  "compute_delta lm z x m fpr =
     (let temp = round_double lm (of_int (m - x) * fpr) in round_double lm (round_double lm (of_int (z - x) / temp) - 1))"

definition compute_RHS :: "libm \<Rightarrow> rat \<Rightarrow> int \<Rightarrow> int \<Rightarrow> rat \<Rightarrow> rat" where
  "compute_RHS lm delta m x fpr =
     (let num = exp_of lm delta; denom = pow_of lm (round_double lm (1 + delta)) (round_double lm (1 + delta));
          base = round_double lm (num / denom); exponent = round_double lm (of_int (m - x) * fpr)
      in pow_of lm base exponent)"

definition binom :: "libm \<Rightarrow> int \<Rightarrow> int \<Rightarrow> rat" where
  "binom lm n k =
     (if k > n then 0
      else let k = (if k * 2 > n then n - k else k)
           in if k = 0 then 1
              else fold (\<lambda>i result. round_double lm (round_double lm (result * of_int (n - int i + 1)) / of_nat i)) [2..<nat k + 1] (of_int n))"

definition compute_binomial_prob :: "libm \<Rightarrow> int \<Rightarrow> int \<Rightarrow> int \<Rightarrow> rat \<Rightarrow> rat" where
  "compute_binomial_prob lm m x z fpr =
     (let trials = m - x; successes = z - x; term_one = pow_of lm fpr (of_int successes);
          term_two = pow_of lm (round_double lm (1 - fpr)) (of_int (trials - successes)); term_three = binom lm trials successes
      in round_double lm (round_double lm (term_one * term_two) * term_three))"

text \<open>The loop ends at the first \<open>x\<close> at which the sum exceeds the bound; \<open>x_star\<close> is the one before, 0 if it never does.\<close>

fun x_star_loop :: "libm \<Rightarrow> int \<Rightarrow> int \<Rightarrow> rat \<Rightarrow> rat \<Rightarrow> nat list \<Rightarrow> rat \<Rightarrow> nat" where
  "x_star_loop lm z m fpr bound [] so_far = 0"
| "x_star_loop lm z m fpr bound (x # xs) so_far =
     (let result = compute_RHS lm (compute_delta lm z (int x) m fpr) m (int x) fpr
      in if round_double lm (so_far + result) > bound then (if x = 0 then x else x - 1)
         else x_star_loop lm z m fpr bound xs (round_double lm (so_far + result)))"

definition search_x_star :: "libm \<Rightarrow> int \<Rightarrow> int \<Rightarrow> rat \<Rightarrow> rat \<Rightarrow> int \<Rightarrow> nat" where
  "search_x_star lm z mempool_size fpr bound blk_size =
     x_star_loop lm z mempool_size fpr bound [0..<nat ((if z \<le> blk_size then z else blk_size) + 1)] 0"

end
