(* ===== verification/Recon_Server.thy ===== *)
theory Recon_Server
  imports Pin_Sketch Parity_Sketch Iblt Bloom_Filter Graphene_Params
begin

text \<open>
  \<open>reconciliation_server.h\<close>: the service as one state and one operation per remote call. An operation returns
  the gRPC status, the reply and the new state; an exception leaves the state as it is at the throw. What is not
  part of the repository comes in an environment: minisketch, the XXH functions, the random engine, the table of
  parameters the search for the best BCH code returns, and for Graphene the size and probability it is solved for,
  the file of lookup table parameters, the number of bits of a Bloom filter and \<open>rand\<close>.
  Printing is left out.
\<close>

section \<open>Environment and state\<close>

record ('sk, 'g) host_env =
  env_api :: "'sk minisketch_api"
  env_xxh3 :: hash_fn
  env_xxh32 :: hash32
  env_rnd :: "'g random_engine"
  env_best :: "nat \<Rightarrow> nat \<times> nat"
  env_solve_a :: "int \<Rightarrow> int \<Rightarrow> rat \<times> rat"          \<comment> \<open>\<open>CB_solve_a\<close>: \<open>a\<close> and the probability\<close>
  env_iblt_parameters :: "int \<Rightarrow> (nat \<times> rat) option"   \<comment> \<open>number of hashes and hedge\<close>
  env_bits :: bits_formula
  env_srand :: "u32 \<Rightarrow> nat \<Rightarrow> u32"

datatype grpc_status = OK | UNAVAILABLE | NOT_FOUND | ALREADY_EXISTS | UNKNOWN

record 'sk server =
  sv_estimator :: tug_of_war
  sv_sketches :: "int list"
  sv_estimated_diff :: int
  sv_key_value_pairs :: "kv_map option"
  sv_pbs :: "'sk pbs_sketch option"

definition EstimationServiceImpl :: "(nat \<Rightarrow> u32) \<Rightarrow> 's failure + 'sk server" where
  "EstimationServiceImpl draws = bind_ok (TugOfWarHash draws DEFAULT_SKETCHES) (\<lambda>e.
     Inr \<lparr>sv_estimator = e, sv_sketches = [], sv_estimated_diff = -1, sv_key_value_pairs = None, sv_pbs = None\<rparr>)"

definition set_key_value_pairs :: "kv_map \<Rightarrow> 'sk server \<Rightarrow> 'sk server" where
  "set_key_value_pairs t s = s\<lparr>sv_key_value_pairs := Some t\<rparr>"

text \<open>A \<open>size_t\<close> is stored as a signed number of the same width.\<close>

definition set_estimated_diff :: "nat \<Rightarrow> 'sk server \<Rightarrow> 'sk server" where
  "set_estimated_diff d s = s\<lparr>sv_estimated_diff := sint (of_nat d :: u64)\<rparr>"

definition put_pbs :: "'sk server \<Rightarrow> 'sk pbs_sketch \<Rightarrow> 'sk server" where
  "put_pbs s p = s\<lparr>sv_pbs := Some p\<rparr>"

definition LocalSketchForKeyValuePairs ::
    "('sk, 'g) host_env \<Rightarrow> kv_map \<Rightarrow> 'sk server \<Rightarrow> 's failure + 'sk server" where
  "LocalSketchForKeyValuePairs env t s =
     bind_ok (tow_apply_key_value_pairs (env_xxh32 env) (sv_estimator s) (m_values t)) (\<lambda>sk. Inr (s\<lparr>sv_sketches := sk\<rparr>))"

section \<open>Estimate\<close>

text \<open>
  The numbers of a request are of type \<open>int32\<close>, and so is the difference to a sketch, which may overflow; its
  square and the sum are computed in \<open>double\<close>. The request is indexed without a check.
\<close>

definition add_square :: "int \<Rightarrow> rat \<Rightarrow> rat" where
  "add_square tmp d = to_double (d + to_double (of_int (tmp * tmp)))"

definition answer_estimate ::
    "int list \<Rightarrow> 'sk server \<Rightarrow> 'sk server failure + (grpc_status \<times> rat \<times> 'sk server)" where
  "answer_estimate request s =
     bind_ok (fold_ok (\<lambda>i d. bind_ok (vec_get request i) (\<lambda>y.
         bind_ok (int_result (sv_sketches s ! i - y)) (\<lambda>tmp. Inr (add_square tmp d)))) [0..<length (sv_sketches s)] 0) (\<lambda>d.
     let estimated = to_float (to_double (d / of_nat (tow_m (sv_estimator s))))
     in bind_ok (ESTIMATE_SM99 estimated) (\<lambda>n. Inr (OK, estimated, s\<lparr>sv_estimated_diff := int n\<rparr>)))"

definition Estimate ::
    "('sk, 'g) host_env \<Rightarrow> int list \<Rightarrow> 'sk server \<Rightarrow> 'sk server failure + (grpc_status \<times> rat \<times> 'sk server)" where
  "Estimate env request s =
     (if sv_sketches s \<noteq> [] then answer_estimate request s
      else case sv_key_value_pairs s of
             None \<Rightarrow> Inr (UNAVAILABLE, 0, s)
           | Some t \<Rightarrow> bind_ok (LocalSketchForKeyValuePairs env t s) (answer_estimate request))"

section \<open>ReconcileSetUp\<close>

datatype setup_method = M_DDigest | M_PinSketch | M_Graphene | M_PBS | M_END

record setup_request =
  next_algorithm :: setup_method
  su_seed :: u32
  su_d :: u32
  su_object_sz :: u32
  su_usz :: u32

datatype setup_status = NA | SUCCEED | FAILED

definition ReconcileSetUp ::
    "('sk, 'g) host_env \<Rightarrow> setup_request \<Rightarrow> 'sk server \<Rightarrow> 'sk server failure + (grpc_status \<times> setup_status \<times> 'sk server)" where
  "ReconcileSetUp env req s =
     (let d = unat (su_d req); usz = unat (su_usz req); value_size = unat (su_object_sz req);
          t0 = (case sv_key_value_pairs s of None \<Rightarrow> empty_hash | Some t \<Rightarrow> t);
          generate = (\<lambda>t. GenerateKeyValuePairs (env_rnd env) usz value_size (su_seed req) t)
      in case next_algorithm req of
           M_END \<Rightarrow>
             (case sv_key_value_pairs s of
                None \<Rightarrow> Inr (OK, FAILED, s\<lparr>sv_pbs := None\<rparr>)
              | Some t \<Rightarrow>
                  bind_ok (fail_map (\<lambda>_. s) (generate empty_hash)) (\<lambda>ground_truth.
                  bind_ok (fail_map (\<lambda>_. s) (is_equal t ground_truth)) (\<lambda>same.
                    Inr (OK, if same then SUCCEED else FAILED, s\<lparr>sv_key_value_pairs := Some (oh_clear t), sv_pbs := None\<rparr>))))
         | alg \<Rightarrow>
             bind_ok (fail_map (\<lambda>t. set_key_value_pairs t s) (generate (oh_clear t0))) (\<lambda>t1.
             if alg = M_DDigest \<or> alg = M_PinSketch
             then bind_ok (LocalSketchForKeyValuePairs env t1 (set_key_value_pairs t1 s)) (\<lambda>s1. Inr (OK, NA, s1))
             else bind_ok (oh_erase_range 0 d t1) (\<lambda>t2.
                  if alg = M_PBS
                  then bind_ok (LocalSketchForKeyValuePairs env t2 (set_key_value_pairs t2 s)) (\<lambda>s1. Inr (OK, NA, s1))
                  else Inr (OK, NA, set_key_value_pairs t2 s))))"

section \<open>Synchronize\<close>

record sync_message =
  pushes :: "(key \<times> string) list"
  pulls :: "key list"

definition insert_pairs :: "(key \<times> string) list \<Rightarrow> kv_map \<Rightarrow> kv_map failure + kv_map" where
  "insert_pairs = fold_ok (\<lambda>(k, v) t. bind_ok (oh_insert hash_key k v t) (\<lambda>(b, t'). Inr t'))"

text \<open>The loop over the pulls: whether all keys were there, and the pairs found before the first missing one.\<close>

fun answer_pulls :: "key list \<Rightarrow> (key \<times> string) list \<Rightarrow> kv_map \<Rightarrow> kv_map failure + (bool \<times> (key \<times> string) list \<times> kv_map)" where
  "answer_pulls [] acc t = Inr (True, acc, t)"
| "answer_pulls (k # ks) acc t =
     bind_ok (oh_contains hash_key k t) (\<lambda>b.
     if \<not> b then Inr (False, acc, t)
     else bind_ok (oh_lookup_default hash_key [] k t) (\<lambda>(v, t'). answer_pulls ks (acc @ [(k, v)]) t'))"

definition Synchronize ::
    "sync_message \<Rightarrow> 'sk server \<Rightarrow> 'sk server failure + (grpc_status \<times> sync_message \<times> 'sk server)" where
  "Synchronize request s =
     (case sv_key_value_pairs s of
        None \<Rightarrow> Inr (UNAVAILABLE, \<lparr>pushes = [], pulls = []\<rparr>, s)
      | Some t \<Rightarrow>
          bind_ok (fail_map (\<lambda>t. set_key_value_pairs t s) (insert_pairs (pushes request) t)) (\<lambda>t1.
          bind_ok (fail_map (\<lambda>t. set_key_value_pairs t s) (answer_pulls (pulls request) [] t1)) (\<lambda>(found, kvs, t2).
            Inr (if found then OK else NOT_FOUND, \<lparr>pushes = kvs, pulls = []\<rparr>, set_key_value_pairs t2 s))))"

section \<open>ReconcileDDigest\<close>

text \<open>The number of entries, \<open>(int)((float)n * hedge)\<close>; too large a product does not fit \<open>int\<close>.\<close>

definition iblt_entries :: "nat \<Rightarrow> rat \<Rightarrow> 's failure + nat" where
  "iblt_entries n hedge =
     (let x = to_float (to_float (of_nat n) * hedge)
      in if 2 ^ 31 \<le> x then Inl (Undefined BadCast) else Inr (nat \<lfloor>x\<rfloor>))"

definition ddigest_table :: "nat \<Rightarrow> 's failure + iblt" where
  "ddigest_table d = bind_ok (iblt_entries d 2) (\<lambda>n. IBLT n 1 (if 200 < d then 3 else 4))"

definition insert_keys :: "(key \<times> string) list \<Rightarrow> iblt \<Rightarrow> iblt failure + iblt" where
  "insert_keys kvs = fold_ok (\<lambda>kv. iblt_insert (key_element (fst kv)) [0]) kvs"

type_synonym ibf_cell = "u32 \<times> u64 \<times> u32"

definition cells_of :: "iblt \<Rightarrow> ibf_cell list" where
  "cells_of t = map (\<lambda>c. (cell_count c, keySum c, keyCheck c)) (hashTable t)"

record ddigest_reply =
  dd_succeed :: bool
  dd_missing_keys :: "key list"
  dd_pushed_key_values :: "(key \<times> string) list"

text \<open>The loop over the keys only the server has; an unknown key ends it and leaves an empty pair in the reply.\<close>

fun push_found ::
    "key list \<Rightarrow> (key \<times> string) list \<Rightarrow> kv_map \<Rightarrow> kv_map failure + (bool \<times> (key \<times> string) list \<times> kv_map)" where
  "push_found [] acc t = Inr (True, acc, t)"
| "push_found (k # ks) acc t =
     bind_ok (oh_contains hash_key k t) (\<lambda>b.
     if \<not> b then Inr (False, acc @ [(0, [])], t)
     else bind_ok (oh_lookup_default hash_key [] k t) (\<lambda>(v, t'). push_found ks (acc @ [(k, v)]) t'))"

definition ReconcileDDigest ::
    "ibf_cell list \<Rightarrow> 'sk server \<Rightarrow> 'sk server failure + (grpc_status \<times> ddigest_reply \<times> 'sk server)" where
  "ReconcileDDigest request s =
     (let none = \<lparr>dd_succeed = False, dd_missing_keys = [], dd_pushed_key_values = []\<rparr>
      in if sv_estimated_diff s = -1 then Inr (UNAVAILABLE, none, s)
         else case sv_key_value_pairs s of
           None \<Rightarrow> Inr (UNAVAILABLE, none, s)
         | Some t \<Rightarrow>
             bind_ok (ddigest_table (nat (sv_estimated_diff s))) (\<lambda>blank.
             bind_ok (fail_map (\<lambda>_. s) (insert_keys (m_values t) blank)) (\<lambda>my_iblt.
             bind_ok (set_cells request blank) (\<lambda>other_iblt.
             bind_ok (fail_map (\<lambda>_. s) (iblt_minus my_iblt other_iblt)) (\<lambda>ibltD.
             bind_ok (fail_map (\<lambda>_. s) (returns (listEntries ibltD))) (\<lambda>(succeed, pos, neg).
             if \<not> succeed then Inr (OK, none, s)
             else bind_ok (fail_map (\<lambda>t. set_key_value_pairs t s) (push_found (map (element_key \<circ> fst) pos) [] t)) (\<lambda>(found, kvs, t').
                    Inr (OK, \<lparr>dd_succeed = found, dd_missing_keys = map (element_key \<circ> fst) neg, dd_pushed_key_values = kvs\<rparr>,
                         set_key_value_pairs t' s))))))))"

section \<open>ReconcileGraphene\<close>

text \<open>
  The lookup table of the constructor that looks its parameters up, for \<open>(int)((double)n * hedge)\<close> entries with
  the hedge as a \<open>float\<close>. The hedges of the file are positive.
\<close>

definition tabulated_IBLT :: "('sk, 'g) host_env \<Rightarrow> u64 \<Rightarrow> nat \<Rightarrow> 's failure + iblt" where
  "tabulated_IBLT env n vsize =
     bind_ok (returns (map_option Inr (OptimalParameters (env_iblt_parameters env) n))) (\<lambda>(h, hedge).
     let x = to_double (to_double (of_nat (unat n)) * to_float hedge)
     in if 2 ^ 31 \<le> x then Inl (Undefined BadCast) else IBLT (nat \<lfloor>x\<rfloor>) vsize h)"

definition no_bloom :: "rat \<Rightarrow> bool" where
  "no_bloom fpr \<longleftrightarrow> \<bar>to_double (1 - fpr)\<bar> < CONSIDER_TOBE_ZERO"

text \<open>The filter of both sides: default parameters but for the number of elements and the probability.\<close>

definition bloom_for :: "('sk, 'g) host_env \<Rightarrow> u64 \<Rightarrow> double \<Rightarrow> 's failure + bloom_filter" where
  "bloom_for env n fpr =
     bind_ok (compute_optimal_parameters (env_bits env)
               (default_parameters\<lparr>projected_element_count := n, false_positive_probability := fpr\<rparr>)) (\<lambda>(ignored, p).
     make_bloom_filter (env_srand env) p)"

text \<open>A key in memory, on a little-endian machine.\<close>

definition key_bytes :: "key \<Rightarrow> bytes" where
  "key_bytes k = [ucast k, ucast (drop_bit 8 k), ucast (drop_bit 16 k), ucast (drop_bit 24 k)]"

record graphene_reply =
  gr_a :: u32
  gr_n :: u32
  gr_fpr :: double
  gr_bf :: bytes
  gr_ibf :: "ibf_cell list"

definition no_graphene :: graphene_reply where
  "no_graphene = \<lparr>gr_a = 0, gr_n = 0, gr_fpr = Finite 0, gr_bf = [], gr_ibf = []\<rparr>"

definition insert_both :: "'s \<Rightarrow> (key \<times> string) list \<Rightarrow> bloom_filter \<Rightarrow> iblt \<Rightarrow> 's failure + (bloom_filter \<times> iblt)" where
  "insert_both s kvs bf table =
     fold_ok (\<lambda>kv (bf, table).
         bind_ok (fail_map (\<lambda>_. s) (bloom_insert compute_indices (key_bytes (fst kv)) bf)) (\<lambda>bf'.
         bind_ok (fail_map (\<lambda>_. s) (iblt_insert (key_element (fst kv)) [0] table)) (\<lambda>table'. Inr (bf', table'))))
       kvs (bf, table)"

definition ReconcileGraphene ::
    "('sk, 'g) host_env \<Rightarrow> u32 \<Rightarrow> 'sk server \<Rightarrow> 'sk server failure + (grpc_status \<times> graphene_reply \<times> 'sk server)" where
  "ReconcileGraphene env m s =
     (case sv_key_value_pairs s of
        None \<Rightarrow> Inr (UNAVAILABLE, no_graphene, s)
      | Some t \<Rightarrow>
          let n = oh_size t; (a0, fpr) = env_solve_a env (sint m) (sint (of_nat n :: u32)); a = \<lceil>a0\<rceil>
          in if a < - (2 ^ 31) \<or> 2 ^ 31 \<le> a then Inl (Undefined BadCast)
             else bind_ok (tabulated_IBLT env (of_int a) 1) (\<lambda>blank.
                  if no_bloom fpr
                  then bind_ok (fail_map (\<lambda>_. s) (insert_keys (m_values t) blank)) (\<lambda>table.
                       Inr (OK, no_graphene\<lparr>gr_a := of_int a, gr_ibf := cells_of table\<rparr>, s))
                  else let projected = (if n = 0 then 1 else of_nat n)
                       in bind_ok (bloom_for env projected (Finite fpr)) (\<lambda>bf0.
                          bind_ok (insert_both s (m_values t) bf0 blank) (\<lambda>(bf, table).
                          let ssz = unat (bf_table_size bf) div 8
                          in if length (bloom_table bf) < ssz then Inl (Undefined OutOfBounds)
                             else Inr (OK, \<lparr>gr_a = of_int a, gr_n = ucast projected, gr_fpr = Finite fpr,
                                            gr_bf = take ssz (bloom_table bf), gr_ibf = cells_of table\<rparr>, s)))))"

section \<open>ReconcilePinSketch\<close>

record pinsketch_reply =
  pr_missing_keys :: "key list"
  pr_pushed_key_values :: "(key \<times> string) list"

fun sort_differences ::
    "key list \<Rightarrow> key list \<times> (key \<times> string) list \<Rightarrow> kv_map \<Rightarrow> kv_map failure + ((key list \<times> (key \<times> string) list) \<times> kv_map)" where
  "sort_differences [] acc t = Inr (acc, t)"
| "sort_differences (k # ks) (missing, kvs) t =
     bind_ok (oh_contains hash_key k t) (\<lambda>b.
     if b then bind_ok (oh_lookup_default hash_key [] k t) (\<lambda>(v, t'). sort_differences ks (missing, kvs @ [(k, v)]) t')
     else sort_differences ks (missing @ [k], kvs) t)"

definition ReconcilePinSketch ::
    "('sk, 'g) host_env \<Rightarrow> bytes \<Rightarrow> 'sk server \<Rightarrow> 'sk server failure + (grpc_status \<times> pinsketch_reply \<times> 'sk server)" where
  "ReconcilePinSketch env sketch s =
     (let none = \<lparr>pr_missing_keys = [], pr_pushed_key_values = []\<rparr>
      in if sv_estimated_diff s = -1 then Inr (UNAVAILABLE, none, s)
         else case sv_key_value_pairs s of
           None \<Rightarrow> Inr (UNAVAILABLE, none, s)
         | Some t \<Rightarrow>
             bind_ok (ps_encode_key_value_pairs (env_api env) (m_values t)
                        (PinSketch (env_api env) 32 (nat (sv_estimated_diff s)))) (\<lambda>ps.
             bind_ok (ps_decode (env_api env) sketch ps) (\<lambda>(succeed, differences).
             bind_ok (fail_map (\<lambda>t. set_key_value_pairs t s) (sort_differences (map element_key differences) ([], []) t)) (\<lambda>((missing, kvs), t').
               Inr (OK, \<lparr>pr_missing_keys = missing, pr_pushed_key_values = kvs\<rparr>, set_key_value_pairs t' s)))))"

section \<open>ReconcileParityBitmapSketch\<close>

record pbs_request =
  encoding_msg :: bytes
  encoding_hint :: bytes
  pq_pushed_key_values :: "(key \<times> string) list"
  pq_missing_keys :: "u32 list"

record pbs_reply =
  decoding_msg :: bytes
  pp_checksum :: "u32 list"
  pp_xors :: "u32 list"
  pp_pushed_key_values :: "(key \<times> string) list"

text \<open>
  The sketch of a host with the default arguments of the constructor: \<open>ceil((float) d / 5)\<close> groups, three
  sub-groups per failed group. The number of differences is taken modulo \<open>2 ^ 32\<close>.
\<close>

definition DEFAULT_SEED_G :: u64 where "DEFAULT_SEED_G = 0x6d496e536b65"
definition DEFAULT_NUM_GROUPS_WHEN_BCH_FAIL :: nat where "DEFAULT_NUM_GROUPS_WHEN_BCH_FAIL = 3"

definition group_count :: "nat \<Rightarrow> nat" where
  "group_count d = nat \<lceil>to_float (to_float (of_nat d) / 5)\<rceil>"

definition default_sketch :: "('sk, 'g) host_env \<Rightarrow> nat \<Rightarrow> 's failure + 'sk pbs_sketch" where
  "default_sketch env d =
     (let n = d mod 2 ^ 32
      in ParityBitmapSketch n (group_count n) (env_best env n) DEFAULT_NUM_GROUPS_WHEN_BCH_FAIL DEFAULT_SEED_G)"

text \<open>The bytes of a message: a string resized to its serialized size and written into.\<close>

definition message_bytes :: "int \<Rightarrow> (bytes \<Rightarrow> 't failure + (bytes \<times> int)) \<Rightarrow> 't failure + bytes" where
  "message_bytes sz write_msg = bind_ok (write_msg (replicate (nat sz) 0)) (\<lambda>(bs, k). Inr bs)"

text \<open>The encoding of the server: of a new sketch in the first round, with the hint of the client later.\<close>

definition server_encoding ::
    "('sk, 'g) host_env \<Rightarrow> bytes \<Rightarrow> kv_map \<Rightarrow> 'sk server \<Rightarrow> 'sk server failure + ('sk encoding_message \<times> 'sk server)" where
  "server_encoding env hint_bytes t s =
     (case sv_pbs s of
        None \<Rightarrow>
          bind_ok (default_sketch env (nat (sv_estimated_diff s))) (\<lambda>p0.
          bind_ok (fail_map (put_pbs s) (add_all (env_xxh3 env) (map (key_element \<circ> fst) (m_values t)) p0)) (\<lambda>p1.
          if hint_bytes \<noteq> [] then Inl (Throws RuntimeError (put_pbs s p1))
          else bind_ok (fail_map (put_pbs s) (encode (env_api env) (env_xxh3 env) p1)) (\<lambda>((enc, dummy), p2).
                 Inr (enc, put_pbs s p2))))
      | Some p \<Rightarrow>
          bind_ok (PbsEncodingHintMessage (hint_max_range p)) (\<lambda>hint0.
          bind_ok (fail_map (\<lambda>_. s) (hint_parse hint0 (hint_bytes @ [0]) (length hint_bytes))) (\<lambda>(k, hint).
          bind_ok (fail_map (put_pbs s) (encodeWithHint (env_api env) (env_xxh3 env) (groups_with_exceptions hint) p)) (\<lambda>(enc, p').
            Inr (enc, put_pbs s p')))))"

text \<open>The pushes of a request are inserted until one is there already.\<close>

fun accept_pushes :: "(key \<times> string) list \<Rightarrow> kv_map \<Rightarrow> kv_map failure + (bool \<times> kv_map)" where
  "accept_pushes [] t = Inr (True, t)"
| "accept_pushes ((k, v) # kvs) t =
     bind_ok (oh_contains hash_key k t) (\<lambda>b.
     if b then Inr (False, t)
     else bind_ok (oh_insert hash_key k v t) (\<lambda>(ins, t'). accept_pushes kvs t'))"

fun serve_missing :: "u32 list \<Rightarrow> (key \<times> string) list \<Rightarrow> kv_map \<Rightarrow> kv_map failure + (bool \<times> (key \<times> string) list)" where
  "serve_missing [] acc t = Inr (True, acc)"
| "serve_missing (k # ks) acc t =
     bind_ok (oh_contains hash_key k t) (\<lambda>b.
     if \<not> b then Inr (False, acc)
     else bind_ok (oh_at hash_key t k t) (\<lambda>v. serve_missing ks (acc @ [(k, v)]) t))"

definition ReconcileParityBitmapSketch ::
    "('sk, 'g) host_env \<Rightarrow> pbs_request \<Rightarrow> 'sk server \<Rightarrow> 'sk server failure + (grpc_status \<times> pbs_reply \<times> 'sk server)" where
  "ReconcileParityBitmapSketch env request s =
     (let none = \<lparr>decoding_msg = [], pp_checksum = [], pp_xors = [], pp_pushed_key_values = []\<rparr>
      in if sv_estimated_diff s = -1 then Inr (UNAVAILABLE, none, s)
         else case sv_key_value_pairs s of
           None \<Rightarrow> Inr (UNAVAILABLE, none, s)
         | Some t \<Rightarrow>
             bind_ok (server_encoding env (encoding_hint request) t s) (\<lambda>(my_enc, s1).
             let receiver = PbsEncodingMessage (env_api env) (enc_field_sz my_enc) (enc_capacity my_enc) (enc_num_groups my_enc)
             in bind_ok (enc_parse (env_api env) receiver (encoding_msg request @ [0]) (length (encoding_msg request))) (\<lambda>(k, other_enc).
             bind_ok (fail_map (put_pbs s1) (decode (env_api env) (env_xxh3 env) other_enc (the (sv_pbs s1)))) (\<lambda>((dmsg, out_xors, out_checksums), p).
             let s2 = put_pbs s1 p
             in bind_ok (fail_map (\<lambda>_. s2) (message_bytes (dec_serializedSize dmsg) (dec_write dmsg))) (\<lambda>dbytes.
             let reply = \<lparr>decoding_msg = dbytes, pp_checksum = map ucast out_checksums, pp_xors = map ucast out_xors, pp_pushed_key_values = []\<rparr>
             in bind_ok (fail_map (\<lambda>t. set_key_value_pairs t s2) (accept_pushes (pq_pushed_key_values request) t)) (\<lambda>(fresh_keys, t1).
             let s3 = set_key_value_pairs t1 s2
             in if \<not> fresh_keys then Inr (ALREADY_EXISTS, reply, s3)
                else bind_ok (fail_map (\<lambda>_. s3) (serve_missing (pq_missing_keys request) [] t1)) (\<lambda>(found, kvs).
                  Inr (if found then OK else NOT_FOUND, reply\<lparr>pp_pushed_key_values := kvs\<rparr>, s3))))))))"

end
