(* ===== verification/Recon_Client.thy ===== *)
theory Recon_Client
  imports Recon_Server
begin

text \<open>
  \<open>reconciliation_client.h\<close>: the client's side of each protocol, run against the model of the server. A remote
  call hands the request to the server's operation and returns its status and reply; gRPC turns an exception of
  the operation into a status of its own (\<open>UNKNOWN\<close>) and leaves the service as it is then. Timing, printing and
  the file of results are left out.
\<close>

section \<open>Remote calls\<close>

definition rpc :: "'r \<Rightarrow> 'sk server failure + (grpc_status \<times> 'r \<times> 'sk server) \<Rightarrow> 's failure + (grpc_status \<times> 'r \<times> 'sk server)" where
  "rpc blank answer =
     (case answer of
        Inr a \<Rightarrow> Inr a
      | Inl (Throws e s) \<Rightarrow> Inr (UNKNOWN, blank, s)
      | Inl (Undefined u) \<Rightarrow> Inl (Undefined u))"

lemma rpc_simps [simp]:
  "rpc blank (Inr a) = Inr a" "rpc blank (Inl (Throws e s)) = Inr (UNKNOWN, blank, s)"
  "rpc blank (Inl (Undefined u)) = Inl (Undefined u)"
  by (simp_all add: rpc_def)

type_synonym 'sk world = "kv_map \<times> 'sk server"   \<comment> \<open>the map of the client and the server\<close>

definition call_Synchronize :: "sync_message \<Rightarrow> 'sk server \<Rightarrow> 's failure + (grpc_status \<times> sync_message \<times> 'sk server)" where
  "call_Synchronize request s = rpc \<lparr>pushes = [], pulls = []\<rparr> (Synchronize request s)"

section \<open>Pushing and pulling\<close>

text \<open>The loops that build a request: a pull of a key the client has, or a push of one it has not, gives up.\<close>

fun none_present :: "key list \<Rightarrow> kv_map \<Rightarrow> 's failure + bool" where
  "none_present [] t = Inr True"
| "none_present (k # ks) t = bind_ok (oh_contains hash_key k t) (\<lambda>b. if b then Inr False else none_present ks t)"

fun collect_pushes ::
    "key list \<Rightarrow> (key \<times> string) list \<Rightarrow> kv_map \<Rightarrow> kv_map failure + ((key \<times> string) list option \<times> kv_map)" where
  "collect_pushes [] acc t = Inr (Some acc, t)"
| "collect_pushes (k # ks) acc t =
     bind_ok (oh_contains hash_key k t) (\<lambda>b.
     if \<not> b then Inr (None, t)
     else bind_ok (oh_lookup_default hash_key [] k t) (\<lambda>(v, t'). collect_pushes ks (acc @ [(k, v)]) t'))"

definition PushAndPull :: "key list \<Rightarrow> key list \<Rightarrow> kv_map \<Rightarrow> 'sk server \<Rightarrow> 'sk world failure + (bool \<times> 'sk world)" where
  "PushAndPull push pull t s =
     bind_ok (none_present pull t) (\<lambda>ok.
     if \<not> ok then Inr (False, t, s)
     else bind_ok (fail_map (\<lambda>t. (t, s)) (collect_pushes push [] t)) (\<lambda>(kvs, t1).
       case kvs of
         None \<Rightarrow> Inr (False, t1, s)
       | Some kvs \<Rightarrow>
           bind_ok (call_Synchronize \<lparr>pushes = kvs, pulls = pull\<rparr> s) (\<lambda>(status, reply, s').
           if status \<noteq> OK then Inr (False, t1, s')
           else bind_ok (fail_map (\<lambda>t. (t, s')) (insert_pairs (pushes reply) t1)) (\<lambda>t2. Inr (True, t2, s')))))"

definition Pull :: "key list \<Rightarrow> kv_map \<Rightarrow> 'sk server \<Rightarrow> 'sk world failure + (bool \<times> 'sk world)" where
  "Pull pull t s =
     bind_ok (none_present pull t) (\<lambda>ok.
     if \<not> ok then Inr (False, t, s)
     else bind_ok (call_Synchronize \<lparr>pushes = [], pulls = pull\<rparr> s) (\<lambda>(status, reply, s').
          if status \<noteq> OK then Inr (False, t, s')
          else bind_ok (fail_map (\<lambda>t. (t, s')) (insert_pairs (pushes reply) t)) (\<lambda>t1. Inr (True, t1, s'))))"

text \<open>\<open>Push\<close> reads a constant map with \<open>at\<close>.\<close>

fun collect_values :: "key list \<Rightarrow> (key \<times> string) list \<Rightarrow> kv_map \<Rightarrow> kv_map failure + (key \<times> string) list option" where
  "collect_values [] acc t = Inr (Some acc)"
| "collect_values (k # ks) acc t =
     bind_ok (oh_contains hash_key k t) (\<lambda>b.
     if \<not> b then Inr None
     else bind_ok (oh_at hash_key t k t) (\<lambda>v. collect_values ks (acc @ [(k, v)]) t))"

definition Push :: "key list \<Rightarrow> kv_map \<Rightarrow> 'sk server \<Rightarrow> 'sk world failure + (bool \<times> 'sk world)" where
  "Push push t s =
     bind_ok (fail_map (\<lambda>t. (t, s)) (collect_values push [] t)) (\<lambda>kvs.
       case kvs of
         None \<Rightarrow> Inr (False, t, s)
       | Some kvs \<Rightarrow>
           bind_ok (call_Synchronize \<lparr>pushes = kvs, pulls = []\<rparr> s) (\<lambda>(status, reply, s'). Inr (status = OK, t, s')))"

section \<open>Estimation\<close>

definition call_Estimate ::
    "('sk, 'g) host_env \<Rightarrow> int list \<Rightarrow> 'sk server \<Rightarrow> 's failure + (grpc_status \<times> rat \<times> 'sk server)" where
  "call_Estimate env request s = rpc 0 (Estimate env request s)"

text \<open>The estimate of the server, or \<open>-1\<close> when the call failed.\<close>

definition EstimationKeyValuePairs ::
    "('sk, 'g) host_env \<Rightarrow> tug_of_war \<Rightarrow> kv_map \<Rightarrow> 'sk server \<Rightarrow> 's failure + (rat \<times> 'sk server)" where
  "EstimationKeyValuePairs env e t s =
     bind_ok (tow_apply_key_value_pairs (env_xxh32 env) e (m_values t)) (\<lambda>sketches.
     bind_ok (call_Estimate env sketches s) (\<lambda>(status, value, s').
     if status = OK then bind_ok (ESTIMATE_SM99 value) (\<lambda>_. Inr (value, s')) else Inr (-1, s')))"

definition client_Estimation ::
    "('sk, 'g) host_env \<Rightarrow> tug_of_war \<Rightarrow> key list \<Rightarrow> 'sk server \<Rightarrow> 's failure + (rat \<times> 'sk server)" where
  "client_Estimation env e ks s =
     bind_ok (tow_apply (env_xxh32 env) e ks) (\<lambda>sketches.
     bind_ok (call_Estimate env sketches s) (\<lambda>(status, value, s').
     Inr (if status = OK then value else -1, s')))"

text \<open>The number of differences a protocol runs with: the one given, or the scaled estimate.\<close>

definition scaled_d ::
    "('sk, 'g) host_env \<Rightarrow> tug_of_war \<Rightarrow> nat option \<Rightarrow> kv_map \<Rightarrow> 'sk server \<Rightarrow> 's failure + (nat \<times> 'sk server)" where
  "scaled_d env e d t s =
     (case d of
        Some n \<Rightarrow> Inr (n, s)
      | None \<Rightarrow> bind_ok (EstimationKeyValuePairs env e t s) (\<lambda>(est, s'). bind_ok (ESTIMATE_SM99 est) (\<lambda>n. Inr (n, s'))))"

section \<open>Difference digest and PinSketch\<close>

text \<open>What the server pushes is new to the client, or the client gives up.\<close>

definition Reconciliation_DDigest ::
    "('sk, 'g) host_env \<Rightarrow> tug_of_war \<Rightarrow> nat option \<Rightarrow> kv_map \<Rightarrow> 'sk server \<Rightarrow> 'sk world failure + (bool \<times> 'sk world)" where
  "Reconciliation_DDigest env e d t s =
     bind_ok (scaled_d env e d t s) (\<lambda>(n, s0).
     bind_ok (ddigest_table n) (\<lambda>blank.
     bind_ok (fail_map (\<lambda>_. (t, s0)) (insert_keys (m_values t) blank)) (\<lambda>my_iblt.
     bind_ok (rpc \<lparr>dd_succeed = False, dd_missing_keys = [], dd_pushed_key_values = []\<rparr> (ReconcileDDigest (cells_of my_iblt) s0))
       (\<lambda>(status, reply, s1).
     if status \<noteq> OK \<or> \<not> dd_succeed reply then Inr (False, t, s1)
     else bind_ok (fail_map (\<lambda>t. (t, s1)) (accept_pushes (dd_pushed_key_values reply) t)) (\<lambda>(fresh_keys, t1).
          if \<not> fresh_keys then Inr (False, t1, s1)
          else if dd_missing_keys reply \<noteq> [] then Push (dd_missing_keys reply) t1 s1
          else Inr (True, t1, s1))))))"

definition Reconciliation_PinSketch ::
    "('sk, 'g) host_env \<Rightarrow> tug_of_war \<Rightarrow> nat option \<Rightarrow> kv_map \<Rightarrow> 'sk server \<Rightarrow> 'sk world failure + (bool \<times> 'sk world)" where
  "Reconciliation_PinSketch env e d t s =
     bind_ok (scaled_d env e d t s) (\<lambda>(n, s0).
     bind_ok (ps_encode_and_serialize_key_value_pairs (env_api env) (m_values t) (PinSketch (env_api env) 32 n)) (\<lambda>sketch.
     bind_ok (rpc \<lparr>pr_missing_keys = [], pr_pushed_key_values = []\<rparr> (ReconcilePinSketch env sketch s0)) (\<lambda>(status, reply, s1).
     if status \<noteq> OK then Inr (False, t, s1)
     else bind_ok (fail_map (\<lambda>t. (t, s1)) (accept_pushes (pr_pushed_key_values reply) t)) (\<lambda>(fresh_keys, t1).
          if \<not> fresh_keys then Inr (False, t1, s1)
          else if pr_missing_keys reply \<noteq> [] then Push (pr_missing_keys reply) t1 s1
          else Inr (True, t1, s1)))))"

section \<open>Graphene\<close>

text \<open>The keys the filter of the server contains go into a lookup table, the others are surely missing there.\<close>

definition split_by_filter ::
    "'s \<Rightarrow> bloom_filter \<Rightarrow> (key \<times> string) list \<Rightarrow> iblt \<Rightarrow> 's failure + (key list \<times> iblt)" where
  "split_by_filter s bf kvs table =
     fold_ok (\<lambda>kv (Z_compl, table).
         bind_ok (fail_map (\<lambda>_. s) (bloom_contains compute_indices (key_bytes (fst kv)) bf)) (\<lambda>there.
         if there then bind_ok (fail_map (\<lambda>_. s) (iblt_insert (key_element (fst kv)) [0] table)) (\<lambda>table'. Inr (Z_compl, table'))
         else Inr (Z_compl @ [fst kv], table)))
       kvs ([], table)"

definition Reconciliation_Graphene ::
    "('sk, 'g) host_env \<Rightarrow> kv_map \<Rightarrow> 'sk server \<Rightarrow> 'sk world failure + (bool \<times> 'sk world)" where
  "Reconciliation_Graphene env t s =
     bind_ok (rpc no_graphene (ReconcileGraphene env (of_nat (oh_size t)) s)) (\<lambda>(status, reply, s1).
     if status \<noteq> OK then Inr (False, t, s1)
     else bind_ok (tabulated_IBLT env (ucast (gr_a reply)) 1) (\<lambda>blank.
          bind_ok (if gr_bf reply = []
                   then bind_ok (fail_map (\<lambda>_. (t, s1)) (insert_keys (m_values t) blank)) (\<lambda>table. Inr ([], table))
                   else bind_ok (bloom_for env (ucast (gr_n reply)) (gr_fpr reply)) (\<lambda>bf0.
                        bind_ok (fail_map (\<lambda>_. (t, s1)) (bloom_set (gr_bf reply) bf0)) (\<lambda>(ignored, bf).
                        split_by_filter (t, s1) bf (m_values t) blank))) (\<lambda>(Z_compl, iblt_receiver_first).
          bind_ok (set_cells (gr_ibf reply) blank) (\<lambda>iblt_sender_first.
          bind_ok (fail_map (\<lambda>_. (t, s1)) (iblt_minus iblt_receiver_first iblt_sender_first)) (\<lambda>ibltT.
          bind_ok (fail_map (\<lambda>_. (t, s1)) (returns (listEntries ibltT))) (\<lambda>(correct, pos, neg).
          if \<not> correct then Inr (False, t, s1)
          else bind_ok (Push (Z_compl @ map (element_key \<circ> fst) pos) t s1) (\<lambda>(ignored, w). Inr (True, w))))))))"

section \<open>Parity bitmap sketches\<close>

definition PBS_MAX_ROUNDS :: u32 where "PBS_MAX_ROUNDS = 3"

text \<open>The elements of the last round the client has go into the next request with their values, the others as missing keys.\<close>

fun split_result ::
    "u64 list \<Rightarrow> (key \<times> string) list \<times> u32 list \<Rightarrow> kv_map \<Rightarrow> kv_map failure + (((key \<times> string) list \<times> u32 list) \<times> kv_map)" where
  "split_result [] acc t = Inr (acc, t)"
| "split_result (e # es) (kvs, missing) t =
     bind_ok (oh_contains hash_key (element_key e) t) (\<lambda>b.
     if b then bind_ok (oh_lookup_default hash_key [] (element_key e) t) (\<lambda>(v, t'). split_result es (kvs @ [(element_key e, v)], missing) t')
     else split_result es (kvs, missing @ [ucast e]) t)"

text \<open>The last synchronisation, whose outcome the client ignores.\<close>

fun partition_result :: "u64 list \<Rightarrow> key list \<times> key list \<Rightarrow> kv_map \<Rightarrow> kv_map failure + (key list \<times> key list)" where
  "partition_result [] acc t = Inr acc"
| "partition_result (e # es) (missing, pushed) t =
     bind_ok (oh_contains hash_key (element_key e) t) (\<lambda>b.
     if b then partition_result es (missing, pushed @ [element_key e]) t
     else partition_result es (missing @ [element_key e], pushed) t)"

definition final_synchronization :: "u64 list \<Rightarrow> kv_map \<Rightarrow> 'sk server \<Rightarrow> 'sk world failure + 'sk world" where
  "final_synchronization res t s =
     bind_ok (fail_map (\<lambda>t. (t, s)) (partition_result res ([], []) t)) (\<lambda>(missing, pushed).
     bind_ok (if missing \<noteq> [] \<and> pushed \<noteq> [] then PushAndPull pushed missing t s
              else if missing \<noteq> [] then Pull missing t s
              else if pushed \<noteq> [] then Push pushed t s
              else Inr (True, t, s)) (\<lambda>(ignored, w). Inr w))"

text \<open>
  One turn of the loop: encode, call, take over what the server pushed, parse the answer and recover. \<open>None\<close>
  is the early return of \<open>false\<close>; a throw of \<open>decodeCheck\<close> is caught and returns false, too.
\<close>

definition pbs_turn ::
    "('sk, 'g) host_env \<Rightarrow> u64 list \<Rightarrow> 'sk pbs_sketch \<Rightarrow> kv_map \<Rightarrow> 'sk server \<Rightarrow>
     'sk world failure + ((bool \<times> u64 list \<times> 'sk pbs_sketch) option \<times> 'sk world)" where
  "pbs_turn env res p t s =
     bind_ok (fail_map (\<lambda>_. (t, s)) (encode (env_api env) (env_xxh3 env) p)) (\<lambda>((enc, hint), p1).
     bind_ok (message_bytes (enc_serializedSize enc) (enc_write (env_api env) enc)) (\<lambda>enc_bytes.
     bind_ok (case hint of None \<Rightarrow> Inr []
              | Some hm \<Rightarrow> fail_map (\<lambda>_. (t, s)) (message_bytes (hint_serializedSize hm) (hint_write hm))) (\<lambda>hint_bytes.
     bind_ok (fail_map (\<lambda>t. (t, s)) (split_result res ([], []) t)) (\<lambda>((kvs, missing), t1).
     bind_ok (rpc \<lparr>decoding_msg = [], pp_checksum = [], pp_xors = [], pp_pushed_key_values = []\<rparr>
                (ReconcileParityBitmapSketch env \<lparr>encoding_msg = enc_bytes, encoding_hint = hint_bytes,
                   pq_pushed_key_values = kvs, pq_missing_keys = missing\<rparr> s)) (\<lambda>(status, reply, s1).
     if status \<noteq> OK then Inr (None, t1, s1)
     else bind_ok (fail_map (\<lambda>t. (t, s1)) (accept_pushes (pp_pushed_key_values reply) t1)) (\<lambda>(fresh_keys, t2).
     if \<not> fresh_keys then Inr (None, t2, s1)
     else bind_ok (PbsDecodingMessage (of_nat (bchParameterM p1)) (of_nat (bchParameterT p1)) (numberOfGroups p1)) (\<lambda>d0.
     bind_ok (fail_map (\<lambda>_. (t2, s1)) (dec_parse d0 (decoding_msg reply @ [0]) (length (decoding_msg reply)))) (\<lambda>(k, dmsg).
     case decodeCheck (env_xxh3 env) dmsg (map ucast (pp_xors reply)) (map ucast (pp_checksum reply)) p1 of
       Inl (Throws e p2) \<Rightarrow> Inr (None, t2, s1)
     | Inl (Undefined u) \<Rightarrow> Inl (Undefined u)
     | Inr (completed, p2) \<Rightarrow>
         bind_ok (differencesLastRound p2) (\<lambda>res'. Inr (Some (completed, res', p2), t2, s1))))))))))"

text \<open>
  The loop: after a completed round the final synchronisation, after \<open>PBS_MAX_ROUNDS\<close> rounds nothing more. The
  round counter grows with every turn, so \<open>n\<close> turns are counted down; \<open>PBS_MAX_ROUNDS\<close> of them are enough.
\<close>

fun pbs_loop ::
    "('sk, 'g) host_env \<Rightarrow> nat \<Rightarrow> bool \<Rightarrow> u64 list \<Rightarrow> 'sk pbs_sketch \<Rightarrow> kv_map \<Rightarrow> 'sk server \<Rightarrow>
     ('sk world failure + (bool \<times> 'sk world)) option" where
  "pbs_loop env n True res p t s = Some (bind_ok (final_synchronization res t s) (\<lambda>w. Inr (True, w)))"
| "pbs_loop env n False res p t s =
     (if PBS_MAX_ROUNDS \<le> rounds p then Some (Inr (False, t, s))
      else case n of
        0 \<Rightarrow> None
      | Suc n' \<Rightarrow>
          (case pbs_turn env res p t s of
             Inl e \<Rightarrow> Some (Inl e)
           | Inr (None, w) \<Rightarrow> Some (Inr (False, w))
           | Inr (Some (completed, res', p'), t', s') \<Rightarrow> pbs_loop env n' completed res' p' t' s'))"

definition Reconciliation_ParityBitmapSketch ::
    "('sk, 'g) host_env \<Rightarrow> tug_of_war \<Rightarrow> nat option \<Rightarrow> kv_map \<Rightarrow> 'sk server \<Rightarrow> 'sk world failure + (bool \<times> 'sk world)" where
  "Reconciliation_ParityBitmapSketch env e d t s =
     bind_ok (scaled_d env e d t s) (\<lambda>(n, s0).
     bind_ok (default_sketch env n) (\<lambda>p0.
     bind_ok (add_all (env_xxh3 env) (map (key_element \<circ> fst) (m_values t)) p0) (\<lambda>p1.
     returns (pbs_loop env 3 False [] p1 t s0))))"

section \<open>The experiments\<close>

definition call_SetUp ::
    "('sk, 'g) host_env \<Rightarrow> setup_request \<Rightarrow> 'sk server \<Rightarrow> 's failure + (grpc_status \<times> setup_status \<times> 'sk server)" where
  "call_SetUp env req s = rpc NA (ReconcileSetUp env req s)"

definition setup_request_for :: "setup_method \<Rightarrow> nat \<Rightarrow> nat \<Rightarrow> nat \<Rightarrow> u32 \<Rightarrow> setup_request" where
  "setup_request_for alg usz d value_sz exp_seed =
     \<lparr>next_algorithm = alg, su_seed = exp_seed, su_d = of_nat d, su_object_sz = of_nat value_sz, su_usz = of_nat usz\<rparr>"

definition verifyServerSide :: "('sk, 'g) host_env \<Rightarrow> nat \<Rightarrow> nat \<Rightarrow> u32 \<Rightarrow> 'sk server \<Rightarrow> 's failure + (bool \<times> 'sk server)" where
  "verifyServerSide env usz value_sz exp_seed s =
     bind_ok (call_SetUp env (setup_request_for M_END usz 0 value_sz exp_seed) s) (\<lambda>(status, reply, s'). Inr (reply = SUCCEED, s'))"

text \<open>
  The four experiments share their shape: set the server up, generate the pairs (without the first \<open>d\<close> for the
  two protocols in which the client lacks them), reconcile, and compare both sides with the ground truth. A failed
  reconciliation returns before the server is told that the experiment is over.
\<close>

definition run_experiment ::
    "('sk, 'g) host_env \<Rightarrow> setup_method \<Rightarrow> bool \<Rightarrow> (kv_map \<Rightarrow> 'sk server \<Rightarrow> 'sk world failure + (bool \<times> 'sk world)) \<Rightarrow>
     nat \<Rightarrow> nat \<Rightarrow> nat \<Rightarrow> u32 \<Rightarrow> 'sk server \<Rightarrow> 'sk world failure + (bool \<times> 'sk server)" where
  "run_experiment env alg client_lacks reconcile usz d value_sz exp_seed s =
     bind_ok (call_SetUp env (setup_request_for alg usz d value_sz exp_seed) s) (\<lambda>(status, reply, s0).
     bind_ok (fail_map (\<lambda>t. (t, s0)) (GenerateKeyValuePairs (env_rnd env) usz value_sz exp_seed empty_hash)) (\<lambda>t0.
     bind_ok (if client_lacks then oh_erase_range 0 d t0 else Inr t0) (\<lambda>t.
     bind_ok (reconcile t s0) (\<lambda>(succeed, t1, s1).
     if \<not> succeed then Inr (False, s1)
     else bind_ok (fail_map (\<lambda>t. (t, s1)) (GenerateKeyValuePairs (env_rnd env) usz value_sz exp_seed empty_hash)) (\<lambda>ground_truth.
          bind_ok (fail_map (\<lambda>t. (t, s1)) (is_equal ground_truth t1)) (\<lambda>same.
          if same then verifyServerSide env usz value_sz exp_seed s1 else Inr (False, s1)))))))"

definition SetUp_PinSketch ::
    "('sk, 'g) host_env \<Rightarrow> tug_of_war \<Rightarrow> nat \<Rightarrow> nat \<Rightarrow> nat \<Rightarrow> u32 \<Rightarrow> 'sk server \<Rightarrow> 'sk world failure + (bool \<times> 'sk server)" where
  "SetUp_PinSketch env e = run_experiment env M_PinSketch True (Reconciliation_PinSketch env e None)"

definition SetUp_DDigest ::
    "('sk, 'g) host_env \<Rightarrow> tug_of_war \<Rightarrow> nat \<Rightarrow> nat \<Rightarrow> nat \<Rightarrow> u32 \<Rightarrow> 'sk server \<Rightarrow> 'sk world failure + (bool \<times> 'sk server)" where
  "SetUp_DDigest env e = run_experiment env M_DDigest True (Reconciliation_DDigest env e None)"

definition SetUp_Graphene ::
    "('sk, 'g) host_env \<Rightarrow> nat \<Rightarrow> nat \<Rightarrow> nat \<Rightarrow> u32 \<Rightarrow> 'sk server \<Rightarrow> 'sk world failure + (bool \<times> 'sk server)" where
  "SetUp_Graphene env = run_experiment env M_Graphene False (Reconciliation_Graphene env)"

definition SetUp_PBS ::
    "('sk, 'g) host_env \<Rightarrow> tug_of_war \<Rightarrow> nat \<Rightarrow> nat \<Rightarrow> nat \<Rightarrow> u32 \<Rightarrow> 'sk server \<Rightarrow> 'sk world failure + (bool \<times> 'sk server)" where
  "SetUp_PBS env e = run_experiment env M_PBS False (Reconciliation_ParityBitmapSketch env e None)"

end
