(* ===== verification/Recon_Loops.thy ===== *)
theory Recon_Loops
  imports Recon_Client
begin

text \<open>
  The loops of the two services over their ordered maps, on tables that satisfy the interface \<open>ordered_dict\<close>:
  each returns, and computes a list function of the entries. They rest on the laws of the interpretation
  \<open>omap\<close>; the properties of the protocols rest on them.
\<close>

section \<open>Lookups\<close>

abbreviation kv_good :: "nat \<Rightarrow> kv_map \<Rightarrow> bool" where "kv_good \<equiv> oh_good hash_key"

abbreviation entries :: "kv_map \<Rightarrow> (key \<times> string) list" where "entries \<equiv> m_values"

definition value_of :: "(key \<times> string) list \<Rightarrow> key \<Rightarrow> string" where
  "value_of es k = the (map_of es k)"

definition pairs_of :: "(key \<times> string) list \<Rightarrow> key list \<Rightarrow> (key \<times> string) list" where
  "pairs_of es ks = map (\<lambda>k. (k, value_of es k)) ks"

lemma pairs_of_simps [simp]:
  "pairs_of es [] = []" "pairs_of es (k # ks) = (k, value_of es k) # pairs_of es ks"
  "pairs_of es (ks @ ls) = pairs_of es ks @ pairs_of es ls"
  by (simp_all add: pairs_of_def)

lemma map_fst_pairs_of [simp]: "map fst (pairs_of es ks) = ks" "keys_of (pairs_of es ks) = set ks" "length (pairs_of es ks) = length ks"
  by (simp_all add: pairs_of_def keys_of_def comp_def image_image)

lemma lookup_default_present:
  assumes "oh_ok h t" "k \<in> keys_of (m_values t)"
  shows "oh_lookup_default h d k t = Inr (the (map_of (m_values t) k), t)"
proof -
  from insert_impl_old [OF assms, of d] obtain ix where
    ix: "ix < length (m_values t)" "fst (m_values t ! ix) = k" "insert_impl h k d t = Inr ((ix, False), t)" by blast
  have "map_of (m_values t) (fst (m_values t ! ix)) = Some (snd (m_values t ! ix))"
    using assms(1) ix(1) by (intro map_of_is_SomeI) (simp_all add: oh_ok_def)
  with ix show ?thesis by (simp add: oh_lookup_default_def vec_get_ok)
qed

lemma good_lookup [simp]:
  "kv_good n t \<Longrightarrow> k \<in> keys_of (entries t) \<Longrightarrow> oh_lookup_default hash_key [] k t = Inr (value_of (entries t) k, t)"
  by (simp add: lookup_default_present oh_good_def value_of_def)

lemma good_at [simp]: "kv_good n t \<Longrightarrow> k \<in> keys_of (entries t) \<Longrightarrow> oh_at hash_key t k t = Inr (value_of (entries t) k)"
proof -
  assume "kv_good n t" "k \<in> keys_of (entries t)"
  moreover from this obtain v where "map_of (entries t) k = Some v" using map_of_eq_None [of "entries t" k] by fastforce
  ultimately show ?thesis using omap.look_law [of hash_key n t k] by (simp add: value_of_def)
qed

lemma good_contains [simp]: "kv_good n t \<Longrightarrow> oh_contains hash_key k t = Inr (k \<in> keys_of (entries t))"
  by (simp add: oh_contains_ok oh_good_def)

lemma good_mono: "kv_good n t \<Longrightarrow> n \<le> m \<Longrightarrow> kv_good m t"
  by (auto simp: oh_good_def)

lemma good_distinct: "kv_good n t \<Longrightarrow> distinct (map fst (entries t))"
  by (rule omap.good_distinct)

section \<open>Loops that read\<close>

text \<open>The keys before the first unknown one.\<close>

fun known_prefix :: "(key \<times> string) list \<Rightarrow> key list \<Rightarrow> key list" where
  "known_prefix es [] = []"
| "known_prefix es (k # ks) = (if k \<in> keys_of es then k # known_prefix es ks else [])"

lemma known_prefix_all [simp]: "set ks \<subseteq> keys_of es \<Longrightarrow> known_prefix es ks = ks"
  by (induction ks) auto

lemma answer_pulls_ok:
  "kv_good n t \<Longrightarrow> answer_pulls ks acc t =
     Inr (set ks \<subseteq> keys_of (entries t), acc @ pairs_of (entries t) (known_prefix (entries t) ks), t)"
  by (induction ks arbitrary: acc) auto

lemma push_found_ok:
  assumes "kv_good n t" "set ks \<subseteq> keys_of (entries t)"
  shows "push_found ks acc t = Inr (True, acc @ pairs_of (entries t) ks, t)"
  using assms by (induction ks arbitrary: acc) auto

lemma sort_differences_ok:
  "kv_good n t \<Longrightarrow> sort_differences ks (missing, kvs) t =
     Inr ((missing @ filter (\<lambda>k. k \<notin> keys_of (entries t)) ks,
       kvs @ pairs_of (entries t) (filter (\<lambda>k. k \<in> keys_of (entries t)) ks)), t)"
  by (induction ks arbitrary: missing kvs) auto

lemma serve_missing_ok:
  "kv_good n t \<Longrightarrow> serve_missing ks acc t =
     Inr (set ks \<subseteq> keys_of (entries t), acc @ pairs_of (entries t) (known_prefix (entries t) ks))"
  by (induction ks arbitrary: acc) auto

lemma none_present_ok:
  "kv_good n t \<Longrightarrow> none_present ks t = (Inr (set ks \<inter> keys_of (entries t) = {}) :: 's failure + _)"
  by (induction ks) (auto simp: oh_contains_ok oh_good_def)

lemma collect_pushes_ok:
  "kv_good n t \<Longrightarrow> collect_pushes ks acc t =
     Inr (if set ks \<subseteq> keys_of (entries t) then Some (acc @ pairs_of (entries t) ks) else None, t)"
  by (induction ks arbitrary: acc) auto

lemma collect_values_ok:
  "kv_good n t \<Longrightarrow> collect_values ks acc t =
     Inr (if set ks \<subseteq> keys_of (entries t) then Some (acc @ pairs_of (entries t) ks) else None)"
  by (induction ks arbitrary: acc) auto

lemma split_result_ok:
  "kv_good n t \<Longrightarrow> split_result es (kvs, missing) t =
     Inr ((kvs @ pairs_of (entries t) (filter (\<lambda>k. k \<in> keys_of (entries t)) (map element_key es)),
       missing @ map ucast (filter (\<lambda>e. element_key e \<notin> keys_of (entries t)) es)), t)"
  by (induction es arbitrary: kvs missing) auto

lemma partition_result_ok:
  "kv_good n t \<Longrightarrow> partition_result es (missing, pushed) t =
     Inr (missing @ filter (\<lambda>k. k \<notin> keys_of (entries t)) (map element_key es),
       pushed @ filter (\<lambda>k. k \<in> keys_of (entries t)) (map element_key es))"
  by (induction es arbitrary: missing pushed) auto

section \<open>Loops that insert\<close>

lemma insert_pairs_ok:
  assumes "kv_good n t" "n + length ps \<le> oh_limit"
  shows "\<exists>t'. insert_pairs ps t = Inr t' \<and> kv_good (n + length ps) t' \<and> entries t' = fold dict_insert ps (entries t)"
  unfolding insert_pairs_def by (rule omap.insert_all_ok [OF assms])

lemma accept_pushes_ok:
  assumes "kv_good n t" "n + length ps \<le> oh_limit" "distinct (map fst ps)" "keys_of ps \<inter> keys_of (entries t) = {}"
  shows "\<exists>t'. accept_pushes ps t = Inr (True, t') \<and> kv_good (n + length ps) t' \<and> entries t' = entries t @ ps"
  using assms
proof (induction ps arbitrary: n t)
  case (Cons p ps)
  obtain k v where p: "p = (k, v)" by (cases p)
  have k: "k \<notin> keys_of (entries t)" using Cons.prems(4) p by auto
  from omap.ins_law [OF Cons.prems(1), of k v] Cons.prems(2) k obtain t1 where
    t1: "oh_insert hash_key k v t = Inr (True, t1)" "kv_good (Suc n) t1" "entries t1 = entries t @ [p]"
    by (auto simp: dict_insert_def p)
  have "keys_of ps \<inter> keys_of (entries t1) = {}" using Cons.prems(3,4) t1(3) by (auto simp: keys_of_def)
  from Cons.IH [OF t1(2) _ _ this] Cons.prems(2,3) t1 k p Cons.prems(1) show ?case by (auto simp: add.commute)
qed simp

text \<open>One that is there ends the loop; those before it stay inserted.\<close>

lemma accept_pushes_old:
  assumes "kv_good n t" "k \<in> keys_of (entries t)"
  shows "accept_pushes ((k, v) # ps) t = Inr (False, t)"
  using assms by simp

section \<open>Maps as sets of pairs\<close>

lemma value_of_pairs_of [simp]: "k \<in> set ks \<Longrightarrow> value_of (pairs_of es ks) k = value_of es k"
  by (induction ks) (auto simp: value_of_def)

text \<open>Two lists of entries hold the same pairs under the same keys.\<close>

definition same_map :: "(key \<times> string) list \<Rightarrow> (key \<times> string) list \<Rightarrow> bool" where
  "same_map as bs \<longleftrightarrow> map_of as = map_of bs"

definition agree :: "(key \<times> string) list \<Rightarrow> (key \<times> string) list \<Rightarrow> bool" where
  "agree as bs \<longleftrightarrow> (\<forall>k \<in> keys_of as \<inter> keys_of bs. value_of as k = value_of bs k)"

lemma map_of_pairs_of: "map_of (pairs_of es ks) k = (if k \<in> set ks then Some (value_of es k) else None)"
  by (induction ks) auto

lemma map_of_value: "map_of es k = (if k \<in> keys_of es then Some (value_of es k) else None)"
  using map_of_eq_None [of es k] by (auto simp: value_of_def)

text \<open>Each side completed by what only the other has: the union on both.\<close>

lemma completed_same:
  assumes "agree as bs" "set ks = keys_of bs - keys_of as" "set ls = keys_of as - keys_of bs"
  shows "map_of (as @ pairs_of bs ks) = map_of as ++ map_of bs" "map_of (bs @ pairs_of as ls) = map_of as ++ map_of bs"
  using assms by (auto simp: fun_eq_iff map_of_pairs_of map_add_def map_of_value agree_def split: option.splits)

text \<open>The keys only one side has.\<close>

definition differences :: "(key \<times> string) list \<Rightarrow> (key \<times> string) list \<Rightarrow> key set" where
  "differences as bs = (keys_of as - keys_of bs) \<union> (keys_of bs - keys_of as)"

section \<open>Concrete hosts\<close>

lemma map_from_pairs:
  assumes "distinct (map fst ps)" "length ps = n" "n \<le> oh_limit"
  obtains t where "insert_pairs ps empty_hash = Inr t" "kv_good n t" "entries t = ps"
proof -
  have "fold dict_insert ps [] = ps" using fold_dict_insert_fresh [OF assms(1), of "[]"] by simp
  with insert_pairs_ok [OF oh_good_empty, of 0 ps] assms(2,3) that show thesis
    by (auto simp: empty_hash_def)
qed

definition demo_env :: "'sk minisketch_api \<Rightarrow> hash_fn \<Rightarrow> nat \<times> nat \<Rightarrow> ('sk, nat) host_env" where
  "demo_env api h best = \<lparr>env_api = api, env_xxh3 = h, env_xxh32 = (\<lambda>k seed. k + seed),
     env_rnd = \<lparr>rnd_seed = unat, rnd_key = (\<lambda>g. (of_nat g, Suc g)), rnd_index = (\<lambda>n g. (0, g))\<rparr>, env_best = (\<lambda>_. best),
     env_solve_a = (\<lambda>m n. (4, 1 / 2)), env_iblt_parameters = (\<lambda>i. if i = 4 then Some (4, 1) else None),
     env_bits = (\<lambda>k n p. Finite 64), env_srand = (\<lambda>s i. of_nat i)\<rparr>"

text \<open>A minisketch that never decodes, for the instances in which it is not called or has to fail.\<close>

definition blind_api :: "unit minisketch_api" where
  "blind_api = \<lparr>ms_create = (\<lambda>_ _ _. Some ()), ms_add_uint64 = (\<lambda>s e. s), ms_merge = (\<lambda>a b. a), ms_decode = (\<lambda>_ _. None),
     ms_serialize = (\<lambda>_. replicate 4 0), ms_deserialize = (\<lambda>s b. s)\<rparr>"

definition demo_server :: "nat \<Rightarrow> kv_map \<Rightarrow> 'sk server" where
  "demo_server d u = \<lparr>sv_estimator = \<lparr>tow_m = 2, tow_hashes = [0, 1]\<rparr>, sv_sketches = [], sv_estimated_diff = int d,
     sv_key_value_pairs = Some u, sv_pbs = None\<rparr>"

lemma demo_server_simps [simp]:
  "sv_estimated_diff (demo_server d u) = int d" "sv_key_value_pairs (demo_server d u) = Some u" "sv_pbs (demo_server d u) = None"
  "sv_sketches (demo_server d u) = []" "sv_estimator (demo_server d u) = \<lparr>tow_m = 2, tow_hashes = [0, 1]\<rparr>"
  by (simp_all add: demo_server_def)

abbreviation alice_pairs :: "(key \<times> string) list" where "alice_pairs \<equiv> [(1, ''a''), (2, ''b''), (3, ''c''), (4, ''d'')]"
abbreviation bob_pairs :: "(key \<times> string) list" where "bob_pairs \<equiv> [(3, ''c''), (4, ''d''), (5, ''e''), (6, ''f'')]"

lemma alice_bob_limit [simp]: "4 \<le> oh_limit" "10 \<le> oh_limit"
  by (simp_all add: oh_limit_def)

lemma alice_map:
  obtains t where "insert_pairs alice_pairs empty_hash = Inr t" "kv_good 4 t" "entries t = alice_pairs"
  by (rule map_from_pairs [of alice_pairs 4]) simp_all

lemma bob_map:
  obtains t where "insert_pairs bob_pairs empty_hash = Inr t" "kv_good 4 t" "entries t = bob_pairs"
  by (rule map_from_pairs [of bob_pairs 4]) simp_all

lemma alice_bob_differences: "differences alice_pairs bob_pairs = {1, 2, 5, 6}"
  by (auto simp: differences_def)

lemma alice_bob_agree: "agree alice_pairs bob_pairs"
  by (simp add: agree_def value_of_def)

end
