(* ===== verification/Recon_Properties.thy ===== *)
theory Recon_Properties
  imports Recon_Loops
begin

text \<open>
  What the server and the client guarantee together: synchronisation, pushing and pulling, the estimate, and the
  protocol of PinSketch from the first message to equal maps on both sides; and where they fail.
\<close>

section \<open>Synchronize\<close>

lemma set_same [simp]: "sv_key_value_pairs s = Some u \<Longrightarrow> set_key_value_pairs u s = s"
  by (cases s) (simp add: set_key_value_pairs_def)

lemma Synchronize_eq:
  assumes t: "sv_key_value_pairs s = Some t" "kv_good n t" "n + length (pushes req) \<le> oh_limit"
  shows "\<exists>t'. Synchronize req s =
      Inr (if set (pulls req) \<subseteq> keys_of (entries t') then OK else NOT_FOUND,
           \<lparr>pushes = pairs_of (entries t') (known_prefix (entries t') (pulls req)), pulls = []\<rparr>,
           set_key_value_pairs t' s) \<and>
    kv_good (n + length (pushes req)) t' \<and> entries t' = fold dict_insert (pushes req) (entries t)"
proof -
  from insert_pairs_ok [OF t(2,3)] obtain t' where
    t': "insert_pairs (pushes req) t = Inr t'" "kv_good (n + length (pushes req)) t'" "entries t' = fold dict_insert (pushes req) (entries t)"
    by blast
  show ?thesis using t' t(1) answer_pulls_ok [OF t'(2), of "pulls req" "[]"] by (intro exI [of _ t']) (simp add: Synchronize_def)
qed

lemma Synchronize_OK:
  assumes t: "sv_key_value_pairs s = Some t" "kv_good n t" "n + length (pushes req) \<le> oh_limit"
    and known: "set (pulls req) \<subseteq> keys_of (entries t) \<union> keys_of (pushes req)"
  shows "\<exists>t'. Synchronize req s = Inr (OK, \<lparr>pushes = pairs_of (entries t') (pulls req), pulls = []\<rparr>, set_key_value_pairs t' s) \<and>
    kv_good (n + length (pushes req)) t' \<and> entries t' = fold dict_insert (pushes req) (entries t)"
proof -
  from Synchronize_eq [OF t] obtain t' where
    t': "Synchronize req s = Inr (if set (pulls req) \<subseteq> keys_of (entries t') then OK else NOT_FOUND,
           \<lparr>pushes = pairs_of (entries t') (known_prefix (entries t') (pulls req)), pulls = []\<rparr>,
           set_key_value_pairs t' s)"
      "kv_good (n + length (pushes req)) t'" "entries t' = fold dict_insert (pushes req) (entries t)" by blast
  have sub: "set (pulls req) \<subseteq> keys_of (entries t')" using known by (simp add: t'(3) fold_dict_insert_keys)
  from t' sub show ?thesis by (intro exI [of _ t']) simp
qed

text \<open>C16. Synchronisation takes over every push under a key that is new (a key that is there keeps its value), even
  when it then reports an error, and answers the pulls from the map after the pushes: all of them with status OK,
  or the pairs before the first unknown key with NOT_FOUND. Only the map changes, and its entries keep
  their order.\<close>

theorem synchronize_answers:
  assumes "sv_key_value_pairs s = Some t" "kv_good n t" "n + length (pushes req) \<le> oh_limit"
  shows "\<exists>t'. entries t' = fold dict_insert (pushes req) (entries t) \<and>
    keys_of (entries t') = keys_of (entries t) \<union> keys_of (pushes req) \<and>
    Synchronize req s =
      Inr (if set (pulls req) \<subseteq> keys_of (entries t') then OK else NOT_FOUND,
           \<lparr>pushes = pairs_of (entries t') (known_prefix (entries t') (pulls req)), pulls = []\<rparr>, s\<lparr>sv_key_value_pairs := Some t'\<rparr>)"
proof -
  from Synchronize_eq [OF assms] obtain t' where
    "Synchronize req s = Inr (if set (pulls req) \<subseteq> keys_of (entries t') then OK else NOT_FOUND,
       \<lparr>pushes = pairs_of (entries t') (known_prefix (entries t') (pulls req)), pulls = []\<rparr>, set_key_value_pairs t' s)"
    "entries t' = fold dict_insert (pushes req) (entries t)" by blast
  then show ?thesis by (intro exI [of _ t']) (simp add: set_key_value_pairs_def fold_dict_insert_keys)
qed

theorem synchronize_answers_witness:
  "\<exists>t'. entries t' = fold dict_insert [(1, ''a''), (2, ''b''), (1, ''c'')] (entries (empty_hash :: kv_map)) \<and>
    keys_of (entries t') = keys_of (entries (empty_hash :: kv_map)) \<union> keys_of [(1, ''a''), (2, ''b''), (1, ''c'')] \<and>
    Synchronize \<lparr>pushes = [(1, ''a''), (2, ''b''), (1, ''c'')], pulls = [2, 7, 1]\<rparr> (demo_server 2 empty_hash :: unit server) =
      Inr (if set [2, 7, 1] \<subseteq> keys_of (entries t') then OK else NOT_FOUND,
           \<lparr>pushes = pairs_of (entries t') (known_prefix (entries t') [2, 7, 1]), pulls = []\<rparr>,
           (demo_server 2 empty_hash)\<lparr>sv_key_value_pairs := Some t'\<rparr>)"
  using synchronize_answers [OF _ oh_good_empty, of "demo_server 2 empty_hash :: unit server" 0
      "\<lparr>pushes = [(1, ''a''), (2, ''b''), (1, ''c'')], pulls = [2, 7, 1]\<rparr>"]
  by (simp add: oh_limit_def)

section \<open>Pushing and pulling\<close>

lemma PushAndPull_eq:
  assumes t: "kv_good n t" and u: "sv_key_value_pairs s = Some u" "kv_good n u"
    and room: "n + length push \<le> oh_limit" "n + length pull \<le> oh_limit"
    and push: "set push \<subseteq> keys_of (entries t)" and pull: "set pull \<inter> keys_of (entries t) = {}" "set pull \<subseteq> keys_of (entries u)"
  shows "\<exists>t' u'. PushAndPull push pull t s = Inr (True, t', s\<lparr>sv_key_value_pairs := Some u'\<rparr>) \<and>
    entries u' = fold dict_insert (pairs_of (entries t) push) (entries u) \<and>
    entries t' = fold dict_insert (pairs_of (entries u') pull) (entries t) \<and>
    kv_good (n + length push) u' \<and> kv_good (n + length pull) t'"
proof -
  let ?req = "\<lparr>pushes = pairs_of (entries t) push, pulls = pull\<rparr>"
  have "set pull \<subseteq> keys_of (entries u) \<union> set push" using pull(2) by blast
  with Synchronize_OK [OF u, of ?req] room obtain u' where
    u': "Synchronize ?req s = Inr (OK, \<lparr>pushes = pairs_of (entries u') pull, pulls = []\<rparr>, set_key_value_pairs u' s)"
      "kv_good (n + length push) u'" "entries u' = fold dict_insert (pairs_of (entries t) push) (entries u)" by auto
  from insert_pairs_ok [OF t, of "pairs_of (entries u') pull"] room obtain t' where
    t': "insert_pairs (pairs_of (entries u') pull) t = Inr t'" "kv_good (n + length pull) t'"
      "entries t' = fold dict_insert (pairs_of (entries u') pull) (entries t)" by auto
  have "PushAndPull push pull t s = Inr (True, t', s\<lparr>sv_key_value_pairs := Some u'\<rparr>)"
    using t u'(1) t'(1) push pull(1)
    by (simp add: PushAndPull_def none_present_ok collect_pushes_ok call_Synchronize_def set_key_value_pairs_def)
  with u' t' show ?thesis by blast
qed

lemma Push_eq:
  assumes t: "kv_good m t" and u: "sv_key_value_pairs s = Some u" "kv_good n u" "n + length push \<le> oh_limit"
    and push: "set push \<subseteq> keys_of (entries t)"
  shows "\<exists>u'. Push push t s = Inr (True, t, s\<lparr>sv_key_value_pairs := Some u'\<rparr>) \<and> kv_good (n + length push) u' \<and>
    entries u' = fold dict_insert (pairs_of (entries t) push) (entries u)"
proof -
  from Synchronize_OK [OF u(1,2), of "\<lparr>pushes = pairs_of (entries t) push, pulls = []\<rparr>"] u(3) obtain u' where
    u': "Synchronize \<lparr>pushes = pairs_of (entries t) push, pulls = []\<rparr> s = Inr (OK, \<lparr>pushes = [], pulls = []\<rparr>, set_key_value_pairs u' s)"
      "kv_good (n + length push) u'" "entries u' = fold dict_insert (pairs_of (entries t) push) (entries u)" by auto
  with t push show ?thesis
    by (intro exI [of _ u']) (simp add: Push_def collect_values_ok call_Synchronize_def set_key_value_pairs_def)
qed

section \<open>PinSketch\<close>

lemma length_differences:
  assumes "distinct ks" "set ks \<subseteq> differences as bs"
  shows "length ks \<le> card (differences as bs)"
proof -
  have "finite (differences as bs)" by (simp add: differences_def keys_of_def)
  with assms have "card (set ks) \<le> card (differences as bs)" by (intro card_mono)
  with assms(1) show ?thesis by (simp add: distinct_card)
qed

text \<open>What the client does with the answer, shared by PinSketch and the difference digest.\<close>

lemma take_over:
  assumes t: "kv_good n t" and u: "sv_key_value_pairs s = Some u" "kv_good n u" "agree (entries t) (entries u)"
    and missing: "distinct missing" "set missing = keys_of (entries t) - keys_of (entries u)" "n + length missing \<le> oh_limit"
    and new: "distinct new" "set new = keys_of (entries u) - keys_of (entries t)" "n + length new \<le> oh_limit"
  shows "\<exists>t1 t' u'. accept_pushes (pairs_of (entries u) new) t = Inr (True, t1) \<and>
    (if missing \<noteq> [] then Push missing t1 s else Inr (True, t1, s)) = Inr (True, t', s\<lparr>sv_key_value_pairs := Some u'\<rparr>) \<and>
    map_of (entries t') = map_of (entries t) ++ map_of (entries u) \<and> map_of (entries u') = map_of (entries t) ++ map_of (entries u)"
proof -
  from accept_pushes_ok [OF t, of "pairs_of (entries u) new"] new obtain t1 where
    t1: "accept_pushes (pairs_of (entries u) new) t = Inr (True, t1)" "kv_good (n + length new) t1"
      "entries t1 = entries t @ pairs_of (entries u) new" by auto
  have same: "pairs_of (entries t1) missing = pairs_of (entries t) missing"
    unfolding pairs_of_def t1(3) value_of_def using missing(2) map_of_eq_None [of "entries t"]
    by (intro map_cong refl) (auto simp: map_add_def split: option.splits)
  have "keys_of (pairs_of (entries t) missing) \<inter> keys_of (entries u) = {}" using missing(2) by auto
  then have ins: "fold dict_insert (pairs_of (entries t) missing) (entries u) = entries u @ pairs_of (entries t) missing"
    using missing(1) by (intro fold_dict_insert_fresh) simp_all
  note maps = completed_same [OF u(3) new(2) missing(2)]
  show ?thesis
  proof (cases "missing = []")
    case True
    with u(1) t1 maps show ?thesis by (intro exI [of _ t1] exI [of _ u]) simp
  next
    case False
    have "set missing \<subseteq> keys_of (entries t1)" using missing(2) t1(3) by auto
    from Push_eq [OF t1(2) u(1,2) missing(3) this] obtain u' where
      u': "Push missing t1 s = Inr (True, t1, s\<lparr>sv_key_value_pairs := Some u'\<rparr>)"
        "entries u' = entries u @ pairs_of (entries t) missing" by (auto simp: same ins)
    with False t1 maps show ?thesis by (intro exI [of _ t1] exI [of _ u']) simp
  qed
qed

lemma ReconcilePinSketch_eq:
  assumes c: "ms_contract (env_api env) 32 c" "0 < c" "sv_estimated_diff s = int c"
    and t: "kv_good n t" "0 \<notin> keys_of (entries t)"
    and a: "sketch_of (env_api env) 32 c (map (key_element \<circ> fst) (entries t)) = Some a"
    and u: "sv_key_value_pairs s = Some u" "kv_good n u" "0 \<notin> keys_of (entries u)"
    and few: "card (differences (entries t) (entries u)) \<le> c"
  shows "\<exists>missing new. ReconcilePinSketch env (ms_serialize (env_api env) a) s =
      Inr (OK, \<lparr>pr_missing_keys = missing, pr_pushed_key_values = pairs_of (entries u) new\<rparr>, s) \<and>
    distinct missing \<and> set missing = keys_of (entries t) - keys_of (entries u) \<and>
    distinct new \<and> set new = keys_of (entries u) - keys_of (entries t)"
proof -
  have c': "ms_contract (env_api env) (of_nat 32) c" using c(1) by simp
  from host_sketch [OF c', of "entries u", where 's = "'a server"] obtain b where
    b: "sketch_of (env_api env) 32 c (map (key_element \<circ> fst) (entries u)) = Some b"
      "ps_encode_key_value_pairs (env_api env) (entries u) (PinSketch (env_api env) 32 c) =
        (Inr \<lparr>ps_sketch = Some b, ps_bits = 32, ps_capacity = c\<rparr> :: 'a server failure + _)" by auto
  let ?D = "differences (entries t) (entries u)"
  have D: "differences (entries t) (entries u) = keys_of (entries u) - keys_of (entries t) \<union> (keys_of (entries t) - keys_of (entries u))"
    by (auto simp: differences_def)
  from ps_decode_difference [OF c(1,2) b(1) a good_distinct [OF u(2)] good_distinct [OF t(1)] u(3) t(2), where 's = "'a server"] few
  obtain xs where xs: "ps_decode (env_api env) (ms_serialize (env_api env) a) \<lparr>ps_sketch = Some b, ps_bits = 32, ps_capacity = c\<rparr> =
      (Inr (True, xs) :: 'a server failure + _)" "distinct xs" "set xs = unsigned_key ` ?D" unfolding D by blast
  have set: "set (map element_key xs) = ?D" using xs(3) by (simp add: image_image)
  have "inj_on element_key (set xs)" unfolding xs(3) by (intro inj_onI) auto
  then have dist: "distinct (map element_key xs)" using xs(2) by (simp add: distinct_map)
  have "ReconcilePinSketch env (ms_serialize (env_api env) a) s =
      Inr (OK, \<lparr>pr_missing_keys = filter (\<lambda>k. k \<notin> keys_of (entries u)) (map element_key xs),
        pr_pushed_key_values = pairs_of (entries u) (filter (\<lambda>k. k \<in> keys_of (entries u)) (map element_key xs))\<rparr>, s)"
    using c(3) u b(2) xs(1) by (simp add: ReconcilePinSketch_def sort_differences_ok)
  moreover have "set (filter (\<lambda>k. k \<notin> keys_of (entries u)) (map element_key xs)) = keys_of (entries t) - keys_of (entries u)"
    "set (filter (\<lambda>k. k \<in> keys_of (entries u)) (map element_key xs)) = keys_of (entries u) - keys_of (entries t)"
    unfolding set_filter set by (auto simp: differences_def)
  ultimately show ?thesis using dist distinct_filter by blast
qed

text \<open>C4. PinSketch reconciles two hosts: when client and server build sketches of the same capacity \<open>c\<close>, their keys
  differ in at most \<open>c\<close> places, no key is zero and common keys have the same value, the call succeeds, the
  client gives back true, and both maps end as the union of the two. The set of differences the protocol finds is
  exactly the symmetric difference.\<close>

theorem pinsketch_reconciles:
  assumes "ms_contract (env_api env) 32 c" "0 < c" "sv_estimated_diff s = int c"
    and "kv_good n t" "0 \<notin> keys_of (entries t)" "sv_key_value_pairs s = Some u" "kv_good n u" "0 \<notin> keys_of (entries u)"
    and "agree (entries t) (entries u)" "card (differences (entries t) (entries u)) \<le> c" "n + card (differences (entries t) (entries u)) \<le> oh_limit"
  shows "\<exists>t' u'. Reconciliation_PinSketch env e (Some c) t s = Inr (True, t', s\<lparr>sv_key_value_pairs := Some u'\<rparr>) \<and>
    map_of (entries t') = map_of (entries t) ++ map_of (entries u) \<and> map_of (entries u') = map_of (entries t) ++ map_of (entries u)"
proof -
  have c': "ms_contract (env_api env) (of_nat 32) c" using assms(1) by simp
  from host_sketch [OF c', of "entries t", where 's = "'a world"] obtain a where
    a: "sketch_of (env_api env) 32 c (map (key_element \<circ> fst) (entries t)) = Some a"
      "ps_encode_key_value_pairs (env_api env) (entries t) (PinSketch (env_api env) 32 c) =
        (Inr \<lparr>ps_sketch = Some a, ps_bits = 32, ps_capacity = c\<rparr> :: 'a world failure + _)" by auto
  from ReconcilePinSketch_eq [OF assms(1-5) a(1) assms(6-8,10)] obtain missing new where
    r: "ReconcilePinSketch env (ms_serialize (env_api env) a) s =
      Inr (OK, \<lparr>pr_missing_keys = missing, pr_pushed_key_values = pairs_of (entries u) new\<rparr>, s)"
    and m: "distinct missing" "set missing = keys_of (entries t) - keys_of (entries u)"
    and w: "distinct new" "set new = keys_of (entries u) - keys_of (entries t)" by blast
  have "n + length missing \<le> oh_limit" "n + length new \<le> oh_limit"
    using m w assms(11) length_differences [of missing] length_differences [of new] by (fastforce simp: differences_def)+
  from take_over [OF assms(4,6,7,9) m this(1) w this(2)] obtain t1 t' u' where
    f: "accept_pushes (pairs_of (entries u) new) t = Inr (True, t1)"
      "(if missing \<noteq> [] then Push missing t1 s else Inr (True, t1, s)) = Inr (True, t', s\<lparr>sv_key_value_pairs := Some u'\<rparr>)"
      "map_of (entries t') = map_of (entries t) ++ map_of (entries u)" "map_of (entries u') = map_of (entries t) ++ map_of (entries u)"
    by blast
  then have "Reconciliation_PinSketch env e (Some c) t s = Inr (True, t', s\<lparr>sv_key_value_pairs := Some u'\<rparr>)"
    by (cases "missing = []") (simp_all add: Reconciliation_PinSketch_def scaled_d_def ps_encode_and_serialize_key_value_pairs_def a(2) ps_serialize_def ps_deref_def r)
  with f(3,4) show ?thesis by blast
qed

theorem pinsketch_reconciles_witness:
  "\<exists>t u. insert_pairs alice_pairs empty_hash = Inr t \<and> insert_pairs bob_pairs empty_hash = Inr u \<and>
    (\<exists>t' u'. Reconciliation_PinSketch (demo_env (bitmap_api 32 (2 ^ 27)) (\<lambda>e s. e) (3, 3)) \<lparr>tow_m = 2, tow_hashes = [0, 1]\<rparr> (Some (2 ^ 27)) t
        (demo_server (2 ^ 27) u) = Inr (True, t', (demo_server (2 ^ 27) u)\<lparr>sv_key_value_pairs := Some u'\<rparr>) \<and>
      map_of (entries t') = map_of (entries t) ++ map_of (entries u) \<and> map_of (entries u') = map_of (entries t) ++ map_of (entries u))"
proof -
  obtain t where t: "insert_pairs alice_pairs empty_hash = Inr t" "kv_good 4 t" "entries t = alice_pairs" by (rule alice_map)
  obtain u where u: "insert_pairs bob_pairs empty_hash = Inr u" "kv_good 4 u" "entries u = bob_pairs" by (rule bob_map)
  have "ms_contract (bitmap_api 32 (2 ^ 27)) 32 (2 ^ 27)" using bitmap_contract [of 32 "2 ^ 27"] by simp
  then have "\<exists>t' u'. Reconciliation_PinSketch (demo_env (bitmap_api 32 (2 ^ 27)) (\<lambda>e s. e) (3, 3)) \<lparr>tow_m = 2, tow_hashes = [0, 1]\<rparr> (Some (2 ^ 27)) t
        (demo_server (2 ^ 27) u) = Inr (True, t', (demo_server (2 ^ 27) u)\<lparr>sv_key_value_pairs := Some u'\<rparr>) \<and>
      map_of (entries t') = map_of (entries t) ++ map_of (entries u) \<and> map_of (entries u') = map_of (entries t) ++ map_of (entries u)"
    by (intro pinsketch_reconciles [where n = 4])
      (use t u alice_bob_agree in \<open>simp_all add: demo_env_def alice_bob_differences oh_limit_def\<close>)
  with t(1) u(1) show ?thesis by blast
qed

lemma encode_host:
  assumes "ms_create api 32 0 c = Some s0" "sketch_of api 32 c (map (key_element \<circ> fst) kvs) = Some r"
  shows "ps_encode_key_value_pairs api kvs (PinSketch api 32 c) = (Inr \<lparr>ps_sketch = Some r, ps_bits = 32, ps_capacity = c\<rparr> :: 'f failure + _)"
proof -
  have "sketch_of api (of_nat 32) c [] = Some s0" using assms(1) by (simp add: sketch_of_def)
  from ps_encode_eq [OF this, of "map (key_element \<circ> fst) kvs", where 's = 'f] assms show ?thesis
    by (simp add: ps_encode_key_value_pairs_def PinSketch_def)
qed

text \<open>A failed decode is not seen: the server then takes the zeros of the untouched output vector for differences
  and asks for the key zero as often as the capacity says. The client, which has no key zero, gives up: the
  reconciliation returns false and neither map changes.\<close>

lemma pinsketch_decode_failure:
  assumes "sv_estimated_diff s = int c" "0 < c" "kv_good n t" "0 \<notin> keys_of (entries t)"
    and "sv_key_value_pairs s = Some u" "kv_good n u" "0 \<notin> keys_of (entries u)"
    and "ms_create (env_api env) 32 0 c = Some s0" "sketch_of (env_api env) 32 c (map (key_element \<circ> fst) (entries t)) = Some a"
    and "sketch_of (env_api env) 32 c (map (key_element \<circ> fst) (entries u)) = Some b"
    and "Bits2Bytes (32 * c) \<le> length (ms_serialize (env_api env) a)"
    and "ms_decode (env_api env) (ms_merge (env_api env) (ms_deserialize (env_api env) s0 (ms_serialize (env_api env) a)) b) c = None"
  shows "ReconcilePinSketch env (ms_serialize (env_api env) a) s =
      Inr (OK, \<lparr>pr_missing_keys = replicate c 0, pr_pushed_key_values = []\<rparr>, s) \<and>
    Reconciliation_PinSketch env e (Some c) t s = Inr (False, t, s)"
proof -
  have fill: "sort_differences (replicate m 0) (missing, kvs) u = Inr ((missing @ replicate m 0, kvs), u)" for m missing kvs
    using assms(6,7) by (simp add: sort_differences_ok)
  have server: "ReconcilePinSketch env (ms_serialize (env_api env) a) s =
      Inr (OK, \<lparr>pr_missing_keys = replicate c 0, pr_pushed_key_values = []\<rparr>, s)"
    using assms(1,2,5,8,11,12) fill [of c "[]" "[]"]
    by (simp add: encode_host [OF assms(8,10)] ReconcilePinSketch_def ps_decode_def ps_deref_def element_key_def)
  have "collect_values (replicate c 0) [] t = Inr None" using assms(2,3,4) by (simp add: collect_values_ok)
  then have "Push (replicate c 0) t s = Inr (False, t, s)" by (simp add: Push_def)
  with assms(2) server have "Reconciliation_PinSketch env e (Some c) t s = Inr (False, t, s)"
    by (simp add: encode_host [OF assms(8,9)] Reconciliation_PinSketch_def scaled_d_def ps_encode_and_serialize_key_value_pairs_def ps_serialize_def ps_deref_def)
  with server show ?thesis ..
qed

end
