(* ===== verification/Sketch_Encoding.thy ===== *)
theory Sketch_Encoding
  imports Parity_Sketch
begin

text \<open>
  What \<open>encode\<close> computes: per group a row of bin XORs, a checksum and a sketch of the bins that
  hold an odd number of elements.
\<close>

section \<open>Groups, bins and rows as functions\<close>

text \<open>The group and the bin of an element, when the divisions are defined.\<close>

definition group_of :: "hash_fn \<Rightarrow> 'sk pbs_sketch \<Rightarrow> u64 \<Rightarrow> nat" where
  "group_of h st e = unat (h e (group_partition_seed st)) mod num_groups st"

definition bin_of :: "hash_fn \<Rightarrow> 'sk pbs_sketch \<Rightarrow> u64 \<Rightarrow> nat" where
  "bin_of h st e = unat (h e (parity_encoding_seed st + ucast (round_count st))) mod (bch_n st - 1) + 1"

definition params_ok :: "'sk pbs_sketch \<Rightarrow> bool" where
  "params_ok st \<longleftrightarrow> 0 < num_groups st \<and> 2 \<le> bch_m st \<and> bch_m st < 32 \<and> bch_n st = 2 ^ bch_m st - 1"

lemma params_ok_n:
  assumes "params_ok st"
  shows "3 \<le> bch_n st" "bch_n st < 2 ^ 32"
proof -
  have "(2 :: nat) ^ 2 \<le> 2 ^ bch_m st" "(2 :: nat) ^ bch_m st \<le> 2 ^ 31"
    using assms power_increasing [of 2 "bch_m st" "2 :: nat"] power_increasing [of "bch_m st" 31 "2 :: nat"]
    by (auto simp: params_ok_def)
  then show "3 \<le> bch_n st" "bch_n st < 2 ^ 32" using assms by (auto simp: params_ok_def)
qed

lemma getGroupId_ok: "params_ok st \<Longrightarrow> getGroupId h st e = Inr (group_of h st e)"
  by (simp add: getGroupId_def group_of_def params_ok_def)

lemma getBinId_ok:
  assumes "params_ok st"
  shows "getBinId h st e = Inr (bin_of h st e)"
proof -
  note n = params_ok_n [OF assms]
  let ?n1 = "of_nat (bch_n st) - 1 :: u64"
  let ?x = "h e (parity_encoding_seed st + ucast (round_count st))"
  have "of_nat (bch_n st - 1) = ?n1" using n by (simp add: of_nat_diff)
  moreover have "bch_n st - 1 < 2 ^ 64" using n(2) by simp
  ultimately have n1: "unat ?n1 = bch_n st - 1" using unat_of_nat_u64 [of "bch_n st - 1"] by simp
  then have "?n1 \<noteq> 0" using n by (intro notI) simp
  moreover have "unat (?x mod ?n1) < bch_n st - 1"
    using n n1 by (simp add: unat_mod)
  then have "unat (?x mod ?n1 + 1) = unat (?x mod ?n1) + 1"
    using n by (intro unat_add_lem [THEN iffD1, THEN trans]) simp_all
  ultimately show ?thesis
    by (simp add: getBinId_def Let_def bin_of_def n1 unat_mod)
qed

lemma bin_of_range:
  assumes "params_ok st"
  shows "0 < bin_of h st e" "bin_of h st e < bch_n st"
proof -
  have "unat (h e (parity_encoding_seed st + ucast (round_count st))) mod (bch_n st - 1) < bch_n st - 1"
    using params_ok_n [OF assms] by (intro mod_less_divisor) simp
  then show "0 < bin_of h st e" "bin_of h st e < bch_n st" by (auto simp: bin_of_def)
qed

text \<open>The functions depend on the parameters and the round only.\<close>

lemma of_update [simp]:
  "bin_of h (st\<lparr>xors := xs\<rparr>) = bin_of h st" "bin_of h (st\<lparr>checksums := cs\<rparr>) = bin_of h st"
  "bin_of h (st\<lparr>groups := gs\<rparr>) = bin_of h st" "bin_of h (st\<lparr>pbs_encoding := p\<rparr>) = bin_of h st"
  "params_ok (st\<lparr>xors := xs\<rparr>) = params_ok st" "params_ok (st\<lparr>checksums := cs\<rparr>) = params_ok st"
  "params_ok (st\<lparr>groups := gs\<rparr>) = params_ok st" "params_ok (st\<lparr>pbs_encoding := p\<rparr>) = params_ok st"
  by (simp_all add: bin_of_def params_ok_def fun_eq_iff)

text \<open>The XOR of the elements of a bin, the row of a group, and its odd bins.\<close>

definition bin_xor :: "hash_fn \<Rightarrow> 'sk pbs_sketch \<Rightarrow> u64 list \<Rightarrow> nat \<Rightarrow> u64" where
  "bin_xor h st es b = xor_list (filter (\<lambda>e. bin_of h st e = b) es)"

definition bin_row :: "hash_fn \<Rightarrow> 'sk pbs_sketch \<Rightarrow> u64 list \<Rightarrow> u64 list" where
  "bin_row h st es = map (bin_xor h st es) [0..<bch_n st]"

definition odd_bins :: "hash_fn \<Rightarrow> 'sk pbs_sketch \<Rightarrow> u64 list \<Rightarrow> nat set" where
  "odd_bins h st es = odd_set (map (bin_of h st) es)"

definition positions :: "hash_fn \<Rightarrow> 'sk pbs_sketch \<Rightarrow> u64 list \<Rightarrow> u64 list" where
  "positions h st es = map of_nat (filter (\<lambda>k. k \<in> odd_bins h st es) [0..<bch_n st])"

lemma row_update [simp]:
  "bin_xor h (st\<lparr>xors := xs\<rparr>) = bin_xor h st" "bin_xor h (st\<lparr>checksums := cs\<rparr>) = bin_xor h st"
  "bin_row h (st\<lparr>xors := xs\<rparr>) = bin_row h st" "bin_row h (st\<lparr>checksums := cs\<rparr>) = bin_row h st"
  "odd_bins h (st\<lparr>xors := xs\<rparr>) = odd_bins h st" "odd_bins h (st\<lparr>checksums := cs\<rparr>) = odd_bins h st"
  "positions h (st\<lparr>xors := xs\<rparr>) = positions h st" "positions h (st\<lparr>checksums := cs\<rparr>) = positions h st"
  "bin_row h (st\<lparr>pbs_encoding := p\<rparr>) = bin_row h st" "positions h (st\<lparr>pbs_encoding := p\<rparr>) = positions h st"
  by (simp_all add: bin_xor_def bin_row_def odd_bins_def positions_def fun_eq_iff)

section \<open>Vectors as rows\<close>

lemma length_concat_rows: "(\<And>r. r \<in> set rows \<Longrightarrow> length r = n) \<Longrightarrow> length (concat rows) = length rows * n"
  by (induction rows) auto

lemma row_index:
  assumes "g < k" "b < (n :: nat)"
  shows "g * n + b < k * n"
proof -
  have "Suc g * n \<le> k * n" using assms(1) by (intro mult_le_mono) auto
  then show ?thesis using assms(2) by simp
qed

lemma nth_concat_rows:
  assumes "\<And>r. r \<in> set rows \<Longrightarrow> length r = n" "g < length rows" "b < n"
  shows "concat rows ! (g * n + b) = rows ! g ! b"
  using assms
proof (induction rows arbitrary: g)
  case (Cons r rows)
  then show ?case by (cases g) (auto simp: nth_append)
qed simp

lemma concat_rows_update:
  assumes "\<And>r. r \<in> set rows \<Longrightarrow> length r = n" "g < length rows" "b < n"
  shows "(concat rows)[g * n + b := x] = concat (rows[g := (rows ! g)[b := x]])"
  using assms
proof (induction rows arbitrary: g)
  case (Cons r rows)
  then show ?case by (cases g) (auto simp: list_update_append)
qed simp

lemma rows_update_ok:
  "(\<And>r. r \<in> set rows \<Longrightarrow> length r = n) \<Longrightarrow> length r' = n \<Longrightarrow> r \<in> set (rows[g := r']) \<Longrightarrow> length r = n"
  using set_update_subset_insert [of rows g r'] by blast

section \<open>One group\<close>

definition flip :: "nat set \<Rightarrow> nat \<Rightarrow> u8 \<Rightarrow> u8" where
  "flip S k v = (if k \<in> S then v XOR 1 else v)"

lemma flip_sym_diff: "flip (sym_diff {l} S) k v = flip S k (if k = l then v XOR 1 else v)"
proof -
  have "(v XOR 1) XOR 1 = v" by (simp only: xor.assoc) simp
  then show ?thesis by (auto simp: flip_def)
qed

lemma doEncode_fold:
  assumes p: "params_ok st" and rows: "xors st = concat rows" "\<And>r. r \<in> set rows \<Longrightarrow> length r = bch_n st"
    and g: "gid < length rows" "gid < length (checksums st)" and bm: "length bitmap = bch_n st"
  shows "(fold_ok (doEncode_element h gid) es (bitmap, st) :: 's failure + _) =
    Inr (map (\<lambda>k. flip (odd_bins h st es) k (bitmap ! k)) [0..<bch_n st],
      st\<lparr>xors := concat (rows[gid := map (\<lambda>b. rows ! gid ! b XOR bin_xor h st es b) [0..<bch_n st]]),
         checksums := (checksums st)[gid := checksums st ! gid XOR xor_list es]\<rparr>)"
  using assms
proof (induction es arbitrary: bitmap st rows)
  case Nil
  have "map (\<lambda>k. flip {} k (bitmap ! k)) [0..<bch_n st] = bitmap"
    using Nil.prems(6) by (auto simp: flip_def intro: nth_equalityI)
  moreover have "map (\<lambda>b. rows ! gid ! b) [0..<bch_n st] = rows ! gid"
    using Nil.prems(3,4) by (auto intro: nth_equalityI)
  ultimately show ?case using Nil.prems by (simp add: odd_bins_def bin_xor_def)
next
  case (Cons e es)
  let ?l = "bin_of h st e" and ?n = "bch_n st"
  have l: "?l < ?n" by (rule bin_of_range [OF Cons.prems(1)])
  let ?row = "(rows ! gid)[?l := rows ! gid ! ?l XOR e]"
  let ?rows = "rows[gid := ?row]"
  let ?st = "st\<lparr>xors := concat ?rows, checksums := (checksums st)[gid := checksums st ! gid XOR e]\<rparr>"
  have step: "(doEncode_element h gid e (bitmap, st) :: 's failure + _) = Inr (bitmap[?l := bitmap ! ?l XOR 1], ?st)"
    using Cons.prems l row_index [OF Cons.prems(4) l] length_concat_rows [of rows ?n]
    by (simp add: doEncode_element_def getBinId_ok ok_simps nth_concat_rows concat_rows_update)
  have st: "bch_n ?st = ?n" "odd_bins h ?st = odd_bins h st" "bin_xor h ?st = bin_xor h st" by simp_all
  have "(fold_ok (doEncode_element h gid) es (bitmap[?l := bitmap ! ?l XOR 1], ?st) :: 's failure + _) =
    Inr (map (\<lambda>k. flip (odd_bins h ?st es) k (bitmap[?l := bitmap ! ?l XOR 1] ! k)) [0..<bch_n ?st],
      ?st\<lparr>xors := concat (?rows[gid := map (\<lambda>b. ?rows ! gid ! b XOR bin_xor h ?st es b) [0..<bch_n ?st]]),
         checksums := (checksums ?st)[gid := checksums ?st ! gid XOR xor_list es]\<rparr>)"
  proof (rule Cons.IH)
    show "length r = bch_n ?st" if "r \<in> set ?rows" for r
      using rows_update_ok [OF Cons.prems(3) _ that] Cons.prems(3,4) by simp
  qed (use Cons.prems in simp_all)
  note IH = this [unfolded st]
  have bits: "map (\<lambda>k. flip (odd_bins h st es) k (bitmap[?l := bitmap ! ?l XOR 1] ! k)) [0..<?n] =
      map (\<lambda>k. flip (odd_bins h st (e # es)) k (bitmap ! k)) [0..<?n]"
    using Cons.prems(6) by (auto simp: odd_bins_def odd_set_Cons flip_sym_diff nth_list_update)
  have row: "map (\<lambda>b. ?rows ! gid ! b XOR bin_xor h st es b) [0..<?n] =
      map (\<lambda>b. rows ! gid ! b XOR bin_xor h st (e # es) b) [0..<?n]"
    using Cons.prems(3,4) by (auto simp: bin_xor_def nth_list_update ac_simps)
  have "(checksums ?st)[gid := checksums ?st ! gid XOR xor_list es] =
      (checksums st)[gid := checksums st ! gid XOR xor_list (e # es)]"
    using Cons.prems(5) by (simp add: ac_simps)
  note IH = IH [unfolded this bits row]
  show ?case
    unfolding fold_ok.simps step bind_ok_Inr IH by simp
qed

lemma add_positions_eq:
  "(add_positions api n bitmap (Some s) :: 's failure + _) =
   Inr (Some (fold (\<lambda>e s. ms_add_uint64 api s e) (map of_nat (filter (\<lambda>k. bitmap ! k \<noteq> 0) [0..<n])) s))"
proof -
  have "(fold_ok (\<lambda>k p. if bitmap ! k \<noteq> 0
      then bind_ok (deref p) (\<lambda>s. Inr (Some (ms_add_uint64 api s (of_nat k)))) else Inr p) ks (Some s) :: 's failure + _) =
    Inr (Some (fold (\<lambda>e s. ms_add_uint64 api s e) (map of_nat (filter (\<lambda>k. bitmap ! k \<noteq> 0) ks)) s))" for ks
    by (induction ks arbitrary: s) simp_all
  then show ?thesis by (simp add: add_positions_def)
qed

lemma doEncode_eq:
  assumes p: "params_ok st" and rows: "xors st = concat rows" "\<And>r. r \<in> set rows \<Longrightarrow> length r = bch_n st"
    and g: "gid < length rows" "gid < length (checksums st)" "gid < length (groups st)"
    and zero: "rows ! gid = replicate (bch_n st) 0" "checksums st ! gid = 0"
    and sk: "sketch_of api m t [] = Some s0"
  shows "(doEncode api h gid (Some s0) st :: 's failure + _) =
    Inr (sketch_of api m t (positions h st (groups st ! gid)),
      st\<lparr>xors := concat (rows[gid := bin_row h st (groups st ! gid)]),
         checksums := (checksums st)[gid := xor_list (groups st ! gid)]\<rparr>)"
proof -
  let ?g = "groups st ! gid" and ?n = "bch_n st"
  have "map (\<lambda>b. rows ! gid ! b XOR bin_xor h st ?g b) [0..<?n] = bin_row h st ?g"
    by (simp add: zero(1) bin_row_def)
  note fold = doEncode_fold [OF p rows g(1,2), of "replicate ?n 0" h ?g, where 's = 's, unfolded this]
  have "filter (\<lambda>k. map (\<lambda>k. flip (odd_bins h st ?g) k (replicate ?n 0 ! k)) [0..<?n] ! k \<noteq> 0) [0..<?n] =
      filter (\<lambda>k. k \<in> odd_bins h st ?g) [0..<?n]"
    by (intro filter_cong) (auto simp: flip_def)
  then have "(add_positions api ?n (map (\<lambda>k. flip (odd_bins h st ?g) k (replicate ?n 0 ! k)) [0..<?n]) (Some s0) :: 's failure + _) =
      Inr (sketch_of api m t (positions h st ?g))"
    using sk by (simp add: add_positions_eq positions_def sketch_of_def)
  with fold show ?thesis
    using g zero(2) by (simp add: doEncode_def ok_simps)
qed

section \<open>All groups\<close>

text \<open>The state between two rounds: vectors sized by the remaining groups, nothing accumulated yet.\<close>

definition fresh :: "'sk pbs_sketch \<Rightarrow> bool" where
  "fresh st \<longleftrightarrow> length (groups st) = num_groups_remaining st \<and>
     length (to_original_group_id st) = num_groups_remaining st \<and>
     xors st = replicate (num_groups_remaining st * bch_n st) 0 \<and>
     checksums st = replicate (num_groups_remaining st) 0"

definition group_sketch :: "'sk minisketch_api \<Rightarrow> hash_fn \<Rightarrow> 'sk pbs_sketch \<Rightarrow> u64 list \<Rightarrow> 'sk option" where
  "group_sketch api h st g = sketch_of api (of_nat (bch_m st)) (unat (of_nat (bch_t st) :: u32)) (positions h st g)"

text \<open>The message and the state that encoding a fresh state results in.\<close>

definition encoded_msg :: "'sk minisketch_api \<Rightarrow> hash_fn \<Rightarrow> 'sk pbs_sketch \<Rightarrow> 'sk encoding_message" where
  "encoded_msg api h st =
     (PbsEncodingMessage api (of_nat (bch_m st)) (of_nat (bch_t st)) (of_nat (num_groups_remaining st)))
       \<lparr>sketches := map (group_sketch api h st) (groups st)\<rparr>"

definition encoded :: "'sk minisketch_api \<Rightarrow> hash_fn \<Rightarrow> 'sk pbs_sketch \<Rightarrow> 'sk pbs_sketch" where
  "encoded api h st =
     st\<lparr>xors := concat (map (bin_row h st) (groups st)), checksums := map xor_list (groups st),
        pbs_encoding := Some (encoded_msg api h st)\<rparr>"

lemma encoded_pbs_encoding [simp]:
  "encoded_msg api h (st\<lparr>pbs_encoding := p\<rparr>) = encoded_msg api h st"
  "encoded api h (st\<lparr>pbs_encoding := p\<rparr>) = encoded api h st"
  by (simp_all add: encoded_msg_def encoded_def group_sketch_def [abs_def])

lemma length_bin_row [simp]: "length (bin_row h st g) = bch_n st"
  by (simp add: bin_row_def)

lemma concat_replicate_zero: "concat (replicate k (replicate n z)) = replicate (k * n) z"
  by (induction k) (simp_all add: replicate_add)

lemma encode_groups_eq:
  fixes st :: "'sk pbs_sketch"
  assumes p: "params_ok st" and fr: "fresh st" and small: "num_groups_remaining st < 2 ^ 32"
    and sk: "ms_create api (of_nat (bch_m st)) 0 (unat (of_nat (bch_t st) :: u32)) = Some s0"
    and msg: "msg = PbsEncodingMessage api (of_nat (bch_m st)) (of_nat (bch_t st)) (of_nat (num_groups_remaining st))"
  shows "(encode_groups api h msg st :: 's failure + _) = Inr (encoded_msg api h st, encoded api h st)"
proof -
  let ?N = "num_groups_remaining st" and ?gs = "groups st" and ?n = "bch_n st"
  let ?rows = "filled (bin_row h st) ?gs (replicate ?n 0)"
  let ?sks = "filled (group_sketch api h st) ?gs (Some s0)"
  have N: "length ?gs = ?N" "unat (of_nat ?N :: u32) = ?N"
    using fr small unat_of_nat_u32 by (auto simp: fresh_def)
  have m: "enc_num_groups msg = of_nat ?N" "sketches msg = replicate ?N (Some s0)"
    using msg sk N(2) by (simp_all add: PbsEncodingMessage_def)
  let ?P = "\<lambda>i x. x = (msg\<lparr>sketches := ?sks i\<rparr>,
    st\<lparr>xors := concat (?rows i), checksums := filled xor_list ?gs 0 i\<rparr>)"
  have "\<exists>x'. (encode_group api h i x :: 's failure + _) = Inr x' \<and> ?P (Suc i) x'"
    if i: "i < ?N" and P: "?P i x" for i x
  proof -
    let ?st = "st\<lparr>xors := concat (?rows i), checksums := filled xor_list ?gs 0 i\<rparr>"
    have "(doEncode api h i (Some s0) ?st :: 's failure + _) =
      Inr (sketch_of api (of_nat (bch_m st)) (unat (of_nat (bch_t st) :: u32)) (positions h ?st (groups ?st ! i)),
        ?st\<lparr>xors := concat ((?rows i)[i := bin_row h ?st (groups ?st ! i)]),
           checksums := (checksums ?st)[i := xor_list (groups ?st ! i)]\<rparr>)"
    proof (rule doEncode_eq)
      show "length r = bch_n ?st" if "r \<in> set (?rows i)" for r
        using that set_filled [of "bin_row h st" ?gs "replicate ?n 0" i] by auto
    qed (use p i N sk in \<open>simp_all add: sketch_of_def\<close>)
    moreover have "getSketch (msg\<lparr>sketches := ?sks i\<rparr>) i = Some s0"
      using i N m by (simp add: getSketch_def)
    ultimately show ?thesis
      using i N m P by (simp add: encode_group_def group_sketch_def [symmetric])
  qed
  moreover have "?P 0 (msg, st)"
    using fr N m by (cases msg; cases st) (simp add: fresh_def concat_replicate_zero)
  ultimately have "(fold_ok (encode_group api h) [0..<?N] (msg, st) :: 's failure + _) =
      Inr (msg\<lparr>sketches := ?sks ?N\<rparr>, st\<lparr>xors := concat (?rows ?N), checksums := filled xor_list ?gs 0 ?N\<rparr>)"
    using fold_ok_upt [of ?N ?P "encode_group api h" "(msg, st)"] by blast
  then show ?thesis
    using msg by (simp add: encode_groups_def encoded_def encoded_msg_def N(1) [symmetric])
qed

text \<open>\<open>encode\<close> on a fresh state; the hint names the groups with exceptions of the round before.\<close>

lemma add_hints:
  assumes "\<forall>g \<in> set gs. g < max_range hint" "max_range hint \<le> 2 ^ 32"
  shows "fold_ok (\<lambda>gid. addGroupId (of_nat gid)) gs hint =
    Inr (hint\<lparr>groups_with_exceptions := groups_with_exceptions hint @ map of_nat gs\<rparr>)"
  using assms
proof (induction gs arbitrary: hint)
  case (Cons g gs)
  then have "unat (of_nat g :: u32) = g" by (intro unat_of_nat_u32) auto
  with Cons show ?case by (simp add: addGroupId_def)
qed simp

definition encode_hint :: "'sk pbs_sketch \<Rightarrow> hint_message option" where
  "encode_hint st =
     (if groups_exp_I_or_II st = [] then None
      else Some \<lparr>max_range = hint_max_range st, bits_each = ceillog2 (hint_max_range st),
                 groups_with_exceptions = map of_nat (groups_exp_I_or_II st)\<rparr>)"

lemma encode_eq:
  fixes st :: "'sk pbs_sketch"
  assumes p: "params_ok st" and fr: "fresh st" and small: "num_groups_remaining st < 2 ^ 32"
    and sk: "ms_create api (of_nat (bch_m st)) 0 (unat (of_nat (bch_t st) :: u32)) = Some s0"
    and hint: "\<forall>g \<in> set (groups_exp_I_or_II st). g < hint_max_range st" "hint_max_range st \<le> 2 ^ 32"
  shows "encode api h st = Inr ((encoded_msg api h st, encode_hint st), (encoded api h st)\<lparr>groups_exp_I_or_II := []\<rparr>)"
proof (cases "groups_exp_I_or_II st = []")
  case True
  then show ?thesis
    using encode_groups_eq [OF p fr small sk refl, where h = h and 's = "'sk pbs_sketch"]
    by (cases st) (simp add: encode_def encode_hint_def encoded_def)
next
  case False
  then have "0 < hint_max_range st" using hint(1) by (metis gr_zeroI last_in_set not_less_zero)
  then show ?thesis
    using False encode_groups_eq [OF p fr small sk refl, where h = h and 's = "'sk pbs_sketch"] hint
    by (simp add: encode_def encode_hint_def encoded_def PbsEncodingHintMessage_def CeilLog2_def add_hints thrown_in_def)
qed

section \<open>The message is valid\<close>

definition wire_ok :: "'sk minisketch_api \<Rightarrow> 'sk pbs_sketch \<Rightarrow> bool" where
  "wire_ok api st \<longleftrightarrow> params_ok st \<and> 0 < bch_t st \<and>
     bch_m st * bch_t st * num_groups_remaining st < 2 ^ 32 \<and>
     bch_t st + 2 \<le> 2 ^ 31 \<and> num_groups_remaining st < 2 ^ 32 \<and>
     ms_contract api (of_nat (bch_m st)) (bch_t st)"

lemma wire_okD:
  assumes "wire_ok api st"
  shows "params_ok st" "unat (of_nat (bch_m st) :: u32) = bch_m st" "unat (of_nat (bch_t st) :: u32) = bch_t st"
    "unat (of_nat (num_groups_remaining st) :: u32) = num_groups_remaining st"
    "num_groups_remaining st < 2 ^ 32" "ms_contract api (of_nat (bch_m st)) (bch_t st)" "0 < bch_m st" "0 < bch_t st"
proof -
  have "bch_m st < 2 ^ 32" "bch_t st < 2 ^ 32" using assms by (auto simp: wire_ok_def params_ok_def)
  then show "unat (of_nat (bch_m st) :: u32) = bch_m st" "unat (of_nat (bch_t st) :: u32) = bch_t st"
    by (auto intro: unat_of_nat_u32)
qed (use assms in \<open>auto simp: wire_ok_def params_ok_def intro: unat_of_nat_u32\<close>)

lemma encoded_msg_valid:
  assumes ok: "wire_ok api st" and fr: "fresh st" and pos: "0 < num_groups_remaining st"
  shows "enc_valid api (encoded_msg api h st)"
proof -
  note w = wire_okD [OF ok]
  have "of_nat k \<noteq> (0 :: u32)" if "unat (of_nat k :: u32) = k" "0 < k" for k
    using that by (intro notI) simp
  with w pos show ?thesis
    using ok fr sketch_of_Some [OF w(6)]
    by (auto simp: enc_valid_def encoded_msg_def PbsEncodingMessage_def wire_ok_def fresh_def group_sketch_def)
qed

end
