(* ===== verification/Sketch_Decoding.thy ===== *)
theory Sketch_Decoding
  imports Sketch_Encoding
begin

text \<open>
  What \<open>decode\<close>, \<open>decodeCheck\<close> and \<open>encodeWithHint\<close> compute, as functions of the groups of the
  two hosts and of the decoding results.
\<close>

section \<open>Splitting the groups that failed\<close>

definition split_group :: "hash_fn \<Rightarrow> 'sk pbs_sketch \<Rightarrow> u64 list \<Rightarrow> u64 list list" where
  "split_group h st g = map (\<lambda>i. filter (\<lambda>e. split_index h st e = i) g) [0..<num_groups_when_bch_fail st]"

text \<open>The state after the groups \<open>fs\<close> were recorded as failed and split, in this order.\<close>

definition split_failed :: "hash_fn \<Rightarrow> nat list \<Rightarrow> 'sk pbs_sketch \<Rightarrow> 'sk pbs_sketch" where
  "split_failed h fs st =
     (let c = num_groups_when_bch_fail st
      in st\<lparr>groups := groups st @ concat (map (\<lambda>g. split_group h st (groups st ! g)) fs),
            xors := xors st @ replicate (length fs * c * bch_n st) 0,
            checksums := checksums st @ replicate (length fs * c) 0,
            to_original_group_id := to_original_group_id st @
              concat (map (\<lambda>g. replicate c (to_original_group_id st ! g)) fs),
            groups_bch_failed := groups_bch_failed st @ fs\<rparr>)"

lemma length_split_group [simp]: "length (split_group h st g) = num_groups_when_bch_fail st"
  by (simp add: split_group_def)

lemma split_failed_Nil [simp]: "split_failed h [] st = st"
  by (simp add: split_failed_def)

lemma split_index_less: "0 < num_groups_when_bch_fail st \<Longrightarrow> split_index h st e < num_groups_when_bch_fail st"
  by (simp add: split_index_def)

lemma split_fold:
  assumes "0 < c" "c = num_groups_when_bch_fail st" "length subs = c"
  shows "(fold_ok (\<lambda>e gs. if c = 0 then Inl (Undefined DivisionByZero)
             else let i = length pre + split_index h st e
                  in bind_ok (vec_get gs i) (\<lambda>sub. Inr (gs[i := sub @ [e]]))) g (pre @ subs) :: 's failure + _) =
    Inr (pre @ map (\<lambda>i. subs ! i @ filter (\<lambda>e. split_index h st e = i) g) [0..<c])"
  using assms(3)
proof (induction g arbitrary: subs)
  case Nil
  have "map (\<lambda>i. subs ! i) [0..<c] = subs" using Nil by (auto intro: nth_equalityI)
  then show ?case by simp
next
  case (Cons e g)
  let ?i = "split_index h st e"
  have i: "?i < c" using split_index_less [of st h e] assms by simp
  have upd: "(pre @ subs)[length pre + ?i := subs ! ?i @ [e]] = pre @ subs[?i := subs ! ?i @ [e]]"
    by (simp add: list_update_append)
  have "map (\<lambda>i. subs[?i := subs ! ?i @ [e]] ! i @ filter (\<lambda>e. split_index h st e = i) g) [0..<c] =
      map (\<lambda>i. subs ! i @ filter (\<lambda>e. split_index h st e = i) (e # g)) [0..<c]"
    using i Cons.prems by (auto simp: nth_list_update)
  with Cons.IH [of "subs[?i := subs ! ?i @ [e]]"] Cons.prems i assms(1) show ?case
    by (simp add: ok_simps nth_append upd Let_def)
qed

lemma threeWaySplit_eq:
  assumes "0 < num_groups_when_bch_fail st" "gid < length (groups st)" "gid < length (to_original_group_id st)"
  shows "(threeWaySplit h gid (st\<lparr>groups_bch_failed := groups_bch_failed st @ [gid]\<rparr>) :: 's failure + _) =
    Inr (split_failed h [gid] st)"
proof -
  let ?c = "num_groups_when_bch_fail st"
  have "resize (length (groups st) + ?c) [] (groups st) = groups st @ replicate ?c []"
    by (simp add: resize_grow)
  moreover have "split_index h (st\<lparr>groups_bch_failed := x\<rparr>) = split_index h st" for x
    by (simp add: split_index_def fun_eq_iff)
  moreover have "map (\<lambda>i. replicate ?c [] ! i @ filter (\<lambda>e. split_index h st e = i) g) [0..<?c] = split_group h st g" for g
    by (simp add: split_group_def)
  ultimately show ?thesis
    using assms split_fold [of ?c st "replicate ?c []" "groups st" h "groups st ! gid", where 's = 's]
    by (simp add: threeWaySplit_def Let_def ok_simps nth_append split_failed_def resize_grow)
qed

text \<open>Splitting reads the original groups only, so one group can be handled after the other.\<close>

lemma split_failed_snoc:
  assumes "\<forall>g \<in> set fs. g < length (groups st) \<and> g < length (to_original_group_id st)"
    "g < length (groups st)" "g < length (to_original_group_id st)"
  shows "split_failed h [g] (split_failed h fs st) = split_failed h (fs @ [g]) st"
proof -
  have "split_group h (split_failed h fs st) = split_group h st"
    by (simp add: split_failed_def split_group_def split_index_def Let_def fun_eq_iff)
  moreover have "groups (split_failed h fs st) ! g = groups st ! g"
    "to_original_group_id (split_failed h fs st) ! g = to_original_group_id st ! g"
    using assms by (simp_all add: split_failed_def Let_def nth_append)
  ultimately show ?thesis
    by (simp add: split_failed_def Let_def replicate_add [symmetric] algebra_simps)
qed

lemma split_failed_simps [simp]:
  "num_groups_when_bch_fail (split_failed h fs st) = num_groups_when_bch_fail st"
  "bch_n (split_failed h fs st) = bch_n st" "round_count (split_failed h fs st) = round_count st"
  "role (split_failed h fs st) = role st" "recovered (split_failed h fs st) = recovered st"
  "num_groups_remaining (split_failed h fs st) = num_groups_remaining st"
  "groups_exp_I_or_II (split_failed h fs st) = groups_exp_I_or_II st"
  "bin_of h' (split_failed h fs st) = bin_of h' st" "group_of h' (split_failed h fs st) = group_of h' st"
  "params_ok (split_failed h fs st) = params_ok st"
  by (simp_all add: split_failed_def Let_def bin_of_def group_of_def params_ok_def fun_eq_iff)

text \<open>The groups below \<open>i\<close> that failed, and those that were decoded.\<close>

definition failed :: "u64 list option list \<Rightarrow> nat \<Rightarrow> nat list" where
  "failed res i = filter (\<lambda>j. res ! j = None) [0..<i]"

definition decoded :: "u64 list option list \<Rightarrow> nat \<Rightarrow> nat list" where
  "decoded res i = filter (\<lambda>j. res ! j \<noteq> None) [0..<i]"

lemma failed_Suc: "failed res (Suc i) = failed res i @ (if res ! i = None then [i] else [])"
  and decoded_Suc: "decoded res (Suc i) = decoded res i @ (if res ! i = None then [] else [i])"
  and failed_0 [simp]: "failed res 0 = []" and decoded_0 [simp]: "decoded res 0 = []"
  by (simp_all add: failed_def decoded_def)

lemma failed_less: "g \<in> set (failed res i) \<Longrightarrow> g < i"
  and decoded_less: "g \<in> set (decoded res i) \<Longrightarrow> g < i"
  by (auto simp: failed_def decoded_def)

section \<open>Bob decodes\<close>

text \<open>The positions decoded in the first \<open>i\<close> groups; the XORs and checksums Bob answers with.\<close>

definition bids_upto :: "u64 list option list \<Rightarrow> nat \<Rightarrow> u64 list" where
  "bids_upto res i = concat (map res_elems (take i res))"

definition answer_xors :: "hash_fn \<Rightarrow> 'sk pbs_sketch \<Rightarrow> u64 list option list \<Rightarrow> nat \<Rightarrow> u64 list" where
  "answer_xors h st res i =
     concat (map (\<lambda>j. map (\<lambda>b. bin_xor h st (groups st ! j) (unat b)) (res_elems (res ! j))) [0..<i])"

definition answer_checksums :: "'sk pbs_sketch \<Rightarrow> u64 list option list \<Rightarrow> nat \<Rightarrow> u64 list" where
  "answer_checksums st res i = map (\<lambda>j. xor_list (groups st ! j)) (decoded res i)"

lemma bids_upto_Suc: "i < length res \<Longrightarrow> bids_upto res (Suc i) = bids_upto res i @ res_elems (res ! i)"
  by (simp add: bids_upto_def take_Suc_conv_app_nth)

lemma bids_upto_nth:
  assumes "i < length res" "k < length (res_elems (res ! i))"
  shows "length (bids_upto res i) + k < length (bids_upto res (length res))"
    "bids_upto res (length res) ! (length (bids_upto res i) + k) = res_elems (res ! i) ! k"
proof -
  have "bids_upto res (length res) = concat (map res_elems (take i res @ res ! i # drop (Suc i) res))"
    unfolding bids_upto_def by (simp flip: id_take_nth_drop [OF assms(1)])
  then have "bids_upto res (length res) = bids_upto res i @ res_elems (res ! i) @ concat (map res_elems (drop (Suc i) res))"
    by (simp add: bids_upto_def)
  then show "length (bids_upto res i) + k < length (bids_upto res (length res))"
    "bids_upto res (length res) ! (length (bids_upto res i) + k) = res_elems (res ! i) ! k"
    using assms(2) by (simp_all add: nth_append)
qed

text \<open>
  Every decoded position is one of the bins. The library promises this for sketches within their
  capacity; beyond it a false decoding could report the position \<open>2 ^ m - 1\<close>.
\<close>

definition bids_ok :: "nat \<Rightarrow> u64 list option list \<Rightarrow> bool" where
  "bids_ok n res \<longleftrightarrow> (\<forall>r \<in> set res. \<forall>b \<in> set (res_elems r). unat b < n)"

lemma collect_fold:
  assumes "\<And>k. k < n \<Longrightarrow> f k = (Inr (g k) :: 's failure + 'a)"
  shows "fold_ok (\<lambda>k acc. bind_ok (f k) (\<lambda>x. Inr (acc @ [x]))) [0..<n] acc = (Inr (acc @ map g [0..<n]) :: 's failure + _)"
proof -
  have "fold_ok (\<lambda>k acc. bind_ok (f k) (\<lambda>x. Inr (acc @ [x]))) [0..<k] acc = (Inr (acc @ map g [0..<k]) :: 's failure + _)"
    if "k \<le> n" for k
    using that by (induction k) (use assms in \<open>simp_all add: fold_ok_append\<close>)
  then show ?thesis by simp
qed

lemma decode_group_step:
  fixes st :: "'sk pbs_sketch"
  assumes shape: "length (groups st) = length res" "length (to_original_group_id st) = length res"
      "xors st = concat (map (bin_row h st) (groups st))" "checksums st = map xor_list (groups st)"
    and c: "0 < num_groups_when_bch_fail st" and bids: "bids_ok (bch_n st) res"
    and msg: "decoded_num_differences msg = map res_count res" "decoded_differences msg = bids_upto res (length res)"
    and i: "i < length res"
  shows "(decode_group h msg i (length (bids_upto res i), answer_xors h st res i, answer_checksums st res i,
      split_failed h (failed res i) st) :: 's failure + _) =
    Inr (length (bids_upto res (Suc i)), answer_xors h st res (Suc i), answer_checksums st res (Suc i),
      split_failed h (failed res (Suc i)) st)"
proof (cases "res ! i")
  case None
  have "(threeWaySplit h i ((split_failed h (failed res i) st)
      \<lparr>groups_bch_failed := groups_bch_failed (split_failed h (failed res i) st) @ [i]\<rparr>) :: 's failure + _) =
    Inr (split_failed h [i] (split_failed h (failed res i) st))"
    using c i shape by (intro threeWaySplit_eq) (auto simp: split_failed_def Let_def)
  also have "split_failed h [i] (split_failed h (failed res i) st) = split_failed h (failed res (Suc i)) st"
    using i shape None by (subst split_failed_snoc) (auto simp: failed_Suc dest!: failed_less)
  finally show ?thesis
    using None i msg(1)
    by (simp add: decode_group_def Let_def res_count_def bids_upto_Suc res_elems_def answer_xors_def
        answer_checksums_def decoded_Suc)
next
  case (Some bs)
  let ?st = "split_failed h (failed res i) st"
  have bs: "res_elems (res ! i) = bs" "res_count (res ! i) = int (length bs)"
    using Some by (simp_all add: res_elems_def res_count_def)
  have "xors ?st ! (i * bch_n st + unat (bs ! k)) = bin_xor h st (groups st ! i) (unat (bs ! k)) \<and>
      i * bch_n st + unat (bs ! k) < length (xors ?st)" if k: "k < length bs" for k
  proof -
    have "unat (bs ! k) < bch_n st"
      using bids nth_mem [OF i] k bs(1) by (auto simp: bids_ok_def)
    moreover from row_index [OF i this] have "i * bch_n st + unat (bs ! k) < length (concat (map (bin_row h st) (groups st)))"
      using shape(1) by (subst length_concat_rows [where n = "bch_n st"]) auto
    moreover have "concat (map (bin_row h st) (groups st)) ! (i * bch_n st + unat (bs ! k)) =
        map (bin_row h st) (groups st) ! i ! unat (bs ! k)"
      using i shape(1) \<open>unat (bs ! k) < bch_n st\<close> by (intro nth_concat_rows) auto
    ultimately show ?thesis
      using i shape by (simp add: split_failed_def Let_def nth_append bin_row_def)
  qed
  note x = this
  have "bind_ok (vec_get (decoded_differences msg) (length (bids_upto res i) + k)) (\<lambda>bid.
      vec_get (xors ?st) (i * bch_n st + unat bid)) = (Inr (bin_xor h st (groups st ! i) (unat (bs ! k))) :: 's failure + _)"
    if "k < length bs" for k
    using that x [OF that] bids_upto_nth [OF i, of k] bs(1) msg(2) by (simp add: ok_simps)
  note collect = collect_fold [OF this]
  have "map (\<lambda>k. bin_xor h st (groups st ! i) (unat (bs ! k))) [0..<length bs] =
      map (\<lambda>b. bin_xor h st (groups st ! i) (unat b)) bs"
    by (rule nth_equalityI) auto
  moreover have "(vec_get (checksums ?st) i :: 's failure + _) = Inr (xor_list (groups st ! i))"
    using i shape by (simp add: split_failed_def Let_def nth_append ok_simps)
  ultimately show ?thesis
    using i msg(1) bs Some collect [of "length bs" "\<lambda>k. k" "answer_xors h st res i"]
    by (simp add: decode_group_def Let_def bids_upto_Suc answer_xors_def answer_checksums_def decoded_Suc failed_Suc
        bind_ok_assoc)
qed

text \<open>The whole of \<open>decode\<close>, for whatever the sketches decode to.\<close>

definition decoding_of :: "'sk pbs_sketch \<Rightarrow> u64 list option list \<Rightarrow> decoding_message" where
  "decoding_of st res =
     \<lparr>dec_field_sz = of_nat (bch_m st), dec_capacity = of_nat (bch_t st), dec_num_groups = num_groups_remaining st,
      sizeof_each_d = of_nat (ceillog2 (bch_t st + 2)),
      decoding_failure_flag = UIntXMax (of_nat (ceillog2 (bch_t st + 2))),
      decoded_num_differences = map res_count res, decoded_differences = bids_upto res (length res)\<rparr>"

lemma PbsDecodingMessage_of:
  assumes "wire_ok api st"
  shows "(PbsDecodingMessage (of_nat (bch_m st)) (of_nat (bch_t st)) (num_groups_remaining st) :: 's failure + _) =
    Inr ((decoding_of st res)\<lparr>decoded_num_differences := replicate (num_groups_remaining st) 0,
      decoded_differences := replicate (num_groups_remaining st * bch_t st) 0\<rparr>)"
proof -
  have t: "bch_t st + 2 < 2 ^ 32" using assms by (auto simp: wire_ok_def)
  then have "unat (of_nat (bch_t st) + 2 :: u32) = bch_t st + 2"
    using unat_of_nat_u32 [OF t] by (simp add: add.commute)
  then show ?thesis
    using wire_okD(3) [OF assms] by (simp add: PbsDecodingMessage_def CeilLog2_def decoding_of_def)
qed

lemma decode_eq:
  fixes st :: "'sk pbs_sketch"
  assumes ok: "wire_ok api st" and fr: "fresh st" and role: "role st \<noteq> Alice"
    and c: "0 < num_groups_when_bch_fail st"
    and mine: "sketches (encoded_msg api h st) = map Some as"
    and other: "sketches other = map Some bs" "length bs = num_groups_remaining st"
    and res: "res = merge_decode api (bch_t st) as bs" and bids: "bids_ok (bch_n st) res"
  defines "N \<equiv> num_groups_remaining st"
  shows "\<exists>enc. decode api h other (encoded api h st) = Inr
    ((decoding_of st res, answer_xors h st res N, answer_checksums st res N),
     (split_failed h (failed res N) (encoded api h st))
       \<lparr>hint_max_range := N, role := Bob, pbs_encoding := Some enc,
        pbs_decoding := Some (decoding_of st res), round_count := round_count st + 1\<rparr>)"
proof -
  let ?e = "encoded api h st" and ?msg = "decoding_of st res"
  have gs: "length (groups st) = N" using fr by (simp add: fresh_def N_def)
  have len: "length as = N" using arg_cong [OF mine, of length] gs by (simp add: encoded_msg_def)
  then have lres: "length res = N" using other(2) res by (simp add: merge_decode_def N_def)
  have c: "ms_contract api (of_nat (bch_m st)) (bch_t st)" using wire_okD [OF ok] by simp
  have dec0: "(PbsDecodingMessage (of_nat (bch_m st)) (of_nat (bch_t st)) N :: 'sk pbs_sketch failure + _) =
      Inr (?msg\<lparr>decoded_num_differences := replicate N 0, decoded_differences := replicate (N * bch_t st) 0\<rparr>)"
    unfolding N_def by (rule PbsDecodingMessage_of [OF ok])
  let ?init = "?msg\<lparr>decoded_num_differences := replicate N 0, decoded_differences := replicate (N * bch_t st) 0\<rparr>"
  have cap: "unat (dec_capacity ?init) = bch_t st" using wire_okD(3) [OF ok] by (simp add: decoding_of_def)
  have set: "(setWith api ?init (map Some as) (map Some bs) :: 'sk pbs_sketch failure + _) =
      Inr (?msg, map Some (map2 (ms_merge api) as bs))"
  proof -
    have "(setWith api ?init (map Some as) (map Some bs) :: 'sk pbs_sketch failure + _) = Inr
      (?init\<lparr>decoded_num_differences := map res_count (merge_decode api (unat (dec_capacity ?init)) as bs),
         decoded_differences := concat (map res_elems (merge_decode api (unat (dec_capacity ?init)) as bs))\<rparr>,
       map Some (map2 (ms_merge api) as bs))"
      by (rule setWith_eq) (use len other(2) cap ms_decode_bound [OF c] in \<open>auto simp: N_def\<close>)
    moreover have "?init\<lparr>decoded_num_differences := map res_count res, decoded_differences := concat (map res_elems res)\<rparr> = ?msg"
      by (simp add: decoding_of_def bids_upto_def)
    ultimately show ?thesis unfolding cap res [symmetric] by metis
  qed
  let ?enc = "(encoded_msg api h st)\<lparr>sketches := map Some (map2 (ms_merge api) as bs)\<rparr>"
  let ?st1 = "?e\<lparr>hint_max_range := N, role := Bob, pbs_encoding := Some ?enc, pbs_decoding := Some ?msg\<rparr>"
  let ?P = "\<lambda>i x. x = (length (bids_upto res i), answer_xors h st res i, answer_checksums st res i,
      split_failed h (failed res i) ?st1)"
  have fns: "bin_row h ?st1 = bin_row h st" "answer_xors h ?st1 res = answer_xors h st res"
      "answer_checksums ?st1 res = answer_checksums st res"
    by (simp_all add: encoded_def bin_row_def bin_xor_def bin_of_def answer_xors_def answer_checksums_def fun_eq_iff)
  have "\<exists>x'. decode_group h ?msg i x = (Inr x' :: 'sk pbs_sketch failure + _) \<and> ?P (Suc i) x'" if "i < N" "?P i x" for i x
    using that decode_group_step [of ?st1 res h ?msg i, where 's = "'sk pbs_sketch"] gs lres fr bids
      \<open>0 < num_groups_when_bch_fail st\<close>
    unfolding fns by (simp add: encoded_def fresh_def N_def decoding_of_def)
  moreover have "?P 0 (0, [], [], ?st1)"
    by (simp add: bids_upto_def answer_xors_def answer_checksums_def)
  ultimately have "(fold_ok (decode_group h ?msg) [0..<N] (0, [], [], ?st1) :: 'sk pbs_sketch failure + _) =
      Inr (length (bids_upto res N), answer_xors h st res N, answer_checksums st res N, split_failed h (failed res N) ?st1)"
    using fold_ok_upt [of N ?P "decode_group h ?msg" "(0, [], [], ?st1)"] by blast
  moreover have "split_failed h (failed res N) ?st1 = (split_failed h (failed res N) ?e)
      \<lparr>hint_max_range := N, role := Bob, pbs_encoding := Some ?enc, pbs_decoding := Some ?msg\<rparr>"
    by (simp add: split_failed_def Let_def split_group_def split_index_def)
  moreover have "length (decoded_num_differences ?msg) = N" using lres by (simp add: decoding_of_def)
  moreover have "num_groups_remaining ?e = N" "bch_m ?e = bch_m st" "bch_t ?e = bch_t st" "role ?e = role st"
      "pbs_encoding ?e = Some (encoded_msg api h st)" "round_count ?e = round_count st"
    by (simp_all add: encoded_def N_def)
  ultimately show ?thesis
    using role dec0 set mine other(1) by (intro exI [of _ ?enc]) (simp add: decode_def Let_def)
qed

end
