(* ===== verification/Sketch_Recovery.thy ===== *)
theory Sketch_Recovery
  imports Sketch_Decoding
begin

text \<open>
  What \<open>decodeCheck\<close> computes: which elements Alice accepts in each group, which groups are
  carried to the next round, and the state she and Bob start the next round in.
\<close>

section \<open>One group\<close>

text \<open>
  The elements accepted from \<open>p\<close> reported bins: the candidate \<open>e k\<close> must hash into the reported
  bin \<open>b k\<close> and into the group the sub-group stems from.
\<close>

definition accepted :: "hash_fn \<Rightarrow> 'sk pbs_sketch \<Rightarrow> nat \<Rightarrow> nat \<Rightarrow> (nat \<Rightarrow> nat) \<Rightarrow> (nat \<Rightarrow> u64) \<Rightarrow> u64 list" where
  "accepted h st orig p b e =
     map e (filter (\<lambda>k. bin_of h st (e k) = b k \<and> group_of h st (e k) = orig) [0..<p])"

lemma check_fold:
  assumes p: "params_ok st" and gid: "gid < length (to_original_group_id st)"
    and msg: "\<And>k. k < p \<Longrightarrow> offset + k < length (decoded_differences msg) \<and> offset + k < length a_xor"
    and xr: "\<And>k. k < p \<Longrightarrow> bch_n st * gid + unat (decoded_differences msg ! (offset + k)) < length (xors st)"
  defines "e \<equiv> \<lambda>k. a_xor ! (offset + k) XOR xors st ! (bch_n st * gid + unat (decoded_differences msg ! (offset + k)))"
    and "b \<equiv> \<lambda>k. unat (decoded_differences msg ! (offset + k))"
  shows "(fold_ok (check_element h gid msg a_xor offset st) [0..<p] ([], c) :: 's failure + _) =
    Inr (accepted h st (to_original_group_id st ! gid) p b e,
      c XOR xor_list (accepted h st (to_original_group_id st ! gid) p b e))"
proof -
  have "(fold_ok (check_element h gid msg a_xor offset st) [0..<k] ([], c) :: 's failure + _) =
    Inr (accepted h st (to_original_group_id st ! gid) k b e,
      c XOR xor_list (accepted h st (to_original_group_id st ! gid) k b e))" if "k \<le> p" for k
    using that
  proof (induction k)
    case 0
    show ?case by (simp add: accepted_def)
  next
    case (Suc k)
    then have "(check_element h gid msg a_xor offset st k (rec, c') :: 's failure + _) =
        Inr (if bin_of h st (e k) = b k \<and> group_of h st (e k) = to_original_group_id st ! gid
             then (rec @ [e k], c' XOR e k) else (rec, c'))" for rec c'
      using p gid msg [of k] xr [of k]
      by (simp add: check_element_def ok_simps getGroupId_ok getBinId_ok Let_def e_def b_def)
    with Suc show ?case by (simp add: fold_ok_append accepted_def ac_simps)
  qed
  then show ?thesis by simp
qed

text \<open>
  The effect of checking one group: the accepted elements are recorded; when the checksum does
  not match, the group and the elements move to the end and the group is reported.
\<close>

definition cleared :: "'a list list \<Rightarrow> nat list \<Rightarrow> 'a list list" where
  "cleared gs ids = map (\<lambda>j. if j \<in> set ids then [] else gs ! j) [0..<length gs]"

lemma cleared_Nil [simp]: "cleared gs [] = gs"
  by (simp add: cleared_def map_nth)

lemma length_cleared [simp]: "length (cleared gs ids) = length gs"
  by (simp add: cleared_def)

lemma nth_cleared: "j < length gs \<Longrightarrow> j \<notin> set ids \<Longrightarrow> cleared gs ids ! j = gs ! j"
  by (simp add: cleared_def)

lemma cleared_update: "g < length gs \<Longrightarrow> (cleared gs ids)[g := []] = cleared gs (ids @ [g])"
  by (rule nth_equalityI) (auto simp: cleared_def nth_list_update)

lemma drop_cleared: "\<forall>j \<in> set ids. j < n \<Longrightarrow> drop n (cleared gs ids) = drop n gs"
  by (rule nth_equalityI) (auto simp: cleared_def)

definition after_checks ::
    "(nat \<Rightarrow> u64 list) \<Rightarrow> (nat \<Rightarrow> bool) \<Rightarrow> u64 list option list \<Rightarrow> nat \<Rightarrow> 'sk pbs_sketch \<Rightarrow> 'sk pbs_sketch" where
  "after_checks recs ok res i st =
     (let cs = filter (\<lambda>j. \<not> ok j) (decoded res i); r = unat (round_count st)
      in st\<lparr>recovered := (recovered st)[r := recovered st ! r @ concat (map recs (decoded res i))],
            groups := cleared (groups st) cs @ map (\<lambda>j. groups st ! j @ recs j) cs,
            to_original_group_id := to_original_group_id st @ map (\<lambda>j. to_original_group_id st ! j) cs,
            xors := xors st @ replicate (length cs * bch_n st) 0,
            checksums := checksums st @ replicate (length cs) 0,
            groups_exp_I_or_II := groups_exp_I_or_II st @ cs\<rparr>)"

lemma after_checks_simps [simp]:
  "num_groups_remaining (after_checks recs ok res i st) = num_groups_remaining st"
  "bch_n (after_checks recs ok res i st) = bch_n st" "role (after_checks recs ok res i st) = role st"
  "round_count (after_checks recs ok res i st) = round_count st"
  "bin_of h (after_checks recs ok res i st) = bin_of h st" "group_of h (after_checks recs ok res i st) = group_of h st"
  "params_ok (after_checks recs ok res i st) = params_ok st"
  by (simp_all add: after_checks_def Let_def bin_of_def group_of_def params_ok_def fun_eq_iff)

lemma after_checks_0 [simp]: "after_checks recs ok res 0 st = st"
  by (cases "unat (round_count st) < length (recovered st)") (simp_all add: after_checks_def Let_def list_update_beyond)

lemma accepted_cong:
  "bin_of h st = bin_of h st' \<Longrightarrow> group_of h st = group_of h st' \<Longrightarrow>
   (\<And>k. k < p \<Longrightarrow> b k = b' k) \<Longrightarrow> (\<And>k. k < p \<Longrightarrow> e k = e' k) \<Longrightarrow>
   accepted h st orig p b e = accepted h st' orig p b' e'"
  by (auto simp: accepted_def intro!: arg_cong2 [where f = map] map_cong filter_cong)

section \<open>All groups\<close>

text \<open>
  The state \<open>st\<close> Alice encoded from, the decoding results, and the XORs and checksums received
  determine the elements accepted in each group and whether its checksum matches.
\<close>

definition recs_of :: "hash_fn \<Rightarrow> 'sk pbs_sketch \<Rightarrow> u64 list option list \<Rightarrow> u64 list \<Rightarrow> nat \<Rightarrow> u64 list" where
  "recs_of h st res in_xors j =
     accepted h st (to_original_group_id st ! j) (length (res_elems (res ! j)))
       (\<lambda>k. unat (res_elems (res ! j) ! k))
       (\<lambda>k. in_xors ! (length (bids_upto res j) + k) XOR
             bin_xor h st (groups st ! j) (unat (res_elems (res ! j) ! k)))"

definition ok_of :: "hash_fn \<Rightarrow> 'sk pbs_sketch \<Rightarrow> u64 list option list \<Rightarrow> u64 list \<Rightarrow> u64 list \<Rightarrow> nat \<Rightarrow> bool" where
  "ok_of h st res in_xors in_checksums j \<longleftrightarrow>
     in_checksums ! length (decoded res j) = xor_list (groups st ! j) XOR xor_list (recs_of h st res in_xors j)"

text \<open>The encoded state, with what was appended behind the groups of this round.\<close>

definition encoded_prefix :: "hash_fn \<Rightarrow> 'sk pbs_sketch \<Rightarrow> 'sk pbs_sketch \<Rightarrow> bool" where
  "encoded_prefix h st x \<longleftrightarrow>
     bch_n x = bch_n st \<and> bin_of h x = bin_of h st \<and> group_of h x = group_of h st \<and> params_ok x \<and>
     (\<exists>gs os zs cs. groups x = groups st @ gs \<and> to_original_group_id x = to_original_group_id st @ os \<and>
       xors x = concat (map (bin_row h st) (groups st)) @ zs \<and> checksums x = map xor_list (groups st) @ cs)"

lemma encoded_prefixD:
  assumes "encoded_prefix h st x" "length (to_original_group_id st) = length (groups st)" "i < length (groups st)"
  shows "i < length (groups x)" "groups x ! i = groups st ! i"
    "i < length (to_original_group_id x)" "to_original_group_id x ! i = to_original_group_id st ! i"
    "i < length (checksums x)" "checksums x ! i = xor_list (groups st ! i)"
    and "b < bch_n st \<Longrightarrow> bch_n st * i + b < length (xors x)"
    and "b < bch_n st \<Longrightarrow> xors x ! (bch_n st * i + b) = bin_xor h st (groups st ! i) b"
proof -
  let ?rows = "map (bin_row h st) (groups st)"
  have len: "length (concat ?rows) = length (groups st) * bch_n st"
    by (subst length_concat_rows [where n = "bch_n st"]) auto
  have row: "concat ?rows ! (i * bch_n st + b) = bin_xor h st (groups st ! i) b" if "b < bch_n st"
  proof -
    have "concat ?rows ! (i * bch_n st + b) = ?rows ! i ! b"
      using that assms(3) by (intro nth_concat_rows) auto
    with that assms(3) show ?thesis by (simp add: bin_row_def)
  qed
  show "b < bch_n st \<Longrightarrow> bch_n st * i + b < length (xors x)"
    and "b < bch_n st \<Longrightarrow> xors x ! (bch_n st * i + b) = bin_xor h st (groups st ! i) b"
    using assms(1) row row_index [OF assms(3), of b "bch_n st"] len
    by (auto simp: encoded_prefix_def nth_append mult.commute)
qed (use assms in \<open>auto simp: encoded_prefix_def nth_append\<close>)

text \<open>The state after the checks of \<open>i\<close> groups, taken one group further.\<close>

lemma after_checks_Suc:
  fixes x :: "'sk pbs_sketch" and recs :: "nat \<Rightarrow> u64 list" and ok :: "nat \<Rightarrow> bool"
  assumes len: "i < length (groups x)" "i < length (to_original_group_id x)" and r: "unat (round_count x) < length (recovered x)"
    and dec: "decoded res (Suc i) = decoded res i @ [i]"
  defines "y \<equiv> after_checks recs ok res i x"
  shows "after_checks recs ok res (Suc i) x =
    (let y1 = y\<lparr>recovered := (recovered y)[unat (round_count x) := recovered y ! unat (round_count x) @ recs i]\<rparr>
     in if ok i then y1
        else y1\<lparr>groups := (groups y)[i := []] @ [groups x ! i @ recs i],
          to_original_group_id := to_original_group_id y @ [to_original_group_id x ! i],
          xors := xors y @ replicate (bch_n y) 0, checksums := checksums y @ [0],
          groups_exp_I_or_II := groups_exp_I_or_II y @ [i]\<rparr>)"
proof (cases "ok i")
  case True
  then show ?thesis using r by (simp add: y_def after_checks_def Let_def dec)
next
  case False
  let ?cs = "filter (\<lambda>j. \<not> ok j) (decoded res i)" and ?r = "unat (round_count x)"
  have "(groups y)[i := []] @ [groups x ! i @ recs i] = cleared (groups x) (?cs @ [i]) @ map (\<lambda>j. groups x ! j @ recs j) (?cs @ [i])"
    using len by (simp add: y_def after_checks_def Let_def list_update_append cleared_update)
  moreover have "xors y @ replicate (bch_n y) 0 = xors x @ replicate (length (?cs @ [i]) * bch_n x) 0"
    by (simp add: y_def after_checks_def Let_def replicate_add [symmetric] add.commute)
  moreover have "checksums y @ [0] = checksums x @ replicate (length (?cs @ [i])) 0"
    by (simp add: y_def after_checks_def Let_def replicate_append_same)
  moreover have "(recovered y)[?r := recovered y ! ?r @ recs i] = (recovered x)[?r := recovered x ! ?r @ concat (map recs (decoded res (Suc i)))]"
    using r by (simp add: y_def after_checks_def Let_def dec)
  ultimately show ?thesis
    using False len by (simp add: y_def after_checks_def Let_def dec)
qed

lemma doDecodeCheck_eq:
  fixes x :: "'sk pbs_sketch" and in_checksums :: "u64 list"
  assumes x: "encoded_prefix h st x" "length (to_original_group_id st) = length (groups st)"
      "length res = length (groups st)" "unat (round_count x) < length (recovered x)"
    and bids: "bids_ok (bch_n st) res" and i: "i < length res" "res ! i = Some bs"
    and msg: "decoded_differences msg = bids_upto res (length res)"
    and inp: "length (bids_upto res (length res)) \<le> length in_xors"
  defines "recs \<equiv> recs_of h st res in_xors" and "ok \<equiv> ok_of h st res in_xors in_checksums"
  shows "(doDecodeCheck h i (length bs) msg in_xors (length (bids_upto res i)) (in_checksums ! length (decoded res i))
      (after_checks recs ok res i x) :: 's failure + _) = Inr (after_checks recs ok res (Suc i) x)"
proof -
  let ?y = "after_checks recs ok res i x" and ?off = "length (bids_upto res i)"
  let ?cs = "filter (\<lambda>j. \<not> ok j) (decoded res i)"
  have y: "encoded_prefix h st x" "i < length (groups st)" using x(1,3) i(1) by auto
  note e = encoded_prefixD [OF x(1,2) y(2)]
  have bs: "res_elems (res ! i) = bs" using i(2) by (simp add: res_elems_def)
  have bid: "?off + k < length (decoded_differences msg)" "decoded_differences msg ! (?off + k) = bs ! k"
      "?off + k < length in_xors" "unat (bs ! k) < bch_n st" if "k < length bs" for k
  proof -
    show "?off + k < length (decoded_differences msg)" "decoded_differences msg ! (?off + k) = bs ! k"
      "?off + k < length in_xors"
      using bids_upto_nth [OF i(1), of k] that bs msg inp by auto
    show "unat (bs ! k) < bch_n st" using bids nth_mem [OF i(1)] that bs by (auto simp: bids_ok_def)
  qed
  have n: "bch_n ?y = bch_n st" using x(1) by (simp add: encoded_prefix_def)
  have orig: "to_original_group_id ?y ! i = to_original_group_id st ! i" "i < length (to_original_group_id ?y)"
    using e by (simp_all add: after_checks_def Let_def nth_append)
  have xr: "bch_n st * i + b < length (xors ?y)" "xors ?y ! (bch_n st * i + b) = bin_xor h st (groups st ! i) b"
    if "b < bch_n st" for b
    using e(7,8) [OF that] by (simp_all add: after_checks_def Let_def nth_append)
  have "params_ok ?y" using x(1) by (simp add: encoded_prefix_def)
  note check = check_fold [OF this orig(2), of "length bs" ?off msg in_xors h "xor_list (groups st ! i)", where 's = 's,
      unfolded n orig(1)]
  have recs_i: "recs i = accepted h st (to_original_group_id st ! i) (length bs) (\<lambda>k. unat (bs ! k))
      (\<lambda>k. in_xors ! (?off + k) XOR bin_xor h st (groups st ! i) (unat (bs ! k)))"
    by (simp add: recs_def recs_of_def bs)
  have acc: "accepted h ?y (to_original_group_id st ! i) (length bs) (\<lambda>k. unat (decoded_differences msg ! (?off + k)))
      (\<lambda>k. in_xors ! (?off + k) XOR xors ?y ! (bch_n st * i + unat (decoded_differences msg ! (?off + k)))) = recs i"
    unfolding recs_i using x(1) bid xr by (intro accepted_cong) (auto simp: encoded_prefix_def)
  have fold: "(fold_ok (check_element h i msg in_xors ?off ?y) [0..<length bs] ([], xor_list (groups st ! i)) :: 's failure + _) =
      Inr (recs i, xor_list (groups st ! i) XOR xor_list (recs i))"
    using check unfolding acc using bid xr by simp
  have c: "vec_get (checksums ?y) i = (Inr (xor_list (groups st ! i)) :: 's failure + _)"
    using e by (simp add: after_checks_def Let_def nth_append ok_simps)
  have dec: "decoded res (Suc i) = decoded res i @ [i]" using i(2) by (simp add: decoded_Suc)
  have notin: "i \<notin> set ?cs" using decoded_less [of i res i] by auto
  have ok: "in_checksums ! length (decoded res i) = xor_list (groups st ! i) XOR xor_list (recs i) \<longleftrightarrow> ok i"
    by (simp add: ok_def ok_of_def recs_def)
  let ?r = "unat (round_count x)"
  let ?y1 = "?y\<lparr>recovered := (recovered ?y)[?r := recovered ?y ! ?r @ recs i]\<rparr>"
  have r: "?r < length (recovered ?y)" "round_count ?y = round_count x"
    using x(4) by (simp_all add: after_checks_def Let_def)
  have gi: "i < length (groups ?y)" "groups ?y ! i = groups st ! i"
    using e notin by (simp_all add: after_checks_def Let_def nth_append nth_cleared)
  let ?y2 = "?y1\<lparr>groups := (groups ?y)[i := []] @ [groups st ! i @ recs i],
      to_original_group_id := to_original_group_id ?y @ [to_original_group_id st ! i],
      xors := xors ?y @ replicate (bch_n ?y) 0, checksums := checksums ?y @ [0],
      groups_exp_I_or_II := groups_exp_I_or_II ?y @ [i]\<rparr>"
  have "(doDecodeCheck h i (length bs) msg in_xors ?off (in_checksums ! length (decoded res i)) ?y :: 's failure + _) =
      Inr (if ok i then ?y1 else ?y2)"
    using c fold r gi orig ok by (simp add: doDecodeCheck_def ok_simps Let_def resize_grow)
  also have "(if ok i then ?y1 else ?y2) = after_checks recs ok res (Suc i) x"
    using e by (simp add: after_checks_Suc [OF e(1,3) x(4) dec] Let_def)
  finally show ?thesis .
qed

section \<open>The start of the next round\<close>

text \<open>
  Both hosts drop the groups of the round and keep, in this order, the sub-groups of the failed
  groups \<open>fs\<close> and one group for every id in \<open>cs\<close>.
\<close>

definition next_round ::
    "hash_fn \<Rightarrow> nat list \<Rightarrow> nat list \<Rightarrow> u64 list list \<Rightarrow> 'sk pbs_sketch \<Rightarrow> 'sk pbs_sketch" where
  "next_round h fs cs moved st =
     (let c = num_groups_when_bch_fail st; K = length fs * c + length cs
      in st\<lparr>groups := concat (map (\<lambda>g. split_group h st (groups st ! g)) fs) @ moved,
            to_original_group_id := concat (map (\<lambda>g. replicate c (to_original_group_id st ! g)) fs) @
              map (\<lambda>j. to_original_group_id st ! j) cs,
            xors := replicate (K * bch_n st) 0, checksums := replicate K 0,
            num_groups_remaining := K, hint_max_range := num_groups_remaining st,
            round_count := round_count st + 1\<rparr>)"

lemma length_concat_const: "(\<And>x. x \<in> set xs \<Longrightarrow> length (f x) = c) \<Longrightarrow> length (concat (map f xs)) = length xs * c"
  by (induction xs) auto

lemma next_round_fresh: "length moved = length cs \<Longrightarrow> fresh (next_round h fs cs moved st)"
  by (simp add: fresh_def next_round_def Let_def length_concat_const)

lemma next_round_simps [simp]:
  "bch_m (next_round h fs cs moved st) = bch_m st" "bch_t (next_round h fs cs moved st) = bch_t st"
  "bch_n (next_round h fs cs moved st) = bch_n st" "num_groups (next_round h fs cs moved st) = num_groups st"
  "group_partition_seed (next_round h fs cs moved st) = group_partition_seed st"
  "parity_encoding_seed (next_round h fs cs moved st) = parity_encoding_seed st"
  "num_groups_when_bch_fail (next_round h fs cs moved st) = num_groups_when_bch_fail st"
  "round_count (next_round h fs cs moved st) = round_count st + 1"
  "recovered (next_round h fs cs moved st) = recovered st"
  "group_of h' (next_round h fs cs moved st) = group_of h' st"
  "params_ok (next_round h fs cs moved st) = params_ok st"
  by (simp_all add: next_round_def Let_def group_of_def params_ok_def fun_eq_iff)

text \<open>Dropping the groups of the round from a state that only appended behind them.\<close>

lemma removeCompletedGroups_eq:
  assumes "length (groups x) = num_groups_remaining x + K" "length (checksums x) = num_groups_remaining x + K"
    "length (to_original_group_id x) = num_groups_remaining x + K"
    "length (xors x) = (num_groups_remaining x + K) * bch_n x"
  shows "(removeCompletedGroups x :: 's failure + _) = Inr (x\<lparr>
      hint_max_range := (if role x = Alice then num_groups_remaining x else hint_max_range x),
      groups := drop (num_groups_remaining x) (groups x),
      xors := drop (num_groups_remaining x * bch_n x) (xors x),
      checksums := drop (num_groups_remaining x) (checksums x),
      to_original_group_id := drop (num_groups_remaining x) (to_original_group_id x),
      num_groups_remaining := K\<rparr>)"
proof -
  have "bch_n x * num_groups_remaining x \<le> (num_groups_remaining x + K) * bch_n x"
    by (simp add: mult.commute [of "bch_n x"])
  then show ?thesis
    using assms by (simp add: removeCompletedGroups_def Let_def mult.commute)
qed

section \<open>The whole of \<open>decodeCheck\<close>\<close>

lemma failed_loop:
  fixes st :: "'sk pbs_sketch"
  assumes "0 < num_groups_when_bch_fail st" "N \<le> length (groups st)" "N \<le> length (to_original_group_id st)"
    and "length res = N" "decoded_num_differences msg = map res_count res"
  shows "(fold_ok (failed_group h msg) [0..<N] (0, 0, st) :: 's failure + _) =
    Inr (length (bids_upto res N), length (decoded res N), split_failed h (failed res N) st)"
proof -
  let ?P = "\<lambda>i x. x = (length (bids_upto res i), length (decoded res i), split_failed h (failed res i) st)"
  have "\<exists>x'. (failed_group h msg i x :: 's failure + _) = Inr x' \<and> ?P (Suc i) x'" if i: "i < N" and P: "?P i x" for i x
  proof (cases "res ! i")
    case None
    have "(threeWaySplit h i ((split_failed h (failed res i) st)
        \<lparr>groups_bch_failed := groups_bch_failed (split_failed h (failed res i) st) @ [i]\<rparr>) :: 's failure + _) =
      Inr (split_failed h [i] (split_failed h (failed res i) st))"
      using assms i by (intro threeWaySplit_eq) (auto simp: split_failed_def Let_def)
    also have "split_failed h [i] (split_failed h (failed res i) st) = split_failed h (failed res (Suc i)) st"
      using i assms None by (subst split_failed_snoc) (auto simp: failed_Suc dest!: failed_less)
    finally show ?thesis
      using None i assms P
      by (simp add: failed_group_def ok_simps res_count_def bids_upto_Suc res_elems_def decoded_Suc)
  next
    case (Some bs)
    then show ?thesis
      using i assms P
      by (simp add: failed_group_def ok_simps res_count_def bids_upto_Suc res_elems_def decoded_Suc failed_Suc)
  qed
  then show ?thesis
    using fold_ok_upt [of N ?P "failed_group h msg :: _ \<Rightarrow> _ \<Rightarrow> 's failure + _" "(0, 0, st)"]
    by (simp add: bids_upto_def)
qed

lemma checked_loop:
  fixes x :: "'sk pbs_sketch"
  assumes x: "encoded_prefix h st x" "length (to_original_group_id st) = length (groups st)"
      "length res = length (groups st)" "unat (round_count x) < length (recovered x)"
    and bids: "bids_ok (bch_n st) res"
    and msg: "decoded_num_differences msg = map res_count res" "decoded_differences msg = bids_upto res (length res)"
    and inp: "length (bids_upto res (length res)) \<le> length in_xors"
      "length (decoded res (length res)) \<le> length in_checksums"
  defines "recs \<equiv> recs_of h st res in_xors" and "ok \<equiv> ok_of h st res in_xors in_checksums"
  shows "(fold_ok (checked_group h msg in_xors in_checksums) [0..<length res] (0, 0, x) :: 's failure + _) =
    Inr (length (bids_upto res (length res)), length (decoded res (length res)), after_checks recs ok res (length res) x)"
proof -
  let ?P = "\<lambda>i y. y = (length (bids_upto res i), length (decoded res i), after_checks recs ok res i x)"
  have mono: "length (decoded res i) \<le> length (decoded res (length res))" if "i \<le> length res" for i
  proof -
    have "[0..<length res] = [0..<i] @ [i..<length res]"
      using that by (metis le_add_diff_inverse plus_nat.add_0 upt_add_eq_append zero_le)
    then show ?thesis by (simp add: decoded_def)
  qed
  have "\<exists>y'. (checked_group h msg in_xors in_checksums i y :: 's failure + _) = Inr y' \<and> ?P (Suc i) y'"
    if i: "i < length res" and P: "?P i y" for i y
  proof (cases "res ! i")
    case None
    then show ?thesis
      using i P msg(1)
      by (simp add: checked_group_def ok_simps res_count_def bids_upto_Suc res_elems_def decoded_Suc after_checks_def)
  next
    case (Some bs)
    have "length (decoded res i) < length in_checksums"
      using mono [of "Suc i"] i Some inp(2) by (simp add: decoded_Suc)
    then show ?thesis
      using i P msg(1) Some doDecodeCheck_eq [OF x bids i Some msg(2) inp(1), where 's = 's, of in_checksums]
      by (simp add: checked_group_def ok_simps res_count_def bids_upto_Suc res_elems_def decoded_Suc recs_def ok_def)
  qed
  moreover have "?P 0 (0, 0, x)" by (simp add: bids_upto_def)
  ultimately show ?thesis
    using fold_ok_upt [of "length res" ?P "checked_group h msg in_xors in_checksums :: _ \<Rightarrow> _ \<Rightarrow> 's failure + _" "(0, 0, x)"]
    by blast
qed

definition carried :: "(nat \<Rightarrow> bool) \<Rightarrow> u64 list option list \<Rightarrow> nat list" where
  "carried ok res = filter (\<lambda>j. \<not> ok j) (decoded res (length res))"

lemma carried_less: "j \<in> set (carried ok res) \<Longrightarrow> j < length res"
  using decoded_less by (auto simp: carried_def)

lemma encoded_prefix_split:
  assumes "fresh st" "params_ok st"
  shows "encoded_prefix h st (split_failed h' fs (encoded api h st))"
  using assms by (auto simp: encoded_prefix_def split_failed_def Let_def encoded_def bin_of_def group_of_def
      params_ok_def fun_eq_iff)

text \<open>Alice's state after a round, from the state she encoded from.\<close>

definition alice_after ::
    "'sk minisketch_api \<Rightarrow> hash_fn \<Rightarrow> u64 list option list \<Rightarrow> u64 list \<Rightarrow> u64 list \<Rightarrow> 'sk pbs_sketch \<Rightarrow> 'sk pbs_sketch" where
  "alice_after api h res in_xors in_checksums st =
     (let recs = recs_of h st res in_xors; cs = carried (ok_of h st res in_xors in_checksums) res;
          fs = failed res (length res)
      in (next_round h fs cs (map (\<lambda>j. groups st ! j @ recs j) cs) (encoded api h st))
           \<lparr>role := Alice, recovered := recovered st @ [concat (map recs (decoded res (length res)))],
            groups_bch_failed := fs, groups_exp_I_or_II := cs\<rparr>)"

text \<open>Reading and clearing the groups of this round behind which others were appended.\<close>

lemma moved_groups:
  assumes "length gs = n" "\<forall>j\<in>set cs. j < n"
  shows "map (\<lambda>j. (gs @ gs') ! j @ f j) cs = map (\<lambda>j. gs ! j @ f j) cs" "drop n (cleared (gs @ gs') cs) = gs'"
    and "map ((!) (gs @ gs')) cs = map ((!) gs) cs"
proof -
  show "map (\<lambda>j. (gs @ gs') ! j @ f j) cs = map (\<lambda>j. gs ! j @ f j) cs" "map ((!) (gs @ gs')) cs = map ((!) gs) cs"
    using assms by (auto simp: nth_append)
  show "drop n (cleared (gs @ gs') cs) = gs'" using assms by (subst drop_cleared) auto
qed

lemma moved_ids: "length os = n \<Longrightarrow> \<forall>j\<in>set cs. j < n \<Longrightarrow> map ((!) (os @ os')) cs = map ((!) os) cs"
  by (auto simp: nth_append)

text \<open>What is left of Alice's state when the groups of this round are removed.\<close>

lemma removed_after_checks:
  fixes st :: "'sk pbs_sketch"
  assumes fr: "fresh st" and sync: "unat (round_count st) = length (recovered st)" and res: "length res = num_groups_remaining st"
  shows "(removeCompletedGroups (after_checks (recs_of h st res in_xors) (ok_of h st res in_xors in_checksums) res (num_groups_remaining st)
      (split_failed h (failed res (num_groups_remaining st))
        ((encoded api h st)\<lparr>groups_exp_I_or_II := [], role := Alice, recovered := recovered st @ [[]], groups_bch_failed := []\<rparr>)))
      :: 'sk pbs_sketch failure + _) =
    Inr ((alice_after api h res in_xors in_checksums st)\<lparr>round_count := round_count st\<rparr>)"
proof -
  let ?e = "encoded api h st" and ?N = "num_groups_remaining st"
  let ?fs = "failed res ?N" and ?recs = "recs_of h st res in_xors"
  let ?cs = "carried (ok_of h st res in_xors in_checksums) res"
  let ?one = "?e\<lparr>groups_exp_I_or_II := [], role := Alice, recovered := recovered st @ [[]], groups_bch_failed := []\<rparr>"
  let ?three = "after_checks ?recs (ok_of h st res in_xors in_checksums) res ?N (split_failed h ?fs ?one)"
  have gs: "length (groups st) = ?N" "length (to_original_group_id st) = ?N" using fr by (auto simp: fresh_def)
  let ?K = "length ?fs * num_groups_when_bch_fail st + length ?cs"
  have cs: "filter (\<lambda>j. \<not> ok_of h st res in_xors in_checksums j) (decoded res ?N) = ?cs"
    using res by (simp add: carried_def)
  have rows: "length (concat (map (bin_row h st) (groups st))) = ?N * bch_n st"
    using gs by (subst length_concat_rows [where n = "bch_n st"]) auto
  have r: "(removeCompletedGroups ?three :: 'sk pbs_sketch failure + _) = Inr (?three\<lparr>
      hint_max_range := (if role ?three = Alice then num_groups_remaining ?three else hint_max_range ?three),
      groups := drop (num_groups_remaining ?three) (groups ?three),
      xors := drop (num_groups_remaining ?three * bch_n ?three) (xors ?three),
      checksums := drop (num_groups_remaining ?three) (checksums ?three),
      to_original_group_id := drop (num_groups_remaining ?three) (to_original_group_id ?three),
      num_groups_remaining := ?K\<rparr>)"
  proof (rule removeCompletedGroups_eq)
    show "length (xors ?three) = (num_groups_remaining ?three + ?K) * bch_n ?three"
      using gs rows by (simp add: after_checks_def Let_def split_failed_def encoded_def cs algebra_simps)
  qed (use gs in \<open>simp_all add: after_checks_def Let_def split_failed_def encoded_def cs length_concat_const\<close>)
  have spl: "split_group h ?one = split_group h st" "split_group h ?e = split_group h st"
    by (simp_all add: split_group_def split_index_def encoded_def fun_eq_iff)
  have "j < ?N" if "j \<in> set ?cs" for j using carried_less [OF that] res by simp
  then have less: "\<forall>j\<in>set ?cs. j < ?N" by blast
  note moved = moved_groups(1) [OF gs(1) less] moved_ids [OF gs(2) less] and drop = moved_groups(2) [OF gs(1) less]
  have "groups ?three = cleared (groups st @ concat (map (\<lambda>g. split_group h st (groups st ! g)) ?fs)) ?cs @
      map (\<lambda>j. groups st ! j @ ?recs j) ?cs"
    using moved by (simp add: after_checks_def Let_def split_failed_def cs spl) (simp add: encoded_def)
  then have "drop ?N (groups ?three) = concat (map (\<lambda>g. split_group h st (groups st ! g)) ?fs) @ map (\<lambda>j. groups st ! j @ ?recs j) ?cs"
    using gs drop by simp
  moreover have "drop (?N * bch_n st) (xors ?three) = replicate (?K * bch_n st) 0"
    using rows by (simp add: after_checks_def Let_def split_failed_def encoded_def cs replicate_add [symmetric] algebra_simps)
  moreover have "drop ?N (checksums ?three) = replicate ?K 0"
    using gs by (simp add: after_checks_def Let_def split_failed_def encoded_def cs replicate_add [symmetric])
  moreover have "drop ?N (to_original_group_id ?three) =
      concat (map (\<lambda>g. replicate (num_groups_when_bch_fail st) (to_original_group_id st ! g)) ?fs) @
      map ((!) (to_original_group_id st)) ?cs"
    using gs moved(2) by (simp add: after_checks_def Let_def split_failed_def encoded_def cs)
  moreover have "recovered ?three = recovered st @ [concat (map ?recs (decoded res ?N))]"
    using sync by (simp add: after_checks_def Let_def split_failed_def encoded_def)
  ultimately show ?thesis
    using r gs res by (simp add: alice_after_def Let_def next_round_def spl cs)
      (simp add: after_checks_def Let_def split_failed_def encoded_def cs)
qed

lemma decodeCheck_eq:
  fixes st :: "'sk pbs_sketch"
  assumes p: "params_ok st" and fr: "fresh st" and role: "role st \<noteq> Bob"
    and c: "0 < num_groups_when_bch_fail st" and sync: "unat (round_count st) = length (recovered st)"
    and res: "length res = num_groups_remaining st" "bids_ok (bch_n st) res"
    and msg: "dec_num_groups msg = num_groups_remaining st" "decoded_num_differences msg = map res_count res"
      "decoded_differences msg = bids_upto res (length res)"
    and inp: "length (bids_upto res (length res)) \<le> length in_xors"
      "length (decoded res (length res)) \<le> length in_checksums"
  shows "decodeCheck h msg in_xors in_checksums ((encoded api h st)\<lparr>groups_exp_I_or_II := []\<rparr>) =
    Inr (num_groups_remaining (alice_after api h res in_xors in_checksums st) = 0,
      alice_after api h res in_xors in_checksums st)"
proof -
  let ?e = "encoded api h st" and ?N = "num_groups_remaining st"
  let ?fs = "failed res ?N" and ?recs = "recs_of h st res in_xors"
  let ?cs = "carried (ok_of h st res in_xors in_checksums) res"
  let ?one = "?e\<lparr>groups_exp_I_or_II := [], role := Alice, recovered := recovered st @ [[]], groups_bch_failed := []\<rparr>"
  let ?two = "split_failed h ?fs ?one"
  let ?three = "after_checks ?recs (ok_of h st res in_xors in_checksums) res ?N ?two"
  have gs: "length (groups st) = ?N" "length (to_original_group_id st) = ?N" using fr by (auto simp: fresh_def)
  have first: "(fold_ok (failed_group h msg) [0..<?N] (0, 0, ?one) :: 'sk pbs_sketch failure + _) =
      Inr (length (bids_upto res ?N), length (decoded res ?N), ?two)"
    by (rule failed_loop) (use c gs res msg in \<open>simp_all add: encoded_def\<close>)
  have pre: "encoded_prefix h st ?two"
    using encoded_prefix_split [OF fr p, of h h ?fs api]
    by (simp add: encoded_prefix_def split_failed_def Let_def encoded_def bin_of_def group_of_def params_ok_def
        split_group_def split_index_def fun_eq_iff)
  have two: "?two\<lparr>groups_exp_I_or_II := []\<rparr> = ?two" by (simp add: split_failed_def Let_def)
  have second: "(fold_ok (checked_group h msg in_xors in_checksums) [0..<?N] (0, 0, ?two) :: 'sk pbs_sketch failure + _) =
      Inr (length (bids_upto res ?N), length (decoded res ?N), ?three)"
    using checked_loop [OF pre, of res msg in_xors in_checksums, where 's = "'sk pbs_sketch"] gs res msg inp sync
    by (simp add: encoded_def)
  have final: "(removeCompletedGroups ?three :: 'sk pbs_sketch failure + _) =
      Inr ((alice_after api h res in_xors in_checksums st)\<lparr>round_count := round_count st\<rparr>)"
    by (rule removed_after_checks [OF fr sync res(1)])
  have "round_count (alice_after api h res in_xors in_checksums st) = round_count st + 1"
    by (simp add: alice_after_def Let_def next_round_def encoded_def)
  moreover have "role (?e\<lparr>groups_exp_I_or_II := []\<rparr>) \<noteq> Bob" using role by (simp add: encoded_def)
  moreover have "?e\<lparr>groups_exp_I_or_II := []\<rparr>\<lparr>role := Alice,
      recovered := recovered (?e\<lparr>groups_exp_I_or_II := []\<rparr>) @ [[]], groups_bch_failed := []\<rparr> = ?one"
    by (simp add: encoded_def)
  moreover have "\<not> (length in_xors < length (bids_upto res ?N) \<or> length in_checksums < length (decoded res ?N))"
    using inp res(1) by simp
  ultimately show ?thesis
    unfolding decodeCheck_def Let_def msg(1) by (simp only: if_False first bind_ok_Inr prod.case two second final) simp
qed

section \<open>Bob encodes the remaining groups\<close>

lemma move_groups_eq:
  assumes "distinct cs" "\<forall>j \<in> set cs. j < length (groups x) \<and> j < length (to_original_group_id x) \<and> j < 2 ^ 32"
  shows "fold_ok move_group (map of_nat cs) x = Inr (x\<lparr>groups := cleared (groups x) cs @ map ((!) (groups x)) cs,
    to_original_group_id := to_original_group_id x @ map ((!) (to_original_group_id x)) cs\<rparr>)"
  using assms
proof (induction cs rule: rev_induct)
  case (snoc j cs)
  then have "unat (of_nat j :: u32) = j" by (intro unat_of_nat_u32) simp
  with snoc show ?case
    by (simp add: fold_ok_append move_group_def ok_simps nth_append nth_cleared list_update_append cleared_update)
qed simp

text \<open>Bob's state after a round, before he encodes again.\<close>

definition bob_after ::
    "'sk minisketch_api \<Rightarrow> hash_fn \<Rightarrow> u64 list option list \<Rightarrow> nat list \<Rightarrow> 'sk pbs_sketch \<Rightarrow> 'sk pbs_sketch" where
  "bob_after api h res cs st =
     (next_round h (failed res (length res)) cs (map ((!) (groups st)) cs) (encoded api h st))
       \<lparr>role := Bob, pbs_decoding := Some (decoding_of st res), groups_bch_failed := []\<rparr>"

text \<open>Bob's state before the groups of the round are removed: the listed groups are moved behind those that were split.\<close>

definition bob_moved ::
    "'sk minisketch_api \<Rightarrow> hash_fn \<Rightarrow> u64 list option list \<Rightarrow> nat list \<Rightarrow> 'sk encoding_message option \<Rightarrow> 'sk pbs_sketch \<Rightarrow> 'sk pbs_sketch" where
  "bob_moved api h res cs enc st =
     (let db = (split_failed h (failed res (num_groups_remaining st)) (encoded api h st))
        \<lparr>hint_max_range := num_groups_remaining st, role := Bob, pbs_encoding := enc,
         pbs_decoding := Some (decoding_of st res), round_count := round_count st + 1\<rparr>
      in db\<lparr>xors := resize (length (xors db) + length cs * bch_n db) 0 (xors db),
            checksums := resize (length (checksums db) + length cs) 0 (checksums db),
            groups := cleared (groups db) cs @ map ((!) (groups db)) cs,
            to_original_group_id := to_original_group_id db @ map ((!) (to_original_group_id db)) cs,
            groups_bch_failed := []\<rparr>)"

lemma removed_before_hint:
  fixes st :: "'sk pbs_sketch"
  assumes fr: "fresh st" and res: "length res = num_groups_remaining st" and cs: "\<forall>j \<in> set cs. j < num_groups_remaining st"
  shows "(removeCompletedGroups (bob_moved api h res cs enc st) :: 'sk pbs_sketch failure + _) =
    Inr ((bob_after api h res cs st)\<lparr>pbs_encoding := enc\<rparr>)"
proof -
  let ?N = "num_groups_remaining st" and ?fs = "failed res (num_groups_remaining st)"
  let ?c = "num_groups_when_bch_fail st" and ?next = "bob_after api h res cs st"
  let ?K = "length ?fs * ?c + length cs"
  let ?three = "bob_moved api h res cs enc st"
  note unfolded = bob_moved_def split_failed_def Let_def encoded_def
  have gs: "length (groups st) = ?N" "length (to_original_group_id st) = ?N" using fr by (auto simp: fresh_def)
  have rows: "length (concat (map (bin_row h st) (groups st))) = ?N * bch_n st"
    using gs by (subst length_concat_rows [where n = "bch_n st"]) auto
  have spl: "split_group h (encoded api h st) = split_group h st"
    by (simp add: split_group_def split_index_def encoded_def fun_eq_iff)
  note moved = moved_groups(3) [OF gs(1) cs] moved_ids [OF gs(2) cs] and drop = moved_groups(2) [OF gs(1) cs]
  have r: "(removeCompletedGroups ?three :: 'sk pbs_sketch failure + _) = Inr (?three\<lparr>
      hint_max_range := (if role ?three = Alice then num_groups_remaining ?three else hint_max_range ?three),
      groups := drop (num_groups_remaining ?three) (groups ?three),
      xors := drop (num_groups_remaining ?three * bch_n ?three) (xors ?three),
      checksums := drop (num_groups_remaining ?three) (checksums ?three),
      to_original_group_id := drop (num_groups_remaining ?three) (to_original_group_id ?three),
      num_groups_remaining := ?K\<rparr>)"
  proof (rule removeCompletedGroups_eq)
    show "length (xors ?three) = (num_groups_remaining ?three + ?K) * bch_n ?three"
      using rows by (simp add: unfolded algebra_simps)
  qed (use gs in \<open>simp_all add: unfolded length_concat_const\<close>)
  have "groups ?three = cleared (groups st @ concat (map (\<lambda>g. split_group h st (groups st ! g)) ?fs)) cs @ map ((!) (groups st)) cs"
    using moved by (simp add: bob_moved_def split_failed_def Let_def spl) (simp add: encoded_def)
  then have "drop ?N (groups ?three) = concat (map (\<lambda>g. split_group h st (groups st ! g)) ?fs) @ map ((!) (groups st)) cs"
    using gs drop by simp
  moreover have "xors ?three = concat (map (bin_row h st) (groups st)) @
      replicate (length ?fs * ?c * bch_n st) 0 @ replicate (length cs * bch_n st) 0"
    by (simp add: bob_moved_def Let_def resize_grow) (simp add: split_failed_def Let_def encoded_def)
  then have "drop (?N * bch_n st) (xors ?three) = replicate (?K * bch_n st) 0"
    using rows by (simp add: replicate_add [symmetric] algebra_simps)
  moreover have "checksums ?three = map xor_list (groups st) @ replicate (length ?fs * ?c) 0 @ replicate (length cs) 0"
    by (simp add: bob_moved_def Let_def resize_grow) (simp add: split_failed_def Let_def encoded_def)
  then have "drop ?N (checksums ?three) = replicate ?K 0"
    using gs by (simp add: replicate_add [symmetric])
  moreover have "drop ?N (to_original_group_id ?three) =
      concat (map (\<lambda>g. replicate ?c (to_original_group_id st ! g)) ?fs) @ map ((!) (to_original_group_id st)) cs"
    using gs moved(2) by (simp add: unfolded)
  ultimately show ?thesis
    using r gs res by (simp add: bob_after_def Let_def next_round_def spl)
      (simp add: unfolded)
qed

lemma encodeWithHint_eq:
  fixes st :: "'sk pbs_sketch"
  assumes p: "params_ok st" and fr: "fresh st" and none: "groups_bch_failed st = []"
    and res: "length res = num_groups_remaining st" and N: "num_groups_remaining st \<le> 2 ^ 32"
    and cs: "distinct cs" "\<forall>j \<in> set cs. j < num_groups_remaining st"
    and small: "num_groups_remaining (bob_after api h res cs st) < 2 ^ 32"
    and sk: "ms_create api (of_nat (bch_m st)) 0 (unat (of_nat (bch_t st) :: u32)) = Some s0"
  shows "encodeWithHint api h (map of_nat cs) ((split_failed h (failed res (num_groups_remaining st)) (encoded api h st))
       \<lparr>hint_max_range := num_groups_remaining st, role := Bob, pbs_encoding := Some enc,
        pbs_decoding := Some (decoding_of st res), round_count := round_count st + 1\<rparr>) =
    Inr (encoded_msg api h (bob_after api h res cs st), encoded api h (bob_after api h res cs st))"
proof -
  let ?N = "num_groups_remaining st" and ?fs = "failed res (num_groups_remaining st)"
  let ?c = "num_groups_when_bch_fail st" and ?next = "bob_after api h res cs st"
  let ?db = "(split_failed h ?fs (encoded api h st))\<lparr>hint_max_range := ?N, role := Bob, pbs_encoding := Some enc,
        pbs_decoding := Some (decoding_of st res), round_count := round_count st + 1\<rparr>"
  let ?K = "length ?fs * ?c + length cs"
  let ?msg = "PbsEncodingMessage api (of_nat (bch_m st)) (of_nat (bch_t st)) (of_nat (length cs + length ?fs * ?c))"
  have gs: "length (groups st) = ?N" "length (to_original_group_id st) = ?N" using fr by (auto simp: fresh_def)
  let ?one = "?db\<lparr>pbs_encoding := Some ?msg,
      xors := resize (length (xors ?db) + length cs * bch_n ?db) 0 (xors ?db),
      checksums := resize (length (checksums ?db) + length cs) 0 (checksums ?db)\<rparr>"
  let ?two = "?one\<lparr>groups := cleared (groups ?one) cs @ map ((!) (groups ?one)) cs,
      to_original_group_id := to_original_group_id ?one @ map ((!) (to_original_group_id ?one)) cs\<rparr>"
  have "fold_ok move_group (map of_nat cs) ?one = Inr ?two"
    using cs gs N by (intro move_groups_eq) (auto simp: split_failed_def Let_def encoded_def)
  note move = this
  let ?three = "?two\<lparr>groups_bch_failed := []\<rparr>"
  have "?three = bob_moved api h res cs (Some ?msg) st" by (simp add: bob_moved_def Let_def)
  then have rem: "(removeCompletedGroups ?three :: 'sk pbs_sketch failure + _) = Inr (?next\<lparr>pbs_encoding := Some ?msg\<rparr>)"
    using removed_before_hint [OF fr res cs(2)] by simp
  have nx: "num_groups_remaining ?next = ?K" "bch_m ?next = bch_m st" "bch_t ?next = bch_t st"
    using res by (simp_all add: bob_after_def next_round_def Let_def encoded_def)
  let ?n' = "?next\<lparr>pbs_encoding := Some ?msg\<rparr>"
  have "fresh ?next" using next_round_fresh [of "map ((!) (groups st)) cs" cs h "failed res (length res)" "encoded api h st"]
    by (simp add: bob_after_def fresh_def)
  then have fresh: "fresh ?n'" by (simp add: fresh_def)
  have "params_ok ?next" using p by (simp add: bob_after_def next_round_def Let_def params_ok_def encoded_def)
  then have "params_ok ?n'" by (simp add: params_ok_def)
  from encode_groups_eq [OF this fresh, of api s0 ?msg h, where 's = "'sk pbs_sketch"] small sk nx
  have "(encode_groups api h ?msg ?n' :: 'sk pbs_sketch failure + _) = Inr (encoded_msg api h ?n', encoded api h ?n')"
    by (simp add: add.commute)
  then have enc: "(encode_groups api h ?msg ?n' :: 'sk pbs_sketch failure + _) = Inr (encoded_msg api h ?next, encoded api h ?next)"
    by simp
  have db: "role ?db = Bob" "length (groups_bch_failed ?db) = length ?fs" "num_groups_when_bch_fail ?db = ?c"
      "bch_m ?db = bch_m st" "bch_t ?db = bch_t st"
    using none by (simp_all add: split_failed_def Let_def encoded_def)
  show ?thesis
    unfolding encodeWithHint_def Let_def db length_map
    using move rem enc nx(1) by simp
qed

end
