(* ===== verification/Reconcile_Round.thy ===== *)
theory Reconcile_Round
  imports Sketch_Recovery
begin

text \<open>
  Alice and Bob together: one round of the protocol, the invariant that keeps the two hosts in
  step, the difference that is still to be recovered, and what a round does to it.
\<close>

section \<open>Parities of concatenations\<close>

lemma count_list_concat: "count_list (concat xss) x = sum_list (map (\<lambda>xs. count_list xs x) xss)"
  by (induction xss) simp_all

lemma sum_list_partition:
  "sum_list (map f xs) = sum_list (map f (filter P xs)) + (sum_list (map f (filter (\<lambda>x. \<not> P x) xs)) :: nat)"
  by (induction xs) auto

lemma even_sum_list: "(\<And>x. x \<in> set xs \<Longrightarrow> even (f x :: nat)) \<Longrightarrow> even (sum_list (map f xs))"
  by (induction xs) auto

lemma sum_list_map_upt: "length xs = n \<Longrightarrow> sum_list (map (\<lambda>j. f (xs ! j)) [0..<n]) = (sum_list (map f xs) :: nat)"
proof -
  assume "length xs = n"
  then have "map (\<lambda>j. f (xs ! j)) [0..<n] = map f xs" by (intro nth_equalityI) auto
  then show ?thesis by simp
qed

text \<open>The sub-groups of a group hold each of its elements exactly as often as the group.\<close>

lemma count_classes:
  assumes "\<And>e. e \<in> set g \<Longrightarrow> k e < n"
  shows "sum_list (map (\<lambda>i. count_list (filter (\<lambda>e. k e = i) g) x) [0..<n]) = count_list g x"
proof (cases "x \<in> set g")
  case True
  have "sum_list (map (\<lambda>i. if k x = i then count_list g x else 0) [0..<m]) = (if k x < m then count_list g x else 0)" for m
    by (induction m) auto
  with assms [OF True] show ?thesis by (simp add: count_list_filter)
next
  case False
  then show ?thesis by (auto simp: count_list_filter intro: sum_list_0)
qed

lemma count_split_group:
  "0 < num_groups_when_bch_fail st \<Longrightarrow> count_list (concat (split_group h st g)) x = count_list g x"
  by (simp add: count_list_concat split_group_def comp_def count_classes split_index_less)

section \<open>Two hosts in step\<close>

definition same_params :: "'sk pbs_sketch \<Rightarrow> 'sk pbs_sketch \<Rightarrow> bool" where
  "same_params sa sb \<longleftrightarrow>
     num_groups_when_bch_fail sa = num_groups_when_bch_fail sb \<and>
     group_partition_seed sa = group_partition_seed sb \<and> parity_encoding_seed sa = parity_encoding_seed sb \<and>
     bch_m sa = bch_m sb \<and> bch_n sa = bch_n sb \<and> bch_t sa = bch_t sb \<and> num_groups sa = num_groups sb \<and>
     num_groups_remaining sa = num_groups_remaining sb \<and> round_count sa = round_count sb \<and>
     to_original_group_id sa = to_original_group_id sb"

text \<open>
  Before a round: both states fresh and in step, roles not taken by the other side, as many
  result vectors as rounds, exceptions of the last round within the announced range.
\<close>

definition ready :: "'sk minisketch_api \<Rightarrow> 'sk pbs_sketch \<Rightarrow> 'sk pbs_sketch \<Rightarrow> bool" where
  "ready api sa sb \<longleftrightarrow> wire_ok api sa \<and> fresh sa \<and> fresh sb \<and> same_params sa sb \<and>
     role sa \<noteq> Bob \<and> role sb \<noteq> Alice \<and> 0 < num_groups_when_bch_fail sa \<and>
     unat (round_count sa) = length (recovered sa) \<and> groups_bch_failed sb = [] \<and>
     (\<forall>g \<in> set (groups_exp_I_or_II sa). g < hint_max_range sa) \<and> hint_max_range sa \<le> 2 ^ 32"

lemma same_fns:
  assumes "same_params sa sb"
  shows "bin_of h sb = bin_of h sa" "group_of h sb = group_of h sa" "bin_xor h sb = bin_xor h sa"
    "positions h sb = positions h sa" "odd_bins h sb = odd_bins h sa"
    "group_sketch api h sb = group_sketch api h sa" "split_group h sb = split_group h sa"
proof -
  show *: "bin_of h sb = bin_of h sa" "group_of h sb = group_of h sa"
    using assms by (simp_all add: same_params_def bin_of_def group_of_def fun_eq_iff)
  show "bin_xor h sb = bin_xor h sa" "odd_bins h sb = odd_bins h sa"
    unfolding bin_xor_def [abs_def] odd_bins_def [abs_def] * by simp_all
  then show **: "positions h sb = positions h sa" using assms by (simp add: positions_def same_params_def fun_eq_iff)
  show "group_sketch api h sb = group_sketch api h sa"
    using assms ** by (simp add: group_sketch_def same_params_def fun_eq_iff)
  show "split_group h sb = split_group h sa"
    using assms by (simp add: split_group_def split_index_def same_params_def fun_eq_iff)
qed

lemma wire_ok_same: "same_params sa sb \<Longrightarrow> wire_ok api sb = wire_ok api sa"
  by (simp add: same_params_def wire_ok_def params_ok_def)

text \<open>The decoding results of a round: every pair of sketches merged and decoded.\<close>

definition round_results ::
    "'sk minisketch_api \<Rightarrow> hash_fn \<Rightarrow> 'sk pbs_sketch \<Rightarrow> 'sk pbs_sketch \<Rightarrow> u64 list option list" where
  "round_results api h sa sb =
     merge_decode api (bch_t sb) (map (\<lambda>g. the (group_sketch api h sb g)) (groups sb))
       (map (\<lambda>g. the (group_sketch api h sa g)) (groups sa))"

text \<open>
  One round: Alice encodes, Bob (who has encoded already) decodes with her sketches, Alice
  recovers from his answer.
\<close>

definition round_trip ::
    "'sk minisketch_api \<Rightarrow> hash_fn \<Rightarrow> 'sk pbs_sketch \<Rightarrow> 'sk pbs_sketch \<Rightarrow>
     'sk pbs_sketch failure + (bool \<times> 'sk pbs_sketch \<times> 'sk pbs_sketch)" where
  "round_trip api h alice bob =
     bind_ok (encode api h alice) (\<lambda>((enc, hint), alice1).
     bind_ok (decode api h enc bob) (\<lambda>((dmsg, out_xors, out_checksums), bob1).
     bind_ok (decodeCheck h dmsg out_xors out_checksums alice1) (\<lambda>(completed, alice2).
       Inr (completed, alice2, bob1))))"

definition alice_next :: "'sk minisketch_api \<Rightarrow> hash_fn \<Rightarrow> 'sk pbs_sketch \<Rightarrow> 'sk pbs_sketch \<Rightarrow> 'sk pbs_sketch" where
  "alice_next api h sa sb =
     (let res = round_results api h sa sb; N = num_groups_remaining sb
      in alice_after api h res (answer_xors h sb res N) (answer_checksums sb res N) sa)"

definition bob_next :: "'sk minisketch_api \<Rightarrow> hash_fn \<Rightarrow> 'sk pbs_sketch \<Rightarrow> 'sk pbs_sketch \<Rightarrow> 'sk pbs_sketch" where
  "bob_next api h sa sb =
     bob_after api h (round_results api h sa sb) (groups_exp_I_or_II (alice_next api h sa sb)) sb"

lemma length_answers:
  "i \<le> length res \<Longrightarrow> length (answer_xors h st res i) = length (bids_upto res i)"
  "length (answer_checksums st res i) = length (decoded res i)"
proof -
  show "i \<le> length res \<Longrightarrow> length (answer_xors h st res i) = length (bids_upto res i)"
  proof (induction i)
    case 0
    show ?case by (simp add: answer_xors_def bids_upto_def)
  next
    case (Suc i)
    moreover have "answer_xors h st res (Suc i) =
        answer_xors h st res i @ map (\<lambda>b. bin_xor h st (groups st ! i) (unat b)) (res_elems (res ! i))"
      by (simp add: answer_xors_def)
    ultimately show ?case by (simp add: bids_upto_Suc)
  qed
qed (simp add: answer_checksums_def)

lemma group_sketch_Some:
  assumes "wire_ok api st"
  shows "\<exists>s. group_sketch api h st g = Some s"
  using sketch_of_Some [OF wire_okD(6) [OF assms]] wire_okD(3) [OF assms] by (simp add: group_sketch_def)

lemma round_results_length: "fresh sa \<Longrightarrow> fresh sb \<Longrightarrow> same_params sa sb \<Longrightarrow>
    length (round_results api h sa sb) = num_groups_remaining sa"
  by (simp add: round_results_def merge_decode_def fresh_def same_params_def)

lemma round_parts:
  assumes r: "ready api sa sb" and bids: "bids_ok (bch_n sa) (round_results api h sa sb)"
  defines "res \<equiv> round_results api h sa sb" and "N \<equiv> num_groups_remaining sa"
  shows "encode api h sa = Inr ((encoded_msg api h sa, encode_hint sa), (encoded api h sa)\<lparr>groups_exp_I_or_II := []\<rparr>)"
    and "\<exists>enc. decode api h (encoded_msg api h sa) (encoded api h sb) = Inr
    ((decoding_of sb res, answer_xors h sb res N, answer_checksums sb res N),
     (split_failed h (failed res N) (encoded api h sb))
       \<lparr>hint_max_range := N, role := Bob, pbs_encoding := Some enc,
        pbs_decoding := Some (decoding_of sb res), round_count := round_count sb + 1\<rparr>)"
    and "decodeCheck h (decoding_of sb res) (answer_xors h sb res N) (answer_checksums sb res N)
      ((encoded api h sa)\<lparr>groups_exp_I_or_II := []\<rparr>) =
    Inr (num_groups_remaining (alice_next api h sa sb) = 0, alice_next api h sa sb)"
proof -
  from r have r1: "wire_ok api sa" "fresh sa" "fresh sb" "same_params sa sb" "role sa \<noteq> Bob" "role sb \<noteq> Alice"
    "0 < num_groups_when_bch_fail sa" "unat (round_count sa) = length (recovered sa)"
    "\<forall>g \<in> set (groups_exp_I_or_II sa). g < hint_max_range sa" "hint_max_range sa \<le> 2 ^ 32"
    by (auto simp: ready_def)
  have okb: "wire_ok api sb" using wire_ok_same [OF r1(4)] r1(1) by simp
  note w = wire_okD [OF r1(1)]
  have sync: "num_groups_when_bch_fail sb = num_groups_when_bch_fail sa" "bch_n sb = bch_n sa"
      "num_groups_remaining sb = num_groups_remaining sa" using r1(4) by (simp_all add: same_params_def)
  have lres: "length res = N" using round_results_length [OF r1(2-4)] by (simp add: res_def N_def)
  obtain s0 where s0: "ms_create api (of_nat (bch_m sa)) 0 (unat (of_nat (bch_t sa) :: u32)) = Some s0"
    using ms_created [OF w(6)] w(3) by auto
  show "encode api h sa = Inr ((encoded_msg api h sa, encode_hint sa), (encoded api h sa)\<lparr>groups_exp_I_or_II := []\<rparr>)"
    by (rule encode_eq [OF w(1) r1(2) w(5) s0 r1(9,10)])
  have sk: "sketches (encoded_msg api h st) = map Some (map (\<lambda>g. the (group_sketch api h st g)) (groups st))"
    if "wire_ok api st" for st
    using group_sketch_Some [OF that] by (fastforce simp: encoded_msg_def)
  show "\<exists>enc. decode api h (encoded_msg api h sa) (encoded api h sb) = Inr
    ((decoding_of sb res, answer_xors h sb res N, answer_checksums sb res N),
     (split_failed h (failed res N) (encoded api h sb))
       \<lparr>hint_max_range := N, role := Bob, pbs_encoding := Some enc,
        pbs_decoding := Some (decoding_of sb res), round_count := round_count sb + 1\<rparr>)"
    unfolding N_def sync(3) [symmetric]
    by (rule decode_eq [OF okb r1(3,6) _ sk [OF okb] sk [OF r1(1)]])
      (use r1 sync bids in \<open>auto simp: res_def round_results_def fresh_def\<close>)
  show "decodeCheck h (decoding_of sb res) (answer_xors h sb res N) (answer_checksums sb res N)
      ((encoded api h sa)\<lparr>groups_exp_I_or_II := []\<rparr>) =
    Inr (num_groups_remaining (alice_next api h sa sb) = 0, alice_next api h sa sb)"
    unfolding alice_next_def Let_def res_def [symmetric] sync(3) N_def [symmetric]
    by (rule decodeCheck_eq [OF w(1) r1(2,5,7,8)])
      (use lres bids sync in \<open>auto simp: length_answers res_def [symmetric] N_def decoding_of_def\<close>)
qed

lemma round_trip_eq:
  assumes r: "ready api sa sb" and bids: "bids_ok (bch_n sa) (round_results api h sa sb)"
  defines "res \<equiv> round_results api h sa sb" and "N \<equiv> num_groups_remaining sa"
  shows "\<exists>enc. round_trip api h sa (encoded api h sb) =
    Inr (num_groups_remaining (alice_next api h sa sb) = 0, alice_next api h sa sb,
      (split_failed h (failed res N) (encoded api h sb))
       \<lparr>hint_max_range := N, role := Bob, pbs_encoding := Some enc,
        pbs_decoding := Some (decoding_of sb res), round_count := round_count sb + 1\<rparr>)"
  using round_parts [OF assms(1,2)] by (auto simp: round_trip_def res_def N_def)

text \<open>The hint Alice sends next names the carried groups; with it Bob re-encodes in step with her.\<close>

lemma alice_next_exp: "groups_exp_I_or_II (alice_next api h sa sb) =
    carried (ok_of h sa (round_results api h sa sb)
      (answer_xors h sb (round_results api h sa sb) (num_groups_remaining sb))
      (answer_checksums sb (round_results api h sa sb) (num_groups_remaining sb))) (round_results api h sa sb)"
  by (simp add: alice_next_def alice_after_def Let_def)

lemma distinct_carried: "distinct (carried ok res)"
  by (simp add: carried_def decoded_def)

lemma next_in_step:
  assumes r: "ready api sa sb"
  shows "same_params (alice_next api h sa sb) (bob_next api h sa sb)"
    and "fresh (alice_next api h sa sb)" "fresh (bob_next api h sa sb)"
proof -
  have s: "same_params sa sb" using r by (simp add: ready_def)
  have next_a: "alice_next api h sa sb = (next_round h (failed (round_results api h sa sb) (length (round_results api h sa sb)))
      (groups_exp_I_or_II (alice_next api h sa sb))
      (map (\<lambda>j. groups sa ! j @ recs_of h sa (round_results api h sa sb)
        (answer_xors h sb (round_results api h sa sb) (num_groups_remaining sb)) j) (groups_exp_I_or_II (alice_next api h sa sb)))
      (encoded api h sa))\<lparr>role := Alice, recovered := recovered (alice_next api h sa sb),
      groups_bch_failed := groups_bch_failed (alice_next api h sa sb),
      groups_exp_I_or_II := groups_exp_I_or_II (alice_next api h sa sb)\<rparr>"
    by (simp add: alice_next_def alice_after_def Let_def)
  have "fresh (x\<lparr>role := r, recovered := rc, groups_bch_failed := f, groups_exp_I_or_II := e\<rparr>) = fresh x" for x :: "'a pbs_sketch" and r rc f e
    by (simp add: fresh_def)
  then show "fresh (alice_next api h sa sb)"
    by (subst next_a) (simp add: next_round_fresh)
  have "fresh (x\<lparr>role := r, pbs_decoding := rc, groups_bch_failed := f\<rparr>) = fresh x" for x :: "'a pbs_sketch" and r rc f
    by (simp add: fresh_def)
  then show "fresh (bob_next api h sa sb)"
    by (simp add: bob_next_def bob_after_def next_round_fresh)
  show "same_params (alice_next api h sa sb) (bob_next api h sa sb)"
    using s by (subst next_a) (simp add: same_params_def bob_next_def bob_after_def next_round_def Let_def encoded_def)
qed

lemma next_ready:
  assumes r: "ready api sa sb" and w: "wire_ok api (alice_next api h sa sb)"
    and wrap: "unat (round_count sa) + 1 < 2 ^ 32"
  shows "ready api (alice_next api h sa sb) (bob_next api h sa sb)"
proof -
  note n = next_in_step [OF r, of h]
  have N: "num_groups_remaining sa \<le> 2 ^ 32" using r by (auto simp: ready_def wire_ok_def)
  have lres: "length (round_results api h sa sb) = num_groups_remaining sa"
    using r round_results_length by (auto simp: ready_def)
  have "unat (round_count sa + 1) = unat (round_count sa) + 1"
    using wrap by (simp add: unat_word_ariths)
  moreover have "round_count (alice_next api h sa sb) = round_count sa + 1"
    "length (recovered (alice_next api h sa sb)) = length (recovered sa) + 1"
    "num_groups_when_bch_fail (alice_next api h sa sb) = num_groups_when_bch_fail sa"
    "role (alice_next api h sa sb) = Alice" "hint_max_range (alice_next api h sa sb) = num_groups_remaining sa"
    by (simp_all add: alice_next_def alice_after_def Let_def next_round_def encoded_def)
  moreover have "role (bob_next api h sa sb) = Bob" "groups_bch_failed (bob_next api h sa sb) = []"
    by (simp_all add: bob_next_def bob_after_def)
  moreover have "\<forall>g \<in> set (groups_exp_I_or_II (alice_next api h sa sb)). g < num_groups_remaining sa"
    unfolding alice_next_exp using carried_less lres by fastforce
  ultimately show ?thesis using n w r N by (simp add: ready_def)
qed

lemma bob_re_encodes:
  assumes r: "ready api sa sb" and w: "wire_ok api (alice_next api h sa sb)"
  defines "res \<equiv> round_results api h sa sb" and "N \<equiv> num_groups_remaining sa"
    and "ids \<equiv> groups_exp_I_or_II (alice_next api h sa sb)"
  shows "encodeWithHint api h (map of_nat ids) ((split_failed h (failed res N) (encoded api h sb))
       \<lparr>hint_max_range := N, role := Bob, pbs_encoding := Some enc,
        pbs_decoding := Some (decoding_of sb res), round_count := round_count sb + 1\<rparr>) =
    Inr (encoded_msg api h (bob_next api h sa sb), encoded api h (bob_next api h sa sb))"
proof -
  from r have r1: "wire_ok api sa" "fresh sa" "fresh sb" "same_params sa sb" "groups_bch_failed sb = []"
    by (auto simp: ready_def)
  have okb: "wire_ok api sb" using wire_ok_same [OF r1(4)] r1(1) by simp
  note w = wire_okD [OF okb] wire_okD [OF w]
  have N: "N = num_groups_remaining sb" using r1(4) by (simp add: N_def same_params_def)
  have lres: "length res = N" using round_results_length [OF r1(2-4)] by (simp add: res_def N_def)
  obtain s0 where s0: "ms_create api (of_nat (bch_m sb)) 0 (unat (of_nat (bch_t sb) :: u32)) = Some s0"
    using ms_created [OF w(6)] w(3) by auto
  have "num_groups_remaining (bob_next api h sa sb) < 2 ^ 32"
    using next_in_step(1) [OF r, of h] w by (simp add: same_params_def)
  then have small: "num_groups_remaining (bob_after api h res ids sb) < 2 ^ 32"
    by (simp add: bob_next_def res_def ids_def)
  have ids: "distinct ids" "\<forall>j \<in> set ids. j < num_groups_remaining sb"
    using lres N unfolding ids_def alice_next_exp res_def by (auto simp: distinct_carried dest!: carried_less)
  show ?thesis
    unfolding bob_next_def res_def [symmetric] ids_def [symmetric] N
    by (rule encodeWithHint_eq [OF w(1) r1(3,5) _ _ ids small s0]) (use lres N w(5) in auto)
qed

section \<open>The difference still to be recovered\<close>

definition parity :: "'sk pbs_sketch \<Rightarrow> 'sk pbs_sketch \<Rightarrow> u64 \<Rightarrow> nat" where
  "parity sa sb x = count_list (concat (groups sa)) x + count_list (concat (groups sb)) x +
     count_list (concat (recovered sa)) x"

text \<open>
  The elements in an odd number of places: in the groups of one host but not of the other, with
  what was recovered so far taken out.
\<close>

definition outstanding :: "'sk pbs_sketch \<Rightarrow> 'sk pbs_sketch \<Rightarrow> u64 set" where
  "outstanding sa sb = odd_set (concat (groups sa) @ concat (groups sb) @ concat (recovered sa))"

lemma in_outstanding: "x \<in> outstanding sa sb \<longleftrightarrow> odd (parity sa sb x)"
  by (simp add: outstanding_def in_odd_set parity_def add.assoc)

text \<open>What Alice accepts in group \<open>j\<close> of a round, and whether its checksum then matches.\<close>

definition round_recs :: "'sk minisketch_api \<Rightarrow> hash_fn \<Rightarrow> 'sk pbs_sketch \<Rightarrow> 'sk pbs_sketch \<Rightarrow> nat \<Rightarrow> u64 list" where
  "round_recs api h sa sb =
     recs_of h sa (round_results api h sa sb) (answer_xors h sb (round_results api h sa sb) (num_groups_remaining sb))"

definition round_ok :: "'sk minisketch_api \<Rightarrow> hash_fn \<Rightarrow> 'sk pbs_sketch \<Rightarrow> 'sk pbs_sketch \<Rightarrow> nat \<Rightarrow> bool" where
  "round_ok api h sa sb j \<longleftrightarrow> xor_list (groups sa ! j @ round_recs api h sa sb j @ groups sb ! j) = 0"

text \<open>
  No checksum collision in this round: a group whose checksum matches is reconciled.
\<close>

definition no_collision :: "'sk minisketch_api \<Rightarrow> hash_fn \<Rightarrow> 'sk pbs_sketch \<Rightarrow> 'sk pbs_sketch \<Rightarrow> bool" where
  "no_collision api h sa sb \<longleftrightarrow>
     (\<forall>j < num_groups_remaining sa. round_results api h sa sb ! j \<noteq> None \<longrightarrow> round_ok api h sa sb j \<longrightarrow>
        odd_set (groups sa ! j @ round_recs api h sa sb j @ groups sb ! j) = {})"

lemma answer_xors_nth:
  assumes j: "j < length res" "k < length (res_elems (res ! j))"
  shows "answer_xors h st res (length res) ! (length (bids_upto res j) + k) =
    bin_xor h st (groups st ! j) (unat (res_elems (res ! j) ! k))"
proof -
  have step: "answer_xors h st res (Suc i) =
      answer_xors h st res i @ map (\<lambda>b. bin_xor h st (groups st ! i) (unat b)) (res_elems (res ! i))" for i
    by (simp add: answer_xors_def)
  have "answer_xors h st res (Suc j + d) ! (length (bids_upto res j) + k) =
      bin_xor h st (groups st ! j) (unat (res_elems (res ! j) ! k)) \<and>
      length (bids_upto res j) + k < length (answer_xors h st res (Suc j + d))" for d
  proof (induction d)
    case 0
    show ?case using j length_answers(1) [of j res h st] by (simp add: step nth_append)
  next
    case (Suc d)
    then show ?case using step [of "Suc j + d"] by (simp add: nth_append)
  qed
  moreover have "Suc j + (length res - Suc j) = length res" using j(1) by simp
  ultimately show ?thesis by metis
qed

lemma decoded_nth:
  assumes "j < n" "res ! j \<noteq> None"
  shows "length (decoded res j) < length (decoded res n)" "decoded res n ! length (decoded res j) = j"
proof -
  have "[0..<n] = [0..<j] @ [j] @ [Suc j..<n]"
    using assms(1) by (metis append_Cons append_Nil le_add_diff_inverse less_imp_le_nat upt_add_eq_append upt_rec zero_le add_0)
  then have "decoded res n = decoded res j @ [j] @ filter (\<lambda>j. res ! j \<noteq> None) [Suc j..<n]"
    using assms(2) by (simp add: decoded_def)
  then show "length (decoded res j) < length (decoded res n)" "decoded res n ! length (decoded res j) = j"
    by simp_all
qed

lemma ok_of_answers:
  assumes "j < length res" "res ! j \<noteq> None"
  shows "ok_of h sa res ax (answer_checksums sb res (length res)) j \<longleftrightarrow>
    xor_list (groups sa ! j @ recs_of h sa res ax j @ groups sb ! j) = 0"
proof -
  have "answer_checksums sb res (length res) ! length (decoded res j) = xor_list (groups sb ! j)"
    using decoded_nth [OF assms] by (simp add: answer_checksums_def)
  moreover have "c = a XOR b \<longleftrightarrow> a XOR (b XOR c) = 0" for a b c :: u64
    using xor_zero_iff [of "a XOR b" c] by (auto simp: xor.assoc)
  ultimately show ?thesis by (simp add: ok_of_def)
qed

lemma carried_exp:
  assumes "ready api sa sb"
  shows "groups_exp_I_or_II (alice_next api h sa sb) =
    filter (\<lambda>j. \<not> round_ok api h sa sb j) (decoded (round_results api h sa sb) (num_groups_remaining sa))"
proof -
  let ?res = "round_results api h sa sb"
  have N: "length ?res = num_groups_remaining sa" "num_groups_remaining sb = num_groups_remaining sa"
    using assms round_results_length [of sa sb api h] by (simp_all add: ready_def) (simp add: same_params_def)
  show ?thesis
    unfolding alice_next_exp carried_def N
    by (rule filter_cong [OF refl])
      (use N in \<open>auto simp: decoded_def round_ok_def round_recs_def ok_of_answers [of _ ?res, unfolded N]\<close>)
qed

lemma count_map_concat: "count_list (concat (map f xs)) x = sum_list (map (\<lambda>j. count_list (f j) x) xs)"
  by (simp add: count_list_concat comp_def)

lemma parity_next:
  fixes api :: "'sk minisketch_api"
  assumes r: "ready api sa sb" and nc: "no_collision api h sa sb"
  shows "even (parity (alice_next api h sa sb) (bob_next api h sa sb) x) = even (parity sa sb x)"
proof -
  let ?res = "round_results api h sa sb" and ?N = "num_groups_remaining sa" and ?R = "round_recs api h sa sb"
  let ?fs = "failed ?res ?N" and ?dec = "decoded ?res ?N"
  let ?cs = "filter (\<lambda>j. \<not> round_ok api h sa sb j) ?dec" and ?ds = "filter (\<lambda>j. round_ok api h sa sb j) ?dec"
  let ?a = "\<lambda>j. count_list (groups sa ! j) x" and ?b = "\<lambda>j. count_list (groups sb ! j) x"
  let ?r = "\<lambda>j. count_list (?R j) x"
  have s: "fresh sa" "fresh sb" "same_params sa sb" "0 < num_groups_when_bch_fail sa" using r by (auto simp: ready_def)
  have N: "length ?res = ?N" "num_groups_remaining sb = ?N" "length (groups sa) = ?N" "length (groups sb) = ?N"
    using round_results_length [OF s(1-3)] s by (auto simp: same_params_def fresh_def)
  note exp = carried_exp [OF r, of h]
  have exp': "carried (ok_of h sa ?res (answer_xors h sb ?res ?N) (answer_checksums sb ?res ?N)) ?res = ?cs"
    using exp unfolding alice_next_exp N .
  have "groups (alice_next api h sa sb) = concat (map (\<lambda>g. split_group h (encoded api h sa) (groups sa ! g)) ?fs) @
      map (\<lambda>j. groups sa ! j @ ?R j) ?cs"
    unfolding alice_next_def Let_def N alice_after_def exp'
    by (simp add: next_round_def Let_def round_recs_def N) (simp add: encoded_def)
  moreover have "groups (bob_next api h sa sb) = concat (map (\<lambda>g. split_group h (encoded api h sb) (groups sb ! g)) ?fs) @
      map ((!) (groups sb)) ?cs"
    unfolding bob_next_def bob_after_def exp N by (simp add: next_round_def Let_def) (simp add: encoded_def)
  moreover have "recovered (alice_next api h sa sb) = recovered sa @ [concat (map ?R ?dec)]"
    unfolding alice_next_def Let_def N alice_after_def by (simp add: round_recs_def N)
  moreover have "count_list (concat (concat (map (\<lambda>g. split_group h (encoded api h st) (groups st ! g)) fs))) x =
      sum_list (map (\<lambda>j. count_list (groups st ! j) x) fs)" if "0 < num_groups_when_bch_fail st" for st :: "'sk pbs_sketch" and fs
    using that count_split_group [of "encoded api h st" h]
    by (induction fs) (simp_all add: encoded_def)
  ultimately have new: "parity (alice_next api h sa sb) (bob_next api h sa sb) x =
      sum_list (map ?a ?fs) + sum_list (map ?b ?fs) + sum_list (map ?a ?cs) + sum_list (map ?r ?cs) +
      sum_list (map ?b ?cs) + count_list (concat (recovered sa)) x + sum_list (map ?r ?dec)"
    using s(3,4) by (simp add: parity_def count_map_concat sum_list_addf same_params_def comp_def)
  have part: "sum_list (map f [0..<?N]) = sum_list (map f ?fs) + sum_list (map f ?cs) + sum_list (map f ?ds)" for f :: "nat \<Rightarrow> nat"
    using sum_list_partition [of f "[0..<?N]" "\<lambda>j. ?res ! j = None"] sum_list_partition [of f ?dec "round_ok api h sa sb"]
    by (simp add: failed_def decoded_def)
  have dec: "sum_list (map ?r ?dec) = sum_list (map ?r ?cs) + sum_list (map ?r ?ds)"
    using sum_list_partition [of ?r ?dec "round_ok api h sa sb"] by simp
  have old: "parity sa sb x = sum_list (map ?a [0..<?N]) + sum_list (map ?b [0..<?N]) + count_list (concat (recovered sa)) x"
    using sum_list_map_upt [OF N(3), of "\<lambda>g. count_list g x"] sum_list_map_upt [OF N(4), of "\<lambda>g. count_list g x"]
    by (simp add: parity_def count_list_concat)
  have "even (sum_list (map (\<lambda>j. ?a j + ?r j + ?b j) ?ds))"
  proof (rule even_sum_list)
    fix j assume j: "j \<in> set ?ds"
    then have "odd_set (groups sa ! j @ ?R j @ groups sb ! j) = {}"
      using nc by (auto simp: no_collision_def decoded_def)
    then have "x \<notin> odd_set (groups sa ! j @ ?R j @ groups sb ! j)" by blast
    then show "even (?a j + ?r j + ?b j)" by (auto simp: in_odd_set)
  qed
  then have "even (sum_list (map ?a ?ds) + sum_list (map ?r ?ds) + sum_list (map ?b ?ds))"
    by (simp add: sum_list_addf)
  then show ?thesis unfolding new old part dec by presburger
qed

theorem outstanding_next:
  assumes "ready api sa sb" "no_collision api h sa sb"
  shows "outstanding (alice_next api h sa sb) (bob_next api h sa sb) = outstanding sa sb"
  using parity_next [OF assms] by (auto simp: in_outstanding)

end
