(* ===== verification/Reconcile_Session.thy ===== *)
theory Reconcile_Session
  imports Reconcile_Round
begin

text \<open>
  The protocol from the two sets to the result: what the sketches decode to when the capacity
  suffices, the round that completes at once, sessions of several rounds, and the states the
  constructor and \<open>add\<close> build.
\<close>

section \<open>Decoding within the capacity\<close>

lemma odd_bins_range:
  assumes "params_ok st" "k \<in> odd_bins h st g"
  shows "0 < k" "k < bch_n st"
proof -
  have "k \<in> bin_of h st ` set g" using assms(2) odd_set_subset unfolding odd_bins_def by fastforce
  then show "0 < k" "k < bch_n st" using bin_of_range [OF assms(1), of h] by auto
qed

lemma set_positions: "params_ok st \<Longrightarrow> set (positions h st g) = of_nat ` odd_bins h st g"
  using odd_bins_range [of st _ h g] by (auto simp: positions_def)

lemma of_nat_inj_bins: "params_ok st \<Longrightarrow> inj_on (of_nat :: nat \<Rightarrow> u64) {k. k < bch_n st}"
proof (rule inj_onI)
  fix i j assume p: "params_ok st" and "i \<in> {k. k < bch_n st}" "j \<in> {k. k < bch_n st}" and eq: "(of_nat i :: u64) = of_nat j"
  then have "i < 2 ^ 64" "j < 2 ^ 64" using params_ok_n(2) [OF p] by auto
  then show "i = j" using eq unat_of_nat_u64 by metis
qed

lemma distinct_positions: "params_ok st \<Longrightarrow> distinct (positions h st g)"
  unfolding positions_def distinct_map
  by (auto intro: inj_on_subset [OF of_nat_inj_bins])

lemma odd_bins_append: "odd_bins h st (g @ g') = sym_diff (odd_bins h st g) (odd_bins h st g')"
  by (simp add: odd_bins_def odd_set_append)

lemma sketch_elems_positions:
  assumes "params_ok st"
  shows "sketch_elems (bch_m st) (positions h st g @ positions h st g') = of_nat ` odd_bins h st (g @ g')"
proof -
  have n: "bch_n st = 2 ^ bch_m st - 1" using assms by (simp add: params_ok_def)
  have "e \<noteq> 0 \<and> unat e < 2 ^ bch_m st" if e: "e \<in> set (positions h st g @ positions h st g')" for e
  proof -
    obtain k where k: "e = of_nat k" "k \<in> odd_bins h st g \<or> k \<in> odd_bins h st g'"
      using e set_positions [OF assms] by auto
    then have "0 < k" "k < bch_n st" using odd_bins_range [OF assms] by auto
    moreover from this have "unat (of_nat k :: u64) = k"
      using params_ok_n(2) [OF assms] by (intro unat_of_nat_u64) simp
    ultimately show ?thesis using k n by (auto simp: unat_gt_0 [symmetric])
  qed
  then have "sketch_elems (bch_m st) (positions h st g @ positions h st g') = odd_set (positions h st g @ positions h st g')"
    by (rule sketch_elems_in_range)
  also have "\<dots> = sym_diff (of_nat ` odd_bins h st g) (of_nat ` odd_bins h st g')"
    using distinct_positions [OF assms] set_positions [OF assms] by (simp add: odd_set_append odd_set_distinct)
  also have "\<dots> = of_nat ` odd_bins h st (g @ g')"
  proof -
    let ?U = "{k. k < bch_n st}"
    have "odd_bins h st g \<subseteq> ?U" "odd_bins h st g' \<subseteq> ?U" using odd_bins_range [OF assms] by auto
    then have "of_nat ` (odd_bins h st g - odd_bins h st g') = of_nat ` odd_bins h st g - (of_nat ` odd_bins h st g' :: u64 set)"
      "of_nat ` (odd_bins h st g' - odd_bins h st g) = of_nat ` odd_bins h st g' - (of_nat ` odd_bins h st g :: u64 set)"
      by (auto intro!: inj_on_image_set_diff [OF of_nat_inj_bins [OF assms]])
    then show ?thesis by (simp add: odd_bins_append image_Un)
  qed
  finally show ?thesis .
qed

lemma decode_exact:
  assumes ok: "wire_ok api st" and cap: "card (odd_bins h st (g @ g')) \<le> bch_t st"
    and s: "group_sketch api h st g = Some s" "group_sketch api h st g' = Some s'"
  shows "\<exists>xs. ms_decode api (ms_merge api s s') (bch_t st) = Some xs \<and> distinct xs \<and>
    set xs = of_nat ` odd_bins h st (g @ g')"
proof -
  note w = wire_okD [OF ok]
  have sk: "sketch_of api (of_nat (bch_m st)) (bch_t st) (positions h st g @ positions h st g') = Some (ms_merge api s s')"
    using s w(3) by (intro ms_merged [OF w(6)]) (simp_all add: group_sketch_def)
  have el: "sketch_elems (unat (of_nat (bch_m st) :: u32)) (positions h st g @ positions h st g') = of_nat ` odd_bins h st (g @ g')"
    using sketch_elems_positions [OF w(1)] w(2) by simp
  have "card (of_nat ` odd_bins h st (g @ g') :: u64 set) \<le> bch_t st"
    by (rule le_trans [OF card_image_le cap]) (simp add: odd_bins_def)
  then show ?thesis using ms_decoded [OF w(6) sk _ order_refl] unfolding el by blast
qed

section \<open>A round that completes at once\<close>

text \<open>The elements of a group hash to the group it stems from.\<close>

definition grouped :: "hash_fn \<Rightarrow> 'sk pbs_sketch \<Rightarrow> bool" where
  "grouped h st \<longleftrightarrow> (\<forall>i < num_groups_remaining st. \<forall>e \<in> set (groups st ! i). group_of h st e = to_original_group_id st ! i)"

text \<open>
  The ideal case the parameters are chosen for: in every group at most \<open>t\<close> elements differ, and
  no two of them share a bin.
\<close>

definition ideal :: "hash_fn \<Rightarrow> 'sk pbs_sketch \<Rightarrow> 'sk pbs_sketch \<Rightarrow> bool" where
  "ideal h sa sb \<longleftrightarrow> (\<forall>j < num_groups_remaining sa.
     let D = odd_set (groups sa ! j @ groups sb ! j)
     in card D \<le> bch_t sa \<and> inj_on (bin_of h sa) D)"

lemma bin_xor_single:
  assumes "inj_on (bin_of h st) (odd_set es)" "e \<in> odd_set es"
  shows "bin_xor h st es (bin_of h st e) = e"
proof -
  have "{x \<in> odd_set es. bin_of h st x = bin_of h st e} = {e}"
    using assms by (auto dest: inj_onD)
  then show ?thesis by (simp add: bin_xor_def xor_list_odd odd_set_filter)
qed

lemma bin_xor_append: "bin_xor h st (g @ g') b = bin_xor h st g b XOR bin_xor h st g' b"
  by (simp add: bin_xor_def)

lemma ideal_bin_xor:
  assumes "inj_on (bin_of h st) (odd_set g)" "params_ok st" "b \<in> of_nat ` bin_of h st ` odd_set g"
  shows "bin_xor h st g (unat (b :: u64)) \<in> odd_set g \<and> bin_of h st (bin_xor h st g (unat b)) = unat b \<and> unat b < bch_n st"
proof -
  have un: "unat (of_nat (bin_of h st e) :: u64) = bin_of h st e" for e
    using bin_of_range(2) [OF assms(2), of h e] params_ok_n(2) [OF assms(2)] by (intro unat_of_nat_u64) simp
  obtain e where e: "e \<in> odd_set g" "b = of_nat (bin_of h st e)" using assms(3) by auto
  with assms(1) have "bin_xor h st g (bin_of h st e) = e" by (intro bin_xor_single) simp_all
  with e un bin_of_range(2) [OF assms(2)] show ?thesis by simp
qed

text \<open>In the ideal case the bins of the differing elements are decoded, each once.\<close>

lemma ideal_decoded:
  fixes sa sb :: "'sk pbs_sketch"
  assumes r: "ready api sa sb" and id: "ideal h sa sb" and j: "j < num_groups_remaining sa"
  shows "\<exists>bs. round_results api h sa sb ! j = Some bs \<and> distinct bs \<and>
    set bs = of_nat ` bin_of h sa ` odd_set (groups sa ! j @ groups sb ! j)"
proof -
  from r have s: "wire_ok api sa" "fresh sa" "fresh sb" "same_params sa sb" by (auto simp: ready_def)
  let ?ga = "groups sa ! j" and ?gb = "groups sb ! j" and ?D = "odd_set (groups sa ! j @ groups sb ! j)"
  have N: "num_groups_remaining sb = num_groups_remaining sa" "length (groups sa) = num_groups_remaining sa"
      "length (groups sb) = num_groups_remaining sa" "bch_t sb = bch_t sa"
    using s(2-4) by (auto simp: fresh_def same_params_def)
  have D: "card ?D \<le> bch_t sa" "inj_on (bin_of h sa) ?D" using id j by (auto simp: ideal_def Let_def)
  have "odd_set (?gb @ ?ga) = ?D" by (auto simp: odd_set_append)
  then have bins: "odd_bins h sa (?gb @ ?ga) = bin_of h sa ` ?D"
    unfolding odd_bins_def using D(2) by (subst odd_set_map_inj) simp_all
  have "card (odd_bins h sa (?gb @ ?ga)) \<le> bch_t sa"
    unfolding bins using D(1) card_image_le [of ?D "bin_of h sa"] by auto
  moreover obtain s1 s2 where s12: "group_sketch api h sa ?gb = Some s1" "group_sketch api h sa ?ga = Some s2"
    using group_sketch_Some [OF s(1)] by blast
  ultimately obtain bs where bs: "ms_decode api (ms_merge api s1 s2) (bch_t sa) = Some bs" "distinct bs" "set bs = of_nat ` bin_of h sa ` ?D"
    using decode_exact [OF s(1), of h ?gb ?ga s1 s2] bins by auto
  have "round_results api h sa sb ! j = Some bs"
    using j N s12 bs(1) by (simp add: round_results_def merge_decode_def same_fns [OF s(4)])
  with bs(2,3) show ?thesis by blast
qed

lemma ideal_group:
  fixes sa sb :: "'sk pbs_sketch"
  assumes r: "ready api sa sb" and gr: "grouped h sa" "grouped h sb" and id: "ideal h sa sb"
    and j: "j < num_groups_remaining sa"
  defines "D \<equiv> odd_set (groups sa ! j @ groups sb ! j)" and "res \<equiv> round_results api h sa sb"
  shows "\<exists>bs. res ! j = Some bs \<and> (\<forall>b \<in> set bs. unat b < bch_n sa) \<and>
    distinct (round_recs api h sa sb j) \<and> set (round_recs api h sa sb j) = D"
proof -
  from r have s: "wire_ok api sa" "fresh sa" "fresh sb" "same_params sa sb" by (auto simp: ready_def)
  note fns = same_fns [OF s(4)] and w = wire_okD [OF s(1)]
  have N: "length res = num_groups_remaining sa" "num_groups_remaining sb = num_groups_remaining sa"
      "length (groups sa) = num_groups_remaining sa" "length (groups sb) = num_groups_remaining sa"
      "to_original_group_id sb = to_original_group_id sa"
    using round_results_length [OF s(2-4)] s(2-4) by (auto simp: res_def fresh_def same_params_def)
  let ?ga = "groups sa ! j" and ?gb = "groups sb ! j"
  have inj: "inj_on (bin_of h sa) D" using id j by (auto simp: ideal_def Let_def D_def)
  have DD: "odd_set (?gb @ ?ga) = D" by (auto simp: D_def odd_set_append)
  obtain bs where bs: "res ! j = Some bs" "distinct bs" "set bs = of_nat ` bin_of h sa ` D"
    using ideal_decoded [OF r id j] by (auto simp: res_def D_def)
  define el where "el b = bin_xor h sa (?gb @ ?ga) (unat b)" for b :: u64
  have el: "el b \<in> D" "bin_of h sa (el b) = unat b" "unat b < bch_n sa" if "b \<in> set bs" for b
    using ideal_bin_xor [of h sa "?gb @ ?ga", unfolded DD, OF inj w(1), of b] that bs(3) by (auto simp: el_def)
  have grp: "group_of h sa e = to_original_group_id sa ! j" if "e \<in> D" for e
  proof -
    have "e \<in> set ?ga \<or> e \<in> set ?gb" using that odd_set_subset [of "?ga @ ?gb"] by (auto simp: D_def)
    then show ?thesis using gr j N fns(2) by (auto simp: grouped_def)
  qed
  have rs: "res_elems (Some bs) = bs" by (simp add: res_elems_def)
  have "round_recs api h sa sb j = accepted h sa (to_original_group_id sa ! j) (length bs) (\<lambda>k. unat (bs ! k)) (\<lambda>k. el (bs ! k))"
    unfolding round_recs_def recs_of_def res_def [symmetric] bs(1) rs
    using j answer_xors_nth [of j res _ h sb, unfolded bs(1) rs] N fns(3)
    by (intro accepted_cong) (auto simp: el_def bin_xor_append)
  also have "\<dots> = map (\<lambda>k. el (bs ! k)) [0..<length bs]"
    unfolding accepted_def using el grp by (intro arg_cong [where f = "map _"] filter_True) simp
  also have "\<dots> = map el bs" by (rule nth_equalityI) auto
  finally have recs: "round_recs api h sa sb j = map el bs" .
  have "inj_on el (set bs)" using el(2) by (metis inj_onI word_unat_eq_iff)
  then have "distinct (round_recs api h sa sb j)" using bs(2) by (simp add: recs distinct_map)
  moreover have "e \<in> el ` set bs" if e: "e \<in> D" for e
  proof -
    have b: "of_nat (bin_of h sa e) \<in> set bs" using bs(3) e by blast
    have "unat (of_nat (bin_of h sa e) :: u64) = bin_of h sa e"
      using bin_of_range(2) [OF w(1), of h e] params_ok_n(2) [OF w(1)] by (intro unat_of_nat_u64) simp
    with el(1,2) [OF b] have "el (of_nat (bin_of h sa e)) = e" using inj e by (auto dest: inj_onD)
    with b show ?thesis by force
  qed
  then have "set (round_recs api h sa sb j) = D" using el(1) by (auto simp: recs)
  ultimately show ?thesis using bs(1) el(3) by blast
qed

lemma ideal_cancels:
  assumes "ready api sa sb" "grouped h sa" "grouped h sb" "ideal h sa sb" "j < num_groups_remaining sa"
  shows "odd_set (groups sa ! j @ round_recs api h sa sb j @ groups sb ! j) = {}"
proof -
  from ideal_group [OF assms] have "odd_set (round_recs api h sa sb j) = odd_set (groups sa ! j @ groups sb ! j)"
    by (auto simp: odd_set_distinct)
  then show ?thesis by (auto simp: odd_set_append)
qed

lemma ideal_no_collision:
  "ready api sa sb \<Longrightarrow> grouped h sa \<Longrightarrow> grouped h sb \<Longrightarrow> ideal h sa sb \<Longrightarrow> no_collision api h sa sb"
  by (simp add: no_collision_def ideal_cancels)

lemma ideal_bids_ok:
  assumes "ready api sa sb" "grouped h sa" "grouped h sb" "ideal h sa sb"
  shows "bids_ok (bch_n sa) (round_results api h sa sb)" "None \<notin> set (round_results api h sa sb)"
proof -
  have len: "length (round_results api h sa sb) = num_groups_remaining sa"
    using assms(1) round_results_length by (auto simp: ready_def)
  have "\<exists>bs. r = Some bs \<and> (\<forall>b \<in> set bs. unat b < bch_n sa)" if "r \<in> set (round_results api h sa sb)" for r
  proof -
    from that len obtain i where "i < num_groups_remaining sa" "r = round_results api h sa sb ! i"
      by (auto simp: in_set_conv_nth)
    with ideal_group [OF assms this(1)] show ?thesis by blast
  qed
  then show "bids_ok (bch_n sa) (round_results api h sa sb)" "None \<notin> set (round_results api h sa sb)"
    by (auto simp: bids_ok_def res_elems_def)
qed

lemma ideal_all_done:
  assumes "ready api sa sb" "grouped h sa" "grouped h sb" "ideal h sa sb"
  shows "num_groups_remaining (alice_next api h sa sb) = 0"
    "recovered (alice_next api h sa sb) = recovered sa @
       [concat (map (round_recs api h sa sb) [0..<num_groups_remaining sa])]"
proof -
  let ?res = "round_results api h sa sb" and ?N = "num_groups_remaining sa"
  have len: "length ?res = ?N" "num_groups_remaining sb = ?N"
    using assms(1) round_results_length [of sa sb api h] by (simp_all add: ready_def) (simp add: same_params_def)
  have "?res ! j \<noteq> None" if "j < ?N" for j
    using ideal_bids_ok(2) [OF assms] len that by (metis nth_mem)
  then have lists: "failed ?res ?N = []" "decoded ?res ?N = [0..<?N]"
    by (auto simp: failed_def decoded_def filter_empty_conv filter_id_conv)
  have "round_ok api h sa sb j" if "j < ?N" for j
    using ideal_cancels [OF assms that] xor_list_odd [of "groups sa ! j @ round_recs api h sa sb j @ groups sb ! j"]
    unfolding round_ok_def by (simp only: xor64.empty)
  then have "groups_exp_I_or_II (alice_next api h sa sb) = []"
    unfolding carried_exp [OF assms(1)] lists by (simp add: filter_empty_conv)
  then show "num_groups_remaining (alice_next api h sa sb) = 0"
    by (simp add: alice_next_def alice_after_def Let_def next_round_def len lists)
  show "recovered (alice_next api h sa sb) = recovered sa @ [concat (map (round_recs api h sa sb) [0..<?N])]"
    by (simp add: alice_next_def alice_after_def Let_def len lists round_recs_def)
qed

text \<open>
  In the ideal case one round reports completion and recovers the difference: nothing missing,
  nothing fake, nothing twice.
\<close>

theorem ideal_round:
  fixes sa sb :: "'sk pbs_sketch"
  assumes r: "ready api sa sb" and gr: "grouped h sa" "grouped h sb" and id: "ideal h sa sb"
    and dist: "distinct (to_original_group_id sa)"
  shows "\<exists>alice bob rec. round_trip api h sa (encoded api h sb) = Inr (True, alice, bob) \<and>
    differencesLastRound alice = (Inr rec :: 's failure + _) \<and> distinct rec \<and>
    set rec = odd_set (concat (groups sa) @ concat (groups sb))"
proof -
  let ?N = "num_groups_remaining sa" and ?R = "round_recs api h sa sb"
  let ?D = "\<lambda>j. odd_set (groups sa ! j @ groups sb ! j)" and ?rec = "concat (map ?R [0..<?N])"
  note d = ideal_all_done [OF r gr id]
  have N: "length (groups sa) = ?N" "length (groups sb) = ?N" "length (to_original_group_id sa) = ?N"
      "to_original_group_id sb = to_original_group_id sa" "num_groups_remaining sb = ?N" "group_of h sb = group_of h sa"
    using r same_fns(2) by (auto simp: ready_def fresh_def same_params_def)
  have R: "distinct (?R j)" "set (?R j) = ?D j" if "j < ?N" for j
    using ideal_group [OF r gr id that] by auto
  have orig: "group_of h sa e = to_original_group_id sa ! j" if "j < ?N" "e \<in> ?D j" for j e
    using that gr N odd_set_subset [of "groups sa ! j @ groups sb ! j"] by (auto simp: grouped_def)
  have disj: "i = j" if "i < ?N" "j < ?N" "e \<in> ?D i" "e \<in> ?D j" for i j e
    using orig [OF that(1,3)] orig [OF that(2,4)] that(1,2) dist N(3) by (simp add: nth_eq_iff_index_eq)
  have "distinct (concat (map ?R [0..<n]))" if "n \<le> ?N" for n
    using that
  proof (induction n)
    case (Suc n)
    have "e \<notin> set (?R j)" if "e \<in> set (?R n)" "j < n" for e j
      using disj [of n j e] R(2) [of n] R(2) [of j] that Suc.prems by auto
    then have "set (concat (map ?R [0..<n])) \<inter> set (?R n) = {}" by auto
    with Suc R(1) [of n] show ?case by simp
  qed simp
  then have distinct: "distinct ?rec" by simp
  have "outstanding (alice_next api h sa sb) (bob_next api h sa sb) = outstanding sa sb"
    by (rule outstanding_next [OF r ideal_no_collision [OF r gr id]])
  moreover have "groups (alice_next api h sa sb) = []" "groups (bob_next api h sa sb) = []"
    using d(1) next_in_step [OF r, of h] by (auto simp: fresh_def same_params_def)
  ultimately have "odd_set (concat (recovered sa) @ ?rec) =
      odd_set (concat (groups sa) @ concat (groups sb) @ concat (recovered sa))"
    by (simp add: outstanding_def d(2))
  then have "odd_set ?rec = odd_set (concat (groups sa) @ concat (groups sb))"
    by (auto simp: odd_set_append)
  then have "set ?rec = odd_set (concat (groups sa) @ concat (groups sb))"
    using distinct by (simp add: odd_set_distinct)
  moreover obtain bob where "round_trip api h sa (encoded api h sb) = Inr (True, alice_next api h sa sb, bob)"
    using round_trip_eq [OF r ideal_bids_ok(1) [OF r gr id]] d(1) by auto
  moreover have "differencesLastRound (alice_next api h sa sb) = (Inr ?rec :: 's failure + _)"
    by (simp add: differencesLastRound_def d(2))
  ultimately show ?thesis using distinct by blast
qed

section \<open>Sessions\<close>

text \<open>
  At most \<open>k\<close> rounds, as the client drives them: stop when a round completes, otherwise Bob
  encodes the remaining groups with the hint that Alice's next message carries.
\<close>

fun session ::
    "'sk minisketch_api \<Rightarrow> hash_fn \<Rightarrow> nat \<Rightarrow> 'sk pbs_sketch \<Rightarrow> 'sk pbs_sketch \<Rightarrow>
     'sk pbs_sketch failure + (bool \<times> 'sk pbs_sketch \<times> 'sk pbs_sketch)" where
  "session api h 0 alice bob = Inr (False, alice, bob)"
| "session api h (Suc k) alice bob =
     bind_ok (round_trip api h alice bob) (\<lambda>(completed, alice1, bob1).
       if completed \<or> k = 0 then Inr (completed, alice1, bob1)
       else bind_ok (encodeWithHint api h (map of_nat (groups_exp_I_or_II alice1)) bob1) (\<lambda>(enc, bob2).
              session api h k alice1 bob2))"

text \<open>
  What is assumed of the rounds of a session: no checksum collision, no decoded position outside
  the bins, and sizes that still fit 32 bits.
\<close>

fun regular ::
    "'sk minisketch_api \<Rightarrow> hash_fn \<Rightarrow> nat \<Rightarrow> 'sk pbs_sketch \<Rightarrow> 'sk pbs_sketch \<Rightarrow> bool" where
  "regular api h 0 sa sb = True"
| "regular api h (Suc k) sa sb =
     (bids_ok (bch_n sa) (round_results api h sa sb) \<and> no_collision api h sa sb \<and>
      (num_groups_remaining (alice_next api h sa sb) \<noteq> 0 \<and> k \<noteq> 0 \<longrightarrow>
        wire_ok api (alice_next api h sa sb) \<and> regular api h k (alice_next api h sa sb) (bob_next api h sa sb)))"

theorem session_sound:
  assumes "ready api sa sb" "regular api h k sa sb" "unat (round_count sa) + k < 2 ^ 32"
  shows "\<exists>completed alice bob. session api h k sa (encoded api h sb) = Inr (completed, alice, bob) \<and>
    (completed \<longrightarrow> odd_set (concat (differencesAll alice)) = outstanding sa sb)"
  using assms
proof (induction k arbitrary: sa sb)
  case (Suc k)
  let ?a = "alice_next api h sa sb" and ?b = "bob_next api h sa sb"
  from Suc.prems(2) have reg: "bids_ok (bch_n sa) (round_results api h sa sb)" "no_collision api h sa sb"
    "num_groups_remaining ?a \<noteq> 0 \<and> k \<noteq> 0 \<longrightarrow> wire_ok api ?a \<and> regular api h k ?a ?b"
    by simp_all
  obtain enc where trip: "round_trip api h sa (encoded api h sb) =
    Inr (num_groups_remaining ?a = 0, ?a,
      (split_failed h (failed (round_results api h sa sb) (num_groups_remaining sa)) (encoded api h sb))
       \<lparr>hint_max_range := num_groups_remaining sa, role := Bob, pbs_encoding := Some enc,
        pbs_decoding := Some (decoding_of sb (round_results api h sa sb)), round_count := round_count sb + 1\<rparr>)"
    using round_trip_eq [OF Suc.prems(1) reg(1)] by blast
  note out = outstanding_next [OF Suc.prems(1) reg(2)]
  show ?case
  proof (cases "num_groups_remaining ?a = 0 \<or> k = 0")
    case True
    have "odd_set (concat (differencesAll ?a)) = outstanding sa sb" if "num_groups_remaining ?a = 0"
    proof -
      have "groups ?a = []" "groups ?b = []"
        using that next_in_step [OF Suc.prems(1), of h] by (auto simp: fresh_def same_params_def)
      then show ?thesis unfolding out [symmetric] by (simp add: outstanding_def differencesAll_def)
    qed
    then show ?thesis using True trip by auto
  next
    case False
    then have w: "wire_ok api ?a" "regular api h k ?a ?b" using reg(3) by auto
    have wrap: "unat (round_count sa) + 1 < 2 ^ 32" using Suc.prems(3) by simp
    have "round_count ?a = round_count sa + 1"
      by (simp add: alice_next_def alice_after_def Let_def next_round_def encoded_def)
    then have "unat (round_count ?a) + k < 2 ^ 32"
      using wrap Suc.prems(3) by (simp add: unat_word_ariths)
    from Suc.IH [OF next_ready [OF Suc.prems(1) w(1) wrap] w(2) this] show ?thesis
      using False trip bob_re_encodes [OF Suc.prems(1) w(1)] by (simp add: out)
  qed
next
  case 0
  show ?case by (intro exI [of _ False]) simp
qed

section \<open>From the sets to the first round\<close>

lemma add_all_eq:
  fixes st :: "'sk pbs_sketch"
  assumes "params_ok st" "length (groups st) = num_groups st"
  shows "(add_all h es st :: 's failure + _) =
    Inr (st\<lparr>groups := map (\<lambda>i. groups st ! i @ filter (\<lambda>e. group_of h st e = i) es) [0..<num_groups st]\<rparr>)"
  using assms
proof (induction es arbitrary: st)
  case Nil
  have "map (\<lambda>i. groups st ! i) [0..<num_groups st] = groups st" using Nil.prems by (metis map_nth)
  then show ?case by (simp add: add_all_def)
next
  case (Cons e es)
  let ?g = "group_of h st e"
  have g: "?g < num_groups st" using Cons.prems(1) by (simp add: group_of_def params_ok_def)
  let ?st = "st\<lparr>groups := (groups st)[?g := groups st ! ?g @ [e]]\<rparr>"
  have "(add h e st :: 's failure + _) = Inr ?st"
    using Cons.prems g by (simp add: add_def getGroupId_ok ok_simps)
  moreover have "group_of h ?st = group_of h st" by (simp add: group_of_def fun_eq_iff)
  moreover have "map (\<lambda>i. (groups st)[?g := groups st ! ?g @ [e]] ! i @ filter (\<lambda>e. group_of h st e = i) es) [0..<num_groups st] =
      map (\<lambda>i. groups st ! i @ filter (\<lambda>e. group_of h st e = i) (e # es)) [0..<num_groups st]"
    using Cons.prems by (auto simp: nth_list_update)
  ultimately show ?case
    using Cons.IH [of ?st] Cons.prems by (simp add: add_all_def)
qed

text \<open>The state a host has built from its elements before the first round.\<close>

definition host_group :: "hash_fn \<Rightarrow> nat \<Rightarrow> u64 \<Rightarrow> u64 \<Rightarrow> nat" where
  "host_group h ng seed e = unat (h e seed) mod ng"

definition host_bin :: "hash_fn \<Rightarrow> nat \<Rightarrow> u64 \<Rightarrow> u64 \<Rightarrow> nat" where
  "host_bin h m seed e = unat (h e (seed + SEED_OFFSET)) mod (2 ^ m - 2) + 1"

definition host_state ::
    "hash_fn \<Rightarrow> nat \<Rightarrow> nat \<Rightarrow> nat \<times> nat \<Rightarrow> nat \<Rightarrow> u64 \<Rightarrow> u64 list \<Rightarrow> 'sk pbs_sketch" where
  "host_state h d ng best c seed es =
     \<lparr>num_groups_when_bch_fail = c, group_partition_seed = seed, parity_encoding_seed = seed + SEED_OFFSET,
      bch_m = fst best, bch_n = 2 ^ fst best - 1, bch_t = snd best, num_diffs = d, num_groups = ng,
      num_groups_remaining = ng, round_count = 0, role = Undetermined,
      groups = map (\<lambda>i. filter (\<lambda>e. host_group h ng seed e = i) es) [0..<ng],
      to_original_group_id = [0..<ng], pbs_encoding = None, pbs_decoding = None, hint_max_range = ng,
      xors = replicate (ng * (2 ^ fst best - 1)) 0, checksums = replicate ng 0,
      groups_exp_I_or_II = [], groups_bch_failed = [], recovered = []\<rparr>"

lemma bch_n_of_m:
  assumes "m < 32"
  shows "unat (push_bit m 1 - 1 :: u32) = 2 ^ m - 1"
proof -
  have "(of_nat (2 ^ m - 1) :: u32) = push_bit m 1 - 1"
    by (simp add: of_nat_diff push_bit_eq_mult)
  moreover have "(2 :: nat) ^ m \<le> 2 ^ 31" using assms by (intro power_increasing) auto
  then have "2 ^ m - 1 < (2 ^ 32 :: nat)" by simp
  ultimately show ?thesis using unat_of_nat_u32 by metis
qed

lemma host_state_simps [simp]:
  "role (host_state h d ng best c seed es) = Undetermined" "num_groups_when_bch_fail (host_state h d ng best c seed es) = c"
  "round_count (host_state h d ng best c seed es) = 0" "recovered (host_state h d ng best c seed es) = []"
  "groups_bch_failed (host_state h d ng best c seed es) = []" "groups_exp_I_or_II (host_state h d ng best c seed es) = []"
  "hint_max_range (host_state h d ng best c seed es) = ng" "num_groups_remaining (host_state h d ng best c seed es) = ng"
  "bch_m (host_state h d ng best c seed es) = fst best" "bch_t (host_state h d ng best c seed es) = snd best"
  by (simp_all add: host_state_def)

lemma host_state_built:
  assumes "0 < ng" "2 \<le> fst best" "fst best < 32"
  shows "bind_ok (ParityBitmapSketch d ng best c seed) (add_all h es) = (Inr (host_state h d ng best c seed es) :: 's failure + 'sk pbs_sketch)"
proof -
  let ?s = "host_state h d ng best c seed [] :: 'sk pbs_sketch"
  have "(ParityBitmapSketch d ng best c seed :: 's failure + 'sk pbs_sketch) = Inr ?s"
    using assms bch_n_of_m [OF assms(3)]
    by (simp add: ParityBitmapSketch_def calcBchParams_def host_state_def resize_def map_replicate_trivial)
  moreover have "params_ok ?s" "length (groups ?s) = num_groups ?s"
    using assms by (simp_all add: params_ok_def host_state_def)
  note add_all_eq [OF this, of h es, where 's = 's]
  moreover have "?s\<lparr>groups := map (\<lambda>i. groups ?s ! i @ filter (\<lambda>e. group_of h ?s e = i) es) [0..<num_groups ?s]\<rparr> =
      host_state h d ng best c seed es"
    by (simp add: host_state_def group_of_def host_group_def cong: map_cong)
  ultimately show ?thesis by simp
qed

lemma host_state_facts:
  fixes h es d ng best c seed
  defines "st \<equiv> host_state h d ng best c seed es"
  assumes "0 < ng" "2 \<le> fst best" "fst best < 32"
  shows "params_ok st" "fresh st" "grouped h st" "distinct (to_original_group_id st)"
    "bin_of h st = host_bin h (fst best) seed" "group_of h st = host_group h ng seed"
    "count_list (concat (groups st)) x = count_list es x"
proof -
  show "params_ok st" using assms by (simp add: params_ok_def host_state_def)
  show "fresh st" by (simp add: st_def fresh_def host_state_def)
  show "grouped h st" by (auto simp: st_def grouped_def host_state_def group_of_def host_group_def)
  show "distinct (to_original_group_id st)" by (simp add: st_def host_state_def)
  show "bin_of h st = host_bin h (fst best) seed"
    by (simp add: st_def bin_of_def host_bin_def host_state_def fun_eq_iff numeral_2_eq_2)
  show "group_of h st = host_group h ng seed"
    by (simp add: st_def group_of_def host_group_def host_state_def fun_eq_iff)
  show "count_list (concat (groups st)) x = count_list es x"
    using assms(2) by (simp add: st_def host_state_def count_map_concat count_classes host_group_def)
qed

text \<open>The whole procedure: both hosts build their state, Bob encodes, the session runs.\<close>

definition reconcile_sets ::
    "'sk minisketch_api \<Rightarrow> hash_fn \<Rightarrow> nat \<Rightarrow> nat \<Rightarrow> nat \<times> nat \<Rightarrow> nat \<Rightarrow> u64 \<Rightarrow> nat \<Rightarrow> u64 list \<Rightarrow> u64 list \<Rightarrow>
     'sk pbs_sketch failure + (bool \<times> 'sk pbs_sketch \<times> 'sk pbs_sketch)" where
  "reconcile_sets api h d ng best c seed k as bs =
     bind_ok (bind_ok (ParityBitmapSketch d ng best c seed) (add_all h as)) (\<lambda>alice.
     bind_ok (bind_ok (ParityBitmapSketch d ng best c seed) (add_all h bs)) (\<lambda>bob.
     bind_ok (encode api h bob) (\<lambda>(enc, bob1). session api h k alice bob1)))"

definition setup_ok :: "'sk minisketch_api \<Rightarrow> nat \<Rightarrow> nat \<times> nat \<Rightarrow> nat \<Rightarrow> bool" where
  "setup_ok api ng best c \<longleftrightarrow> 0 < ng \<and> ng < 2 ^ 32 \<and> 2 \<le> fst best \<and> fst best < 32 \<and> 0 < snd best \<and>
     snd best + 2 \<le> 2 ^ 31 \<and> fst best * snd best * ng < 2 ^ 32 \<and> 0 < c \<and>
     ms_contract api (of_nat (fst best)) (snd best)"

lemma host_ready:
  fixes api :: "'sk minisketch_api"
  assumes "setup_ok api ng best c"
  shows "ready api (host_state h d ng best c seed as) (host_state h d ng best c seed bs)"
proof -
  have s: "0 < ng" "2 \<le> fst best" "fst best < 32" using assms by (auto simp: setup_ok_def)
  note f = host_state_facts [OF s]
  have "wire_ok api (host_state h d ng best c seed as :: 'sk pbs_sketch)"
    using assms by (simp add: wire_ok_def setup_ok_def f(1))
  moreover have "same_params (host_state h d ng best c seed as :: 'sk pbs_sketch) (host_state h d ng best c seed bs :: 'sk pbs_sketch)"
    by (simp add: same_params_def host_state_def)
  ultimately show ?thesis
    using assms by (simp add: ready_def setup_ok_def f(2))
qed

lemma reconcile_sets_eq:
  fixes api :: "'sk minisketch_api"
  assumes s: "setup_ok api ng best c"
  shows "reconcile_sets api h d ng best c seed k as bs =
    session api h k (host_state h d ng best c seed as) (encoded api h (host_state h d ng best c seed bs))"
proof -
  have p: "0 < ng" "2 \<le> fst best" "fst best < 32" using s by (auto simp: setup_ok_def)
  let ?b = "host_state h d ng best c seed bs :: 'sk pbs_sketch"
  have r: "ready api ?b ?b" by (rule host_ready [OF s])
  then have w: "wire_ok api ?b" by (simp add: ready_def)
  obtain s0 where s0: "ms_create api (of_nat (bch_m ?b)) 0 (unat (of_nat (bch_t ?b) :: u32)) = Some s0"
    using ms_created [OF wire_okD(6) [OF w]] wire_okD(3) [OF w] by auto
  have "encode api h ?b = Inr ((encoded_msg api h ?b, encode_hint ?b), (encoded api h ?b)\<lparr>groups_exp_I_or_II := []\<rparr>)"
    using r wire_okD(5) [OF w] by (intro encode_eq [OF wire_okD(1) [OF w] _ _ s0]) (auto simp: ready_def)
  moreover have "(encoded api h ?b)\<lparr>groups_exp_I_or_II := []\<rparr> = encoded api h ?b"
    by (simp add: encoded_def host_state_def)
  ultimately show ?thesis
    by (simp add: reconcile_sets_def host_state_built [OF p])
qed

lemma outstanding_host:
  assumes "setup_ok api ng best c" "distinct as" "distinct bs"
  shows "outstanding (host_state h d ng best c seed as) (host_state h d ng best c seed bs) = sym_diff (set as) (set bs)"
proof -
  have p: "0 < ng" "2 \<le> fst best" "fst best < 32" using assms by (auto simp: setup_ok_def)
  have "x \<in> outstanding (host_state h d ng best c seed as) (host_state h d ng best c seed bs) \<longleftrightarrow>
      x \<in> odd_set (as @ bs)" for x
    by (simp add: in_outstanding parity_def in_odd_set host_state_facts(7) [OF p])
  then show ?thesis using assms(2,3) by (auto simp: odd_set_append odd_set_distinct)
qed

text \<open>The ideal case, in terms of the two sets.\<close>

definition ideal_sets ::
    "hash_fn \<Rightarrow> nat \<Rightarrow> nat \<times> nat \<Rightarrow> u64 \<Rightarrow> u64 list \<Rightarrow> u64 list \<Rightarrow> bool" where
  "ideal_sets h ng best seed as bs \<longleftrightarrow> (\<forall>j < ng.
     let D = {x \<in> set as \<union> set bs. (x \<in> set as) \<noteq> (x \<in> set bs) \<and> host_group h ng seed x = j}
     in card D \<le> snd best \<and> inj_on (host_bin h (fst best) seed) D)"

lemma ideal_host:
  fixes as bs
  assumes s: "setup_ok api ng best c" and d: "distinct as" "distinct bs" and id: "ideal_sets h ng best seed as bs"
  shows "ideal h (host_state h d ng best c seed as) (host_state h d' ng best c' seed bs)"
proof -
  have p: "0 < ng" "2 \<le> fst best" "fst best < 32" using s by (auto simp: setup_ok_def)
  have "odd_set (filter (\<lambda>e. host_group h ng seed e = j) as @ filter (\<lambda>e. host_group h ng seed e = j) bs) =
      {x \<in> set as \<union> set bs. (x \<in> set as) \<noteq> (x \<in> set bs) \<and> host_group h ng seed x = j}" for j
    using d by (auto simp: odd_set_append odd_set_filter odd_set_distinct)
  then show ?thesis
    using id by (simp add: ideal_def ideal_sets_def Let_def host_state_facts(5) [OF p])
      (simp add: host_state_def)
qed

lemma ideal_host_regular:
  assumes s: "setup_ok api ng best c" and d: "distinct as" "distinct bs" and id: "ideal_sets h ng best seed as bs"
  shows "regular api h k (host_state h d ng best c seed as) (host_state h d ng best c seed bs)"
proof -
  have p: "0 < ng" "2 \<le> fst best" "fst best < 32" using s by (auto simp: setup_ok_def)
  note i = host_ready [OF s] host_state_facts(3) [OF p] host_state_facts(3) [OF p] ideal_host [OF s d id]
  show ?thesis
    by (cases k) (simp_all add: ideal_bids_ok [OF i] ideal_no_collision [OF i] ideal_all_done(1) [OF i])
qed

text \<open>How many groups the next round has.\<close>

lemma next_groups:
  assumes r: "ready api sa sb"
  shows "num_groups_remaining (alice_next api h sa sb) \<le> max 1 (num_groups_when_bch_fail sa) * num_groups_remaining sa"
proof -
  let ?res = "round_results api h sa sb" and ?N = "num_groups_remaining sa" and ?c = "num_groups_when_bch_fail sa"
  let ?cs = "groups_exp_I_or_II (alice_next api h sa sb)"
  have len: "length ?res = ?N" using r round_results_length by (auto simp: ready_def)
  have "length (failed ?res i) + length (decoded ?res i) = i" for i
    by (induction i) (simp_all add: failed_Suc decoded_Suc)
  from this [of ?N] have "length (failed ?res ?N) + length ?cs \<le> ?N"
    unfolding carried_exp [OF r] using length_filter_le [of "\<lambda>j. \<not> round_ok api h sa sb j" "decoded ?res ?N"] by linarith
  moreover have "num_groups_remaining (alice_next api h sa sb) = length (failed ?res ?N) * ?c + length ?cs"
    using len by (simp add: alice_next_def alice_after_def Let_def next_round_def) (simp add: encoded_def)
  moreover have "length (failed ?res ?N) * ?c + length ?cs \<le> max 1 ?c * (length (failed ?res ?N) + length ?cs)"
  proof -
    have "length (failed ?res ?N) * ?c \<le> max 1 ?c * length (failed ?res ?N)"
      by (metis max.cobounded2 mult.commute mult_le_mono1)
    moreover have "length ?cs \<le> max 1 ?c * length ?cs" by (simp add: Suc_le_eq)
    ultimately show ?thesis unfolding distrib_left by (rule add_mono)
  qed
  ultimately show ?thesis by (metis le_trans mult_le_mono2)
qed

text \<open>Only the total size has to be checked again for the next round.\<close>

lemma next_wire_ok:
  assumes r: "ready api sa sb"
    and "bch_m sa * bch_t sa * num_groups_remaining (alice_next api h sa sb) < 2 ^ 32"
  shows "wire_ok api (alice_next api h sa sb)"
proof -
  let ?a = "alice_next api h sa sb"
  have f: "bch_m ?a = bch_m sa" "bch_t ?a = bch_t sa" "params_ok ?a = params_ok sa"
    by (simp_all add: alice_next_def alice_after_def Let_def) (simp_all add: encoded_def params_ok_def next_round_def Let_def)
  have w: "wire_ok api sa" using r by (simp add: ready_def)
  then have "num_groups_remaining ?a \<le> bch_m sa * bch_t sa * num_groups_remaining ?a"
    by (simp add: wire_ok_def params_ok_def)
  then show ?thesis using w assms(2) unfolding wire_ok_def f by linarith
qed

end
