(* ===== verification/Sketch_Invariant.thy ===== *)
theory Sketch_Invariant
  imports Sketch_Recovery
begin

text \<open>
  What holds of a \<open>ParityBitmapSketch\<close> whatever messages it is given: the vectors keep their
  sizes in step, every element stays in a group of the original group it hashes to, every
  recorded element hashes to one of the original groups, and the role decides which round
  counters move. \<open>sketch_step\<close> is one successful call of a public operation; elements are added
  before the first encoding, as the class asks.
\<close>

section \<open>The public operations as a step relation\<close>

inductive sketch_step :: "'sk minisketch_api \<Rightarrow> hash_fn \<Rightarrow> 'sk pbs_sketch \<Rightarrow> 'sk pbs_sketch \<Rightarrow> bool"
  for api h where
  step_add: "role st = Undetermined \<Longrightarrow> add h e st = (Inr st' :: 'sk pbs_sketch failure + _) \<Longrightarrow> sketch_step api h st st'"
| step_encode: "encode api h st = Inr (r, st') \<Longrightarrow> sketch_step api h st st'"
| step_encode_hint: "encodeWithHint api h ids st = Inr (msg, st') \<Longrightarrow> sketch_step api h st st'"
| step_decode: "decode api h other st = Inr (r, st') \<Longrightarrow> sketch_step api h st st'"
| step_check: "decodeCheck h msg in_xors in_checksums st = Inr (b, st') \<Longrightarrow> sketch_step api h st st'"

inductive sketch_reachable :: "'sk minisketch_api \<Rightarrow> hash_fn \<Rightarrow> 'sk pbs_sketch \<Rightarrow> bool"
  for api h where
  created: "ParityBitmapSketch d ng best c seed = (Inr st :: 'sk pbs_sketch failure + _) \<Longrightarrow> sketch_reachable api h st"
| stepped: "sketch_reachable api h st \<Longrightarrow> sketch_step api h st st' \<Longrightarrow> sketch_reachable api h st'"

inductive_cases sketch_stepE: "sketch_step api h st st'"

section \<open>The invariant\<close>

definition placed :: "hash_fn \<Rightarrow> 'sk pbs_sketch \<Rightarrow> bool" where
  "placed h st \<longleftrightarrow> length (to_original_group_id st) = length (groups st) \<and>
     (\<forall>i < length (groups st). \<forall>e \<in> set (groups st ! i). group_of h st e = to_original_group_id st ! i)"

definition sized :: "'sk pbs_sketch \<Rightarrow> bool" where
  "sized st \<longleftrightarrow> length (checksums st) = length (groups st) \<and> length (xors st) = length (groups st) * bch_n st \<and>
     num_groups_remaining st \<le> length (groups st)"

definition recorded_ok :: "hash_fn \<Rightarrow> 'sk pbs_sketch \<Rightarrow> bool" where
  "recorded_ok h st \<longleftrightarrow>
     (\<forall>i \<in> set (to_original_group_id st). i < num_groups st) \<and>
     (\<forall>r \<in> set (recovered st). \<forall>x \<in> set r. group_of h st x < num_groups st)"

definition rounds_ok :: "'sk pbs_sketch \<Rightarrow> bool" where
  "rounds_ok st \<longleftrightarrow>
     (role st = Undetermined \<longrightarrow> round_count st = 0 \<and> recovered st = [] \<and> groups_bch_failed st = []) \<and>
     (role st = Bob \<longrightarrow> recovered st = []) \<and>
     (role st = Alice \<longrightarrow> round_count st = of_nat (length (recovered st)) \<and>
        num_groups_remaining st = length (groups st))"

definition sketch_inv :: "hash_fn \<Rightarrow> 'sk pbs_sketch \<Rightarrow> bool" where
  "sketch_inv h st \<longleftrightarrow> placed h st \<and> sized st \<and> recorded_ok h st \<and> rounds_ok st \<and>
     (role st = Undetermined \<longrightarrow> to_original_group_id st = [0..<num_groups st])"

text \<open>Updates of other fields do not matter.\<close>

definition core :: "'sk pbs_sketch \<Rightarrow> _" where
  "core st = (num_groups_when_bch_fail st, group_partition_seed st, bch_n st, num_groups st, num_groups_remaining st,
     groups st, to_original_group_id st, length (xors st), length (checksums st), role st, round_count st, recovered st,
     groups_bch_failed st)"

lemma core_cong: "core st = core st' \<Longrightarrow> sketch_inv h st = sketch_inv h st'"
  by (simp add: core_def sketch_inv_def placed_def sized_def recorded_ok_def rounds_ok_def group_of_def)

section \<open>The steps on the groups\<close>

lemma getGroupId_Inr: "getGroupId h st e = Inr g \<Longrightarrow> g = group_of h st e \<and> g < num_groups st"
  by (auto simp: getGroupId_def group_of_def split: if_splits)

lemma fold_ok_fail: "fold_ok (\<lambda>e gs. Inl u) g x = Inr y \<longleftrightarrow> g = [] \<and> y = x"
  by (cases g) auto

lemma threeWaySplit_Inr:
  assumes "(threeWaySplit h gid st :: 's failure + _) = Inr st'" and len: "length (to_original_group_id st) = length (groups st)"
  shows "gid < length (groups st)"
    "st' = (split_failed h [gid] st)\<lparr>groups_bch_failed := groups_bch_failed st\<rparr>"
proof -
  let ?c = "num_groups_when_bch_fail st"
  from assms(1) show gid: "gid < length (groups st)"
    using len by (auto simp: threeWaySplit_def Let_def bind_ok_eq_Inr vec_get_eq_Inr)
  show "st' = (split_failed h [gid] st)\<lparr>groups_bch_failed := groups_bch_failed st\<rparr>"
  proof (cases "?c = 0")
    case True
    with assms gid show ?thesis
      by (auto simp: threeWaySplit_def Let_def bind_ok_eq_Inr vec_get_eq_Inr resize_def nth_append
          split_failed_def split_group_def fold_ok_fail)
  next
    case False
    have gid': "gid < length (to_original_group_id st)" using gid len by simp
    have "resize (length (groups st) + ?c) [] (groups st) = groups st @ replicate ?c []"
      by (simp add: resize_grow)
    moreover have "map (\<lambda>i. replicate ?c [] ! i @ filter (\<lambda>e. split_index h st e = i) g) [0..<?c] = split_group h st g" for g
      by (simp add: split_group_def)
    ultimately have "(threeWaySplit h gid st :: 's failure + _) = Inr ((split_failed h [gid] st)\<lparr>groups_bch_failed := groups_bch_failed st\<rparr>)"
      using False gid gid' split_fold [of ?c st "replicate ?c []" "groups st" h "groups st ! gid", where 's = 's]
      by (simp add: threeWaySplit_def Let_def ok_simps nth_append split_failed_def resize_grow)
    with assms(1) show ?thesis by simp
  qed
qed

text \<open>
  Within an operation the vectors only grow, and new groups stem from old ones.
\<close>

definition grown :: "hash_fn \<Rightarrow> 'sk pbs_sketch \<Rightarrow> 'sk pbs_sketch \<Rightarrow> bool" where
  "grown h st0 st \<longleftrightarrow>
     group_partition_seed st = group_partition_seed st0 \<and> bch_n st = bch_n st0 \<and> num_groups st = num_groups st0 \<and>
     num_groups_remaining st = num_groups_remaining st0 \<and> role st = role st0 \<and> round_count st = round_count st0 \<and>
     placed h st \<and> sized st \<and> set (to_original_group_id st) \<subseteq> set (to_original_group_id st0)"

lemma placed_group:
  "placed h st \<Longrightarrow> i < length (groups st) \<Longrightarrow> e \<in> set (groups st ! i) \<Longrightarrow> group_of h st e = to_original_group_id st ! i"
  by (simp add: placed_def)

text \<open>Appending groups whose elements belong where the appended ids say.\<close>

lemma placed_append:
  assumes "placed h st" "group_of h st' = group_of h st"
    and "groups st' = gs @ new" "length gs = length (groups st)"
      "\<And>i. i < length (groups st) \<Longrightarrow> set (gs ! i) \<subseteq> set (groups st ! i)"
    and "to_original_group_id st' = to_original_group_id st @ ids" "length ids = length new"
    and "\<And>i e. i < length new \<Longrightarrow> e \<in> set (new ! i) \<Longrightarrow> group_of h st e = ids ! i"
  shows "placed h st'"
  using assms by (fastforce simp: placed_def nth_append)

lemma grown_split:
  assumes g: "grown h st0 st" and s: "(threeWaySplit h gid st :: 's failure + _) = Inr st'"
  shows "grown h st0 st'" "recovered st' = recovered st" "groups_bch_failed st' = groups_bch_failed st"
proof -
  let ?c = "num_groups_when_bch_fail st"
  have pl: "placed h st" and len: "length (to_original_group_id st) = length (groups st)"
    using g by (auto simp: grown_def placed_def)
  note i = threeWaySplit_Inr [OF s len]
  show "recovered st' = recovered st" "groups_bch_failed st' = groups_bch_failed st" using i(2) by simp_all
  have g': "groups st' = groups st @ split_group h st (groups st ! gid)"
      "to_original_group_id st' = to_original_group_id st @ replicate ?c (to_original_group_id st ! gid)"
    using i(2) by (simp_all add: split_failed_def Let_def)
  have f: "group_of h st' = group_of h st" using i(2) by (simp add: group_of_def fun_eq_iff split_failed_def Let_def)
  have "placed h st'"
  proof (rule placed_append [OF pl f g'(1) refl _ g'(2)])
    show "group_of h st e = replicate ?c (to_original_group_id st ! gid) ! i"
      if "i < length (split_group h st (groups st ! gid))" "e \<in> set (split_group h st (groups st ! gid) ! i)" for i e
      using that placed_group [OF pl i(1), of e] by (auto simp: split_group_def)
  qed simp_all
  moreover have "sized st'"
    using g i(2) by (auto simp: grown_def sized_def split_failed_def Let_def algebra_simps)
  moreover have "set (to_original_group_id st') \<subseteq> set (to_original_group_id st0)"
    using g i(1) len by (auto simp: g'(2) grown_def)
  ultimately show "grown h st0 st'" using g i(2) by (simp add: grown_def split_failed_def Let_def)
qed

lemma check_fold_Inr:
  assumes "(fold_ok (check_element h gid msg a_xor offset st) ks ([], c) :: 's failure + _) = Inr (rec, c')" "x \<in> set rec"
  shows "group_of h st x = to_original_group_id st ! gid"
proof -
  have "\<forall>x \<in> set (fst (rec, c')). group_of h st x = to_original_group_id st ! gid"
    using assms(1)
  proof (rule fold_ok_preserves)
    fix k s s'
    assume "(check_element h gid msg a_xor offset st k s :: 's failure + _) = Inr s'"
      and P: "\<forall>x \<in> set (fst s). group_of h st x = to_original_group_id st ! gid"
    then show "\<forall>x \<in> set (fst s'). group_of h st x = to_original_group_id st ! gid"
      by (cases s) (auto simp: check_element_def Let_def bind_ok_eq_Inr vec_get_eq_Inr split: if_splits dest!: getGroupId_Inr)
  qed simp
  with assms(2) show ?thesis by simp
qed

text \<open>What a check that succeeds does to the state: it records \<open>rec\<close>; if the checksum is wrong, the group moves.\<close>

definition after_check :: "nat \<Rightarrow> u64 \<Rightarrow> u64 list \<Rightarrow> u64 \<Rightarrow> 'sk pbs_sketch \<Rightarrow> 'sk pbs_sketch" where
  "after_check gid checksum rec b st =
     (let r = unat (round_count st); st1 = st\<lparr>recovered := (recovered st)[r := recovered st ! r @ rec]\<rparr>
      in if checksum \<noteq> b then st1\<lparr>groups := (groups st)[gid := []] @ [groups st ! gid @ rec],
             to_original_group_id := to_original_group_id st @ [to_original_group_id st ! gid],
             xors := resize (length (xors st) + bch_n st) 0 (xors st), checksums := checksums st @ [0],
             groups_exp_I_or_II := groups_exp_I_or_II st @ [gid]\<rparr> else st1)"

lemma doDecodeCheck_Inr:
  assumes s: "(doDecodeCheck h gid p msg a_xor offset checksum st :: 's failure + _) = Inr st'"
    and len: "length (to_original_group_id st) = length (groups st)" and sz: "sized st"
  obtains c rec b where "gid < length (groups st)" "unat (round_count st) < length (recovered st)"
    "(fold_ok (check_element h gid msg a_xor offset st) [0..<p] ([], c) :: 's failure + _) = Inr (rec, b)"
    "st' = after_check gid checksum rec b st"
proof -
  let ?r = "unat (round_count st)"
  from s obtain c where c: "vec_get (checksums st) gid = (Inr c :: 's failure + _)"
    and s1: "bind_ok (fold_ok (check_element h gid msg a_xor offset st) [0..<p] ([], c)) (\<lambda>(rec, b_checksum).
     bind_ok (vec_get (recovered st) ?r) (\<lambda>r.
     let st1 = st\<lparr>recovered := (recovered st)[?r := r @ rec]\<rparr>
     in if checksum \<noteq> b_checksum
        then bind_ok (vec_get (groups st1) gid) (\<lambda>g.
             bind_ok (vec_get (to_original_group_id st1) gid) (\<lambda>orig.
               Inr (st1\<lparr>groups := (groups st1)[gid := []] @ [g @ rec],
                        to_original_group_id := to_original_group_id st1 @ [orig],
                        xors := resize (length (xors st1) + bch_n st1) 0 (xors st1),
                        checksums := checksums st1 @ [0],
                        groups_exp_I_or_II := groups_exp_I_or_II st1 @ [gid]\<rparr>)))
        else Inr st1)) = (Inr st' :: 's failure + _)"
    unfolding doDecodeCheck_def by (rule bind_ok_InrE)
  from s1 obtain rb where rb: "(fold_ok (check_element h gid msg a_xor offset st) [0..<p] ([], c) :: 's failure + _) = Inr rb"
    by (rule bind_ok_InrE)
  obtain rec b where [simp]: "rb = (rec, b)" by (cases rb)
  from s1 rb have s2: "bind_ok (vec_get (recovered st) ?r) (\<lambda>r. Inr (after_check gid checksum rec b st)) = (Inr st' :: 's failure + _)"
    by (cases "?r < length (recovered st)"; cases "gid < length (groups st)"; cases "gid < length (to_original_group_id st)")
      (auto simp: Let_def vec_get_def after_check_def split: if_splits)
  have st: "gid < length (checksums st)" "?r < length (recovered st)"
      "(fold_ok (check_element h gid msg a_xor offset st) [0..<p] ([], c) :: 's failure + _) = Inr (rec, b)"
      "st' = after_check gid checksum rec b st"
    using c rb s2 by (auto simp: vec_get_eq_Inr bind_ok_eq_Inr)
  have gid: "gid < length (groups st)" using st(1) sz by (simp add: sized_def)
  from that [OF gid st(2-4)] show ?thesis .
qed

lemma grown_check:
  assumes g: "grown h st0 st" and s: "(doDecodeCheck h gid p msg a_xor offset checksum st :: 's failure + _) = Inr st'"
  shows "grown h st0 st'" "groups_bch_failed st' = groups_bch_failed st"
    "\<exists>rec. unat (round_count st) < length (recovered st) \<and> gid < length (groups st) \<and>
       recovered st' = (recovered st)[unat (round_count st) := recovered st ! unat (round_count st) @ rec] \<and>
       (\<forall>x \<in> set rec. group_of h st x = to_original_group_id st ! gid)"
proof -
  let ?r = "unat (round_count st)"
  have pl: "placed h st" and len: "length (to_original_group_id st) = length (groups st)" and sz: "sized st"
    using g by (auto simp: grown_def placed_def)
  obtain c rec b where gid: "gid < length (groups st)" and st: "?r < length (recovered st)"
      "(fold_ok (check_element h gid msg a_xor offset st) [0..<p] ([], c) :: 's failure + _) = Inr (rec, b)"
      "st' = after_check gid checksum rec b st"
    using doDecodeCheck_Inr [OF s len sz] .
  note rec = check_fold_Inr [OF st(2)]
  show "groups_bch_failed st' = groups_bch_failed st" using st(3) by (simp add: after_check_def Let_def)
  show "\<exists>rec. ?r < length (recovered st) \<and> gid < length (groups st) \<and>
       recovered st' = (recovered st)[?r := recovered st ! ?r @ rec] \<and>
       (\<forall>x \<in> set rec. group_of h st x = to_original_group_id st ! gid)"
    using st(1,3) gid rec by (intro exI [of _ rec]) (simp add: after_check_def Let_def)
  have f: "group_of h st' = group_of h st" using st(3) by (simp add: group_of_def fun_eq_iff after_check_def Let_def)
  have "placed h st'"
  proof (cases "checksum = b")
    case True
    then show ?thesis using pl st(3) by (simp add: placed_def group_of_def after_check_def Let_def)
  next
    case False
    show ?thesis
    proof (rule placed_append [OF pl f])
      show "groups st' = (groups st)[gid := []] @ [groups st ! gid @ rec]" using st(3) False by (simp add: after_check_def Let_def)
      show "to_original_group_id st' = to_original_group_id st @ [to_original_group_id st ! gid]"
        using st(3) False by (simp add: after_check_def Let_def)
      show "group_of h st e = [to_original_group_id st ! gid] ! i"
        if "i < length [groups st ! gid @ rec]" "e \<in> set ([groups st ! gid @ rec] ! i)" for i e
        using that rec placed_group [OF pl gid] by auto
    qed (use gid in \<open>auto simp: nth_list_update split: if_splits\<close>)
  qed
  moreover have "sized st'" using sz st(3) by (auto simp: sized_def after_check_def Let_def)
  moreover have "set (to_original_group_id st') \<subseteq> set (to_original_group_id st0)"
    using g gid len st(3) by (auto simp: grown_def after_check_def Let_def)
  moreover have "group_partition_seed st' = group_partition_seed st" "bch_n st' = bch_n st" "num_groups st' = num_groups st"
      "num_groups_remaining st' = num_groups_remaining st" "role st' = role st" "round_count st' = round_count st"
    using st(3) by (simp_all add: after_check_def Let_def)
  ultimately show "grown h st0 st'" using g by (simp add: grown_def)
qed

text \<open>Encoding leaves everything but the sums as it is.\<close>

lemma doEncode_element_core:
  assumes "(doEncode_element h gid e x :: 's failure + _) = Inr x'"
  shows "core (snd x') = core (snd x)"
  using assms by (cases x) (auto simp: doEncode_element_def bind_ok_eq_Inr core_def)

lemma doEncode_core:
  assumes "(doEncode api h gid p st :: 's failure + _) = Inr (p', st')"
  shows "core st' = core st"
proof -
  obtain g bm where f: "(fold_ok (doEncode_element h gid) g (replicate (bch_n st) 0, st) :: 's failure + _) = Inr (bm, st')"
    using assms by (auto simp: doEncode_def bind_ok_eq_Inr)
  have "core (snd (bm, st')) = core st"
    using f by (rule fold_ok_preserves) (simp_all add: doEncode_element_core)
  then show ?thesis by simp
qed

lemma encode_groups_core:
  assumes "(encode_groups api h msg st :: 's failure + _) = Inr (msg', st')"
  shows "core st' = core st"
proof -
  obtain st1 where f: "(fold_ok (encode_group api h) [0..<num_groups_remaining st] (msg, st) :: 's failure + _) = Inr (msg', st1)"
      "st' = st1\<lparr>pbs_encoding := Some msg'\<rparr>"
    using assms by (auto simp: encode_groups_def bind_ok_eq_Inr)
  have "core (snd (msg', st1)) = core st"
    using f(1)
  proof (rule fold_ok_preserves)
    fix gid x x'
    assume s: "(encode_group api h gid x :: 's failure + _) = Inr x'" and P: "core (snd x) = core st"
    then obtain p where "(doEncode api h gid (getSketch (fst x) gid) (snd x) :: 's failure + _) = Inr (p, snd x')"
      by (cases x) (auto simp: encode_group_def bind_ok_eq_Inr)
    with P show "core (snd x') = core st" using doEncode_core by metis
  qed simp
  with f(2) show ?thesis by (simp add: core_def)
qed

text \<open>Dropping the finished groups keeps the invariant.\<close>

lemma removeCompletedGroups_Inr:
  assumes g: "grown h st0 st" and s: "(removeCompletedGroups st :: 's failure + _) = Inr st'"
  shows "placed h st'" "sized st'" "num_groups_remaining st' = length (groups st')"
    "set (to_original_group_id st') \<subseteq> set (to_original_group_id st0)"
    "role st' = role st" "round_count st' = round_count st" "recovered st' = recovered st" "num_groups st' = num_groups st"
    "group_of h st' = group_of h st" "groups_bch_failed st' = groups_bch_failed st"
proof -
  let ?k = "num_groups_remaining st"
  have pl: "placed h st" and sz: "sized st" using g by (auto simp: grown_def)
  have st': "st' = st\<lparr>hint_max_range := (if role st = Alice then ?k else hint_max_range st),
      groups := drop ?k (groups st), xors := drop (bch_n st * ?k) (xors st), checksums := drop ?k (checksums st),
      to_original_group_id := drop ?k (to_original_group_id st), num_groups_remaining := length (groups st) - ?k\<rparr>"
    using s by (auto simp: removeCompletedGroups_def Let_def split: if_splits)
  show "num_groups_remaining st' = length (groups st')" "role st' = role st" "round_count st' = round_count st"
    "recovered st' = recovered st" "num_groups st' = num_groups st" "groups_bch_failed st' = groups_bch_failed st"
    by (simp_all add: st')
  show "group_of h st' = group_of h st" by (simp add: st' group_of_def fun_eq_iff)
  show "placed h st'" using pl by (auto simp: st' placed_def group_of_def)
  show "sized st'" using sz by (simp add: st' sized_def diff_mult_distrib2 mult.commute)
  show "set (to_original_group_id st') \<subseteq> set (to_original_group_id st0)"
    using g set_drop_subset [of ?k "to_original_group_id st"] by (auto simp: st' grown_def)
qed

section \<open>Every operation preserves the invariant\<close>

lemma inv_grown: "sketch_inv h st \<Longrightarrow> grown h st st"
  by (simp add: grown_def sketch_inv_def)

lemma add_inv:
  assumes inv: "sketch_inv h st" and r: "role st = Undetermined" and s: "(add h e st :: 's failure + _) = Inr st'"
  shows "sketch_inv h st'"
proof -
  let ?g = "group_of h st e"
  have g: "?g < num_groups st" "?g < length (groups st)" "st' = st\<lparr>groups := (groups st)[?g := groups st ! ?g @ [e]]\<rparr>"
    using s by (auto simp: add_def bind_ok_eq_Inr vec_get_eq_Inr dest!: getGroupId_Inr)
  have "to_original_group_id st ! ?g = ?g" using inv r g(1) by (simp add: sketch_inv_def)
  moreover have "group_of h st' = group_of h st" by (simp add: g(3) group_of_def fun_eq_iff)
  ultimately have "placed h st'"
    using inv g by (auto simp: sketch_inv_def placed_def nth_list_update)
  then show ?thesis
    using inv g(3) by (auto simp: sketch_inv_def sized_def recorded_ok_def rounds_ok_def group_of_def)
qed

lemma encode_inv:
  assumes inv: "sketch_inv h st" and s: "encode api h st = Inr (r, st')"
  shows "sketch_inv h st'"
proof -
  obtain msg st1 where e: "(encode_groups api h
       (PbsEncodingMessage api (of_nat (bch_m st)) (of_nat (bch_t st)) (of_nat (num_groups_remaining st))) st
       :: 'a pbs_sketch failure + _) = Inr (msg, st1)"
      "st' = st1 \<or> st' = st1\<lparr>groups_exp_I_or_II := []\<rparr>"
    using s by (auto simp: encode_def bind_ok_eq_Inr split: if_splits)
  have "core st' = core st1" using e(2) by (auto simp: core_def)
  then have "core st' = core st" using encode_groups_core [OF e(1)] by simp
  then show ?thesis using inv core_cong by blast
qed

lemma grown_update [simp]:
  "grown h st0 (st\<lparr>groups_bch_failed := x\<rparr>) = grown h st0 st"
  "grown h st0 (st\<lparr>groups_exp_I_or_II := x\<rparr>) = grown h st0 st"
  by (simp_all add: grown_def placed_def sized_def group_of_def)

text \<open>A state that differs in bookkeeping fields only, as the start of an operation.\<close>

lemma grown_start:
  assumes "sketch_inv h st"
  shows "grown h (st\<lparr>hint_max_range := m, role := r, pbs_encoding := e, pbs_decoding := d\<rparr>)
      (st\<lparr>hint_max_range := m, role := r, pbs_encoding := e, pbs_decoding := d\<rparr>)"
    and "grown h (st\<lparr>role := r, recovered := rc, groups_bch_failed := f\<rparr>)
      (st\<lparr>role := r, recovered := rc, groups_bch_failed := f\<rparr>)"
  using assms by (simp_all add: sketch_inv_def grown_def placed_def sized_def group_of_def)

lemma decode_inv:
  assumes inv: "sketch_inv h st" and s: "decode api h other st = Inr (r, st')"
  shows "sketch_inv h st'" "role st' = Bob"
proof -
  have role: "role st \<noteq> Alice" using s by (auto simp: decode_def)
  then have rec: "recovered st = []" using inv by (cases "role st") (auto simp: sketch_inv_def rounds_ok_def)
  obtain msg enc offset xs cs st1 st2 where st1: "st1 = st\<lparr>hint_max_range := num_groups_remaining st, role := Bob,
        pbs_encoding := Some enc, pbs_decoding := Some msg\<rparr>"
    and f: "(fold_ok (decode_group h msg) [0..<length (decoded_num_differences msg)] (0, [], [], st1)
       :: 'a pbs_sketch failure + _) = Inr (offset, xs, cs, st2)"
    and st': "st' = st2\<lparr>round_count := round_count st2 + 1\<rparr>"
    using s role by (auto simp: decode_def Let_def bind_ok_eq_Inr split: option.splits)
  have "grown h st1 (snd (snd (snd (offset, xs, cs, st2)))) \<and> recovered (snd (snd (snd (offset, xs, cs, st2)))) = []"
    using f
  proof (rule fold_ok_preserves)
    show "grown h st1 (snd (snd (snd (0, [], [], st1)))) \<and> recovered (snd (snd (snd (0, [], [], st1)))) = []"
      using grown_start(1) [OF inv] rec by (simp add: st1)
  next
    fix gid x x'
    assume d: "(decode_group h msg gid x :: 'a pbs_sketch failure + _) = Inr x'"
      and P: "grown h st1 (snd (snd (snd x))) \<and> recovered (snd (snd (snd x))) = []"
    obtain o1 x1 c1 s1 where x: "x = (o1, x1, c1, s1)" by (cases x)
    show "grown h st1 (snd (snd (snd x'))) \<and> recovered (snd (snd (snd x'))) = []"
    proof (cases "0 \<le> decoded_num_differences msg ! gid")
      case True
      with d P show ?thesis by (auto simp: x decode_group_def Let_def bind_ok_eq_Inr)
    next
      case False
      with d obtain s2 where s2: "(threeWaySplit h gid (s1\<lparr>groups_bch_failed := groups_bch_failed s1 @ [gid]\<rparr>) :: 'a pbs_sketch failure + _) = Inr s2"
          "x' = (o1, x1, c1, s2)"
        by (auto simp: x decode_group_def Let_def bind_ok_eq_Inr)
      from grown_split [OF _ s2(1)] P s2(2) x show ?thesis by auto
    qed
  qed
  then have g: "grown h st1 st2" "recovered st2 = []" by simp_all
  then show "role st' = Bob" by (simp add: st' grown_def st1)
  with g inv show "sketch_inv h st'"
    by (auto simp: st' st1 sketch_inv_def grown_def placed_def sized_def recorded_ok_def rounds_ok_def group_of_def)
qed

definition all_in_range :: "hash_fn \<Rightarrow> 'sk pbs_sketch \<Rightarrow> bool" where
  "all_in_range h st \<longleftrightarrow> (\<forall>r \<in> set (recovered st). \<forall>x \<in> set r. group_of h st x < num_groups st)"

text \<open>Alice's state \<open>x\<close> while she checks the answer to \<open>one\<close>, with \<open>n\<close> rounds recorded.\<close>

definition in_check :: "hash_fn \<Rightarrow> 'sk pbs_sketch \<Rightarrow> nat \<Rightarrow> 'sk pbs_sketch \<Rightarrow> bool" where
  "in_check h one n x \<longleftrightarrow> grown h one x \<and> length (recovered x) = n \<and> all_in_range h x"

lemma in_check_update [simp]:
  "in_check h one n (x\<lparr>groups_exp_I_or_II := ids\<rparr>) = in_check h one n x"
  by (simp add: in_check_def all_in_range_def group_of_def)

lemma failed_group_in_check:
  assumes d: "(failed_group h msg gid (y1, y2, x) :: 'sk pbs_sketch failure + _) = Inr (z1, z2, x')" and P: "in_check h one n x"
  shows "in_check h one n x'"
proof (cases "gid < length (decoded_num_differences msg) \<and> decoded_num_differences msg ! gid < 0")
  case True
  with d have s: "(threeWaySplit h gid (x\<lparr>groups_bch_failed := groups_bch_failed x @ [gid]\<rparr>) :: 'sk pbs_sketch failure + _) = Inr x'"
    by (auto simp: failed_group_def bind_ok_eq_Inr ok_simps)
  from P have "grown h one (x\<lparr>groups_bch_failed := groups_bch_failed x @ [gid]\<rparr>)" by (simp add: in_check_def)
  from grown_split [OF this s] P show ?thesis by (auto simp: in_check_def all_in_range_def grown_def group_of_def)
next
  case False
  with d P show ?thesis by (auto simp: failed_group_def bind_ok_eq_Inr vec_get_eq_Inr split: if_splits)
qed

lemma checked_group_in_check:
  assumes d: "(checked_group h msg in_xors in_checksums gid (off, cid, x) :: 'sk pbs_sketch failure + _) = Inr (z1, z2, x')"
    and P: "in_check h one n x"
    and ids: "\<forall>i\<in>set (to_original_group_id one). i < num_groups one"
  shows "in_check h one n x'"
proof (cases "gid < length (decoded_num_differences msg) \<and> 0 \<le> decoded_num_differences msg ! gid")
  case True
  with d obtain c where s: "(doDecodeCheck h gid (nat (decoded_num_differences msg ! gid)) msg in_xors off c x :: 'sk pbs_sketch failure + _) = Inr x'"
    by (auto simp: checked_group_def bind_ok_eq_Inr ok_simps)
  from P have g: "grown h one x" by (simp add: in_check_def)
  note c = grown_check [OF g s]
  from c(3) obtain rec where rec: "recovered x' = (recovered x)[unat (round_count x) := recovered x ! unat (round_count x) @ rec]"
      "unat (round_count x) < length (recovered x)" "gid < length (groups x)"
      "\<forall>e \<in> set rec. group_of h x e = to_original_group_id x ! gid" by blast
  have f: "group_of h x' = group_of h x" "num_groups x' = num_groups x"
    using c(1) g by (simp_all add: grown_def group_of_def fun_eq_iff)
  have "to_original_group_id x ! gid \<in> set (to_original_group_id one)" "num_groups x = num_groups one"
    using g rec(3) by (auto simp: grown_def placed_def)
  then have "to_original_group_id x ! gid < num_groups x" using ids by simp
  moreover have "set (recovered x') \<subseteq> insert (recovered x ! unat (round_count x) @ rec) (set (recovered x))"
    unfolding rec(1) by (rule set_update_subset_insert)
  ultimately have "all_in_range h x'"
    using P rec(2,4) f nth_mem [OF rec(2)] by (fastforce simp: in_check_def all_in_range_def)
  then show ?thesis using c(1) P rec(1) by (simp add: in_check_def)
next
  case False
  with d P show ?thesis by (auto simp: checked_group_def bind_ok_eq_Inr vec_get_eq_Inr split: if_splits)
qed

lemma in_check_loop:
  assumes "(fold_ok f gids (y1, y2, x) :: 'sk pbs_sketch failure + _) = Inr (z1, z2, x')" "in_check h one n x"
    and "\<And>gid y1 y2 x z1 z2 x'. f gid (y1, y2, x) = Inr (z1, z2, x') \<Longrightarrow> in_check h one n x \<Longrightarrow> in_check h one n x'"
  shows "in_check h one n x'"
proof -
  have "in_check h one n (snd (snd (z1, z2, x')))"
    using assms(1)
  proof (rule fold_ok_preserves)
    show "in_check h one n (snd (snd (y1, y2, x)))" using assms(2) by simp
  next
    fix gid a a' assume "f gid a = Inr a'" "in_check h one n (snd (snd a))"
    then show "in_check h one n (snd (snd a'))" using assms(3) by (cases a; cases a') auto
  qed
  then show ?thesis by simp
qed

text \<open>The end of the check: completed groups go, the round is counted.\<close>

lemma checked_inv:
  assumes inv: "sketch_inv h st" and role: "role st \<noteq> Bob"
    and I: "in_check h (st\<lparr>role := Alice, recovered := recovered st @ [[]], groups_bch_failed := []\<rparr>) (Suc (length (recovered st))) x"
    and rm: "(removeCompletedGroups x :: 'sk pbs_sketch failure + _) = Inr x'"
  shows "sketch_inv h (x'\<lparr>round_count := round_count x' + 1\<rparr>)" "role x' = Alice" "num_groups_remaining x' = 0 \<longleftrightarrow> groups x' = []"
proof -
  let ?y = "x'\<lparr>round_count := round_count x' + 1\<rparr>"
  have g: "grown h (st\<lparr>role := Alice, recovered := recovered st @ [[]], groups_bch_failed := []\<rparr>) x"
    "length (recovered x) = Suc (length (recovered st))" "all_in_range h x"
    using I by (simp_all add: in_check_def)
  note r = removeCompletedGroups_Inr [OF g(1) rm]
  have x: "role x = Alice" "round_count x = round_count st" "num_groups x = num_groups st"
    using g(1) by (simp_all add: grown_def)
  then show alice: "role x' = Alice" using r(5) by simp
  show "num_groups_remaining x' = 0 \<longleftrightarrow> groups x' = []" using r(3) by simp
  have "round_count st = of_nat (length (recovered st))"
    using inv role by (cases "role st") (auto simp: sketch_inv_def rounds_ok_def)
  then have "rounds_ok ?y" using r x g(2) by (simp add: rounds_ok_def)
  moreover have f: "group_of h ?y = group_of h x" using r(9) by (simp add: group_of_def fun_eq_iff)
  moreover have "recorded_ok h ?y"
  proof -
    have "recovered ?y = recovered x" "num_groups ?y = num_groups st" using r x by simp_all
    then show ?thesis using g(3) r(4) x f inv by (auto simp: recorded_ok_def all_in_range_def sketch_inv_def)
  qed
  moreover have "placed h ?y" "sized ?y"
    using r(1,2) by (simp_all add: placed_def sized_def group_of_def)
  ultimately show "sketch_inv h ?y"
    using alice by (simp add: sketch_inv_def)
qed

lemma decodeCheck_inv:
  assumes inv: "sketch_inv h st" and s: "decodeCheck h msg in_xors in_checksums st = Inr (b, st')"
  shows "sketch_inv h st'" "role st' = Alice" "b \<longleftrightarrow> groups st' = []"
proof -
  have role: "role st \<noteq> Bob" using s by (auto simp: decodeCheck_def)
  let ?one = "st\<lparr>role := Alice, recovered := recovered st @ [[]], groups_bch_failed := []\<rparr>"
  let ?I = "in_check h ?one (Suc (length (recovered st)))"
  obtain a1 a2 st2 b1 b2 st3 st4 where
      f1: "(fold_ok (failed_group h msg) [0..<dec_num_groups msg] (0, 0, ?one) :: 'a pbs_sketch failure + _) = Inr (a1, a2, st2)"
    and f2: "(fold_ok (checked_group h msg in_xors in_checksums) [0..<dec_num_groups msg] (0, 0, st2\<lparr>groups_exp_I_or_II := []\<rparr>)
       :: 'a pbs_sketch failure + _) = Inr (b1, b2, st3)"
    and rm: "(removeCompletedGroups st3 :: 'a pbs_sketch failure + _) = Inr st4"
    and st': "st' = st4\<lparr>round_count := round_count st4 + 1\<rparr>" "b = (num_groups_remaining st4 = 0)"
    using s role by (auto simp: decodeCheck_def Let_def bind_ok_eq_Inr split: if_splits)
  have ids: "\<forall>i\<in>set (to_original_group_id ?one). i < num_groups ?one"
    using inv by (auto simp: sketch_inv_def recorded_ok_def)
  have "?I ?one"
    using grown_start(2) [OF inv] inv by (auto simp: in_check_def all_in_range_def sketch_inv_def recorded_ok_def group_of_def)
  with f1 have "?I st2" by (rule in_check_loop) (rule failed_group_in_check)
  then have "?I (st2\<lparr>groups_exp_I_or_II := []\<rparr>)" by simp
  with f2 have "?I st3" by (rule in_check_loop) (rule checked_group_in_check [OF _ _ ids])
  from checked_inv [OF inv role this rm] show "sketch_inv h st'" "role st' = Alice" "b \<longleftrightarrow> groups st' = []"
    by (simp_all add: st')
qed

lemma move_groups_Inr:
  assumes "fold_ok move_group ids x = Inr x'" "placed h x"
  shows "placed h x' \<and> length (groups x') = length (groups x) + length ids \<and>
    set (to_original_group_id x') \<subseteq> set (to_original_group_id x) \<and>
    (\<exists>gs os. x' = x\<lparr>groups := gs, to_original_group_id := os\<rparr>)"
  using assms
proof (induction ids arbitrary: x)
  case Nil
  moreover have "\<exists>gs os. x = x\<lparr>groups := gs, to_original_group_id := os\<rparr>"
    by (intro exI [of _ "groups x"] exI [of _ "to_original_group_id x"]) simp
  ultimately show ?case by simp
next
  case (Cons a ids)
  let ?a = "unat a"
  obtain y where y: "move_group a x = Inr y" "fold_ok move_group ids y = Inr x'"
    using Cons.prems(1) by (auto simp: bind_ok_eq_Inr)
  have len: "length (to_original_group_id x) = length (groups x)" using Cons.prems(2) by (simp add: placed_def)
  have a: "?a < length (groups x)"
    and ye: "y = x\<lparr>groups := (groups x)[?a := []] @ [groups x ! ?a],
      to_original_group_id := to_original_group_id x @ [to_original_group_id x ! ?a]\<rparr>"
    using y(1) by (auto simp: move_group_def bind_ok_eq_Inr vec_get_eq_Inr split: if_splits)
  have "placed h y"
  proof (rule placed_append [OF Cons.prems(2)])
    show "groups y = (groups x)[?a := []] @ [groups x ! ?a]"
      "to_original_group_id y = to_original_group_id x @ [to_original_group_id x ! ?a]" by (simp_all add: ye)
    show "group_of h y = group_of h x" by (simp add: ye group_of_def fun_eq_iff)
    show "group_of h x e = [to_original_group_id x ! ?a] ! i"
      if "i < length [groups x ! ?a]" "e \<in> set ([groups x ! ?a] ! i)" for i e
      using that placed_group [OF Cons.prems(2) a] by auto
  qed (use a in \<open>auto simp: nth_list_update split: if_splits\<close>)
  from Cons.IH [OF y(2) this] show ?case using a len by (auto simp: ye)
qed

lemma encodeWithHint_inv:
  assumes inv: "sketch_inv h st" and s: "encodeWithHint api h ids st = Inr (msg, st')"
  shows "sketch_inv h st'" "role st' = Bob"
    "num_groups_remaining st' = length ids + length (groups_bch_failed st) * num_groups_when_bch_fail st"
proof -
  let ?num = "length ids + length (groups_bch_failed st) * num_groups_when_bch_fail st"
  have role: "role st = Bob" using s by (auto simp: encodeWithHint_def split: if_splits)
  obtain st1 st2 st3 m where st1: "st1 = st\<lparr>pbs_encoding := Some m,
                     xors := resize (length (xors st) + length ids * bch_n st) 0 (xors st),
                     checksums := resize (length (checksums st) + length ids) 0 (checksums st)\<rparr>"
    and f: "fold_ok move_group ids st1 = Inr st2"
    and rm: "(removeCompletedGroups (st2\<lparr>groups_bch_failed := []\<rparr>) :: 'a pbs_sketch failure + _) = Inr st3"
    and num: "?num = num_groups_remaining st3"
    and e: "(encode_groups api h m st3 :: 'a pbs_sketch failure + _) = Inr (msg, st')"
    using s role by (auto simp: encodeWithHint_def Let_def bind_ok_eq_Inr split: if_splits)
  have pl: "placed h st1" using inv by (simp add: st1 sketch_inv_def placed_def group_of_def)
  from move_groups_Inr [OF f pl] obtain gs os where st2: "st2 = st1\<lparr>groups := gs, to_original_group_id := os\<rparr>"
    and pl2: "placed h st2" and len: "length gs = length (groups st) + length ids"
    and sub: "set os \<subseteq> set (to_original_group_id st)"
    by (auto simp: st1)
  let ?st2 = "st2\<lparr>groups_bch_failed := []\<rparr>"
  have "sized st2" using inv by (auto simp: sketch_inv_def sized_def st2 st1 len resize_def algebra_simps)
  then have "sized ?st2" "placed h ?st2" using pl2 by (simp_all add: sized_def placed_def group_of_def)
  then have g: "grown h ?st2 ?st2" by (simp add: grown_def)
  note r = removeCompletedGroups_Inr [OF g rm]
  have c: "core st' = core st3" using encode_groups_core [OF e] .
  have role3: "role st3 = Bob" "recovered st3 = recovered st" "num_groups st3 = num_groups st" "round_count st3 = round_count st"
    using r role by (simp_all add: st2 st1)
  have gr: "group_of h st3 = group_of h st" using r(9) by (simp add: st2 st1 group_of_def fun_eq_iff)
  have "recorded_ok h st3"
    using inv r(4) sub role3 gr by (auto simp: sketch_inv_def recorded_ok_def st2)
  moreover have "rounds_ok st3" using inv role role3 by (simp add: sketch_inv_def rounds_ok_def)
  ultimately have "sketch_inv h st3" using r(1,2) role3 by (simp add: sketch_inv_def)
  then show "sketch_inv h st'" using c core_cong by blast
  show "role st' = Bob" "num_groups_remaining st' = ?num" using c role3 num by (simp_all add: core_def)
qed

lemma ParityBitmapSketch_inv:
  assumes "(ParityBitmapSketch d ng best c seed :: 's failure + 'sk pbs_sketch) = Inr st"
  shows "sketch_inv h st"
proof -
  have "ParityBitmapSketch d ng best c seed = (Inr st :: 's failure + 'sk pbs_sketch) \<Longrightarrow> groups st = replicate ng [] \<and>
      to_original_group_id st = [0..<ng] \<and> num_groups st = ng \<and> num_groups_remaining st = ng \<and> round_count st = 0 \<and>
      role st = Undetermined \<and> checksums st = replicate ng 0 \<and> length (xors st) = ng * bch_n st \<and> recovered st = [] \<and>
      groups_bch_failed st = []"
    by (auto simp: ParityBitmapSketch_def calcBchParams_def bind_ok_eq_Inr resize_def Let_def split: if_splits)
  then show ?thesis
    using assms by (auto simp: sketch_inv_def placed_def sized_def recorded_ok_def rounds_ok_def)
qed

lemma step_inv: "sketch_step api h st st' \<Longrightarrow> sketch_inv h st \<Longrightarrow> sketch_inv h st'"
  by (erule sketch_stepE) (auto dest: add_inv encode_inv decode_inv(1) decodeCheck_inv(1) encodeWithHint_inv(1))

lemma reachable_inv: "sketch_reachable api h st \<Longrightarrow> sketch_inv h st"
  by (induction rule: sketch_reachable.induct) (auto intro: ParityBitmapSketch_inv step_inv)

end
