(* ===== verification/Sketch_Properties.thy ===== *)
theory Sketch_Properties
  imports Reconcile_Session Sketch_Invariant
begin

text \<open>
  What each operation of \<open>ParityBitmapSketch\<close> (\<open>src/pbs.h\<close>) promises, stated over the model of the code and
  derived from the functional equations of the theories below: what \<open>add\<close>, \<open>encode\<close>, \<open>decode\<close> and
  \<open>threeWaySplit_\<close> compute, what every reachable sketch satisfies, and how the operations fail.
\<close>

section \<open>A concrete instance\<close>

text \<open>Sketches of 3-bit elements and capacity 3, and a hash that returns the element.\<close>

definition demo_api :: "(bool list) minisketch_api" where
  "demo_api = bitmap_api 3 3"

definition demo_hash :: hash_fn where
  "demo_hash e s = e"

definition demo_host :: "u64 list \<Rightarrow> (bool list) pbs_sketch" where
  "demo_host es = host_state demo_hash 4 2 (3, 3) 3 0 es"

lemma demo_host_round [simp]: "round_count (demo_host es) = 0"
  by (simp add: demo_host_def)

lemma demo_contract: "ms_contract demo_api 3 3"
  using bitmap_contract [of 3 3] by (simp add: demo_api_def)

lemma demo_setup: "setup_ok demo_api 2 (3, 3) 3"
  using demo_contract by (simp add: setup_ok_def)

lemma demo_ideal: "ideal_sets demo_hash 2 (3, 3) 0 [1, 2, 3, 4] [3, 4, 5, 6]"
proof -
  have D: "{x \<in> set [1, 2, 3, 4] \<union> set [3, 4, 5, 6]. (x \<in> set [1, 2, 3, 4]) \<noteq> (x \<in> set [3, 4, 5, 6]) \<and>
      host_group demo_hash 2 0 x = j} = (if j = 0 then {2, 6} else if j = 1 then {1, 5} else {})" for j :: nat
    by (auto simp: host_group_def demo_hash_def)
  show ?thesis
    unfolding ideal_sets_def Let_def D
    by (auto simp: host_bin_def demo_hash_def SEED_OFFSET_def less_2_cases_iff)
qed

lemma demo_ready: "ready demo_api (demo_host as) (demo_host bs)"
  unfolding demo_host_def by (rule host_ready [OF demo_setup])

section \<open>What the operations compute\<close>

text \<open>C23. Building a host: after the constructor and \<open>add\<close> of every element, group \<open>i\<close> holds exactly the
  elements that hash to \<open>i\<close>, in their order, and no element is lost or doubled; everything else is as constructed.\<close>

theorem host_partitions_elements:
  assumes "0 < ng" "2 \<le> m" "m < 32"
  shows "\<exists>st. bind_ok (ParityBitmapSketch d ng (m, t) c seed) (add_all h es) = (Inr st :: 's failure + 'sk pbs_sketch) \<and>
    length (groups st) = ng \<and> (\<forall>i < ng. groups st ! i = filter (\<lambda>e. unat (h e seed) mod ng = i) es) \<and>
    (\<forall>x. count_list (concat (groups st)) x = count_list es x) \<and>
    role st = Undetermined \<and> bch_n st = 2 ^ m - 1 \<and> length (xors st) = ng * bch_n st \<and> set (xors st) \<subseteq> {0}"
  using host_state_built [of ng "(m, t)" d c seed h es] host_state_facts(7) [of ng "(m, t)" h d c seed es] assms
  by (auto simp: host_state_def host_group_def)

theorem host_partitions_elements_witness:
  "\<exists>st. bind_ok (ParityBitmapSketch 4 2 (3, 3) 3 0) (add_all demo_hash [1, 2, 3, 4]) = (Inr st :: unit failure + (bool list) pbs_sketch) \<and>
    length (groups st) = 2 \<and> (\<forall>i < 2. groups st ! i = filter (\<lambda>e. unat (demo_hash e 0) mod 2 = i) [1, 2, 3, 4]) \<and>
    (\<forall>x. count_list (concat (groups st)) x = count_list [1, 2, 3, 4] x) \<and>
    role st = Undetermined \<and> bch_n st = 2 ^ 3 - 1 \<and> length (xors st) = 2 * bch_n st \<and> set (xors st) \<subseteq> {0}"
  by (rule host_partitions_elements) simp_all

text \<open>C20. What \<open>encode\<close> leaves in a fresh host: for every group the sketch holds the bins with an odd number
  of elements, the XOR vector the XOR of the elements of every bin, and the checksum the XOR of all of them; a
  hint message is produced exactly when groups were carried over, and it names them.\<close>

theorem encode_computes:
  fixes st :: "'sk pbs_sketch"
  assumes "wire_ok api st" "fresh st" "\<forall>g \<in> set (groups_exp_I_or_II st). g < hint_max_range st" "hint_max_range st \<le> 2 ^ 32"
  shows "\<exists>msg hint st'. encode api h st = Inr ((msg, hint), st') \<and>
    (\<forall>g < num_groups_remaining st.
       sketches msg ! g = sketch_of api (of_nat (bch_m st)) (bch_t st)
         (map of_nat (filter (\<lambda>k. odd (count_list (map (bin_of h st) (groups st ! g)) k)) [0..<bch_n st])) \<and>
       checksums st' ! g = xor_list (groups st ! g) \<and>
       (\<forall>b < bch_n st. xors st' ! (g * bch_n st + b) = xor_list (filter (\<lambda>e. bin_of h st e = b) (groups st ! g)))) \<and>
    (hint = None \<longleftrightarrow> groups_exp_I_or_II st = []) \<and>
    (\<forall>m. hint = Some m \<longrightarrow> groups_with_exceptions m = map of_nat (groups_exp_I_or_II st)) \<and>
    groups st' = groups st \<and> groups_exp_I_or_II st' = []"
proof -
  note w = wire_okD [OF assms(1)]
  obtain s0 where s0: "ms_create api (of_nat (bch_m st)) 0 (unat (of_nat (bch_t st) :: u32)) = Some s0"
    using ms_created [OF w(6)] w(3) by auto
  note e = encode_eq [OF w(1) assms(2) w(5) s0 assms(3,4), of h]
  have gs: "length (groups st) = num_groups_remaining st" using assms(2) by (simp add: fresh_def)
  have "sketches (encoded_msg api h st) ! g = sketch_of api (of_nat (bch_m st)) (bch_t st)
         (map of_nat (filter (\<lambda>k. odd (count_list (map (bin_of h st) (groups st ! g)) k)) [0..<bch_n st]))"
    if "g < num_groups_remaining st" for g
  proof -
    have "k \<in> odd_bins h st (groups st ! g) \<longleftrightarrow> odd (count_list (map (bin_of h st) (groups st ! g)) k)" for k
      by (simp add: odd_bins_def in_odd_set)
    then show ?thesis
      using that gs w(3) by (simp add: encoded_msg_def group_sketch_def positions_def)
  qed
  moreover have "xors (encoded api h st) ! (g * bch_n st + b) = xor_list (filter (\<lambda>e. bin_of h st e = b) (groups st ! g))"
    if "g < num_groups_remaining st" "b < bch_n st" for g b
  proof -
    have "concat (map (bin_row h st) (groups st)) ! (g * bch_n st + b) = map (bin_row h st) (groups st) ! g ! b"
      by (rule nth_concat_rows) (use that gs in auto)
    then show ?thesis using that gs by (simp add: encoded_def) (simp add: bin_row_def bin_xor_def)
  qed
  ultimately show ?thesis
    using gs by (auto simp: e encode_hint_def encoded_def)
qed

theorem encode_computes_witness:
  "let st = demo_host [1, 2, 3, 4] in \<exists>msg hint st'. encode demo_api demo_hash st = Inr ((msg, hint), st') \<and>
    (\<forall>g < num_groups_remaining st.
       sketches msg ! g = sketch_of demo_api (of_nat (bch_m st)) (bch_t st)
         (map of_nat (filter (\<lambda>k. odd (count_list (map (bin_of demo_hash st) (groups st ! g)) k)) [0..<bch_n st])) \<and>
       checksums st' ! g = xor_list (groups st ! g) \<and>
       (\<forall>b < bch_n st. xors st' ! (g * bch_n st + b) = xor_list (filter (\<lambda>e. bin_of demo_hash st e = b) (groups st ! g)))) \<and>
    (hint = None \<longleftrightarrow> groups_exp_I_or_II st = []) \<and>
    (\<forall>m. hint = Some m \<longrightarrow> groups_with_exceptions m = map of_nat (groups_exp_I_or_II st)) \<and>
    groups st' = groups st \<and> groups_exp_I_or_II st' = []"
  unfolding Let_def by (rule encode_computes) (use demo_ready [of "[1, 2, 3, 4]" "[]"] in \<open>simp_all add: ready_def\<close>)

text \<open>C19. What \<open>decode\<close> answers in step with the other host, group by group: for every group with at most \<open>t\<close>
  differing bins the result is the list of the bins whose two parities differ, all of them and each once,
  whatever happens to the other groups; a group with more gets what minisketch makes of its sketch, nothing
  (the failure flag) or wrong positions, of which it is assumed that they are bins. The message holds
  the numbers and the bins of these results in order, the answer the XORs of the own elements of each bin listed
  and the checksum of each group decoded; the groups that failed, and no others, are recorded as such.\<close>

theorem decode_reports_differing_bins:
  fixes sa sb :: "'sk pbs_sketch"
  assumes r: "ready api sa sb"
    and over: "\<forall>j < num_groups_remaining sa. bch_t sa < card (odd_bins h sa (groups sa ! j @ groups sb ! j)) \<longrightarrow>
      (\<forall>b \<in> set (res_elems (round_results api h sa sb ! j)). unat b < bch_n sa)"
  shows "\<exists>enc hint sa1 msg out_xors out_checksums sb1 res. encode api h sa = Inr ((enc, hint), sa1) \<and>
    decode api h enc (encoded api h sb) = Inr ((msg, out_xors, out_checksums), sb1) \<and>
    length res = num_groups_remaining sa \<and>
    (\<forall>j < num_groups_remaining sa. card (odd_bins h sa (groups sa ! j @ groups sb ! j)) \<le> bch_t sa \<longrightarrow>
       (\<exists>bins. res ! j = Some bins \<and> distinct bins \<and> set bins = of_nat ` odd_bins h sa (groups sa ! j @ groups sb ! j))) \<and>
    decoded_num_differences msg = map res_count res \<and> decoded_differences msg = concat (map res_elems res) \<and>
    out_xors = concat (map (\<lambda>j. map (\<lambda>b. bin_xor h sb (groups sb ! j) (unat b)) (res_elems (res ! j))) [0..<num_groups_remaining sa]) \<and>
    out_checksums = map (\<lambda>j. xor_list (groups sb ! j)) (filter (\<lambda>j. res ! j \<noteq> None) [0..<num_groups_remaining sa]) \<and>
    groups_bch_failed sb1 = filter (\<lambda>j. res ! j = None) [0..<num_groups_remaining sa] \<and> role sb1 = Bob"
proof -
  let ?N = "num_groups_remaining sa" and ?res = "round_results api h sa sb"
  have r1: "wire_ok api sa" "fresh sa" "fresh sb" "same_params sa sb" "groups_bch_failed sb = []" using r by (auto simp: ready_def)
  have N: "length ?res = ?N" "length (groups sb) = ?N" "num_groups_remaining sb = ?N" "length (groups sa) = ?N"
    using round_results_length [OF r1(2-4)] r1 by (auto simp: fresh_def same_params_def)
  have res: "\<exists>xs. ?res ! j = Some xs \<and> distinct xs \<and> set xs = of_nat ` odd_bins h sa (groups sa ! j @ groups sb ! j)"
    if j: "j < ?N" and cap: "card (odd_bins h sa (groups sa ! j @ groups sb ! j)) \<le> bch_t sa" for j
  proof -
    have okb: "wire_ok api sb" using wire_ok_same [OF r1(4)] r1(1) by simp
    have eq: "odd_bins h sb (groups sb ! j @ groups sa ! j) = odd_bins h sa (groups sa ! j @ groups sb ! j)"
      using same_fns(5) [OF r1(4)] by (auto simp: odd_bins_append)
    obtain s s' where s: "group_sketch api h sb (groups sb ! j) = Some s" "group_sketch api h sb (groups sa ! j) = Some s'"
      using group_sketch_Some [OF okb] by metis
    have "bch_t sb = bch_t sa" using r1(4) by (simp add: same_params_def)
    then have "\<exists>xs. ms_decode api (ms_merge api s s') (bch_t sb) = Some xs \<and> distinct xs \<and>
        set xs = of_nat ` odd_bins h sb (groups sb ! j @ groups sa ! j)"
      by (intro decode_exact [OF okb _ s]) (simp add: eq cap)
    moreover have "?res ! j = ms_decode api (ms_merge api s s') (bch_t sb)"
      using j N s same_fns(6) [OF r1(4)] by (simp add: round_results_def merge_decode_def)
    ultimately show ?thesis by (simp add: eq)
  qed
  have "unat b < bch_n sa" if j: "j < ?N" "b \<in> set (res_elems (?res ! j))" for j b
  proof (cases "card (odd_bins h sa (groups sa ! j @ groups sb ! j)) \<le> bch_t sa")
    case True
    with res j obtain k where "k \<in> odd_bins h sa (groups sa ! j @ groups sb ! j)" "b = of_nat k"
      by (fastforce simp: res_elems_def)
    moreover from this have "k < bch_n sa" using odd_bins_range wire_okD(1) [OF r1(1)] by blast
    moreover have "bch_n sa < 2 ^ 64" using params_ok_n(2) [OF wire_okD(1) [OF r1(1)]] by simp
    ultimately show ?thesis using unat_of_nat_u64 [of k] by simp
  next
    case False
    then have "bch_t sa < card (odd_bins h sa (groups sa ! j @ groups sb ! j))" by simp
    with over j show ?thesis by blast
  qed
  then have bids: "bids_ok (bch_n sa) ?res" unfolding bids_ok_def using N(1) by (metis in_set_conv_nth)
  obtain sb1 where e: "decode api h (encoded_msg api h sa) (encoded api h sb) =
      Inr ((decoding_of sb ?res, answer_xors h sb ?res ?N, answer_checksums sb ?res ?N), sb1)" and "role sb1 = Bob"
      "groups_bch_failed sb1 = failed ?res ?N"
    using round_parts(2) [OF r bids] r1(5) by (auto simp: split_failed_def encoded_def Let_def)
  moreover have "decoded_num_differences (decoding_of sb ?res) = map res_count ?res" "decoded_differences (decoding_of sb ?res) = concat (map res_elems ?res)"
    by (simp_all add: decoding_of_def bids_upto_def)
  ultimately show ?thesis using e round_parts(1) [OF r bids] N(1) res
    by (intro exI [of _ ?res] exI [of _ sb1] exI conjI) (assumption | simp add: answer_xors_def answer_checksums_def decoded_def failed_def)+
qed

theorem decode_reports_differing_bins_witness:
  "let sa = demo_host [1, 2, 3, 4]; sb = demo_host [3, 4, 5, 6] in
    \<exists>enc hint sa1 msg out_xors out_checksums sb1 res. encode demo_api demo_hash sa = Inr ((enc, hint), sa1) \<and>
    decode demo_api demo_hash enc (encoded demo_api demo_hash sb) = Inr ((msg, out_xors, out_checksums), sb1) \<and>
    length res = num_groups_remaining sa \<and>
    (\<forall>j < num_groups_remaining sa. card (odd_bins demo_hash sa (groups sa ! j @ groups sb ! j)) \<le> bch_t sa \<longrightarrow>
       (\<exists>bins. res ! j = Some bins \<and> distinct bins \<and> set bins = of_nat ` odd_bins demo_hash sa (groups sa ! j @ groups sb ! j))) \<and>
    decoded_num_differences msg = map res_count res \<and> decoded_differences msg = concat (map res_elems res) \<and>
    out_xors = concat (map (\<lambda>j. map (\<lambda>b. bin_xor demo_hash sb (groups sb ! j) (unat b)) (res_elems (res ! j))) [0..<num_groups_remaining sa]) \<and>
    out_checksums = map (\<lambda>j. xor_list (groups sb ! j)) (filter (\<lambda>j. res ! j \<noteq> None) [0..<num_groups_remaining sa]) \<and>
    groups_bch_failed sb1 = filter (\<lambda>j. res ! j = None) [0..<num_groups_remaining sa] \<and> role sb1 = Bob"
  unfolding Let_def
proof (rule decode_reports_differing_bins [OF demo_ready], intro allI impI ballI)
  fix j b
  assume "j < num_groups_remaining (demo_host [1, 2, 3, 4])"
    and big: "bch_t (demo_host [1, 2, 3, 4]) <
      card (odd_bins demo_hash (demo_host [1, 2, 3, 4]) (groups (demo_host [1, 2, 3, 4]) ! j @ groups (demo_host [3, 4, 5, 6]) ! j))"
  then have "j < 2" by (simp add: demo_host_def host_state_def)
  then have "j = 0 \<or> j = 1" by auto
  then have "groups (demo_host [1, 2, 3, 4]) ! j @ groups (demo_host [3, 4, 5, 6]) ! j = (if j = 0 then [2, 4, 4, 6] else [1, 3, 3, 5])"
    by (auto simp: demo_host_def host_state_def host_group_def demo_hash_def)
  moreover have "bin_of demo_hash (demo_host [1, 2, 3, 4]) e = unat e mod 6 + 1" for e
    by (simp add: bin_of_def demo_host_def host_state_def demo_hash_def)
  ultimately have "odd_bins demo_hash (demo_host [1, 2, 3, 4]) (groups (demo_host [1, 2, 3, 4]) ! j @ groups (demo_host [3, 4, 5, 6]) ! j) =
      (if j = 0 then {1, 3} else {2, 6})"
    by (auto simp: odd_bins_def odd_set_def)
  then have "card (odd_bins demo_hash (demo_host [1, 2, 3, 4]) (groups (demo_host [1, 2, 3, 4]) ! j @ groups (demo_host [3, 4, 5, 6]) ! j))
      \<le> bch_t (demo_host [1, 2, 3, 4])"
    by (simp add: demo_host_def host_state_def)
  then show "unat b < bch_n (demo_host [1, 2, 3, 4])" using big by simp
qed

text \<open>C24. \<open>threeWaySplit_\<close> distributes a group whose sketch did not decode over \<open>c\<close> new groups appended at the
  end: every element goes to the sub-group its hash names, none is lost or doubled, the new groups keep the
  original group id, and the vectors grow by zeros in step.\<close>

theorem threeWaySplit_partitions:
  assumes "0 < num_groups_when_bch_fail st" "gid < length (groups st)" "gid < length (to_original_group_id st)"
  shows "\<exists>subs st'. threeWaySplit h gid st = (Inr st' :: 's failure + _) \<and> groups st' = groups st @ subs \<and>
    length subs = num_groups_when_bch_fail st \<and>
    (\<forall>i < length subs. \<forall>e \<in> set (subs ! i). split_index h st e = i) \<and>
    (\<forall>x. count_list (concat subs) x = count_list (groups st ! gid) x) \<and>
    to_original_group_id st' = to_original_group_id st @ replicate (length subs) (to_original_group_id st ! gid) \<and>
    xors st' = xors st @ replicate (length subs * bch_n st) 0 \<and> checksums st' = checksums st @ replicate (length subs) 0"
proof -
  have "st = st\<lparr>groups_bch_failed := groups_bch_failed st\<rparr>" by simp
  let ?c = "num_groups_when_bch_fail st"
  have "map (\<lambda>i. replicate ?c [] ! i @ filter (\<lambda>e. split_index h st e = i) g) [0..<?c] = split_group h st g" for g
    by (simp add: split_group_def)
  then have "(threeWaySplit h gid st :: 's failure + _) = Inr ((split_failed h [gid] st)\<lparr>groups_bch_failed := groups_bch_failed st\<rparr>)"
    using assms split_fold [of ?c st "replicate ?c []" "groups st" h "groups st ! gid", where 's = 's]
    by (simp add: threeWaySplit_def Let_def ok_simps nth_append split_failed_def resize_grow)
  then show ?thesis
    using count_split_group [OF assms(1)]
    by (auto simp: split_failed_def Let_def split_group_def intro!: exI [of _ "split_group h st (groups st ! gid)"])
qed

theorem threeWaySplit_partitions_witness:
  "let st = demo_host [1, 2, 3, 4, 5, 6] in
    \<exists>subs st'. threeWaySplit demo_hash 1 st = (Inr st' :: unit failure + _) \<and> groups st' = groups st @ subs \<and>
    length subs = num_groups_when_bch_fail st \<and>
    (\<forall>i < length subs. \<forall>e \<in> set (subs ! i). split_index demo_hash st e = i) \<and>
    (\<forall>x. count_list (concat subs) x = count_list (groups st ! 1) x) \<and>
    to_original_group_id st' = to_original_group_id st @ replicate (length subs) (to_original_group_id st ! 1) \<and>
    xors st' = xors st @ replicate (length subs * bch_n st) 0 \<and> checksums st' = checksums st @ replicate (length subs) 0"
  unfolding Let_def by (rule threeWaySplit_partitions) (simp_all add: demo_host_def host_state_def)

section \<open>Reachable sketches\<close>

text \<open>C21. Whatever sequence of public operations a sketch goes through: its vectors stay in step, every element
  of a group hashes to the original group recorded for it, original ids stay in range, and every element ever
  recorded as a difference belongs to one of the original groups; Alice's round counter counts her answers.\<close>

theorem reachable_sketch_invariant:
  assumes "sketch_reachable api h st"
  shows "length (to_original_group_id st) = length (groups st) \<and> length (checksums st) = length (groups st) \<and>
    length (xors st) = length (groups st) * bch_n st \<and> num_groups_remaining st \<le> length (groups st) \<and>
    (\<forall>i < length (groups st). \<forall>e \<in> set (groups st ! i). group_of h st e = to_original_group_id st ! i) \<and>
    (\<forall>i \<in> set (to_original_group_id st). i < num_groups st) \<and>
    (role st = Alice \<longrightarrow> round_count st = of_nat (length (recovered st)) \<and> num_groups_remaining st = length (groups st)) \<and>
    (role st = Bob \<longrightarrow> recovered st = [])"
  using reachable_inv [OF assms]
  by (auto simp: sketch_inv_def placed_def sized_def recorded_ok_def rounds_ok_def)

lemma demo_reachable: "sketch_reachable demo_api demo_hash (demo_host [])"
proof (rule sketch_reachable.created)
  show "ParityBitmapSketch 4 2 (3, 3) 3 0 = (Inr (demo_host []) :: (bool list) pbs_sketch failure + _)"
    using host_state_built [of 2 "(3, 3)" 4 3 0 demo_hash "[]", where 's = "(bool list) pbs_sketch" and 'sk = "bool list"]
    by (auto simp: demo_host_def add_all_def bind_ok_eq_Inr)
qed

theorem reachable_sketch_invariant_witness:
  "\<exists>st :: (bool list) pbs_sketch. num_groups st = 2 \<and> role st = Undetermined \<and>
    length (to_original_group_id st) = length (groups st) \<and> length (checksums st) = length (groups st) \<and>
    length (xors st) = length (groups st) * bch_n st \<and> num_groups_remaining st \<le> length (groups st) \<and>
    (\<forall>i < length (groups st). \<forall>e \<in> set (groups st ! i). group_of demo_hash st e = to_original_group_id st ! i) \<and>
    (\<forall>i \<in> set (to_original_group_id st). i < num_groups st) \<and>
    (role st = Alice \<longrightarrow> round_count st = of_nat (length (recovered st)) \<and> num_groups_remaining st = length (groups st)) \<and>
    (role st = Bob \<longrightarrow> recovered st = [])"
proof (intro exI conjI)
  show "num_groups (demo_host []) = 2" "role (demo_host []) = Undetermined"
    by (simp_all add: demo_host_def host_state_def)
qed (use reachable_sketch_invariant [OF demo_reachable] in blast)+

text \<open>Roles are final: once an operation has made a sketch Alice's or Bob's, no later operation changes
  that, and the operations of the other side raise \<open>logic_error\<close> and leave the sketch as it is.\<close>

lemma roles_are_final:
  assumes "sketch_reachable api h st" "sketch_step api h st st'" "role st \<noteq> Undetermined"
  shows "role st' = role st \<and>
    (role st = Alice \<longrightarrow> decode api h other st = Inl (Throws LogicError st) \<and>
       encodeWithHint api h ids st = Inl (Throws LogicError st)) \<and>
    (role st = Bob \<longrightarrow> decodeCheck h msg in_xors in_checksums st = Inl (Throws LogicError st))"
proof -
  have inv: "sketch_inv h st" by (rule reachable_inv [OF assms(1)])
  have "role st' = role st"
    using assms(2)
  proof (cases rule: sketch_step.cases)
    case (step_encode r)
    then obtain m st1 msg where e: "(encode_groups api h m st :: 'a pbs_sketch failure + _) = Inr (msg, st1)"
        "st' = st1 \<or> st' = st1\<lparr>groups_exp_I_or_II := []\<rparr>"
      by (auto simp: encode_def bind_ok_eq_Inr split: if_splits)
    from encode_groups_core [OF e(1)] e(2) show ?thesis by (auto simp: core_def)
  next
    case (step_decode other r)
    then show ?thesis using decode_inv(2) [OF inv step_decode] assms(3) by (cases "role st") (auto simp: decode_def)
  next
    case (step_check msg in_xors in_checksums b)
    then show ?thesis using decodeCheck_inv(2) [OF inv step_check] assms(3) by (cases "role st") (auto simp: decodeCheck_def)
  next
    case (step_encode_hint ids msg)
    then show ?thesis using encodeWithHint_inv(2) [OF inv step_encode_hint] by (auto simp: encodeWithHint_def split: if_splits)
  qed (use assms(3) in simp)
  then show ?thesis by (simp add: decode_def encodeWithHint_def decodeCheck_def)
qed

text \<open>An answer about no group at all completes the session on Alice's side; she can check another one.\<close>

definition no_answer :: decoding_message where
  "no_answer = \<lparr>dec_field_sz = 3, dec_capacity = 3, dec_num_groups = 0, sizeof_each_d = 3, decoding_failure_flag = 7,
     decoded_num_differences = [], decoded_differences = []\<rparr>"

lemma no_answer_check:
  assumes "role st \<noteq> Bob" "length (groups st) = num_groups_remaining st" "length (xors st) = num_groups_remaining st * bch_n st"
    "length (checksums st) = num_groups_remaining st" "length (to_original_group_id st) = num_groups_remaining st"
  shows "\<exists>st'. decodeCheck h no_answer [] [] st = Inr (True, st') \<and> role st' = Alice \<and> groups st' = [] \<and> xors st' = [] \<and>
    checksums st' = [] \<and> to_original_group_id st' = [] \<and> num_groups_remaining st' = 0"
  using assms by (simp add: decodeCheck_def no_answer_def removeCompletedGroups_def Let_def mult.commute)

text \<open>C22. The completion flag means what it says: after a successful check in any reachable sketch the flag is
  set exactly when no group is left to reconcile, one more round is recorded, and every element recorded so far
  hashes to one of the original groups.\<close>

theorem completion_flag_correct:
  assumes "sketch_reachable api h st" "decodeCheck h msg in_xors in_checksums st = Inr (completed, st')"
  shows "(completed \<longleftrightarrow> groups st' = []) \<and> role st' = Alice \<and> round_count st' = of_nat (length (recovered st')) \<and>
    num_groups_remaining st' = length (groups st')"
  using decodeCheck_inv [OF reachable_inv [OF assms(1)] assms(2)] by (simp add: sketch_inv_def rounds_ok_def)

theorem completion_flag_correct_witness:
  "\<exists>st'. decodeCheck demo_hash no_answer [] [] (demo_host []) = Inr (True, st') \<and>
    (True \<longleftrightarrow> groups st' = []) \<and> role st' = Alice \<and> round_count st' = of_nat (length (recovered st')) \<and>
    num_groups_remaining st' = length (groups st')"
proof -
  obtain st' where "decodeCheck demo_hash no_answer [] [] (demo_host []) = Inr (True, st')"
    using no_answer_check [of "demo_host []" demo_hash] by (auto simp: demo_host_def host_state_def)
  with completion_flag_correct [OF demo_reachable this] show ?thesis by blast
qed

section \<open>Errors\<close>

text \<open>Two parameter choices the code does not exclude: with zero groups, as the constructor computes them for
  zero differences, the first \<open>add\<close> divides by zero; with a one-bit field, the default of the parameter search, an
  element can be added but the bin of an element is a division by zero.\<close>

lemma degenerate_parameters_divide_by_zero:
  assumes "m < 32" "0 < ng"
  shows "(\<exists>st. ParityBitmapSketch d 0 (m, t) c seed = (Inr st :: 's failure + 'sk pbs_sketch) \<and>
      add h e st = (Inl (Undefined DivisionByZero) :: 's failure + _)) \<and>
    (\<exists>st st'. ParityBitmapSketch d ng (1, t) c seed = (Inr st :: 's failure + 'sk pbs_sketch) \<and>
      add h e st = (Inr st' :: 's failure + _) \<and> getBinId h st' e = (Inl (Undefined DivisionByZero) :: 's failure + _))"
  using assms by (simp add: ParityBitmapSketch_def calcBchParams_def add_def getGroupId_def getBinId_def Let_def ok_simps)

text \<open>An answer that is too short for the differences it announces is refused: \<open>runtime_error\<close> is raised.
  The entry for the round is already pushed then, so the record is one entry ahead of the round counter.\<close>

lemma short_answer_refused:
  assumes "role st \<noteq> Bob" "length (decoded_num_differences msg) = dec_num_groups msg"
    "\<forall>p \<in> set (decoded_num_differences msg). 0 \<le> p"
    and "int (length in_xors) < sum_list (decoded_num_differences msg) \<or> length in_checksums < dec_num_groups msg"
  shows "\<exists>st'. decodeCheck h msg in_xors in_checksums st = Inl (Throws RuntimeError st') \<and>
    recovered st' = recovered st @ [[]] \<and> round_count st' = round_count st"
proof -
  let ?ds = "decoded_num_differences msg" and ?one = "st\<lparr>role := Alice, recovered := recovered st @ [[]], groups_bch_failed := []\<rparr>"
  have "i \<le> length ?ds \<Longrightarrow> fold_ok (failed_group h msg) [0..<i] (0, 0, ?one) =
      (Inr (nat (sum_list (take i ?ds)), i, ?one) :: 'a pbs_sketch failure + _) \<and> 0 \<le> sum_list (take i ?ds)" for i
  proof (induction i)
    case (Suc i)
    then have "0 \<le> ?ds ! i" using assms(3) by simp
    with Suc show ?case
      by (simp add: fold_ok_append failed_group_def ok_simps take_Suc_conv_app_nth nat_add_distrib)
  qed simp
  from this [of "length ?ds"] assms show ?thesis
    by (auto simp: decodeCheck_def Let_def)
qed

end
