(* ===== verification/Recon_Pbs.thy ===== *)
theory Recon_Pbs
  imports Recon_Properties Sketch_Properties
begin

text \<open>
  PBS from the first message to equal maps: the messages survive the wire, the exclusive ors survive the 32-bit
  fields of the reply for keys that are not negative, the first round of the ideal case completes, and
  the final synchronisation leaves the union on both sides.
\<close>

section \<open>The final synchronisation\<close>

lemma Pull_as_PushAndPull: "Pull pull t s = PushAndPull [] pull t s"
  by (simp add: Pull_def PushAndPull_def bind_ok_def split: sum.split)

lemma exchange:
  assumes t: "kv_good n t" and u: "sv_key_value_pairs s = Some u" "kv_good n u" "agree (entries t) (entries u)"
    and push: "distinct push" "set push = keys_of (entries t) - keys_of (entries u)" "n + length push \<le> oh_limit"
    and pull: "distinct pull" "set pull = keys_of (entries u) - keys_of (entries t)" "n + length pull \<le> oh_limit"
  shows "\<exists>t' u'. PushAndPull push pull t s = Inr (True, t', s\<lparr>sv_key_value_pairs := Some u'\<rparr>) \<and>
    map_of (entries t') = map_of (entries t) ++ map_of (entries u) \<and> map_of (entries u') = map_of (entries t) ++ map_of (entries u)"
proof -
  have "set push \<subseteq> keys_of (entries t)" "set pull \<inter> keys_of (entries t) = {}" "set pull \<subseteq> keys_of (entries u)"
    using push(2) pull(2) by auto
  from PushAndPull_eq [OF t u(1,2) push(3) pull(3) this] obtain t' u' where
    r: "PushAndPull push pull t s = Inr (True, t', s\<lparr>sv_key_value_pairs := Some u'\<rparr>)"
      "entries u' = fold dict_insert (pairs_of (entries t) push) (entries u)"
      "entries t' = fold dict_insert (pairs_of (entries u') pull) (entries t)" by blast
  have "keys_of (pairs_of (entries t) push) \<inter> keys_of (entries u) = {}" using push(2) by auto
  then have u': "entries u' = entries u @ pairs_of (entries t) push"
    using push(1) unfolding r(2) by (intro fold_dict_insert_fresh) simp_all
  have "pairs_of (entries u') pull = pairs_of (entries u) pull"
    unfolding pairs_of_def u' value_of_def using pull(2) map_of_eq_None [of "entries u"]
    by (intro map_cong refl) (auto simp: map_add_def split: option.splits)
  moreover have "keys_of (pairs_of (entries u) pull) \<inter> keys_of (entries t) = {}" using pull(2) by auto
  ultimately have t': "entries t' = entries t @ pairs_of (entries u) pull"
    using pull(1) unfolding r(3) by (simp add: fold_dict_insert_fresh)
  show ?thesis
    using r(1) completed_same [OF u(3) pull(2) push(2)] by (intro exI [of _ t'] exI [of _ u'] conjI) (simp_all only: t' u')
qed

lemma Push_as_PushAndPull:
  assumes "kv_good n t" "sv_key_value_pairs s = Some u" "kv_good n u" "n + length push \<le> oh_limit" "set push \<subseteq> keys_of (entries t)"
  shows "Push push t s = PushAndPull push [] t s"
proof -
  from Synchronize_OK [OF assms(2,3), of "\<lparr>pushes = pairs_of (entries t) push, pulls = []\<rparr>"] assms(4) obtain u' where
    "Synchronize \<lparr>pushes = pairs_of (entries t) push, pulls = []\<rparr> s = Inr (OK, \<lparr>pushes = [], pulls = []\<rparr>, set_key_value_pairs u' s)" by auto
  then show ?thesis
    using assms(1,5) by (simp add: Push_def PushAndPull_def collect_values_ok collect_pushes_ok call_Synchronize_def insert_pairs_def)
qed

lemma distinct_element_keys: "distinct rec \<Longrightarrow> set rec = key_element ` K \<Longrightarrow> distinct (map element_key rec)"
proof -
  assume "distinct rec" "set rec = key_element ` K"
  moreover have "inj_on element_key (key_element ` K)" by (intro inj_onI) auto
  ultimately show ?thesis by (simp add: distinct_map)
qed

lemma final_synchronization_ok:
  assumes t: "kv_good n t" and u: "sv_key_value_pairs s = Some u" "kv_good n u" "agree (entries t) (entries u)"
    and rec: "distinct rec" "set rec = key_element ` differences (entries t) (entries u)"
    and room: "n + card (differences (entries t) (entries u)) \<le> oh_limit"
  shows "\<exists>t' u'. final_synchronization rec t s = Inr (t', s\<lparr>sv_key_value_pairs := Some u'\<rparr>) \<and>
    map_of (entries t') = map_of (entries t) ++ map_of (entries u) \<and> map_of (entries u') = map_of (entries t) ++ map_of (entries u)"
proof -
  let ?ks = "map element_key rec"
  define pull push where "pull = filter (\<lambda>k. k \<notin> keys_of (entries t)) ?ks" and "push = filter (\<lambda>k. k \<in> keys_of (entries t)) ?ks"
  have ks: "distinct ?ks" "set ?ks = differences (entries t) (entries u)"
    using distinct_element_keys [OF rec] rec(2) by (simp_all add: image_image)
  have sets: "set push = keys_of (entries t) - keys_of (entries u)" "set pull = keys_of (entries u) - keys_of (entries t)"
    unfolding push_def pull_def set_filter ks(2) by (auto simp: differences_def)
  have dist: "distinct push" "distinct pull" using ks(1) by (simp_all add: push_def pull_def)
  have len: "n + length push \<le> oh_limit" "n + length pull \<le> oh_limit"
    using length_differences [OF dist(1)] length_differences [OF dist(2)] sets room by (fastforce simp: differences_def)+
  have "partition_result rec ([], []) t = Inr (pull, push)"
    using t by (simp add: partition_result_ok pull_def push_def)
  moreover obtain t' u' where e: "PushAndPull push pull t s = Inr (True, t', s\<lparr>sv_key_value_pairs := Some u'\<rparr>)"
      "map_of (entries t') = map_of (entries t) ++ map_of (entries u)" "map_of (entries u') = map_of (entries t) ++ map_of (entries u)"
    using exchange [OF t u dist(1) sets(1) len(1) dist(2) sets(2) len(2)] by blast
  have p: "Push push t s = PushAndPull push [] t s"
    using sets(1) by (intro Push_as_PushAndPull [OF t u(1,2) len(1)]) auto
  have none: "map_of (entries t) ++ map_of (entries u) = map_of (entries u)" "map_of (entries t) ++ map_of (entries u) = map_of (entries t)"
    if "push = []" "pull = []" using completed_same [OF u(3) sets(2,1)] that by simp_all
  show ?thesis
  proof (cases "push = [] \<and> pull = []")
    case True
    with none calculation u(1) have "final_synchronization rec t s = Inr (t, s\<lparr>sv_key_value_pairs := Some u\<rparr>)"
      using set_same [OF u(1)] by (simp add: final_synchronization_def set_key_value_pairs_def)
    with True none show ?thesis by (intro exI [of _ t] exI [of _ u]) simp
  next
    case False
    with calculation e(1) p have "final_synchronization rec t s = Inr (t', s\<lparr>sv_key_value_pairs := Some u'\<rparr>)"
      by (auto simp: final_synchronization_def Pull_as_PushAndPull)
    with e show ?thesis by blast
  qed
qed

section \<open>The wire\<close>

text \<open>What the reply carries fits its 32-bit fields.\<close>

definition small :: "u64 \<Rightarrow> bool" where
  "small x \<longleftrightarrow> unat x < 2 ^ 32"

lemma small_bit: "small x \<Longrightarrow> bit x i \<Longrightarrow> i < 32"
  using bit_ge_of_less_2p [of x 32 i] by (auto simp: small_def not_le [symmetric])

lemma small_iff: "small x \<longleftrightarrow> (\<forall>i. bit x i \<longrightarrow> i < 32)"
  using small_bit less_2p_of_no_high_bits [of 32 x] by (auto simp: small_def not_le [symmetric])

lemma ucast_small: "small x \<Longrightarrow> ucast (ucast x :: u32) = x"
  using small_bit [of x] by (intro bit_word_eqI) (auto simp: bit_simps)

lemma map_ucast_small: "list_all small xs \<Longrightarrow> map ucast (map ucast xs :: u32 list) = xs"
  by (induction xs) (simp_all add: ucast_small)

lemma small_xor_list: "(\<And>x. x \<in> set xs \<Longrightarrow> small x) \<Longrightarrow> small (xor_list xs)"
  by (induction xs) (auto simp: small_iff bit_simps)

lemma small_key_element: "0 \<le> sint k \<Longrightarrow> small (key_element k)"
proof -
  assume "0 \<le> sint k"
  then have "\<not> bit k 31" using bit_last_iff [of k] by simp
  then show ?thesis by (auto simp: small_iff key_element_def bit_simps min_def split: if_splits)
qed

lemma small_answers:
  assumes "\<And>g e. g \<in> set (groups sb) \<Longrightarrow> e \<in> set g \<Longrightarrow> small e" "N \<le> length (groups sb)" "length res = N"
  shows "list_all small (answer_xors h sb res N)" "list_all small (answer_checksums sb res N)"
proof -
  have "small (xor_list (filter P (groups sb ! j)))" if "j < N" for j P
    using assms(1) [of "groups sb ! j"] assms(2) that by (intro small_xor_list) (auto simp: nth_mem)
  then show "list_all small (answer_xors h sb res N)"
    by (auto simp: answer_xors_def bin_xor_def list_all_iff)
  have "small (xor_list (groups sb ! j))" if "j < N" for j
    using assms(1) [of "groups sb ! j"] assms(2) that by (intro small_xor_list) (auto simp: nth_mem)
  then show "list_all small (answer_checksums sb res N)"
    using assms(3) by (auto simp: answer_checksums_def decoded_def list_all_iff)
qed

text \<open>The answer of a round is a valid message.\<close>

lemma decoding_valid:
  fixes sa sb :: "'sk pbs_sketch"
  assumes r: "ready api sa sb" and bids: "bids_ok (bch_n sa) (round_results api h sa sb)"
  defines "res \<equiv> round_results api h sa sb"
  shows "dec_valid (decoding_of sb res)"
proof -
  from r have s: "wire_ok api sa" "fresh sa" "fresh sb" "same_params sa sb" by (auto simp: ready_def)
  have wb: "wire_ok api sb" using wire_ok_same [OF s(4)] s(1) by simp
  note w = wire_okD [OF wb]
  have N: "length res = num_groups_remaining sb" "bch_n sb = bch_n sa"
    using round_results_length [OF s(2-4), of api h] s(4) by (simp_all add: res_def same_params_def)
  have cap: "unat (of_nat (bch_t sb) :: u32) = bch_t sb" by (rule w(3))
  have m: "bch_m sb < 32" "bch_n sb < 2 ^ bch_m sb" using w(1) by (auto simp: params_ok_def)
  have params: "dec_params_ok (decoding_of sb res)"
    using wb w(2,3) m(1) N(1) by (simp add: dec_params_ok_def decoding_of_def wire_ok_def)
  have count: "-1 \<le> res_count x \<and> res_count x \<le> int (bch_t sb)" if "x \<in> set res" for x
  proof (cases x)
    case (Some xs)
    with that obtain a b where "ms_decode api (ms_merge api a b) (bch_t sb) = Some xs"
      by (auto simp: res_def round_results_def merge_decode_def)
    with ms_decode_bound [OF w(6)] Some show ?thesis by (fastforce simp: res_count_def)
  qed (simp add: res_count_def)
  have fits: "fits_bits (bch_m sb) b" if "b \<in> set (bids_upto res (length res))" for b
    using that bids m(2) N(2) by (fastforce simp: bids_upto_def bids_ok_def res_def fits_bits_def)
  have "length (bids_upto res (length res)) = sum_list (map nat (map res_count res))"
    by (auto simp: bids_upto_def length_concat res_count_def res_elems_def intro!: arg_cong [where f = sum_list] split: option.split)
  with params count fits w(2,3) show ?thesis
    by (auto simp: dec_valid_def decoding_of_def uint_nat)
qed

lemma enc_wire:
  assumes "enc_valid api m" "enc_receiver_for api m r"
  obtains bs where "message_bytes (enc_serializedSize m) (enc_write api m) = (Inr bs :: 's failure + _)"
    "enc_parse api r (bs @ [0]) (length bs) = (Inr (enc_serializedSize m, m) :: 't failure + _)"
proof -
  let ?buf = "replicate (nat (enc_serializedSize m)) 0 :: bytes"
  obtain bs where bs: "(enc_write api m ?buf :: 's failure + _) = Inr (bs, enc_serializedSize m)"
    using enc_write_fills [OF assms(1), of ?buf, where 's = 's] by auto
  from that [of bs] bs enc_parse_write [OF assms _ bs, of "[0]", where 't = 't] show thesis
    by (simp add: message_bytes_def)
qed

lemma dec_wire:
  assumes "dec_valid m" "dec_receiver_for m r"
  obtains bs where "message_bytes (dec_serializedSize m) (dec_write m) = Inr bs"
    "dec_parse r (bs @ [0]) (length bs) = Inr (dec_serializedSize m, m)"
proof -
  let ?buf = "replicate (nat (dec_serializedSize m)) 0 :: bytes"
  obtain bs where bs: "dec_write m ?buf = Inr (bs, dec_serializedSize m)"
    using dec_msg.write_fills [OF assms(1), of ?buf] by auto
  from that [of bs] bs dec_parse_write [OF assms _ bs, of "[0]"] show thesis
    by (simp add: message_bytes_def)
qed

section \<open>The first round\<close>

text \<open>
  The two states before the first round are those of the two hosts' keys; the server builds its own on the
  first request.
\<close>

definition first_state :: "('sk, 'g) host_env \<Rightarrow> nat \<Rightarrow> (key \<times> string) list \<Rightarrow> 'sk pbs_sketch" where
  "first_state env d es = host_state (env_xxh3 env) d (group_count d) (env_best env d)
     DEFAULT_NUM_GROUPS_WHEN_BCH_FAIL DEFAULT_SEED_G (map (key_element \<circ> fst) es)"

definition pbs_setup_ok :: "('sk, 'g) host_env \<Rightarrow> nat \<Rightarrow> bool" where
  "pbs_setup_ok env d \<longleftrightarrow> d < 2 ^ 32 \<and>
     setup_ok (env_api env) (group_count d) (env_best env d) DEFAULT_NUM_GROUPS_WHEN_BCH_FAIL"

lemma first_state_built:
  assumes "pbs_setup_ok env d"
  obtains p where "default_sketch env d = (Inr p :: 's failure + _)"
    "add_all (env_xxh3 env) (map (key_element \<circ> fst) es) p = (Inr (first_state env d es) :: 's failure + _)"
proof -
  have "0 < group_count d" "2 \<le> fst (env_best env d)" "fst (env_best env d) < 32" "d mod 2 ^ 32 = d"
    using assms by (auto simp: pbs_setup_ok_def setup_ok_def)
  with host_state_built [OF this(1-3), of d DEFAULT_NUM_GROUPS_WHEN_BCH_FAIL DEFAULT_SEED_G "env_xxh3 env"
      "map (key_element \<circ> fst) es", where 's = 's and 'sk = 'a] that
  show thesis by (auto simp: bind_ok_eq_Inr default_sketch_def first_state_def)
qed

lemma first_encode:
  fixes env :: "('sk, 'g) host_env" and es :: "(key \<times> string) list"
  assumes "pbs_setup_ok env d"
  defines "p \<equiv> first_state env d es"
  shows "encode (env_api env) (env_xxh3 env) p =
      Inr ((encoded_msg (env_api env) (env_xxh3 env) p, None), encoded (env_api env) (env_xxh3 env) p)"
    and "wire_ok (env_api env) p" "fresh p" "0 < num_groups_remaining p"
proof -
  have s: "setup_ok (env_api env) (group_count d) (env_best env d) DEFAULT_NUM_GROUPS_WHEN_BCH_FAIL"
    using assms(1) by (simp add: pbs_setup_ok_def)
  have r: "ready (env_api env) p p" unfolding p_def first_state_def by (rule host_ready [OF s])
  then show w: "wire_ok (env_api env) p" "fresh p" by (simp_all add: ready_def)
  show pos: "0 < num_groups_remaining p" using s by (simp add: p_def first_state_def setup_ok_def)
  obtain s0 where s0: "ms_create (env_api env) (of_nat (bch_m p)) 0 (unat (of_nat (bch_t p) :: u32)) = Some s0"
    using ms_created [OF wire_okD(6) [OF w(1)]] wire_okD(3) [OF w(1)] by auto
  have "groups_exp_I_or_II p = []" by (simp add: p_def first_state_def)
  then have none: "encode_hint p = None" "(encoded (env_api env) (env_xxh3 env) p)\<lparr>groups_exp_I_or_II := []\<rparr> = encoded (env_api env) (env_xxh3 env) p"
    by (simp_all add: encode_hint_def encoded_def)
  show "encode (env_api env) (env_xxh3 env) p =
      Inr ((encoded_msg (env_api env) (env_xxh3 env) p, None), encoded (env_api env) (env_xxh3 env) p)"
    using encode_eq [OF wire_okD(1) [OF w(1)] w(2) wire_okD(5) [OF w(1)] s0, of "env_xxh3 env"] r none
    by (auto simp: ready_def)
qed

lemma server_first:
  fixes env :: "('sk, 'g) host_env" and s :: "'sk server" and u :: kv_map
  assumes ok: "pbs_setup_ok env d" and s: "sv_estimated_diff s = int d" "sv_pbs s = None"
  defines "p \<equiv> first_state env d (entries u)"
  shows "server_encoding env [] u s =
    Inr (encoded_msg (env_api env) (env_xxh3 env) p, put_pbs s (encoded (env_api env) (env_xxh3 env) p))"
proof -
  obtain p0 where p0: "default_sketch env d = (Inr p0 :: 'sk server failure + _)"
    using first_state_built [OF ok, of "[]", where 's = "'sk server"] by blast
  moreover have "add_all (env_xxh3 env) (map (key_element \<circ> fst) (entries u)) p0 = (Inr p :: 'sk pbs_sketch failure + _)"
  proof -
    obtain p1 where p1: "default_sketch env d = (Inr p1 :: 'sk pbs_sketch failure + _)"
      "add_all (env_xxh3 env) (map (key_element \<circ> fst) (entries u)) p1 = (Inr p :: 'sk pbs_sketch failure + _)"
      using first_state_built [OF ok, of "entries u", where 's = "'sk pbs_sketch"] unfolding p_def by blast
    have "p1 = p0" using p0 p1(1) by (auto simp: default_sketch_def ParityBitmapSketch_def calcBchParams_def bind_ok_eq_Inr Let_def split: if_splits)
    with p1(2) show ?thesis by simp
  qed
  ultimately show ?thesis
    using first_encode(1) [OF ok, of "entries u"] s by (simp add: server_encoding_def p_def)
qed

lemma first_ready:
  assumes "pbs_setup_ok env d"
  shows "ready (env_api env) (first_state env d as) (first_state env d bs)"
  using assms unfolding first_state_def pbs_setup_ok_def by (blast intro: host_ready)

text \<open>Keys that are not negative keep the exclusive ors within 32 bits.\<close>

definition natural_keys :: "(key \<times> string) list \<Rightarrow> bool" where
  "natural_keys es \<longleftrightarrow> (\<forall>k \<in> keys_of es. 0 \<le> sint k)"

lemma small_groups:
  assumes "natural_keys es" "g \<in> set (groups (first_state env d es))" "e \<in> set g"
  shows "small e"
proof -
  have "e \<in> set (map (key_element \<circ> fst) es)" using assms(2,3) by (auto simp: first_state_def host_state_def)
  then show ?thesis using assms(1) by (auto simp: natural_keys_def keys_of_def intro: small_key_element)
qed

definition ideal_keys :: "('sk, 'g) host_env \<Rightarrow> nat \<Rightarrow> (key \<times> string) list \<Rightarrow> (key \<times> string) list \<Rightarrow> bool" where
  "ideal_keys env d as bs \<longleftrightarrow> ideal_sets (env_xxh3 env) (group_count d) (env_best env d) DEFAULT_SEED_G
     (map (key_element \<circ> fst) as) (map (key_element \<circ> fst) bs)"

lemma distinct_elements: "distinct (map fst es) \<Longrightarrow> distinct (map (key_element \<circ> fst) es)"
  using distinct_map [of key_element "map fst es"] inj_on_subset [OF inj_key_element] by simp

lemma ideal_first:
  fixes env :: "('sk, 'g) host_env"
  assumes ok: "pbs_setup_ok env d" and d: "distinct (map fst as)" "distinct (map fst bs)" and id: "ideal_keys env d as bs"
  defines "sa \<equiv> first_state env d as" and "sb \<equiv> first_state env d bs"
  shows "grouped (env_xxh3 env) sa" "grouped (env_xxh3 env) sb" "ideal (env_xxh3 env) sa sb" "distinct (to_original_group_id sa)"
    "odd_set (concat (groups sa) @ concat (groups sb)) = key_element ` differences as bs"
proof -
  have s: "setup_ok (env_api env) (group_count d) (env_best env d) DEFAULT_NUM_GROUPS_WHEN_BCH_FAIL"
    using ok by (simp add: pbs_setup_ok_def)
  then have p: "0 < group_count d" "2 \<le> fst (env_best env d)" "fst (env_best env d) < 32" by (auto simp: setup_ok_def)
  note f = host_state_facts [OF p] and dist = distinct_elements [OF d(1)] distinct_elements [OF d(2)]
  show "grouped (env_xxh3 env) sa" "grouped (env_xxh3 env) sb" "distinct (to_original_group_id sa)"
    unfolding sa_def sb_def first_state_def by (rule f)+
  show "ideal (env_xxh3 env) sa sb"
    unfolding sa_def sb_def first_state_def by (rule ideal_host [OF s dist]) (use id in \<open>simp add: ideal_keys_def\<close>)
  have "odd_set (concat (groups sa) @ concat (groups sb)) = outstanding sa sb"
    by (simp add: outstanding_def sa_def sb_def first_state_def)
  also have "\<dots> = key_element ` differences as bs"
    unfolding sa_def sb_def first_state_def outstanding_host [OF s dist]
    using inj_key_element by (simp add: differences_def keys_of_def image_Un image_set_diff image_comp)
  finally show "odd_set (concat (groups sa) @ concat (groups sb)) = key_element ` differences as bs" .
qed

text \<open>The server's side of the first round, and the turn of the client's loop.\<close>

lemma first_answer:
  fixes env :: "('sk, 'g) host_env" and s :: "'sk server"
  assumes ok: "pbs_setup_ok env d" and s: "sv_estimated_diff s = int d" "sv_pbs s = None" "sv_key_value_pairs s = Some u"
    and dist: "distinct (map fst (entries t))" "distinct (map fst (entries u))" and id: "ideal_keys env d (entries t) (entries u)"
  defines "sa \<equiv> first_state env d (entries t)" and "sb \<equiv> first_state env d (entries u)"
  defines "res \<equiv> round_results (env_api env) (env_xxh3 env) sa sb" and "N \<equiv> num_groups_remaining sa"
  obtains ebytes dbytes bob where
    "message_bytes (enc_serializedSize (encoded_msg (env_api env) (env_xxh3 env) sa))
       (enc_write (env_api env) (encoded_msg (env_api env) (env_xxh3 env) sa)) = (Inr ebytes :: 'f failure + _)"
    "ReconcileParityBitmapSketch env \<lparr>encoding_msg = ebytes, encoding_hint = [], pq_pushed_key_values = [], pq_missing_keys = []\<rparr> s =
       Inr (OK, \<lparr>decoding_msg = dbytes, pp_checksum = map ucast (answer_checksums sb res N),
         pp_xors = map ucast (answer_xors (env_xxh3 env) sb res N), pp_pushed_key_values = []\<rparr>, s\<lparr>sv_pbs := Some bob\<rparr>)"
    "\<And>r. dec_receiver_for (decoding_of sb res) r \<Longrightarrow>
       dec_parse r (dbytes @ [0]) (length dbytes) = Inr (dec_serializedSize (decoding_of sb res), decoding_of sb res)"
proof -
  let ?api = "env_api env" and ?h = "env_xxh3 env"
  let ?ma = "encoded_msg ?api ?h sa" and ?mb = "encoded_msg ?api ?h sb"
  have r: "ready ?api sa sb" unfolding sa_def sb_def by (rule first_ready [OF ok])
  note i = ideal_first [OF ok dist id, folded sa_def sb_def]
  have bids: "bids_ok (bch_n sa) (round_results ?api ?h sa sb)" by (rule ideal_bids_ok(1) [OF r i(1-3)])
  have sp: "same_params sa sb" using r by (simp add: ready_def)
  have "enc_receiver_for ?api ?ma (PbsEncodingMessage ?api (enc_field_sz ?mb) (enc_capacity ?mb) (enc_num_groups ?mb))"
    using sp by (simp add: enc_receiver_for_def encoded_msg_def PbsEncodingMessage_def same_params_def)
  moreover have "enc_valid ?api ?ma"
    unfolding sa_def by (rule encoded_msg_valid [OF first_encode(2-4) [OF ok]])
  ultimately obtain ebytes where e: "message_bytes (enc_serializedSize ?ma) (enc_write ?api ?ma) = (Inr ebytes :: 'f failure + _)"
      "enc_parse ?api (PbsEncodingMessage ?api (enc_field_sz ?mb) (enc_capacity ?mb) (enc_num_groups ?mb)) (ebytes @ [0]) (length ebytes) =
        (Inr (enc_serializedSize ?ma, ?ma) :: 'sk server failure + _)"
    using enc_wire [where 's = 'f and 't = "'sk server"] by blast
  have v: "dec_valid (decoding_of sb res)" unfolding res_def by (rule decoding_valid [OF r bids])
  define rx where "rx = (decoding_of sb res)\<lparr>decoded_num_differences := replicate (num_groups_remaining sb) 0,
      decoded_differences := replicate (num_groups_remaining sb * bch_t sb) 0\<rparr>"
  have wb: "wire_ok ?api sb" using r wire_ok_same [OF sp] by (simp add: ready_def)
  have rx: "dec_receiver_for (decoding_of sb res) rx"
    using PbsDecodingMessage_of [OF wb, of res, where 's = unit] by (simp add: dec_receiver_for_def decoding_of_def rx_def)
  obtain dbytes where db: "message_bytes (dec_serializedSize (decoding_of sb res)) (dec_write (decoding_of sb res)) = Inr dbytes"
      "dec_parse rx (dbytes @ [0]) (length dbytes) = Inr (dec_serializedSize (decoding_of sb res), decoding_of sb res)"
    by (rule dec_wire [OF v rx])
  have uniq: "r = rx" if "dec_receiver_for (decoding_of sb res) r" for r
    using that rx by (simp add: dec_receiver_for_def)
  obtain bob where bob: "decode ?api ?h ?ma (encoded ?api ?h sb) =
      Inr ((decoding_of sb res, answer_xors ?h sb res N, answer_checksums sb res N), bob)"
    using round_parts(2) [OF r bids] unfolding res_def N_def by blast
  have "server_encoding env [] u s = Inr (?mb, put_pbs s (encoded ?api ?h sb))"
    unfolding sb_def by (rule server_first [OF ok s(1,2)])
  then have "ReconcileParityBitmapSketch env \<lparr>encoding_msg = ebytes, encoding_hint = [], pq_pushed_key_values = [], pq_missing_keys = []\<rparr> s =
       Inr (OK, \<lparr>decoding_msg = dbytes, pp_checksum = map ucast (answer_checksums sb res N),
         pp_xors = map ucast (answer_xors ?h sb res N), pp_pushed_key_values = []\<rparr>, s\<lparr>sv_pbs := Some bob\<rparr>)"
    using s(1,3) e(2) bob db(1)
    by (simp add: ReconcileParityBitmapSketch_def Let_def put_pbs_def set_key_value_pairs_def)
  with that [OF e(1)] db(2) uniq show thesis by metis
qed

lemma first_turn:
  fixes env :: "('sk, 'g) host_env" and s :: "'sk server"
  assumes ok: "pbs_setup_ok env d" and s: "sv_estimated_diff s = int d" "sv_pbs s = None" "sv_key_value_pairs s = Some u"
    and dist: "distinct (map fst (entries t))" "distinct (map fst (entries u))" and id: "ideal_keys env d (entries t) (entries u)"
    and nat: "natural_keys (entries u)"
  defines "sa \<equiv> first_state env d (entries t)"
  obtains rec alice bob where "pbs_turn env [] sa t s = Inr (Some (True, rec, alice), t, s\<lparr>sv_pbs := Some bob\<rparr>)"
    "distinct rec" "set rec = key_element ` differences (entries t) (entries u)"
proof -
  let ?api = "env_api env" and ?h = "env_xxh3 env"
  define sb where "sb = first_state env d (entries u)"
  define res where "res = round_results ?api ?h sa sb"
  define N where "N = num_groups_remaining sa"
  obtain ebytes dbytes bob where f:
    "message_bytes (enc_serializedSize (encoded_msg ?api ?h sa)) (enc_write ?api (encoded_msg ?api ?h sa)) = (Inr ebytes :: 'sk world failure + _)"
    "ReconcileParityBitmapSketch env \<lparr>encoding_msg = ebytes, encoding_hint = [], pq_pushed_key_values = [], pq_missing_keys = []\<rparr> s =
       Inr (OK, \<lparr>decoding_msg = dbytes, pp_checksum = map ucast (answer_checksums sb res N),
         pp_xors = map ucast (answer_xors ?h sb res N), pp_pushed_key_values = []\<rparr>, s\<lparr>sv_pbs := Some bob\<rparr>)"
    "\<And>r. dec_receiver_for (decoding_of sb res) r \<Longrightarrow>
       dec_parse r (dbytes @ [0]) (length dbytes) = Inr (dec_serializedSize (decoding_of sb res), decoding_of sb res)"
    by (rule first_answer [OF ok s dist id, where 'f = "'sk world"]) (simp only: sa_def sb_def res_def N_def)
  have r: "ready ?api sa sb" unfolding sa_def sb_def by (rule first_ready [OF ok])
  note i = ideal_first [OF ok dist id, folded sa_def sb_def]
  have bids: "bids_ok (bch_n sa) (round_results ?api ?h sa sb)" by (rule ideal_bids_ok(1) [OF r i(1-3)])
  have e: "encode ?api ?h sa = Inr ((encoded_msg ?api ?h sa, None), encoded ?api ?h sa)"
    unfolding sa_def by (rule first_encode(1) [OF ok])
  from ideal_round [OF r i(1-4), where 's = "'sk world"] obtain alice bob' rec where
    rt: "round_trip ?api ?h sa (encoded ?api ?h sb) = Inr (True, alice, bob')"
      "differencesLastRound alice = (Inr rec :: 'sk world failure + _)" "distinct rec"
      "set rec = key_element ` differences (entries t) (entries u)" unfolding i(5) by blast
  have clean: "(encoded ?api ?h sa)\<lparr>groups_exp_I_or_II := []\<rparr> = encoded ?api ?h sa"
    using round_parts(1) [OF r bids] e by simp
  have alice: "decodeCheck ?h (decoding_of sb res) (answer_xors ?h sb res N) (answer_checksums sb res N) (encoded ?api ?h sa) = Inr (True, alice)"
  proof -
    obtain bob'' where "decode ?api ?h (encoded_msg ?api ?h sa) (encoded ?api ?h sb) =
        Inr ((decoding_of sb res, answer_xors ?h sb res N, answer_checksums sb res N), bob'')"
      using round_parts(2) [OF r bids] unfolding res_def N_def by blast
    with rt(1) e show ?thesis
      by (auto simp: round_trip_def bind_ok_eq_Inr)
  qed
  have len: "length (groups sb) = N" "length res = N"
    using r round_results_length [of sa sb ?api ?h] by (auto simp: ready_def fresh_def same_params_def N_def res_def)
  have small: "list_all small (answer_xors ?h sb res N)" "list_all small (answer_checksums sb res N)"
    using small_answers [of sb N res] small_groups [OF nat, of _ env d] len by (auto simp: sb_def)
  have wb: "wire_ok ?api sb" using r wire_ok_same [of sa sb] by (auto simp: ready_def)
  have sp: "bch_m (encoded ?api ?h sa) = bch_m sb" "bch_t (encoded ?api ?h sa) = bch_t sb"
      "num_groups_remaining (encoded ?api ?h sa) = num_groups_remaining sb"
    using r by (simp_all add: encoded_def ready_def same_params_def)
  define rx where "rx = (decoding_of sb res)\<lparr>decoded_num_differences := replicate (num_groups_remaining sb) 0,
      decoded_differences := replicate (num_groups_remaining sb * bch_t sb) 0\<rparr>"
  have rxw: "(PbsDecodingMessage (of_nat (bch_m sb)) (of_nat (bch_t sb)) (num_groups_remaining sb) :: 'sk world failure + _) = Inr rx"
    unfolding rx_def by (rule PbsDecodingMessage_of [OF wb])
  have "dec_receiver_for (decoding_of sb res) rx"
    using PbsDecodingMessage_of [OF wb, of res, where 's = unit] by (simp add: dec_receiver_for_def decoding_of_def rx_def)
  note p = f(3) [OF this]
  have "pbs_turn env [] sa t s = Inr (Some (True, rec, alice), t, s\<lparr>sv_pbs := Some bob\<rparr>)"
    by (simp add: pbs_turn_def e f(1,2) bchParameterM_def bchParameterT_def numberOfGroups_def sp rxw p
        map_ucast_small [OF small(1), unfolded map_map] map_ucast_small [OF small(2), unfolded map_map] alice rt(2))
  then show thesis using rt(3,4) by (rule that)
qed

section \<open>The protocol\<close>

text \<open>C3. PBS reconciles two hosts in the case its parameters are chosen for: both sides build their sketches for the
  same number of differences, in every group at most \<open>t\<close> keys differ and no two of them share a bin,
  the keys of the server are not negative and common keys have the same value. Then the messages of
  the first round arrive as they were sent, the round completes and finds exactly the keys only one side
  has, the synchronisation after it exchanges them, the client gives back true, and both maps end as the
  union of the two.\<close>

theorem pbs_reconciles:
  assumes "pbs_setup_ok env d" "sv_estimated_diff s = int d" "sv_pbs s = None" "kv_good n t"
    and "sv_key_value_pairs s = Some u" "kv_good n u" "agree (entries t) (entries u)" "natural_keys (entries u)"
    and "ideal_keys env d (entries t) (entries u)" "n + card (differences (entries t) (entries u)) \<le> oh_limit"
  shows "\<exists>t' u' bob. Reconciliation_ParityBitmapSketch env e (Some d) t s =
      Inr (True, t', s\<lparr>sv_pbs := Some bob, sv_key_value_pairs := Some u'\<rparr>) \<and>
    map_of (entries t') = map_of (entries t) ++ map_of (entries u) \<and> map_of (entries u') = map_of (entries t) ++ map_of (entries u)"
proof -
  let ?p = "first_state env d (entries t)"
  obtain p0 where p0: "default_sketch env d = (Inr p0 :: 'a world failure + _)"
      "add_all (env_xxh3 env) (map (key_element \<circ> fst) (entries t)) p0 = (Inr ?p :: 'a world failure + _)"
    by (rule first_state_built [OF assms(1), where 's = "'a world"])
  note dist = good_distinct [OF assms(4)] good_distinct [OF assms(6)]
  obtain rec alice bob where turn: "pbs_turn env [] ?p t s = Inr (Some (True, rec, alice), t, s\<lparr>sv_pbs := Some bob\<rparr>)"
    and rec: "distinct rec" "set rec = key_element ` differences (entries t) (entries u)"
    by (rule first_turn [OF assms(1-3,5) dist assms(9,8)])
  have "sv_key_value_pairs (s\<lparr>sv_pbs := Some bob\<rparr>) = Some u" using assms(5) by simp
  from final_synchronization_ok [OF assms(4) this assms(6,7) rec assms(10)] obtain t' u' where
    fin: "final_synchronization rec t (s\<lparr>sv_pbs := Some bob\<rparr>) = Inr (t', s\<lparr>sv_pbs := Some bob, sv_key_value_pairs := Some u'\<rparr>)"
      "map_of (entries t') = map_of (entries t) ++ map_of (entries u)" "map_of (entries u') = map_of (entries t) ++ map_of (entries u)"
    by auto
  have "pbs_loop env 3 False [] ?p t s = Some (Inr (True, t', s\<lparr>sv_pbs := Some bob, sv_key_value_pairs := Some u'\<rparr>))"
    using turn fin(1) by (simp add: numeral_3_eq_3 rounds_def first_state_def PBS_MAX_ROUNDS_def)
  then have "Reconciliation_ParityBitmapSketch env e (Some d) t s =
      Inr (True, t', s\<lparr>sv_pbs := Some bob, sv_key_value_pairs := Some u'\<rparr>)"
    by (simp add: Reconciliation_ParityBitmapSketch_def scaled_d_def p0)
  with fin show ?thesis by blast
qed

lemma demo_pbs_setup: "pbs_setup_ok (demo_env demo_api demo_hash (3, 3)) 10" and demo_group_count: "group_count 10 = 2"
proof -
  show "group_count 10 = 2" by code_simp
  then show "pbs_setup_ok (demo_env demo_api demo_hash (3, 3)) 10"
    using demo_setup by (simp add: pbs_setup_ok_def demo_env_def DEFAULT_NUM_GROUPS_WHEN_BCH_FAIL_def)
qed

lemma demo_ideal_keys: "ideal_keys (demo_env demo_api demo_hash (3, 3)) 10 alice_pairs bob_pairs"
proof -
  have "host_bin demo_hash 3 DEFAULT_SEED_G = host_bin demo_hash 3 0" "host_group demo_hash 2 DEFAULT_SEED_G = host_group demo_hash 2 0"
    by (simp_all add: fun_eq_iff host_bin_def host_group_def demo_hash_def)
  with demo_ideal have "ideal_sets demo_hash 2 (3, 3) DEFAULT_SEED_G [1, 2, 3, 4] [3, 4, 5, 6]"
    by (simp only: ideal_sets_def fst_conv snd_conv)
  then show ?thesis by (simp add: ideal_keys_def demo_env_def demo_group_count key_element_def)
qed

theorem pbs_reconciles_witness:
  "\<exists>t u. insert_pairs alice_pairs empty_hash = Inr t \<and> insert_pairs bob_pairs empty_hash = Inr u \<and>
    (\<exists>t' u' bob. Reconciliation_ParityBitmapSketch (demo_env demo_api demo_hash (3, 3)) \<lparr>tow_m = 2, tow_hashes = [0, 1]\<rparr> (Some 10) t (demo_server 10 u) =
        Inr (True, t', (demo_server 10 u)\<lparr>sv_pbs := Some bob, sv_key_value_pairs := Some u'\<rparr>) \<and>
      map_of (entries t') = map_of (entries t) ++ map_of (entries u) \<and> map_of (entries u') = map_of (entries t) ++ map_of (entries u))"
proof -
  obtain t where t: "insert_pairs alice_pairs empty_hash = Inr t" "kv_good 4 t" "entries t = alice_pairs" by (rule alice_map)
  obtain u where u: "insert_pairs bob_pairs empty_hash = Inr u" "kv_good 4 u" "entries u = bob_pairs" by (rule bob_map)
  have "\<exists>t' u' bob. Reconciliation_ParityBitmapSketch (demo_env demo_api demo_hash (3, 3)) \<lparr>tow_m = 2, tow_hashes = [0, 1]\<rparr> (Some 10) t (demo_server 10 u) =
        Inr (True, t', (demo_server 10 u)\<lparr>sv_pbs := Some bob, sv_key_value_pairs := Some u'\<rparr>) \<and>
      map_of (entries t') = map_of (entries t) ++ map_of (entries u) \<and> map_of (entries u') = map_of (entries t) ++ map_of (entries u)"
    by (rule pbs_reconciles [where n = 4 and u = u])
      (use t u alice_bob_agree demo_pbs_setup demo_ideal_keys in \<open>simp_all add: alice_bob_differences oh_limit_def natural_keys_def\<close>)
  with t(1) u(1) show ?thesis by blast
qed

end
