(* ===== verification/Iblt_Peeling.thy ===== *)
theory Iblt_Peeling
  imports Iblt "HOL-Library.Multiset"
begin

text \<open>
  What the lookup table of \<open>3rd/include/iblt/iblt.cpp\<close> computes. A table represents a list of signed keys
  when every cell holds the sum of the signatures (sign, key, check sum) of the keys it is hit by; inserting,
  erasing and subtracting act on that list, and peeling takes keys out of it. When no cell is pure or empty
  by accident, the peeling loop ends, and a table it can empty has been listed exactly.
\<close>

section \<open>Signatures of signed keys\<close>

type_synonym signed_key = "u32 \<times> u64"
type_synonym signature = "u32 \<times> u64 \<times> u32"

definition sig_add :: "signature \<Rightarrow> signature \<Rightarrow> signature" where
  "sig_add x y = (fst x + fst y, fst (snd x) XOR fst (snd y), snd (snd x) XOR snd (snd y))"

definition key_sig :: "signed_key \<Rightarrow> signature" where
  "key_sig p = (fst p, snd p, key_check (snd p))"

definition cell_sig :: "iblt_cell \<Rightarrow> signature" where
  "cell_sig c = (cell_count c, keySum c, keyCheck c)"

definition flip_sign :: "signed_key \<Rightarrow> signed_key" where
  "flip_sign p = (- fst p, snd p)"

fun tally :: "signed_key list \<Rightarrow> signature" where
  "tally [] = (0, 0, 0)"
| "tally (p # ps) = sig_add (key_sig p) (tally ps)"

interpretation sigs: comm_monoid sig_add "(0, 0, 0)"
  by unfold_locales (simp_all add: sig_add_def ac_simps)

lemma tally_append: "tally (ps @ qs) = sig_add (tally ps) (tally qs)"
  by (induction ps) (simp_all add: sigs.assoc)

lemma tally_flip: "sig_add (key_sig (flip_sign p)) (sig_add (key_sig p) x) = x"
  by (simp add: sig_add_def key_sig_def flip_sign_def xor.assoc [symmetric])

lemma tally_remove1: "p \<in> set ps \<Longrightarrow> tally ps = sig_add (key_sig p) (tally (remove1 p ps))"
  by (induction ps) (auto simp: sigs.left_commute)

lemma tally_mset: "mset ps = mset qs \<Longrightarrow> tally ps = tally qs"
proof (induction ps arbitrary: qs)
  case (Cons p ps)
  then have "p \<in> set qs" "mset ps = mset (remove1 p qs)" by (metis list.set_intros(1) mset_eq_setD) (metis Cons.prems mset.simps(2) mset_remove1 add_mset_remove_trivial)
  with Cons.IH [of "remove1 p qs"] tally_remove1 [of p qs] show ?case by simp
qed simp

text \<open>A signed key and its opposite cancel.\<close>

lemma tally_cancel: "p \<in> set ps \<Longrightarrow> tally (flip_sign p # ps) = tally (remove1 p ps)"
  by (simp add: tally_remove1 tally_flip)

lemma add_to_cell_sig [simp]: "cell_sig (add_to_cell s k v c) = sig_add (key_sig (s, k)) (cell_sig c)"
  by (auto simp: add_to_cell_def cell_sig_def sig_add_def key_sig_def addValue_def Let_def ac_simps)

lemma subtract_cell_sig: "cell_sig e2 = tally ps \<Longrightarrow>
    cell_sig (subtract_cell e1 e2) = sig_add (cell_sig e1) (tally (map flip_sign ps))"
proof -
  have neg: "tally (map flip_sign ps) = (- fst (tally ps), snd (tally ps))"
    by (induction ps) (simp_all add: sig_add_def key_sig_def flip_sign_def)
  assume "cell_sig e2 = tally ps"
  then have "tally (map flip_sign ps) = (- cell_count e2, keySum e2, keyCheck e2)"
    unfolding neg by (metis cell_sig_def fst_conv snd_conv)
  then show ?thesis
    by (auto simp: subtract_cell_def cell_sig_def sig_add_def addValue_def Let_def)
qed

section \<open>What a table represents\<close>

definition buckets :: "iblt \<Rightarrow> nat" where
  "buckets t = length (hashTable t) div numHashes t"

definition hits :: "nat \<Rightarrow> nat \<Rightarrow> u64 \<Rightarrow> bool" where
  "hits b j k \<longleftrightarrow> unat (MurmurHash3 (of_nat (j div b)) (ToVec k)) mod b = j mod b"

definition at_cell :: "nat \<Rightarrow> nat \<Rightarrow> signed_key list \<Rightarrow> signed_key list" where
  "at_cell b j ps = filter (\<lambda>p. hits b j (snd p)) ps"

definition table_ok :: "iblt \<Rightarrow> bool" where
  "table_ok t \<longleftrightarrow> 0 < numHashes t \<and> 0 < buckets t \<and> length (hashTable t) = numHashes t * buckets t"

definition represents :: "iblt \<Rightarrow> signed_key list \<Rightarrow> bool" where
  "represents t ps \<longleftrightarrow> table_ok t \<and>
     (\<forall>j < length (hashTable t). cell_sig (hashTable t ! j) = tally (at_cell (buckets t) j ps))"

definition same_shape :: "iblt \<Rightarrow> iblt \<Rightarrow> bool" where
  "same_shape t t' \<longleftrightarrow> numHashes t' = numHashes t \<and> length (hashTable t') = length (hashTable t) \<and> valueSize t' = valueSize t"

lemma same_shape_buckets: "same_shape t t' \<Longrightarrow> buckets t' = buckets t \<and> table_ok t' = table_ok t"
  by (simp add: same_shape_def buckets_def table_ok_def)

lemma entry_index_ok:
  assumes "table_ok t" "i < numHashes t"
  shows "\<exists>j. (entry_index t i k :: 's failure + nat) = Inr j \<and> j < length (hashTable t) \<and> j div buckets t = i \<and> hits (buckets t) j k"
    "entry_index t i k = (Inr j :: 's failure + nat) \<Longrightarrow> j' div buckets t = i \<Longrightarrow> hits (buckets t) j' k \<Longrightarrow> j' = j"
proof -
  let ?b = "buckets t" and ?h = "unat (MurmurHash3 (of_nat i) (ToVec k)) mod buckets t"
  have b: "0 < ?b" "length (hashTable t) = numHashes t * ?b" using assms by (auto simp: table_ok_def)
  have h: "?h < ?b" using b by simp
  have e: "(entry_index t i k :: 's failure + nat) = Inr (i * ?b + ?h)"
    using assms(2) b(1) by (simp add: entry_index_def Let_def) (simp add: buckets_def)
  have "i * ?b + ?h < Suc i * ?b" using h by simp
  also have "\<dots> \<le> numHashes t * ?b" using assms(2) by (intro mult_le_mono1) simp
  finally have "i * ?b + ?h < length (hashTable t)" using b(2) by simp
  moreover have "(i * ?b + ?h) div ?b = i" "(i * ?b + ?h) mod ?b = ?h" using b(1) h by simp_all
  ultimately show "\<exists>j. (entry_index t i k :: 's failure + nat) = Inr j \<and> j < length (hashTable t) \<and> j div ?b = i \<and> hits ?b j k"
    using e by (simp add: hits_def)
  assume "entry_index t i k = (Inr j :: 's failure + nat)" "j' div ?b = i" "hits ?b j' k"
  then show "j' = j" using e div_mult_mod_eq [of j' ?b] by (simp add: hits_def)
qed

lemma insert_one_ok:
  assumes ok: "table_ok t"
  shows "\<exists>t'. insert_one s k v t = Inr t' \<and> same_shape t t' \<and>
    (\<forall>j < length (hashTable t). cell_sig (hashTable t' ! j) =
       (if hits (buckets t) j k then sig_add (key_sig (s, k)) (cell_sig (hashTable t ! j)) else cell_sig (hashTable t ! j)))"
proof -
  let ?b = "buckets t"
  define P where "P i t1 \<longleftrightarrow> same_shape t t1 \<and> (\<forall>j < length (hashTable t). cell_sig (hashTable t1 ! j) =
      (if j div ?b < i \<and> hits ?b j k then sig_add (key_sig (s, k)) (cell_sig (hashTable t ! j)) else cell_sig (hashTable t ! j)))" for i t1
  let ?f = "\<lambda>i t. bind_ok (entry_index t i k) (\<lambda>j. bind_ok (at_entry t t j) (\<lambda>c.
             (Inr (t\<lparr>hashTable := (hashTable t)[j := add_to_cell s k v c]\<rparr>) :: iblt failure + iblt)))"
  have "\<exists>t'. fold_ok ?f [0..<numHashes t] t = Inr t' \<and> P (numHashes t) t'"
  proof (rule fold_ok_upt)
    fix i t1 assume i: "i < numHashes t" and P: "P i t1"
    then have sh: "same_shape t t1" by (simp add: P_def)
    have ok1: "table_ok t1" "i < numHashes t1" "buckets t1 = ?b" "length (hashTable t1) = length (hashTable t)"
      using sh same_shape_buckets [OF sh] ok i by (auto simp: same_shape_def)
    obtain j where j: "(entry_index t1 i k :: iblt failure + nat) = Inr j" "j < length (hashTable t1)" "j div ?b = i" "hits ?b j k"
      using entry_index_ok(1) [OF ok1(1,2), where 's = iblt] ok1(3) by auto
    have uniq: "j' = j" if "j' div ?b = i" "hits ?b j' k" for j'
      using entry_index_ok(2) [OF ok1(1,2) j(1)] that ok1(3) by simp
    let ?t2 = "t1\<lparr>hashTable := (hashTable t1)[j := add_to_cell s k v (hashTable t1 ! j)]\<rparr>"
    have "?f i t1 = Inr ?t2" using j by (simp add: at_entry_def)
    moreover have "P (Suc i) ?t2"
    proof -
      have "cell_sig (hashTable ?t2 ! j') =
          (if j' div ?b < Suc i \<and> hits ?b j' k then sig_add (key_sig (s, k)) (cell_sig (hashTable t ! j')) else cell_sig (hashTable t ! j'))"
        if "j' < length (hashTable t)" for j'
      proof (cases "j' = j")
        case True
        then show ?thesis using P j that ok1(4) by (simp add: P_def)
      next
        case False
        then have "j' div ?b < Suc i \<and> hits ?b j' k \<longleftrightarrow> j' div ?b < i \<and> hits ?b j' k"
          using uniq [of j'] less_Suc_eq by blast
        then show ?thesis using P that False by (simp add: P_def)
      qed
      then show ?thesis using sh by (simp add: P_def same_shape_def)
    qed
    ultimately show "\<exists>t'. ?f i t1 = Inr t' \<and> P (Suc i) t'" by blast
  qed (simp add: P_def same_shape_def)
  then obtain t' where t': "fold_ok ?f [0..<numHashes t] t = Inr t'" "P (numHashes t) t'" by blast
  have "j div ?b < numHashes t" if "j < length (hashTable t)" for j
    using that ok by (simp add: table_ok_def less_mult_imp_div_less)
  with t' ok show ?thesis by (auto simp: insert_one_def P_def table_ok_def)
qed

lemma insert_represents:
  assumes "represents t ps"
  shows "\<exists>t'. insert_one s k v t = Inr t' \<and> same_shape t t' \<and> represents t' ((s, k) # ps)"
proof -
  have ok: "table_ok t" using assms by (simp add: represents_def)
  from insert_one_ok [OF ok, of s k v] obtain t' where t': "insert_one s k v t = Inr t'" "same_shape t t'"
      "\<forall>j < length (hashTable t). cell_sig (hashTable t' ! j) =
       (if hits (buckets t) j k then sig_add (key_sig (s, k)) (cell_sig (hashTable t ! j)) else cell_sig (hashTable t ! j))"
    by blast
  then have "represents t' ((s, k) # ps)"
    using assms same_shape_buckets [OF t'(2)] by (auto simp: represents_def at_cell_def same_shape_def)
  with t' show ?thesis by blast
qed

lemma represents_cong: "represents t ps \<Longrightarrow> (\<And>j. tally (at_cell (buckets t) j ps) = tally (at_cell (buckets t) j qs)) \<Longrightarrow> represents t qs"
  by (simp add: represents_def)

lemma represents_mset: "represents t ps \<Longrightarrow> mset ps = mset qs \<Longrightarrow> represents t qs"
  by (erule represents_cong) (simp add: at_cell_def tally_mset)

lemma represents_cancel:
  assumes "represents t (flip_sign p # ps)" "p \<in> set ps"
  shows "represents t (remove1 p ps)"
  using assms(1)
proof (rule represents_cong)
  fix j
  show "tally (at_cell (buckets t) j (flip_sign p # ps)) = tally (at_cell (buckets t) j (remove1 p ps))"
  proof (cases "hits (buckets t) j (snd p)")
    case True
    then have "tally (at_cell (buckets t) j (flip_sign p # ps)) = tally (flip_sign p # at_cell (buckets t) j ps)"
      by (simp add: at_cell_def flip_sign_def)
    also have "\<dots> = tally (remove1 p (at_cell (buckets t) j ps))"
      using assms(2) True by (intro tally_cancel) (simp add: at_cell_def)
    finally show ?thesis by (simp add: at_cell_def filter_remove1)
  next
    case False
    then show ?thesis by (simp add: at_cell_def flip_sign_def filter_remove1 remove1_idem)
  qed
qed

text \<open>Subtraction of tables of one shape.\<close>

lemma minus_represents:
  assumes a: "represents a ps" and b: "represents b qs" and sh: "same_shape a b"
  shows "\<exists>r. iblt_minus a b = Inr r \<and> same_shape a r \<and> represents r (ps @ map flip_sign qs)"
proof -
  define P where "P i r \<longleftrightarrow> same_shape a r \<and> (\<forall>j < length (hashTable a). hashTable r ! j =
      (if j < i then subtract_cell (hashTable a ! j) (hashTable b ! j) else hashTable a ! j))" for i r
  have "\<exists>r. iblt_minus a b = Inr r \<and> P (length (hashTable a)) r"
    unfolding iblt_minus_def
  proof (rule fold_ok_upt)
    fix i r assume "i < length (hashTable a)" "P i r"
    then show "\<exists>s'. bind_ok (at_entry r r i) (\<lambda>e1. bind_ok (at_entry r b i) (\<lambda>e2.
        Inr (r\<lparr>hashTable := (hashTable r)[i := subtract_cell e1 e2]\<rparr>))) = Inr s' \<and> P (Suc i) s'"
      using sh by (auto simp: P_def at_entry_def same_shape_def nth_list_update)
  qed (simp add: P_def same_shape_def)
  then obtain r where r: "iblt_minus a b = Inr r" "P (length (hashTable a)) r" by blast
  then have sr: "same_shape a r" by (simp add: P_def)
  have "cell_sig (hashTable r ! j) = tally (at_cell (buckets r) j (ps @ map flip_sign qs))" if j: "j < length (hashTable r)" for j
  proof -
    have j': "j < length (hashTable a)" "j < length (hashTable b)" using j sh sr by (auto simp: same_shape_def)
    have "cell_sig (hashTable b ! j) = tally (at_cell (buckets a) j qs)" "cell_sig (hashTable a ! j) = tally (at_cell (buckets a) j ps)"
      using a b j' same_shape_buckets [OF sh] by (auto simp: represents_def)
    moreover have "at_cell (buckets a) j (map flip_sign qs) = map flip_sign (at_cell (buckets a) j qs)"
      by (simp add: at_cell_def filter_map flip_sign_def comp_def)
    ultimately show ?thesis
      using r(2) j' same_shape_buckets [OF sr] subtract_cell_sig
      by (simp add: P_def tally_append at_cell_def)
  qed
  then have "represents r (ps @ map flip_sign qs)"
    using a same_shape_buckets [OF sr] by (simp add: represents_def)
  with r(1) sr show ?thesis by blast
qed

section \<open>Peeling\<close>

text \<open>
  A collection of signed keys is \<open>regular\<close> for a table shape when, for every part of it, a cell that looks
  pure is hit by exactly one key, and a cell that looks empty by none. What a cell looks like is decided by
  the tally alone.
\<close>

definition sig_pure :: "signature \<Rightarrow> bool" where
  "sig_pure x \<longleftrightarrow> (fst x = 1 \<or> fst x = -1) \<and> snd (snd x) = key_check (fst (snd x))"

lemma isPure_sig: "isPure c \<longleftrightarrow> sig_pure (cell_sig c)" and cell_empty_sig: "cell_empty c \<longleftrightarrow> cell_sig c = (0, 0, 0)"
  by (simp_all add: isPure_def sig_pure_def cell_sig_def cell_empty_def)

definition regular_keys :: "nat \<Rightarrow> nat \<Rightarrow> signed_key list \<Rightarrow> bool" where
  "regular_keys n b ps \<longleftrightarrow> (\<forall>qs \<in> set (subseqs ps). \<forall>j < n.
     (sig_pure (tally (at_cell b j qs)) \<longrightarrow> length (at_cell b j qs) = 1) \<and>
     (tally (at_cell b j qs) = (0, 0, 0) \<longrightarrow> at_cell b j qs = []))"

text \<open>What has been listed, when \<open>qs\<close> of the keys \<open>ps\<close> are left in the table.\<close>

definition listed :: "signed_key list \<Rightarrow> signed_key list \<Rightarrow> entries \<Rightarrow> entries \<Rightarrow> bool" where
  "listed ps qs pos neg \<longleftrightarrow> fst ` set pos = {k. (1, k) \<in> set ps - set qs} \<and> fst ` set neg = {k. (-1, k) \<in> set ps - set qs} \<and>
     distinct (map fst pos) \<and> distinct (map fst neg)"

definition signed :: "signed_key list \<Rightarrow> bool" where
  "signed ps \<longleftrightarrow> distinct ps \<and> (\<forall>p \<in> set ps. fst p = 1 \<or> fst p = -1)"

definition peeling :: "iblt \<Rightarrow> signed_key list \<Rightarrow> iblt \<Rightarrow> signed_key list \<Rightarrow> entries \<Rightarrow> entries \<Rightarrow> bool" where
  "peeling t0 ps t qs pos neg \<longleftrightarrow> same_shape t0 t \<and> represents t qs \<and> subseq qs ps \<and> listed ps qs pos neg"

lemma subseq_facts:
  assumes "subseq qs ps"
  shows "set qs \<subseteq> set ps" "distinct ps \<Longrightarrow> distinct qs"
proof -
  obtain N where "qs = nths ps N" using assms by (auto simp: subseq_conv_nths)
  then show "set qs \<subseteq> set ps" "distinct ps \<Longrightarrow> distinct qs"
    using set_nths_subset [of ps N] by (auto intro: distinct_nthsI)
qed

lemma set_insort_insert_fst: "fst ` set (insort_insert e es) = insert (fst e) (fst ` set es)"
  by (simp add: set_insort_insert)

lemma distinct_insort_insert_fst:
  "distinct (map fst es) \<Longrightarrow> fst e \<notin> fst ` set es \<Longrightarrow> distinct (map fst (insort_insert e es))"
proof -
  assume a: "distinct (map fst es)" "fst e \<notin> fst ` set es"
  then have "e \<notin> set es" by auto
  with a show ?thesis by (simp add: distinct_map insort_insert_insort distinct_insort set_insort_key)
qed

text \<open>A pure entry holds exactly one key, with its sign; taking it out leaves the others.\<close>

lemma pure_entry:
  assumes sg: "signed ps" and reg: "regular_keys (length (hashTable t0)) (buckets t0) ps"
    and sh: "same_shape t0 t" and rep: "represents t qs" and sub: "subseq qs ps"
    and i: "i < length (hashTable t)" and pure: "isPure (hashTable t ! i)"
  shows "\<exists>p t'. p \<in> set qs \<and> cell_count (hashTable t ! i) = fst p \<and> keySum (hashTable t ! i) = snd p \<and>
    (fst p = 1 \<or> fst p = -1) \<and> insert_one (- fst p) (snd p) (valueSum (hashTable t ! i)) t = Inr t' \<and> same_shape t0 t' \<and>
    represents t' (remove1 p qs) \<and> subseq (remove1 p qs) ps \<and> set ps - set (remove1 p qs) = insert p (set ps - set qs) \<and>
    length qs = length (remove1 p qs) + 1"
proof -
  let ?c = "hashTable t ! i" and ?b = "buckets t0"
  have sig: "cell_sig ?c = tally (at_cell ?b i qs)"
    using rep i same_shape_buckets [OF sh] by (simp add: represents_def)
  moreover have "i < length (hashTable t0)" using i sh by (simp add: same_shape_def)
  ultimately have "length (at_cell ?b i qs) = 1"
    using reg sub pure by (auto simp: regular_keys_def isPure_sig)
  then obtain p where p: "at_cell ?b i qs = [p]" by (auto simp: length_Suc_conv)
  then have pin: "p \<in> set qs" using p by (metis at_cell_def filter_is_subset list.set_intros(1) subsetD)
  have pps: "p \<in> set ps" using pin subseq_facts(1) [OF sub] by blast
  have c: "cell_count ?c = fst p" "keySum ?c = snd p"
    using sig p by (simp_all add: cell_sig_def key_sig_def sig_add_def)
  have sgn: "fst p = 1 \<or> fst p = -1" using sg pps by (simp add: signed_def)
  from insert_represents [OF rep, of "- fst p" "snd p" "valueSum ?c"] obtain t' where
      t': "insert_one (- fst p) (snd p) (valueSum ?c) t = Inr t'" "same_shape t t'" "represents t' (flip_sign p # qs)"
    by (auto simp: flip_sign_def)
  have rep': "represents t' (remove1 p qs)" by (rule represents_cancel [OF t'(3) pin])
  have dq: "distinct qs" using sg subseq_facts(2) [OF sub] by (simp add: signed_def)
  have rem: "remove1 p qs = filter (\<lambda>q. p \<noteq> q) qs"
    by (simp add: distinct_remove1_removeAll [OF dq] removeAll_filter_not_eq)
  have "subseq (remove1 p qs) ps" unfolding rem by (rule subseq_order.trans [OF subseq_filter_left sub])
  moreover have "set ps - set (remove1 p qs) = insert p (set ps - set qs)"
    using pin pps dq by (auto simp: rem)
  moreover have "same_shape t0 t'" using sh t'(2) by (simp add: same_shape_def)
  moreover have "length qs = length (remove1 p qs) + 1"
    using pin length_pos_if_in_set [OF pin] by (simp add: length_remove1)
  ultimately show ?thesis using pin c sgn t'(1) rep' by blast
qed

lemma peel_entry_ok:
  assumes sg: "signed ps" and reg: "regular_keys (length (hashTable t0)) (buckets t0) ps"
    and P: "peeling t0 ps t qs pos neg" and i: "i < length (hashTable t0)"
  shows "\<exists>t' qs' pos' neg' n'. peel_entry i (n, t, pos, neg) = Inr (n + n', t', pos', neg') \<and>
    peeling t0 ps t' qs' pos' neg' \<and> length qs = length qs' + n'"
proof (cases "isPure (hashTable t ! i)")
  case False
  then show ?thesis
    using P i by (intro exI [of _ t] exI [of _ qs] exI [of _ pos] exI [of _ neg] exI [of _ 0])
      (simp add: peel_entry_def at_entry_def peeling_def same_shape_def)
next
  case True
  let ?c = "hashTable t ! i"
  have sh: "same_shape t0 t" and rep: "represents t qs" and sub: "subseq qs ps" and l: "listed ps qs pos neg"
    using P by (auto simp: peeling_def)
  have i': "i < length (hashTable t)" using i sh by (simp add: same_shape_def)
  from pure_entry [OF sg reg sh rep sub i' True] obtain p t' where
      pin: "p \<in> set qs" and c: "cell_count ?c = fst p" "keySum ?c = snd p" and sgn: "fst p = 1 \<or> fst p = -1"
    and t': "insert_one (- fst p) (snd p) (valueSum ?c) t = Inr t'" "same_shape t0 t'" "represents t' (remove1 p qs)"
    and sub': "subseq (remove1 p qs) ps" and gone: "set ps - set (remove1 p qs) = insert p (set ps - set qs)"
    and len: "length qs = length (remove1 p qs) + 1"
    by blast
  let ?e = "(keySum ?c, valueSum ?c)"
  let ?pos = "if fst p = 1 then insort_insert ?e pos else pos" and ?neg = "if fst p = 1 then neg else insort_insert ?e neg"
  have "listed ps (remove1 p qs) ?pos ?neg"
  proof (cases "fst p = 1")
    case True
    then have "{k. (1, k) \<in> insert p (set ps - set qs)} = insert (snd p) {k. (1, k) \<in> set ps - set qs}"
      "{k. (-1, k) \<in> insert p (set ps - set qs)} = {k. (-1, k) \<in> set ps - set qs}"
      by (cases p; auto)+
    moreover have "(1, snd p) \<in> set qs" using pin True by (metis prod.collapse)
    then have "snd p \<notin> {k. (1, k) \<in> set ps - set qs}" by simp
    ultimately show ?thesis using l c True
      by (simp add: listed_def gone set_insort_insert_fst distinct_insort_insert_fst del: insert_iff Diff_iff)
  next
    case False
    then have "{k. (-1, k) \<in> insert p (set ps - set qs)} = insert (snd p) {k. (-1, k) \<in> set ps - set qs}"
      "{k. (1, k) \<in> insert p (set ps - set qs)} = {k. (1, k) \<in> set ps - set qs}"
      using sgn by (cases p; auto)+
    moreover have "(-1, snd p) \<in> set qs" using pin False sgn by (metis prod.collapse)
    then have "snd p \<notin> {k. (-1, k) \<in> set ps - set qs}" by simp
    ultimately show ?thesis using l c False
      by (simp add: listed_def gone set_insort_insert_fst distinct_insort_insert_fst del: insert_iff Diff_iff)
  qed
  then have "peeling t0 ps t' (remove1 p qs) ?pos ?neg"
    using t' sub' by (simp add: peeling_def)
  moreover have "peel_entry i (n, t, pos, neg) = Inr (n + 1, t', ?pos, ?neg)"
    using True i' t'(1) c by (simp add: peel_entry_def at_entry_def Let_def)
  ultimately show ?thesis
    using len by (intro exI [of _ t'] exI [of _ "remove1 p qs"] exI [of _ ?pos] exI [of _ ?neg] exI [of _ 1]) simp
qed

lemma peel_pass_ok:
  assumes sg: "signed ps" and reg: "regular_keys (length (hashTable t0)) (buckets t0) ps"
    and P: "peeling t0 ps t qs pos neg"
  shows "\<exists>n t' qs' pos' neg'. peel_pass t pos neg = Inr (n, t', pos', neg') \<and>
    peeling t0 ps t' qs' pos' neg' \<and> length qs = length qs' + n"
proof -
  have len: "length (hashTable t) = length (hashTable t0)" using P by (simp add: peeling_def same_shape_def)
  define J where "J (i :: nat) s \<longleftrightarrow> (case s of (n, t', pos', neg') \<Rightarrow> \<exists>qs'. peeling t0 ps t' qs' pos' neg' \<and> length qs = length qs' + n)" for i s
  have "\<exists>s'. fold_ok peel_entry [0..<length (hashTable t)] (0, t, pos, neg) = Inr s' \<and> J (length (hashTable t)) s'"
  proof (rule fold_ok_upt)
    fix i s assume i: "i < length (hashTable t)" and J: "J i s"
    obtain n t1 pos1 neg1 where s: "s = (n, t1, pos1, neg1)" by (cases s)
    from J s obtain qs1 where q: "peeling t0 ps t1 qs1 pos1 neg1" "length qs = length qs1 + n" by (auto simp: J_def)
    from peel_entry_ok [OF sg reg q(1), of i n] i len q(2) show "\<exists>s'. peel_entry i s = Inr s' \<and> J (Suc i) s'"
      by (fastforce simp: s J_def)
  qed (use P in \<open>auto simp: J_def\<close>)
  then show ?thesis by (fastforce simp: peel_pass_def J_def)
qed

lemma peel_loop_ok:
  assumes sg: "signed ps" and reg: "regular_keys (length (hashTable t0)) (buckets t0) ps"
    and "peeling t0 ps t qs pos neg"
  shows "\<exists>t' qs' pos' neg'. peel_loop t pos neg = Some (Inr (t', pos', neg')) \<and> peeling t0 ps t' qs' pos' neg'"
  using assms(3)
proof (induction "length qs" arbitrary: t qs pos neg rule: less_induct)
  case less
  from peel_pass_ok [OF sg reg less.prems] obtain n t1 qs1 pos1 neg1 where
      p: "peel_pass t pos neg = Inr (n, t1, pos1, neg1)" "peeling t0 ps t1 qs1 pos1 neg1" "length qs = length qs1 + n" by blast
  show ?case
  proof (cases "n = 0")
    case True
    with p show ?thesis by (subst peel_loop.simps) auto
  next
    case False
    with less.hyps [OF _ p(2)] p show ?thesis by (subst peel_loop.simps) auto
  qed
qed

text \<open>
  Listing a table that represents regular keys always returns; when it reports success, it has listed
  exactly the keys, by their signs.
\<close>

lemma listEntries_ok:
  assumes sg: "signed ps" and reg: "regular_keys (length (hashTable t)) (buckets t) ps" and rep: "represents t ps"
  shows "\<exists>ok pos neg. listEntries t = Some (Inr (ok, pos, neg)) \<and>
    (ok \<longrightarrow> fst ` set pos = {k. (1, k) \<in> set ps} \<and> fst ` set neg = {k. (-1, k) \<in> set ps} \<and>
       distinct (map fst pos) \<and> distinct (map fst neg))"
proof -
  have ok: "table_ok t" using rep by (simp add: represents_def)
  have "peeling t ps t ps [] []" using rep by (simp add: peeling_def same_shape_def listed_def)
  from peel_loop_ok [OF sg reg this] obtain t' qs pos neg where
      l: "peel_loop t [] [] = Some (Inr (t', pos, neg))" "peeling t ps t' qs pos neg" by blast
  have sh: "same_shape t t'" and rep': "represents t' qs" and sub: "subseq qs ps" and li: "listed ps qs pos neg"
    using l(2) by (auto simp: peeling_def)
  let ?b = "buckets t" and ?ok = "list_all cell_empty (take (buckets t) (hashTable t'))"
  have e: "listEntries t = Some (Inr (?ok, pos, neg))"
    using l(1) ok sh by (simp add: listEntries_def table_ok_def same_shape_def buckets_def)
  have "qs = []" if "?ok"
  proof (rule ccontr)
    assume "qs \<noteq> []"
    then obtain p where p: "p \<in> set qs" by (cases qs) auto
    have b: "0 < ?b" "?b \<le> length (hashTable t)" "length (hashTable t') = length (hashTable t)"
      using ok sh by (auto simp: table_ok_def same_shape_def)
    let ?j = "unat (MurmurHash3 0 (ToVec (snd p))) mod ?b"
    have j: "?j < ?b" using b by simp
    then have j': "?j < length (hashTable t)" using b(2) by linarith
    then have "hits ?b ?j (snd p)" by (simp add: hits_def)
    then have "at_cell ?b ?j qs \<noteq> []" using p by (auto simp: at_cell_def filter_empty_conv)
    moreover have "cell_sig (hashTable t' ! ?j) = tally (at_cell ?b ?j qs)"
      using rep' j' b(3) same_shape_buckets [OF sh] by (simp add: represents_def)
    moreover have "cell_empty (hashTable t' ! ?j)"
      using that j j' b(3) by (auto simp: list_all_length)
    ultimately show False using reg sub j' by (auto simp: regular_keys_def cell_empty_sig)
  qed
  with li e show ?thesis by (auto simp: listed_def)
qed

section \<open>Building and comparing tables\<close>

lemma insert_all_represents:
  assumes "represents t ps"
  shows "\<exists>t'. fold_ok (\<lambda>k. iblt_insert k v) ks t = Inr t' \<and> same_shape t t' \<and> represents t' (map (Pair 1) (rev ks) @ ps)"
  using assms
proof (induction ks arbitrary: t ps)
  case Nil
  then show ?case by (simp add: same_shape_def)
next
  case (Cons k ks)
  from insert_represents [OF Cons.prems, of 1 k v] obtain t1 where
      t1: "iblt_insert k v t = Inr t1" "same_shape t t1" "represents t1 ((1, k) # ps)"
    by (auto simp: iblt_insert_def)
  from Cons.IH [OF t1(3)] t1 show ?case by (auto simp: same_shape_def)
qed

lemma empty_represents:
  assumes "0 < h" "0 < n" "(IBLT n vs h :: 's failure + iblt) = Inr t"
  shows "represents t []" "numHashes t = h"
proof -
  have m: "0 < h \<longrightarrow> raise_to_multiple h n mod h = 0 \<and> n \<le> raise_to_multiple h n" for h n
  proof (induction h n rule: raise_to_multiple.induct)
    case (1 h n)
    show ?case
    proof (cases "h = 0 \<or> h * (n div h) = n")
      case True
      then show ?thesis
        by (subst (1 2) raise_to_multiple.simps) (auto, metis mod_mult_self1_is_0)
    next
      case False
      then show ?thesis using 1 by (subst (1 2) raise_to_multiple.simps) auto
    qed
  qed
  from m [of h n] assms(1) obtain b where b: "raise_to_multiple h n = h * b" by (auto simp: mod_eq_0_iff_dvd elim: dvdE)
  with m [of h n] assms(1,2) have "0 < b" by (cases b) auto
  with assms b show "represents t []" "numHashes t = h"
    by (auto simp: IBLT_def represents_def table_ok_def buckets_def at_cell_def zero_cell_def cell_sig_def)
qed

text \<open>The signed difference of two key lists.\<close>

definition signed_difference :: "u64 list \<Rightarrow> u64 list \<Rightarrow> signed_key list" where
  "signed_difference as bs =
     map (Pair 1) (filter (\<lambda>k. k \<notin> set bs) as) @ map (Pair (-1)) (filter (\<lambda>k. k \<notin> set as) bs)"

lemma tally_common: "tally (map (Pair 1) cs @ map (Pair (-1)) cs) = (0, 0, 0)"
proof (induction cs)
  case (Cons c cs)
  have "tally (map (Pair 1) (c # cs) @ map (Pair (-1)) (c # cs)) =
      tally ((1, c) # (-1, c) # (map (Pair 1) cs @ map (Pair (-1)) cs))"
    by (rule tally_mset) simp
  also have "\<dots> = (0, 0, 0)" using Cons by (simp add: key_sig_def sig_add_def)
  finally show ?case .
qed simp

lemma tally_difference:
  assumes "distinct as" "distinct bs"
  shows "tally (map (Pair 1) as @ map (Pair (-1)) bs) = tally (signed_difference as bs)"
proof -
  let ?cs = "filter (\<lambda>k. k \<in> set bs) as"
  have cs: "mset (filter (\<lambda>k. k \<in> set as) bs) = mset ?cs"
    using assms by (intro iffD1 [OF set_eq_iff_mset_eq_distinct]) auto
  have "tally (map (Pair 1) as @ map (Pair (-1)) bs) =
      tally ((map (Pair 1) ?cs @ map (Pair (-1)) ?cs) @ signed_difference as bs)"
  proof (rule tally_mset)
    have "mset as = mset ?cs + mset (filter (\<lambda>k. k \<notin> set bs) as)" by simp
    moreover have "mset bs = mset (filter (\<lambda>k. k \<in> set as) bs) + mset (filter (\<lambda>k. k \<notin> set as) bs)" by simp
    ultimately have "image_mset (Pair (1 :: u32)) (mset as) + image_mset (Pair (-1)) (mset bs) =
        image_mset (Pair 1) (mset ?cs) + image_mset (Pair 1) (mset (filter (\<lambda>k. k \<notin> set bs) as)) +
        (image_mset (Pair (-1)) (mset ?cs) + image_mset (Pair (-1)) (mset (filter (\<lambda>k. k \<notin> set as) bs)))"
      unfolding cs by (metis image_mset_union)
    then show "mset (map (Pair (1 :: u32)) as @ map (Pair (-1)) bs) =
        mset ((map (Pair 1) ?cs @ map (Pair (-1)) ?cs) @ signed_difference as bs)"
      by (simp add: signed_difference_def ac_simps)
  qed
  also have "\<dots> = tally (signed_difference as bs)" unfolding tally_append [of _ "signed_difference as bs"] tally_common by simp
  finally show ?thesis .
qed

lemma at_cell_difference:
  assumes "distinct as" "distinct bs"
  shows "tally (at_cell b j (map (Pair 1) as @ map (Pair (-1)) bs)) = tally (at_cell b j (signed_difference as bs))"
proof -
  have "at_cell b j (map (Pair 1) as @ map (Pair (-1)) bs) =
      map (Pair 1) (filter (hits b j) as) @ map (Pair (-1)) (filter (hits b j) bs)"
    by (simp add: at_cell_def filter_map comp_def)
  moreover have "at_cell b j (signed_difference as bs) = signed_difference (filter (hits b j) as) (filter (hits b j) bs)"
  proof -
    have "filter (\<lambda>x. x \<notin> set ys \<and> hits b j x) xs = filter (\<lambda>x. hits b j x \<and> (x \<in> set ys \<longrightarrow> \<not> hits b j x)) xs" for xs ys
      by (rule filter_cong) auto
    then show ?thesis by (simp add: at_cell_def signed_difference_def filter_map comp_def)
  qed
  ultimately show ?thesis using tally_difference [of "filter (hits b j) as" "filter (hits b j) bs"] assms by simp
qed

lemma signed_signed_difference: "distinct as \<Longrightarrow> distinct bs \<Longrightarrow> signed (signed_difference as bs)"
  by (auto simp: signed_def signed_difference_def distinct_map intro: inj_onI)

lemma minus_difference:
  assumes "distinct as" "distinct bs" "represents a (map (Pair 1) (rev as))" "represents b (map (Pair 1) (rev bs))" "same_shape a b"
  shows "\<exists>r. iblt_minus a b = Inr r \<and> same_shape a r \<and> represents r (signed_difference as bs)"
proof -
  from minus_represents [OF assms(3-5)] obtain r where
      r: "iblt_minus a b = Inr r" "same_shape a r" "represents r (map (Pair 1) (rev as) @ map flip_sign (map (Pair 1) (rev bs)))" by blast
  have "represents r (map (Pair 1) as @ map (Pair (-1)) bs)"
    by (rule represents_mset [OF r(3)]) (simp add: flip_sign_def rev_map [symmetric] comp_def flip: mset_map)
  then have "represents r (signed_difference as bs)"
    by (rule represents_cong) (rule at_cell_difference [OF assms(1,2)])
  with r show ?thesis by blast
qed

lemma table_difference:
  assumes "distinct as" "distinct bs" "represents t []"
  shows "\<exists>a b r. fold_ok (\<lambda>k. iblt_insert k v) as t = Inr a \<and> fold_ok (\<lambda>k. iblt_insert k v) bs t = Inr b \<and>
    iblt_minus a b = Inr r \<and> same_shape t r \<and> represents r (signed_difference as bs)"
proof -
  obtain a where a: "fold_ok (\<lambda>k. iblt_insert k v) as t = Inr a" "same_shape t a" "represents a (map (Pair 1) (rev as))"
    using insert_all_represents [OF assms(3), of v as] by auto
  obtain b where b: "fold_ok (\<lambda>k. iblt_insert k v) bs t = Inr b" "same_shape t b" "represents b (map (Pair 1) (rev bs))"
    using insert_all_represents [OF assms(3), of v bs] by auto
  have "same_shape a b" using a b by (simp add: same_shape_def)
  from minus_difference [OF assms(1,2) a(3) b(3) this] obtain r where
      r: "iblt_minus a b = Inr r" "same_shape a r" "represents r (signed_difference as bs)" by blast
  moreover have "same_shape t r" using a(2) r(2) by (simp add: same_shape_def)
  ultimately show ?thesis using a(1) b(1) r(1) by blast
qed

section \<open>Looking keys up\<close>

lemma get_direct_ok:
  assumes sg: "signed ps" and reg: "regular_keys (length (hashTable t0)) (buckets t0) ps"
    and sh: "same_shape t0 t" and rep: "represents t qs" and sub: "subseq qs ps" and "set is \<subseteq> {..<numHashes t}"
  shows "\<exists>r. get_direct t k is = Inr r \<and> (\<forall>v. r = Some v \<and> v \<noteq> [] \<longrightarrow> k \<in> snd ` set qs)"
  using assms(6)
proof (induction "is")
  case (Cons i "is")
  have ok: "table_ok t" using rep by (simp add: represents_def)
  obtain j where j: "(entry_index t i k :: iblt failure + nat) = Inr j" "j < length (hashTable t)"
    using entry_index_ok(1) [OF ok, of i] Cons.prems by auto
  show ?case
  proof (cases "isPure (hashTable t ! j) \<and> \<not> cell_empty (hashTable t ! j)")
    case True
    with pure_entry [OF sg reg sh rep sub j(2)] obtain p where "p \<in> set qs" "keySum (hashTable t ! j) = snd p" by blast
    then have "keySum (hashTable t ! j) \<in> snd ` set qs" by auto
    with True show ?thesis using j by (auto simp: at_entry_def)
  next
    case False
    with Cons j show ?thesis by (auto simp: at_entry_def)
  qed
qed simp

lemma get_peel_ok:
  assumes sg: "signed ps" and reg: "regular_keys (length (hashTable t0)) (buckets t0) ps"
    and sh: "same_shape t0 t" and rep: "represents t qs" and sub: "subseq qs ps" and "set is \<subseteq> {..<length (hashTable t0)}"
  shows "\<exists>r m t' qs'. get_peel k is (n, t) = Inr (r, n + m, t') \<and> (\<forall>v. r = Some v \<longrightarrow> k \<in> snd ` set qs) \<and>
    same_shape t0 t' \<and> represents t' qs' \<and> subseq qs' ps \<and> set qs' \<subseteq> set qs \<and> length qs = length qs' + m"
  using assms(3-6)
proof (induction "is" arbitrary: t qs n)
  case Nil
  then show ?case by (intro exI [of _ None] exI [of _ 0] exI [of _ t] exI [of _ qs]) simp
next
  case (Cons i "is")
  have i: "i < length (hashTable t)" using Cons.prems by (simp add: same_shape_def)
  let ?c = "hashTable t ! i"
  show ?case
  proof (cases "isPure ?c")
    case False
    with Cons.IH [OF Cons.prems(1-3)] Cons.prems(4) i show ?thesis by (simp add: at_entry_def)
  next
    case True
    from pure_entry [OF sg reg Cons.prems(1-3) i True] obtain p t1 where
        p: "p \<in> set qs" "cell_count ?c = fst p" "keySum ?c = snd p" "insert_one (- fst p) (snd p) (valueSum ?c) t = Inr t1"
      and t1: "same_shape t0 t1" "represents t1 (remove1 p qs)" "subseq (remove1 p qs) ps" "length qs = length (remove1 p qs) + 1"
      by blast
    show ?thesis
    proof (cases "snd p = k")
      case True
      then have "k \<in> snd ` set qs" using p(1) by auto
      with True \<open>isPure ?c\<close> p i Cons.prems show ?thesis
        by (intro exI [of _ "Some (valueSum ?c)"] exI [of _ 0] exI [of _ t] exI [of _ qs])
          (auto simp: at_entry_def)
    next
      case False
      have "set is \<subseteq> {..<length (hashTable t0)}" using Cons.prems(4) by simp
      from Cons.IH [OF t1(1-3) this, of "Suc n"] obtain r m t' qs' where
        r: "get_peel k is (Suc n, t1) = Inr (r, Suc n + m, t')" "\<forall>v. r = Some v \<longrightarrow> k \<in> snd ` set (remove1 p qs)"
          "same_shape t0 t'" "represents t' qs'" "subseq qs' ps" "set qs' \<subseteq> set (remove1 p qs)" "length (remove1 p qs) = length qs' + m"
        by blast
      have "get_peel k (i # is) (n, t) = Inr (r, n + Suc m, t')"
        using \<open>isPure ?c\<close> p i False r(1) by (simp add: at_entry_def)
      moreover have "set (remove1 p qs) \<subseteq> set qs" by (rule set_remove1_subset)
      ultimately show ?thesis using r t1(4)
        by (intro exI [of _ r] exI [of _ "Suc m"] exI [of _ t'] exI [of _ qs']) auto
    qed
  qed
qed

lemma iblt_get_ok:
  assumes sg: "signed ps" and reg: "regular_keys (length (hashTable t0)) (buckets t0) ps"
    and "same_shape t0 t" "represents t qs" "subseq qs ps"
  shows "\<exists>found v. iblt_get t k = Some (Inr (found, v)) \<and> (found \<and> v \<noteq> [] \<longrightarrow> k \<in> snd ` set qs)"
  using assms(3-5)
proof (induction "length qs" arbitrary: t qs rule: less_induct)
  case less
  have len: "length (hashTable t) = length (hashTable t0)" using less.prems(1) by (simp add: same_shape_def)
  from get_direct_ok [OF sg reg less.prems, of "[0..<numHashes t]" k] obtain r where
      r: "get_direct t k [0..<numHashes t] = Inr r" "\<forall>v. r = Some v \<and> v \<noteq> [] \<longrightarrow> k \<in> snd ` set qs"
    by (auto simp: atLeast_upt)
  show ?case
  proof (cases r)
    case (Some v)
    with r show ?thesis by (subst iblt_get.simps) auto
  next
    case None
    have "set [0..<length (hashTable t)] \<subseteq> {..<length (hashTable t0)}" by (auto simp: len)
    from get_peel_ok [OF sg reg less.prems this, of k 0] obtain r' m t' qs' where
        p: "get_peel k [0..<length (hashTable t)] (0, t) = Inr (r', 0 + m, t')" "\<forall>v. r' = Some v \<longrightarrow> k \<in> snd ` set qs"
          "same_shape t0 t'" "represents t' qs'" "subseq qs' ps" "set qs' \<subseteq> set qs" "length qs = length qs' + m"
      by blast
    show ?thesis
    proof (cases r')
      case (Some v)
      with r None p(1,2) show ?thesis by (subst iblt_get.simps) auto
    next
      case r'None: None
      show ?thesis
      proof (cases "m = 0")
        case True
        with r None p(1) r'None show ?thesis by (subst iblt_get.simps) auto
      next
        case False
        with less.hyps [OF _ p(3,4,5)] p(7) obtain found v where
            "iblt_get t' k = Some (Inr (found, v))" "found \<and> v \<noteq> [] \<longrightarrow> k \<in> snd ` set qs'" by auto
        with r None p(1,6) r'None False show ?thesis by (subst iblt_get.simps) auto
      qed
    qed
  qed
qed

end
