(* ===== verification/Iblt_Properties.thy ===== *)
theory Iblt_Properties
  imports Iblt_Peeling
begin

text \<open>
  What the lookup table of \<open>3rd/include/iblt/iblt.cpp\<close> promises the two services that use it: the
  difference of two tables lists the difference of their keys, erasing undoes inserting, looking a key up
  returns and does not invent keys, and the parameter search ends at the nearest tabulated size.
\<close>

section \<open>A concrete table\<close>

lemma demo_key_hashes:
  "key_check 1 = 3259001075" "key_check 5 = 1576744219"
  "MurmurHash3 0 (ToVec 1) = 1392991556" "MurmurHash3 1 (ToVec 1) = 3741873941"
  "MurmurHash3 0 (ToVec 5) = 1740791543" "MurmurHash3 1 (ToVec 5) = 2789560161"
  by code_simp+

definition demo_table :: iblt where
  "demo_table = \<lparr>valueSize = 1, numHashes = 2, hashTable = replicate 4 zero_cell\<rparr>"

lemma demo_table_built: "IBLT 4 1 2 = (Inr demo_table :: 's failure + iblt)"
  by (simp add: IBLT_def demo_table_def raise_to_multiple.simps)

lemma demo_hits:
  "hits 2 0 1" "\<not> hits 2 1 1" "\<not> hits 2 2 1" "hits 2 3 1" "\<not> hits 2 0 5" "hits 2 1 5" "\<not> hits 2 2 5" "hits 2 3 5"
  by (simp_all add: hits_def demo_key_hashes)

lemma demo_regular: "regular_keys 4 2 (signed_difference [1, 2, 3] [2, 3, 5])"
proof -
  have "(\<forall>j < 4. P j) \<longleftrightarrow> P 0 \<and> P 1 \<and> P 2 \<and> P (3 :: nat)" for P
    by (auto simp: numeral_eq_Suc less_Suc_eq)
  then show ?thesis
    by (simp add: regular_keys_def signed_difference_def at_cell_def demo_hits sig_pure_def sig_add_def key_sig_def
        demo_key_hashes)
qed

section \<open>Properties\<close>

text \<open>C28. Reconciling with lookup tables: for two key sets without repetition, whose tables have one shape, no
  operation fails, listing the difference of the tables returns, and when it reports success the positive
  entries are exactly the keys of the first set alone and the negative ones those of the second alone. The
  hypothesis says that no cell looks pure or empty by an accident of the check sums.\<close>

theorem iblt_lists_difference:
  assumes "distinct as" "distinct bs" "0 < n" "0 < h" "IBLT n vs h = (Inr t :: iblt failure + iblt)"
    and "regular_keys (length (hashTable t)) (length (hashTable t) div h) (signed_difference as bs)"
  shows "\<exists>a b r ok pos neg. fold_ok (\<lambda>k. iblt_insert k v) as t = Inr a \<and> fold_ok (\<lambda>k. iblt_insert k v) bs t = Inr b \<and>
    iblt_minus a b = Inr r \<and> listEntries r = Some (Inr (ok, pos, neg)) \<and>
    (ok \<longrightarrow> fst ` set pos = set as - set bs \<and> fst ` set neg = set bs - set as)"
proof -
  note e = empty_represents [OF assms(4,3,5)]
  from table_difference [OF assms(1,2) e(1), of v] obtain a b r where
      r: "fold_ok (\<lambda>k. iblt_insert k v) as t = Inr a" "fold_ok (\<lambda>k. iblt_insert k v) bs t = Inr b" "iblt_minus a b = Inr r"
        "same_shape t r" "represents r (signed_difference as bs)" by blast
  have "regular_keys (length (hashTable r)) (buckets r) (signed_difference as bs)"
    using assms(6) r(4) e(2) by (simp add: same_shape_def buckets_def)
  from listEntries_ok [OF signed_signed_difference [OF assms(1,2)] this r(5)] obtain ok pos neg where
      l: "listEntries r = Some (Inr (ok, pos, neg))"
        "ok \<longrightarrow> fst ` set pos = {k. (1, k) \<in> set (signed_difference as bs)} \<and>
          fst ` set neg = {k. (-1, k) \<in> set (signed_difference as bs)}" by blast
  moreover have "{k. (1, k) \<in> set (signed_difference as bs)} = set as - set bs"
    "{k. (-1, k) \<in> set (signed_difference as bs)} = set bs - set as"
    by (auto simp: signed_difference_def)
  ultimately show ?thesis using r by auto
qed

theorem iblt_lists_difference_witness:
  "\<exists>a b r ok pos neg. fold_ok (\<lambda>k. iblt_insert k [0]) [1, 2, 3] demo_table = Inr a \<and>
    fold_ok (\<lambda>k. iblt_insert k [0]) [2, 3, 5] demo_table = Inr b \<and>
    iblt_minus a b = Inr r \<and> listEntries r = Some (Inr (ok, pos, neg)) \<and>
    (ok \<longrightarrow> fst ` set pos = set [1, 2, 3] - set [2, 3, 5] \<and> fst ` set neg = set [2, 3, 5] - set [1, 2, 3])"
  by (rule iblt_lists_difference [OF _ _ _ _ demo_table_built])
    (use demo_regular in \<open>simp_all add: demo_table_def\<close>)

text \<open>C29. The peeling loops end on a table that holds what its keys say: a well-formed table whose cells are the tallies
  of distinct signed keys (inserted or subtracted), where \<open>regular_keys\<close> holds: for no part of these keys does a cell
  look like a single key when it holds several, or empty when it holds some. Then both ways of listing return a
  result, and so does every look-up; a look-up that finds a value finds it for a key that is in the table. Without the
  last condition a false check sum can keep a loop going for ever.\<close>

theorem iblt_listing_and_lookup_end:
  assumes "signed ps" "regular_keys (length (hashTable t)) (buckets t) ps" "represents t ps"
  shows "(\<exists>r. listEntries t = Some (Inr r)) \<and> (\<exists>r. peelEntries t [] [] = Some (Inr r)) \<and>
    (\<exists>found v. iblt_get t k = Some (Inr (found, v)) \<and> (found \<and> v \<noteq> [] \<longrightarrow> k \<in> snd ` set ps))"
proof -
  have sh: "same_shape t t" by (simp add: same_shape_def)
  have "peeling t ps t ps [] []" using assms(3) sh by (simp add: peeling_def listed_def)
  from peel_loop_ok [OF assms(1,2) this] have "\<exists>r. peelEntries t [] [] = Some (Inr r)"
    unfolding peelEntries_def by blast
  moreover have "\<exists>r. listEntries t = Some (Inr r)" using listEntries_ok [OF assms] by blast
  moreover have "\<exists>found v. iblt_get t k = Some (Inr (found, v)) \<and> (found \<and> v \<noteq> [] \<longrightarrow> k \<in> snd ` set ps)"
    by (rule iblt_get_ok [OF assms(1,2) sh assms(3)]) simp
  ultimately show ?thesis by blast
qed

lemma demo_table_represents: "represents demo_table []"
  using empty_represents(1) [OF _ _ demo_table_built] by simp

theorem iblt_listing_and_lookup_end_witness:
  "\<exists>t. represents t (signed_difference [1, 2, 3] [2, 3, 5]) \<and>
    (\<exists>r. listEntries t = Some (Inr r)) \<and> (\<exists>r. peelEntries t [] [] = Some (Inr r)) \<and>
    (\<exists>found v. iblt_get t 5 = Some (Inr (found, v)) \<and> (found \<and> v \<noteq> [] \<longrightarrow> 5 \<in> snd ` set (signed_difference [1, 2, 3] [2, 3, 5])))"
proof -
  obtain r where r: "same_shape demo_table r" "represents r (signed_difference [1, 2, 3] [2, 3, 5])"
    using table_difference [OF _ _ demo_table_represents, of "[1, 2, 3]" "[2, 3, 5]" "[0]"] by auto
  have "regular_keys (length (hashTable r)) (buckets r) (signed_difference [1, 2, 3] [2, 3, 5])"
    using demo_regular r(1) by (simp add: same_shape_def buckets_def demo_table_def)
  from iblt_listing_and_lookup_end [OF signed_signed_difference this r(2), of 5] r(2) show ?thesis by auto
qed

text \<open>Erasing undoes inserting: after a key is inserted and erased again, in any table of a sound shape,
  every cell has the count, the key sum and the check sum it had before.\<close>

lemma iblt_erase_undoes_insert:
  assumes "0 < numHashes t" "0 < buckets t" "length (hashTable t) = numHashes t * buckets t"
  shows "\<exists>t1 t2. iblt_insert k v t = Inr t1 \<and> iblt_erase k v t1 = Inr t2 \<and> length (hashTable t2) = length (hashTable t) \<and>
    (\<forall>j < length (hashTable t). cell_count (hashTable t2 ! j) = cell_count (hashTable t ! j) \<and>
       keySum (hashTable t2 ! j) = keySum (hashTable t ! j) \<and> keyCheck (hashTable t2 ! j) = keyCheck (hashTable t ! j))"
proof -
  have ok: "table_ok t" using assms by (simp add: table_ok_def)
  from insert_one_ok [OF ok, of 1 k v] obtain t1 where t1: "insert_one 1 k v t = Inr t1" "same_shape t t1"
      "\<forall>j < length (hashTable t). cell_sig (hashTable t1 ! j) =
        (if hits (buckets t) j k then sig_add (key_sig (1, k)) (cell_sig (hashTable t ! j)) else cell_sig (hashTable t ! j))" by blast
  note b = same_shape_buckets [OF t1(2)]
  from insert_one_ok [of t1 "-1" k v] ok b obtain t2 where t2: "insert_one (-1) k v t1 = Inr t2" "same_shape t1 t2"
      "\<forall>j < length (hashTable t1). cell_sig (hashTable t2 ! j) =
        (if hits (buckets t) j k then sig_add (key_sig (-1, k)) (cell_sig (hashTable t1 ! j)) else cell_sig (hashTable t1 ! j))" by auto
  have "cell_sig (hashTable t2 ! j) = cell_sig (hashTable t ! j)" if "j < length (hashTable t)" for j
    using t1 t2 that tally_flip [of "(1, k)"] by (simp add: same_shape_def flip_sign_def)
  then show ?thesis
    using t1(1,2) t2(1,2) by (auto simp: iblt_insert_def iblt_erase_def same_shape_def cell_sig_def)
qed

text \<open>A small \<open>size_t\<close> read as \<open>int\<close>.\<close>

lemma sint_of_size: "n < 2 ^ 31 \<Longrightarrow> sint (ucast (of_nat n :: u64) :: u32) = int n"
proof -
  assume n: "n < 2 ^ 31"
  have "(ucast (of_nat n :: u64) :: u32) = of_nat n"
  proof (rule word_unat_eq_iff [THEN iffD2])
    show "unat (ucast (of_nat n :: u64) :: u32) = unat (of_nat n :: u32)"
      using n unat_of_nat_u64 [of n] unat_of_nat_u32 [of n] by (simp add: unsigned_ucast_eq take_bit_eq_mod)
  qed
  moreover have "uint (of_nat n :: u32) = int n" using n unat_of_nat_u32 [of n] by (simp add: uint_nat)
  moreover have "signed_take_bit 31 (int n) = int n" using n by (intro signed_take_bit_int_eq_self) simp_all
  ultimately show ?thesis by (simp add: sint_uint)
qed

text \<open>The parameter search counts down to the nearest tabulated size: when some size up to the requested
  one is tabulated, the search returns the entry of the largest such size.\<close>

lemma OptimalParameters_nearest:
  assumes "parameters (int k) = Some p" "k \<le> n" "n < 2 ^ 31" "\<forall>i. k < i \<and> i \<le> n \<longrightarrow> parameters (int i) = None"
  shows "OptimalParameters parameters (of_nat n) = Some p"
  using assms(2-4)
proof (induction "n - k" arbitrary: n)
  case 0
  then have "n = k" by simp
  with assms(1) 0 show ?case by (subst OptimalParameters.simps) (simp add: sint_of_size)
next
  case (Suc d)
  then have n: "k < n" "parameters (int n) = None" by auto
  have "of_nat n - 1 = (of_nat (n - 1) :: u64)" using n(1) by (simp add: of_nat_diff)
  moreover have "OptimalParameters parameters (of_nat (n - 1)) = Some p"
    using Suc.hyps(2) Suc.prems by (intro Suc.hyps(1)) auto
  ultimately show ?case using n Suc.prems by (subst OptimalParameters.simps) (simp add: sint_of_size)
qed

end
