(* ===== verification/Recon_Digest.thy ===== *)
theory Recon_Digest
  imports Recon_Properties Iblt_Properties
begin

text \<open>
  The difference digest from the first message to equal maps: the client's table travels as cells, the server
  subtracts it from its own, lists the difference and pushes what the client lacks.
\<close>

section \<open>Tables of hosts\<close>

lemma set_cells_of:
  assumes "same_shape blank a" "represents a ps"
  shows "\<exists>r. set_cells (cells_of a) blank = (Inr r :: 's failure + _) \<and> same_shape blank r \<and> represents r ps"
proof -
  let ?r = "blank\<lparr>hashTable := map (\<lambda>(c, ks, kc). \<lparr>cell_count = c, keySum = ks, keyCheck = kc, valueSum = [0]\<rparr>) (cells_of a)\<rparr>"
  have len: "length (cells_of a) = length (hashTable blank)" using assms(1) by (simp add: cells_of_def same_shape_def)
  then have "set_cells (cells_of a) blank = (Inr ?r :: 's failure + _)" by (simp add: set_cells_def)
  moreover have sh: "same_shape blank ?r" using len by (simp add: same_shape_def)
  moreover have "cell_sig (hashTable ?r ! j) = cell_sig (hashTable a ! j)" if "j < length (hashTable a)" for j
    using that by (simp add: cells_of_def cell_sig_def)
  then have "represents ?r ps"
    using assms sh same_shape_buckets [OF sh] same_shape_buckets [OF assms(1)] by (simp add: represents_def same_shape_def)
  ultimately show ?thesis by blast
qed

lemma insert_keys_eq: "insert_keys kvs = fold_ok (\<lambda>k. iblt_insert k [0]) (map (key_element \<circ> fst) kvs)"
proof
  show "insert_keys kvs t = fold_ok (\<lambda>k. iblt_insert k [0]) (map (key_element \<circ> fst) kvs) t" for t
    by (induction kvs arbitrary: t) (simp_all add: insert_keys_def bind_ok_def split: sum.split)
qed

definition host_elements :: "(key \<times> string) list \<Rightarrow> u64 list" where
  "host_elements kvs = map (key_element \<circ> fst) kvs"

lemma set_host_elements: "set (host_elements kvs) = key_element ` keys_of kvs"
  by (simp add: host_elements_def keys_of_def image_comp)

lemma distinct_host_elements: "distinct (map fst kvs) \<Longrightarrow> distinct (host_elements kvs)"
  using comp_inj_on_iff [of fst "set kvs" key_element] inj_on_subset [OF inj_key_element]
  by (simp add: host_elements_def distinct_map)

section \<open>The protocol\<close>

lemma ddigest_blank:
  assumes "ddigest_table d = (Inr blank :: 'f failure + _)" "hashTable blank \<noteq> []"
  shows "ddigest_table d = (Inr blank :: 'g failure + _)" "represents blank []"
proof -
  from assms(1) obtain n where n: "IBLT n 1 (if 200 < d then 3 else 4) = (Inr blank :: 'f failure + _)"
    "iblt_entries d 2 = (Inr n :: 'f failure + _)" by (auto simp: ddigest_table_def bind_ok_eq_Inr)
  then show "ddigest_table d = (Inr blank :: 'g failure + _)"
    by (auto simp: ddigest_table_def iblt_entries_def IBLT_def Let_def split: if_splits)
  have z: "raise_to_multiple h 0 = 0" for h by (subst raise_to_multiple.simps) simp
  have "0 < n"
  proof (rule ccontr)
    assume "\<not> 0 < n"
    with n(1) assms(2) z show False by (auto simp: IBLT_def split: if_splits)
  qed
  then show "represents blank []" using empty_represents(1) [OF _ _ n(1)] by simp
qed

definition no_digest :: ddigest_reply where
  "no_digest = \<lparr>dd_succeed = False, dd_missing_keys = [], dd_pushed_key_values = []\<rparr>"

lemma ReconcileDDigest_eq:
  assumes d: "sv_estimated_diff s = int d" and u: "sv_key_value_pairs s = Some u" "kv_good n u" and t: "kv_good n t"
    and blank: "ddigest_table d = (Inr blank :: 'sk server failure + _)" "represents blank []"
    and reg: "regular_keys (length (hashTable blank)) (buckets blank) (signed_difference (host_elements (entries u)) (host_elements (entries t)))"
    and a: "same_shape blank a" "represents a (map (Pair 1) (rev (host_elements (entries t))))"
  shows "\<exists>ok missing new. ReconcileDDigest (cells_of a) (s :: 'sk server) =
      Inr (OK, if ok then \<lparr>dd_succeed = True, dd_missing_keys = missing, dd_pushed_key_values = pairs_of (entries u) new\<rparr> else no_digest, s) \<and>
    (ok \<longrightarrow> distinct missing \<and> set missing = keys_of (entries t) - keys_of (entries u) \<and>
      distinct new \<and> set new = keys_of (entries u) - keys_of (entries t))"
proof -
  let ?as = "host_elements (entries u)" and ?bs = "host_elements (entries t)"
  let ?diff = "signed_difference ?as ?bs"
  have dist: "distinct ?as" "distinct ?bs"
    using good_distinct [OF u(2)] good_distinct [OF t] by (simp_all add: distinct_host_elements)
  obtain b where b: "insert_keys (entries u) blank = Inr b" "same_shape blank b" "represents b (map (Pair 1) (rev ?as))"
    using insert_all_represents [OF blank(2), of "[0]" ?as] by (auto simp: insert_keys_eq host_elements_def)
  from set_cells_of [OF a, where 's = "'sk server"] obtain o' where
    o: "set_cells (cells_of a) blank = (Inr o' :: 'sk server failure + _)" "same_shape blank o'" "represents o' (map (Pair 1) (rev ?bs))" by blast
  have "same_shape b o'" using b(2) o(2) by (simp add: same_shape_def)
  from minus_difference [OF dist b(3) o(3) this] obtain r where
    r: "iblt_minus b o' = Inr r" "same_shape b r" "represents r ?diff" by blast
  have reg': "regular_keys (length (hashTable r)) (buckets r) ?diff"
    using reg b(2) r(2) same_shape_buckets [OF b(2)] same_shape_buckets [OF r(2)] by (simp add: same_shape_def)
  from listEntries_ok [OF signed_signed_difference [OF dist] reg' r(3)] obtain ok pos neg where
    l: "listEntries r = Some (Inr (ok, pos, neg))"
      "ok \<longrightarrow> fst ` set pos = {k. (1, k) \<in> set ?diff} \<and> fst ` set neg = {k. (-1, k) \<in> set ?diff} \<and>
        distinct (map fst pos) \<and> distinct (map fst neg)" by blast
  show ?thesis
  proof (cases ok)
    case False
    then have "ReconcileDDigest (cells_of a) s = Inr (OK, no_digest, s)"
      using d u b(1) o(1) r(1) l(1) blank(1)
      by (simp add: ReconcileDDigest_def no_digest_def)
    then show ?thesis by (intro exI [of _ False]) simp
  next
    case True
    let ?new = "map (element_key \<circ> fst) pos" and ?missing = "map (element_key \<circ> fst) neg"
    have "fst ` set pos = set ?as - set ?bs" "fst ` set neg = set ?bs - set ?as"
      using True l(2) by (auto simp: signed_difference_def)
    moreover have "set ?as - set ?bs = key_element ` (keys_of (entries u) - keys_of (entries t))"
      "set ?bs - set ?as = key_element ` (keys_of (entries t) - keys_of (entries u))"
      using inj_key_element by (simp_all add: set_host_elements image_set_diff)
    ultimately have f: "fst ` set pos = key_element ` (keys_of (entries u) - keys_of (entries t))"
      "fst ` set neg = key_element ` (keys_of (entries t) - keys_of (entries u))" by simp_all
    have sets: "set ?new = keys_of (entries u) - keys_of (entries t)" "set ?missing = keys_of (entries t) - keys_of (entries u)"
      using arg_cong [OF f(1), of "image element_key"] arg_cong [OF f(2), of "image element_key"] by (simp_all add: image_image)
    have dis: "distinct (map element_key xs)" if "distinct xs" "set xs = key_element ` K" for xs K
    proof -
      have "inj_on element_key (key_element ` K)" by (intro inj_onI) auto
      with that show ?thesis by (simp add: distinct_map)
    qed
    have "distinct (map fst pos)" "distinct (map fst neg)" using True l(2) by auto
    then have "distinct ?new" "distinct ?missing"
      using dis [OF _ trans [OF list.set_map f(1)]] dis [OF _ trans [OF list.set_map f(2)]] by simp_all
    moreover have "ReconcileDDigest (cells_of a) s =
        Inr (OK, \<lparr>dd_succeed = True, dd_missing_keys = ?missing, dd_pushed_key_values = pairs_of (entries u) ?new\<rparr>, s)"
    proof -
      have "push_found ?new [] u = Inr (True, pairs_of (entries u) ?new, u)"
        using push_found_ok [OF u(2), of ?new "[]"] sets(1) by simp
      then show ?thesis
        using True d u b(1) o(1) r(1) l(1) blank(1) by (simp add: ReconcileDDigest_def)
    qed
    ultimately show ?thesis using sets by (intro exI [of _ True] exI [of _ ?missing] exI [of _ ?new]) simp
  qed
qed

text \<open>C5. The difference digest does not reconcile wrongly, provided that no check sum deceives it. The conditions: two
  well-formed maps that agree on their common keys, together with at most \<open>2 ^ 27\<close> entries; a number of differences for
  which the constructor makes a table that is not empty; and \<open>regular_keys\<close>: for no part of the keys that differ does a
  cell look like a single key when it holds several, or empty when it holds some. (Otherwise the peeling may list
  wrong keys or go on for ever.) Then the protocol returns. Either the listing of the difference succeeds and both maps
  end as the union of the two, or it fails, the result is false and neither map has changed.\<close>

theorem ddigest_reconciles:
  fixes s :: "'sk server"
  assumes "sv_estimated_diff s = int d" "kv_good n t" "sv_key_value_pairs s = Some u" "kv_good n u" "agree (entries t) (entries u)"
    and "ddigest_table d = (Inr blank :: 'sk world failure + _)" "hashTable blank \<noteq> []"
    and "regular_keys (length (hashTable blank)) (buckets blank) (signed_difference (host_elements (entries u)) (host_elements (entries t)))"
    and "n + card (differences (entries t) (entries u)) \<le> oh_limit"
  shows "\<exists>ok t' s'. Reconciliation_DDigest env e (Some d) t s = Inr (ok, t', s') \<and>
    (ok \<longrightarrow> map_of (entries t') = map_of (entries t) ++ map_of (entries u) \<and>
      (\<exists>u'. s' = s\<lparr>sv_key_value_pairs := Some u'\<rparr> \<and> map_of (entries u') = map_of (entries t) ++ map_of (entries u))) \<and>
    (\<not> ok \<longrightarrow> t' = t \<and> s' = s)"
proof -
  note blank = ddigest_blank [OF assms(6,7)]
  obtain a where a: "insert_keys (entries t) blank = Inr a" "same_shape blank a" "represents a (map (Pair 1) (rev (host_elements (entries t))))"
    using insert_all_represents [OF blank(2), of "[0]" "host_elements (entries t)"] by (auto simp: insert_keys_eq host_elements_def)
  from ReconcileDDigest_eq [OF assms(1,3,4,2) blank assms(8) a(2,3)] obtain ok missing new where
    r: "ReconcileDDigest (cells_of a) s =
      Inr (OK, if ok then \<lparr>dd_succeed = True, dd_missing_keys = missing, dd_pushed_key_values = pairs_of (entries u) new\<rparr> else no_digest, s)"
    and k: "ok \<Longrightarrow> distinct missing \<and> set missing = keys_of (entries t) - keys_of (entries u) \<and>
      distinct new \<and> set new = keys_of (entries u) - keys_of (entries t)" by blast
  show ?thesis
  proof (cases ok)
    case False
    with r a(1) assms(6) have "Reconciliation_DDigest env e (Some d) t s = Inr (False, t, s)"
      by (simp add: Reconciliation_DDigest_def scaled_d_def no_digest_def)
    then show ?thesis by blast
  next
    case True
    note k = k [OF True]
    have "n + length missing \<le> oh_limit" "n + length new \<le> oh_limit"
      using k assms(9) length_differences [of missing] length_differences [of new] by (fastforce simp: differences_def)+
    with take_over [OF assms(2,3,4,5), of missing new] k obtain t1 t' u' where
      f: "accept_pushes (pairs_of (entries u) new) t = Inr (True, t1)"
        "(if missing \<noteq> [] then Push missing t1 s else Inr (True, t1, s)) = Inr (True, t', s\<lparr>sv_key_value_pairs := Some u'\<rparr>)"
        "map_of (entries t') = map_of (entries t) ++ map_of (entries u)" "map_of (entries u') = map_of (entries t) ++ map_of (entries u)"
      by blast
    then have "Reconciliation_DDigest env e (Some d) t s = Inr (True, t', s\<lparr>sv_key_value_pairs := Some u'\<rparr>)"
      using True r a(1) assms(6)
      by (cases "missing = []") (simp_all add: Reconciliation_DDigest_def scaled_d_def)
    with f(3,4) show ?thesis by blast
  qed
qed

section \<open>An instance\<close>

lemma small_table: "ddigest_table 2 = (Inr \<lparr>valueSize = 1, numHashes = 4, hashTable = replicate 4 zero_cell\<rparr> :: 's failure + _)"
proof -
  have "iblt_entries 2 2 = (Inr 4 :: unit failure + nat)" by code_simp
  then have "iblt_entries 2 2 = (Inr 4 :: 's failure + nat)" by (simp add: iblt_entries_def Let_def split: if_splits)
  then show ?thesis by (simp add: ddigest_table_def IBLT_def raise_to_multiple.simps)
qed

lemma two_keys_regular:
  "a \<noteq> b \<Longrightarrow> key_check a \<noteq> key_check b \<Longrightarrow> regular_keys 4 1 [(1, a), (-1, b)]"
proof -
  assume "a \<noteq> b" "key_check a \<noteq> key_check b"
  then show ?thesis
    by (simp add: regular_keys_def at_cell_def hits_def sig_pure_def sig_add_def key_sig_def xor_zero_iff)
qed

theorem ddigest_reconciles_witness:
  "\<exists>t u. insert_pairs [(1, ''a''), (2, ''b'')] empty_hash = Inr t \<and> insert_pairs [(2, ''b''), (5, ''c'')] empty_hash = Inr u \<and>
    (\<exists>ok t' s'. Reconciliation_DDigest (demo_env blind_api (\<lambda>e s. e) (3, 3)) \<lparr>tow_m = 2, tow_hashes = [0, 1]\<rparr> (Some 2) t (demo_server 2 u) = Inr (ok, t', s') \<and>
      (ok \<longrightarrow> map_of (entries t') = map_of (entries t) ++ map_of (entries u) \<and>
        (\<exists>u'. s' = (demo_server 2 u)\<lparr>sv_key_value_pairs := Some u'\<rparr> \<and> map_of (entries u') = map_of (entries t) ++ map_of (entries u))) \<and>
      (\<not> ok \<longrightarrow> t' = t \<and> s' = demo_server 2 u))"
proof -
  obtain t where t: "insert_pairs [(1, ''a''), (2, ''b'')] empty_hash = Inr t" "kv_good 2 t" "entries t = [(1, ''a''), (2, ''b'')]"
    by (rule map_from_pairs [of "[(1, ''a''), (2, ''b'')]" 2]) (simp_all add: oh_limit_def)
  obtain u where u: "insert_pairs [(2, ''b''), (5, ''c'')] empty_hash = Inr u" "kv_good 2 u" "entries u = [(2, ''b''), (5, ''c'')]"
    by (rule map_from_pairs [of "[(2, ''b''), (5, ''c'')]" 2]) (simp_all add: oh_limit_def)
  have keys: "signed_difference (host_elements [(2, ''b''), (5, ''c'')]) (host_elements [(1, ''a''), (2, ''b'')]) = [(1, 5), (-1, 1)]"
    by (simp add: signed_difference_def host_elements_def key_element_def)
  have "differences [(1, ''a''), (2, ''b'')] [(2, ''b''), (5, ''c'')] = {1, 5}" by (auto simp: differences_def)
  then have "\<exists>ok t' s'. Reconciliation_DDigest (demo_env blind_api (\<lambda>e s. e) (3, 3)) \<lparr>tow_m = 2, tow_hashes = [0, 1]\<rparr> (Some 2) t (demo_server 2 u) = Inr (ok, t', s') \<and>
      (ok \<longrightarrow> map_of (entries t') = map_of (entries t) ++ map_of (entries u) \<and>
        (\<exists>u'. s' = (demo_server 2 u)\<lparr>sv_key_value_pairs := Some u'\<rparr> \<and> map_of (entries u') = map_of (entries t) ++ map_of (entries u))) \<and>
      (\<not> ok \<longrightarrow> t' = t \<and> s' = demo_server 2 u)"
    by (intro ddigest_reconciles [where n = 2, OF _ _ _ _ _ small_table])
      (use t u two_keys_regular [of 5 1] demo_key_hashes in \<open>simp_all add: agree_def value_of_def oh_limit_def keys buckets_def\<close>)
  with t(1) u(1) show ?thesis by blast
qed

end
