(* ===== verification/Bloom_Properties.thy ===== *)
theory Bloom_Properties
  imports Bloom_Filter
begin

text \<open>
  What a Bloom filter promises, over the set of its bits: an insertion adds the positions of the key and nothing
  else, a key is contained iff its positions are there. The lemmas are proved once for every way to compute the
  positions (the locale \<open>bit_indexing\<close>) and hold for both filters.
\<close>

section \<open>Bits of a table\<close>

definition table_bits :: "bytes \<Rightarrow> nat set" where
  "table_bits bt = {j. j < 8 * length bt \<and> bit (bt ! (j div 8)) (j mod 8)}"

definition mark :: "nat \<Rightarrow> bytes \<Rightarrow> bytes" where
  "mark j bt = bt[j div 8 := bt ! (j div 8) OR bit_mask ! (j mod 8)]"

lemma bit_mask_nth: "i < 8 \<Longrightarrow> bit_mask ! i = push_bit i 1"
  by (auto simp: bit_mask_def less_Suc_eq numeral_eq_Suc push_bit_eq_mult)

lemma mask_test: "i < 8 \<Longrightarrow> (b AND bit_mask ! i) \<noteq> bit_mask ! i \<longleftrightarrow> \<not> bit (b :: u8) i"
proof -
  assume i: "i < 8"
  have "bit (push_bit i 1 :: u8) n \<longleftrightarrow> n = i" if "n < 8" for n
    using i that by (auto simp: bit_exp_iff)
  then have m: "bit (bit_mask ! i) n \<longleftrightarrow> n = i" if "n < 8" for n
    using i that by (simp add: bit_mask_nth)
  show ?thesis
  proof
    assume ne: "b AND bit_mask ! i \<noteq> bit_mask ! i"
    show "\<not> bit b i"
    proof
      assume "bit b i"
      then have "b AND bit_mask ! i = bit_mask ! i" by (intro bit_word_eqI) (auto simp: bit_and_iff m)
      with ne show False ..
    qed
  next
    assume "\<not> bit b i"
    then have "\<not> bit (b AND bit_mask ! i) i" by (simp add: bit_and_iff)
    with m [OF i] show "b AND bit_mask ! i \<noteq> bit_mask ! i" by auto
  qed
qed

lemma length_mark [simp]: "length (mark j bt) = length bt"
  by (simp add: mark_def)

lemma length_marks [simp]: "length (fold mark js bt) = length bt"
  by (induction js arbitrary: bt) simp_all

lemma table_bits_mark: "j < 8 * length bt \<Longrightarrow> table_bits (mark j bt) = insert j (table_bits bt)"
proof -
  assume j: "j < 8 * length bt"
  have "bit (mark j bt ! (i div 8)) (i mod 8) \<longleftrightarrow> i = j \<or> bit (bt ! (i div 8)) (i mod 8)" if "i < 8 * length bt" for i
  proof -
    have "i div 8 < length bt" "j div 8 < length bt" using that j by auto
    moreover have "i = j \<longleftrightarrow> i div 8 = j div 8 \<and> i mod 8 = j mod 8" by (metis div_mod_decomp)
    ultimately show ?thesis by (auto simp: mark_def nth_list_update bit_mask_nth bit_simps)
  qed
  with j show ?thesis by (auto simp: table_bits_def)
qed

lemma table_bits_marks: "set js \<subseteq> {..<8 * length bt} \<Longrightarrow> table_bits (fold mark js bt) = table_bits bt \<union> set js"
  by (induction js arbitrary: bt) (simp_all add: table_bits_mark)

lemma table_bits_blank [simp]: "table_bits (replicate n 0) = {}"
  by (auto simp: table_bits_def)

lemma table_bits_eq: "length a = length b \<Longrightarrow> table_bits a = table_bits b \<longleftrightarrow> a = b"
proof
  assume len: "length a = length b" and eq: "table_bits a = table_bits b"
  show "a = b"
  proof (rule nth_equalityI [OF len])
    fix i assume i: "i < length a"
    have "bit (a ! i) k = bit (b ! i) k" if "k < 8" for k
    proof -
      have "(8 * i + k) div 8 = i" "(8 * i + k) mod 8 = k" "8 * i + k < 8 * length a" using that i by auto
      then show ?thesis using eq len unfolding table_bits_def set_eq_iff mem_Collect_eq by metis
    qed
    then show "a ! i = b ! i" by (intro bit_word_eqI) simp
  qed
qed simp

section \<open>Operations over the bits\<close>

definition with_table :: "bytes \<Rightarrow> 'x bloom_filter_scheme \<Rightarrow> 'x bloom_filter_scheme" where
  "with_table bt f = f\<lparr>bit_table := bt\<rparr>"

lemma with_table_simps [simp]:
  "bit_table (with_table bt f) = bt" "salt (with_table bt f) = salt f" "with_table bt (with_table bt' f) = with_table bt f"
  "inserted_element_count (with_table bt f) = inserted_element_count f" "bf_table_size (with_table bt f) = bf_table_size f"
  by (simp_all add: with_table_def)

lemma with_own_table [simp]: "with_table (bit_table f) f = f"
  by (simp add: with_table_def)

locale bit_indexing =
  fixes index :: "'x index_fn"
    and good :: "'x bloom_filter_scheme \<Rightarrow> bool"
    and position :: "'x bloom_filter_scheme \<Rightarrow> u32 \<Rightarrow> nat"
  assumes index_ok: "good f \<Longrightarrow> index f h = Inr (position f h)"
    and position_bound: "good f \<Longrightarrow> position f h < 8 * length (bit_table f)"
    and good_with_table: "good f \<Longrightarrow> length bt = length (bit_table f) \<Longrightarrow> good (with_table bt f)"
    and position_with_table: "position (with_table bt f) = position f"
    and good_count: "good f \<Longrightarrow> good (f\<lparr>inserted_element_count := n\<rparr>)"
    and position_count: "position (f\<lparr>inserted_element_count := n\<rparr>) = position f"
begin

definition positions :: "'x bloom_filter_scheme \<Rightarrow> bytes \<Rightarrow> nat list" where
  "positions f key = map (\<lambda>s. position f (hash_ap key s)) (salt f)"

lemma positions_with_table [simp]: "positions (with_table bt f) = positions f"
  by (simp add: positions_def position_with_table fun_eq_iff)

lemma positions_count [simp]: "positions (f\<lparr>inserted_element_count := n\<rparr>) = positions f"
  by (simp add: positions_def position_count fun_eq_iff)

lemma positions_bound: "good f \<Longrightarrow> set (positions f key) \<subseteq> {..<8 * length (bit_table f)}"
  using position_bound by (auto simp: positions_def)

lemma set_bit_of_ok: "good f \<Longrightarrow> set_bit_of index key s f = Inr (with_table (mark (position f (hash_ap key s)) (bit_table f)) f)"
  using position_bound [of f "hash_ap key s"]
  by (simp add: set_bit_of_def index_ok vec_get_def bits_per_char_def mark_def with_table_def less_mult_imp_div_less mult.commute)

lemma set_bits_ok:
  "good f \<Longrightarrow> fold_ok (set_bit_of index key) salts f =
     Inr (with_table (fold mark (map (\<lambda>s. position f (hash_ap key s)) salts) (bit_table f)) f)"
  by (induction salts arbitrary: f) (simp_all add: set_bit_of_ok good_with_table position_with_table)

lemma insert_ok:
  "good f \<Longrightarrow> bloom_insert index key f =
     Inr ((with_table (fold mark (positions f key) (bit_table f)) f)\<lparr>inserted_element_count := inserted_element_count f + 1\<rparr>)"
  by (simp add: bloom_insert_def set_bits_ok positions_def)

lemma insert_range_ok:
  assumes "good f"
  shows "bloom_insert_range index keys f =
     Inr ((with_table (fold mark (concat (map (positions f) keys)) (bit_table f)) f)
       \<lparr>inserted_element_count := inserted_element_count f + of_nat (length keys)\<rparr>)"
  using assms
proof (induction keys arbitrary: f)
  case (Cons key keys)
  let ?g = "(with_table (fold mark (positions f key) (bit_table f)) f)\<lparr>inserted_element_count := inserted_element_count f + 1\<rparr>"
  have "good ?g" using Cons.prems by (simp add: good_count good_with_table)
  from Cons.IH [OF this] show ?case
    using Cons.prems by (simp add: bloom_insert_range_def insert_ok with_table_def add.assoc positions_with_table [unfolded with_table_def])
qed (simp add: bloom_insert_range_def with_table_def)

lemma contains_salts_ok:
  "good f \<Longrightarrow> contains_salts index key salts f =
     Inr ((\<lambda>s. position f (hash_ap key s)) ` set salts \<subseteq> table_bits (bit_table f))"
  using position_bound
  by (induction salts)
    (auto simp: index_ok vec_get_def bits_per_char_def Let_def mask_test table_bits_def less_mult_imp_div_less mult.commute)

lemma contains_ok: "good f \<Longrightarrow> bloom_contains index key f = Inr (set (positions f key) \<subseteq> table_bits (bit_table f))"
  by (simp add: bloom_contains_def contains_salts_ok positions_def)

text \<open>What is contained after the insertion of some keys.\<close>

lemma contains_after_insert_range:
  assumes "good f" "bloom_insert_range index keys f = Inr g"
  shows "good g" "bloom_contains index key g = Inr (set (positions f key) \<subseteq> table_bits (bit_table f) \<union> (\<Union>k\<in>set keys. set (positions f k)))"
proof -
  let ?js = "concat (map (positions f) keys)"
  have g: "g = (with_table (fold mark ?js (bit_table f)) f)\<lparr>inserted_element_count := inserted_element_count f + of_nat (length keys)\<rparr>"
    using assms by (simp add: insert_range_ok)
  then show "good g" using assms(1) by (simp add: good_count good_with_table)
  have "set ?js \<subseteq> {..<8 * length (bit_table f)}" using positions_bound [OF assms(1)] by auto
  from table_bits_marks [OF this] have "table_bits (bit_table g) = table_bits (bit_table f) \<union> (\<Union>k\<in>set keys. set (positions f k))"
    using g by (simp add: with_table_def)
  moreover have "positions g = positions f" using g by simp
  ultimately show "bloom_contains index key g = Inr (set (positions f key) \<subseteq> table_bits (bit_table f) \<union> (\<Union>k\<in>set keys. set (positions f k)))"
    using contains_ok [OF \<open>good g\<close>, of key] by simp
qed

end

section \<open>The plain filter\<close>

definition bloom_position :: "bloom_filter \<Rightarrow> u32 \<Rightarrow> nat" where
  "bloom_position f h = unat ((ucast h :: u64) mod bf_table_size f)"

definition bloom_ok :: "bloom_filter \<Rightarrow> bool" where
  "bloom_ok f \<longleftrightarrow> bf_table_size f \<noteq> 0 \<and> unat (bf_table_size f) \<le> 8 * length (bit_table f)"

lemma unat_mod_less: "n \<noteq> 0 \<Longrightarrow> unat (x mod n :: u64) < unat n"
  by (simp add: unat_mod unat_gt_0)

interpretation plain: bit_indexing compute_indices bloom_ok bloom_position
proof (unfold_locales, goal_cases)
  case (2 f h)
  then show ?case using unat_mod_less [of "bf_table_size f" "ucast h"] by (simp add: bloom_ok_def bloom_position_def)
qed (auto simp: compute_indices_def bloom_position_def bloom_ok_def with_table_def fun_eq_iff)

text \<open>A filter of a positive whole number of bytes.\<close>

definition whole_bytes :: "bloom_parameters \<Rightarrow> bool" where
  "whole_bytes p \<longleftrightarrow> table_size p \<noteq> 0 \<and> table_size p mod 8 = 0"

lemma whole_bytes_unat: "whole_bytes p \<Longrightarrow> unat (table_size p) = 8 * (unat (table_size p) div 8)"
proof -
  assume "whole_bytes p"
  then have "unat (table_size p) mod 8 = 0" using unat_mod [of "table_size p" 8] by (simp add: whole_bytes_def)
  then show ?thesis by presburger
qed

lemma made_filter:
  assumes "make_bloom_filter srand p = (Inr f :: 's failure + _)"
  shows "bit_table f = replicate (unat (table_size p) div 8) 0" "bf_table_size f = table_size p" "inserted_element_count f = 0"
    "salt_count f = number_of_hashes p" "bf_random_seed f = random_seed p * 0xA5A5A5A5 + 1"
    "generate_unique_salt srand (number_of_hashes p) (bf_random_seed f) = (Inr (salt f) :: 's failure + _)"
    "whole_bytes p \<Longrightarrow> bloom_ok f"
  using assms whole_bytes_unat [of p]
  by (auto simp: make_bloom_filter_def bind_ok_eq_Inr Let_def bits_per_char_def bloom_ok_def whole_bytes_def)

text \<open>C34. A Bloom filter has no false negatives: of a filter with a table of whole bytes, after any keys were inserted, a key
  is contained exactly when each of its bits was set by one of them, so each of them is contained; no operation
  leaves the table, and the elements are counted.\<close>

theorem bloom_no_false_negatives:
  assumes "make_bloom_filter srand p = (Inr f :: unit failure + _)" "whole_bytes p"
  shows "\<exists>g. bloom_insert_range compute_indices ks f = Inr g \<and> element_count g = of_nat (length ks) \<and>
    (\<forall>key. bloom_contains compute_indices key g =
       Inr (\<forall>s\<in>set (salt f). \<exists>k\<in>set ks. \<exists>s'\<in>set (salt f). bloom_position f (hash_ap key s) = bloom_position f (hash_ap k s'))) \<and>
    (\<forall>key\<in>set ks. bloom_contains compute_indices key g = Inr True)"
proof -
  note f = made_filter [OF assms(1)]
  have ok: "bloom_ok f" using f(7) assms(2) .
  obtain g where g: "bloom_insert_range compute_indices ks f = Inr g" "element_count g = of_nat (length ks)"
    by (simp add: plain.insert_range_ok [OF ok] element_count_def f(3))
  have c: "bloom_contains compute_indices key g =
      Inr (\<forall>s\<in>set (salt f). \<exists>k\<in>set ks. \<exists>s'\<in>set (salt f). bloom_position f (hash_ap key s) = bloom_position f (hash_ap k s'))" for key
    using plain.contains_after_insert_range(2) [OF ok g(1), of key] f(1) by (auto simp: plain.positions_def)
  moreover have "\<forall>key\<in>set ks. bloom_contains compute_indices key g = Inr True" by (auto simp: c)
  ultimately show ?thesis using g by blast
qed

text \<open>A filter of sixteen bits with two salts.\<close>

definition demo_parameters :: bloom_parameters where
  "demo_parameters = default_parameters\<lparr>number_of_hashes := 2, table_size := 16\<rparr>"

definition demo_filter :: bloom_filter where
  "demo_filter =
     \<lparr>salt = [0x28415a75, 0xa90f1fdc], bit_table = [0, 0], salt_count = 2, bf_table_size = 16, bf_projected_element_count = 10000,
      inserted_element_count = 0, bf_random_seed = 0xde56cf47b67a3e03, desired_false_positive_probability = Finite (to_double (1 / 10000))\<rparr>"

lemma demo_made: "make_bloom_filter (\<lambda>s i. of_nat i) demo_parameters = (Inr demo_filter :: 's failure + _)"
proof -
  have salts: "mix_salts (ucast (0xde56cf47b67a3e03 :: u64)) [0xAAAAAAAA, 0x55555555] = [0x28415a75, 0xa90f1fdc]" by code_simp
  have two: "take 2 predef_salt = [0xAAAAAAAA, 0x55555555]" by (simp add: predef_salt_def)
  have table: "replicate (16 div bits_per_char) (0 :: u8) = [0, 0]" by (simp add: bits_per_char_def numeral_2_eq_2)
  show ?thesis
    unfolding make_bloom_filter_def demo_parameters_def demo_filter_def default_parameters_def generate_unique_salt_def
    by (simp add: two salts [simplified] table Let_def)
qed

lemma demo_whole: "whole_bytes demo_parameters"
  by (simp add: demo_parameters_def whole_bytes_def)

theorem bloom_no_false_negatives_witness:
  "\<exists>g. bloom_insert_range compute_indices [[1, 0, 0, 0], [7, 0, 0, 0]] demo_filter = Inr g \<and> element_count g = 2 \<and>
    bloom_contains compute_indices [7, 0, 0, 0] g = Inr True"
  using bloom_no_false_negatives [OF demo_made demo_whole, of "[[1, 0, 0, 0], [7, 0, 0, 0]]"] by auto

section \<open>Union and intersection\<close>

lemma combine_ok:
  assumes "compatible a b" "length (bit_table b) = length (bit_table a)"
  shows "combine oper a b = Inr (with_table (map2 oper (bit_table a) (bit_table b)) a)"
proof -
  let ?n = "length (bit_table a)"
  have "k \<le> ?n \<Longrightarrow> fold_ok (\<lambda>i r. bind_ok (vec_get (bit_table b) i) (\<lambda>y. Inr (r\<lparr>bit_table := (bit_table r)[i := oper (bit_table r ! i) y]\<rparr>))) [0..<k] a =
      (Inr (with_table (map2 oper (take k (bit_table a)) (take k (bit_table b)) @ drop k (bit_table a)) a) :: unit failure + _)" for k
  proof (induction k)
    case (Suc k)
    let ?l = "map2 oper (take k (bit_table a)) (take k (bit_table b))"
    have k: "k < ?n" "length ?l = k" "k < length (bit_table b)" using Suc.prems assms(2) by simp_all
    have "(?l @ drop k (bit_table a))[k := oper ((?l @ drop k (bit_table a)) ! k) (bit_table b ! k)] =
        map2 oper (take (Suc k) (bit_table a)) (take (Suc k) (bit_table b)) @ drop (Suc k) (bit_table a)"
      using k by (simp add: list_update_append nth_append take_Suc_conv_app_nth Cons_nth_drop_Suc [symmetric])
    with Suc k show ?case by (simp add: fold_ok_append ok_simps with_table_def)
  qed (simp add: with_table_def)
  from this [of ?n] assms show ?thesis by (simp add: combine_def)
qed

lemma table_bits_or: "length a = length b \<Longrightarrow> table_bits (map2 (OR) a b) = table_bits a \<union> table_bits b"
  by (auto simp: table_bits_def bit_or_iff less_mult_imp_div_less mult.commute)

lemma table_bits_and: "length a = length b \<Longrightarrow> table_bits (map2 (AND) a b) = table_bits a \<inter> table_bits b"
  by (auto simp: table_bits_def bit_and_iff less_mult_imp_div_less mult.commute)

text \<open>C35. Union and intersection of two filters made from the same parameters (with a table of whole bytes), one
  holding the keys \<open>xs\<close>, the other \<open>ys\<close>: \<open>|=\<close> makes the filter that inserting all keys into one makes, in every field but
  the count of elements, which stays that of the first operand; so each key is contained in the union iff it is
  contained in the filter of all keys, but \<open>==\<close> tells the two apart as soon as the second operand has elements. A
  key is contained in the intersection exactly if both operands contain it.\<close>

theorem bloom_union_intersection:
  assumes "make_bloom_filter srand p = (Inr f :: unit failure + _)" "whole_bytes p"
    and "bloom_insert_range compute_indices xs f = Inr a" "bloom_insert_range compute_indices ys f = Inr b"
  shows "\<exists>c d u. bloom_or a b = Inr c \<and> bloom_insert_range compute_indices (xs @ ys) f = Inr d \<and> bloom_and a b = Inr u \<and>
    c = d\<lparr>inserted_element_count := element_count a\<rparr> \<and> element_count a = of_nat (length xs) \<and> element_count d = of_nat (length xs + length ys) \<and>
    (\<forall>key. bloom_contains compute_indices key c = bloom_contains compute_indices key d) \<and>
    (of_nat (length ys) \<noteq> (0 :: u64) \<longrightarrow> \<not> bloom_equal False c d) \<and>
    (\<forall>key. bloom_contains compute_indices key u = Inr True \<longleftrightarrow>
      bloom_contains compute_indices key a = Inr True \<and> bloom_contains compute_indices key b = Inr True)"
proof -
  note f = made_filter [OF assms(1)]
  have ok: "bloom_ok f" using f(7) assms(2) .
  let ?marks = "\<lambda>ks. fold mark (concat (map (plain.positions f) ks)) (bit_table f)"
  let ?with = "\<lambda>ks. (with_table (?marks ks) f)\<lparr>inserted_element_count := inserted_element_count f + of_nat (length ks)\<rparr>"
  have a: "a = ?with xs" and b: "b = ?with ys" using assms(3,4) by (simp_all add: plain.insert_range_ok [OF ok])
  have bits: "table_bits (?marks ks) = (\<Union>k\<in>set ks. set (plain.positions f k))" for ks
  proof -
    have "set (concat (map (plain.positions f) ks)) \<subseteq> {..<8 * length (bit_table f)}"
      using plain.positions_bound [OF ok] by auto
    from table_bits_marks [OF this] show ?thesis by (simp add: f(1))
  qed
  have tables: "bit_table a = ?marks xs" "bit_table b = ?marks ys" by (simp_all add: a b with_table_def)
  have len: "length (bit_table a) = length (bit_table b)" by (simp add: tables)
  have comp: "compatible a b" by (simp add: a b compatible_def with_table_def)
  have c: "bloom_or a b = Inr (with_table (map2 (OR) (bit_table a) (bit_table b)) a)"
    and u: "bloom_and a b = Inr (with_table (map2 (AND) (bit_table a) (bit_table b)) a)"
    unfolding bloom_or_def bloom_and_def using combine_ok [OF comp] len by simp_all
  have "table_bits (map2 (OR) (bit_table a) (bit_table b)) = table_bits (?marks (xs @ ys))"
    using table_bits_or [OF len] by (simp only: tables bits set_append UN_Un)
  moreover have "length (map2 (OR) (bit_table a) (bit_table b)) = length (?marks (xs @ ys))" by (simp add: tables)
  ultimately have union: "map2 (OR) (bit_table a) (bit_table b) = ?marks (xs @ ys)" using table_bits_eq by blast
  have oks: "bloom_ok a" "bloom_ok b" "bloom_ok (with_table (map2 (AND) (bit_table a) (bit_table b)) a)"
    using ok by (auto simp: a b bloom_ok_def with_table_def)
  have "plain.positions a = plain.positions f" "plain.positions b = plain.positions f" by (simp_all add: a b)
  then have inter: "bloom_contains compute_indices key (with_table (map2 (AND) (bit_table a) (bit_table b)) a) = Inr True \<longleftrightarrow>
      bloom_contains compute_indices key a = Inr True \<and> bloom_contains compute_indices key b = Inr True" for key
    by (auto simp: plain.contains_ok oks table_bits_and [OF len])
  let ?c = "with_table (map2 (OR) (bit_table a) (bit_table b)) a" and ?d = "?with (xs @ ys)"
  have d: "bloom_insert_range compute_indices (xs @ ys) f = Inr ?d" by (simp only: plain.insert_range_ok [OF ok])
  have counts: "element_count a = of_nat (length xs)" "element_count ?d = of_nat (length xs + length ys)"
    by (simp_all add: a element_count_def f(3))
  have cd: "?c = ?d\<lparr>inserted_element_count := element_count a\<rparr>"
    unfolding union by (simp add: a with_table_def element_count_def)
  then have "bloom_contains compute_indices key ?c = bloom_contains compute_indices key ?d" for key
    using ok by (simp add: plain.contains_ok plain.good_count plain.good_with_table)
  moreover have "\<not> bloom_equal False ?c ?d" if "of_nat (length ys) \<noteq> (0 :: u64)"
    using that counts unfolding cd by (simp add: bloom_equal_def element_count_def)
  ultimately show ?thesis using c d u inter counts cd by blast
qed

theorem bloom_union_intersection_witness:
  "\<exists>a b c d u. bloom_insert_range compute_indices [[1, 0, 0, 0]] demo_filter = Inr a \<and>
    bloom_insert_range compute_indices [[1, 0, 0, 0], [9, 0, 0, 0]] demo_filter = Inr b \<and>
    bloom_or a b = Inr c \<and> bloom_insert_range compute_indices [[1, 0, 0, 0], [1, 0, 0, 0], [9, 0, 0, 0]] demo_filter = Inr d \<and>
    c = d\<lparr>inserted_element_count := 1\<rparr> \<and> \<not> bloom_equal False c d \<and> bloom_and a b = Inr u \<and>
    bloom_contains compute_indices [1, 0, 0, 0] u = Inr True"
proof -
  let ?x = "[1, 0, 0, 0] :: bytes" and ?y = "[9, 0, 0, 0] :: bytes"
  note made = bloom_no_false_negatives [OF demo_made demo_whole]
  obtain a b where ab: "bloom_insert_range compute_indices [?x] demo_filter = Inr a" "bloom_contains compute_indices ?x a = Inr True"
      "bloom_insert_range compute_indices [?x, ?y] demo_filter = Inr b" "bloom_contains compute_indices ?x b = Inr True"
    using made [of "[?x]"] made [of "[?x, ?y]"] by auto
  with bloom_union_intersection [OF demo_made demo_whole ab(1,3)] show ?thesis by auto
qed

section \<open>Compression\<close>

definition compressible_position :: "compressible_filter \<Rightarrow> u32 \<Rightarrow> nat" where
  "compressible_position f h = fold (\<lambda>n i. i mod unat n) (size_list f) (unat h)"

definition compressible_ok :: "compressible_filter \<Rightarrow> bool" where
  "compressible_ok f \<longleftrightarrow> size_list f \<noteq> [] \<and> (\<forall>n\<in>set (size_list f). n \<noteq> 0) \<and> unat (compressible_size f) = 8 * length (bit_table f)"

lemma fold_mod_less: "ns \<noteq> [] \<Longrightarrow> List.last ns \<noteq> 0 \<Longrightarrow> fold (\<lambda>n i. i mod unat n) ns i < unat (List.last ns :: u64)"
  by (induction ns rule: rev_induct) (simp_all add: unat_gt_0)

lemma folded_indices:
  "\<forall>n\<in>set ns. n \<noteq> 0 \<Longrightarrow> fold_ok (\<lambda>n i. if n = 0 then Inl (Undefined DivisionByZero) else Inr (i mod unat n)) ns i =
     (Inr (fold (\<lambda>n i. i mod unat (n :: u64)) ns i) :: unit failure + _)"
  by (induction ns arbitrary: i) simp_all

interpretation compressed: bit_indexing compressible_indices compressible_ok compressible_position
proof (unfold_locales, goal_cases)
  case (2 f h)
  then show ?case using fold_mod_less [of "size_list f" "unat h"] by (simp add: compressible_ok_def compressible_position_def compressible_size_def)
qed (auto simp: compressible_indices_def compressible_position_def compressible_ok_def compressible_size_def with_table_def fun_eq_iff folded_indices)

lemma fold_table_ok:
  assumes "new \<le> length bt" "length bt \<le> 2 * new"
  shows "fold_table new (length bt) bt = Inr (map (\<lambda>i. if new + i < length bt then bt ! i OR bt ! (new + i) else bt ! i) [0..<new])"
proof -
  let ?step = "\<lambda>i tmp. bind_ok (vec_get tmp (i - new)) (\<lambda>b. Inr (tmp[i - new := b OR bt ! i])) :: unit failure + bytes"
  have "new + k \<le> length bt \<Longrightarrow> fold_ok ?step [new..<new + k] (take new bt) =
      Inr (map (\<lambda>i. if i < k then bt ! i OR bt ! (new + i) else bt ! i) [0..<new])" for k
  proof (induction k)
    case 0
    have "take new bt = map ((!) bt) [0..<new]" using assms(1) by (intro nth_equalityI) auto
    then show ?case by simp
  next
    case (Suc k)
    let ?l = "map (\<lambda>i. if i < k then bt ! i OR bt ! (new + i) else bt ! i) [0..<new]"
    have k: "k < new" using Suc.prems assms(2) by simp
    have "?l[k := ?l ! k OR bt ! (new + k)] = map (\<lambda>i. if i < Suc k then bt ! i OR bt ! (new + i) else bt ! i) [0..<new]"
      using k by (intro nth_equalityI) (auto simp: nth_list_update less_Suc_eq)
    with Suc k show ?case by (simp add: fold_ok_append vec_get_def)
  qed
  from this [of "length bt - new"] assms show ?thesis
    by (simp add: fold_table_def less_diff_conv add.commute)
qed

lemma fold_table_overruns:
  assumes "0 < new" "2 * new < length bt"
  shows "fold_table new (length bt) bt = Inl (Undefined OutOfBounds)"
proof -
  let ?step = "\<lambda>i tmp. bind_ok (vec_get tmp (i - new)) (\<lambda>b. Inr (tmp[i - new := b OR bt ! i])) :: unit failure + bytes"
  have upt: "[new..<length bt] = [new..<2 * new] @ (2 * new) # [Suc (2 * new)..<length bt]"
    using assms upt_add_eq_append [of new "2 * new" "length bt - 2 * new"] by (simp add: upt_conv_Cons)
  have keep: "length s' = length s" if "?step i s = Inr s'" for i s s'
    using that by (auto simp: bind_ok_eq_Inr)
  have len: "length (take new bt) = new" using assms(2) by simp
  have "length r = new" if "fold_ok ?step [new..<2 * new] (take new bt) = Inr r" for r
    by (rule fold_ok_preserves [OF that, where P = "\<lambda>r. length r = new", OF len]) (drule keep, simp)
  note len' = this
  have err: "fold_ok ?step xs tmp = Inl e \<Longrightarrow> e = Undefined OutOfBounds" for xs tmp e
    by (induction xs arbitrary: tmp) (auto simp: vec_get_def split: if_splits)
  have "fold_ok ?step [new..<length bt] (take new bt) = Inl (Undefined OutOfBounds)"
  proof (cases "fold_ok ?step [new..<2 * new] (take new bt)")
    case (Inl e)
    with err [OF Inl] show ?thesis unfolding upt fold_ok_append by simp
  next
    case (Inr r)
    with len' [OF Inr] show ?thesis unfolding upt fold_ok_append by (simp add: vec_get_def)
  qed
  with assms show ?thesis by (simp add: fold_table_def)
qed

lemma table_bits_folded:
  assumes "new \<le> length bt" "length bt \<le> 2 * new"
    and r: "r = map (\<lambda>i. if new + i < length bt then bt ! i OR bt ! (new + i) else bt ! i) [0..<new]"
    and j: "j < 8 * length bt" "j \<in> table_bits bt"
  shows "j mod (8 * new) \<in> table_bits r"
proof -
  have len: "length r = new" using r by simp
  show ?thesis
  proof (cases "j < 8 * new")
    case True
    then have "j div 8 < new" by auto
    with True j show ?thesis by (auto simp: table_bits_def len r bit_or_iff)
  next
    case False
    then obtain i where i: "j = 8 * new + i" by (metis le_add_diff_inverse not_less)
    then have "j div 8 = new + i div 8" "j mod 8 = i mod 8" by simp_all
    moreover have "i < 8 * new" using i j(1) assms(2) by simp
    ultimately have "i \<in> table_bits r" "j mod (8 * new) = i"
      using i j by (auto simp: table_bits_def len r bit_or_iff less_mult_imp_div_less mult.commute)
    then show ?thesis by simp
  qed
qed

lemma compress_True:
  assumes ok: "compressible_ok f" and c: "compress fpp percentage f = Inr (True, g)"
  obtains new where "0 < new" "new \<le> length (bit_table f)" "length (bit_table f) \<le> 2 * new"
    "bit_table g = map (\<lambda>i. if new + i < length (bit_table f) then bit_table f ! i OR bit_table f ! (new + i) else bit_table f ! i) [0..<new]"
    "size_list g = size_list f @ [of_nat (8 * new)]" "unat (of_nat (8 * new) :: u64) = 8 * new" "salt g = salt f"
proof -
  let ?bt = "bit_table f"
  have sz: "unat (compressible_size f) = 8 * length ?bt" using ok by (simp add: compressible_ok_def)
  from c obtain n tmp where n: "compressed_size percentage (compressible_size f) = (Inr n :: unit failure + u64)"
      "8 \<le> unat n" "n < compressible_size f"
    and tmp: "fold_table (unat n div 8) (length ?bt) ?bt = Inr tmp"
    and g: "g = f\<lparr>desired_false_positive_probability := fpp f, bit_table := tmp, size_list := size_list f @ [n]\<rparr>"
    using sz by (auto simp: compress_def Let_def bind_ok_eq_Inr bits_per_char_def not_less not_le split: if_splits)
  obtain m where "n = m - m mod 8" using n(1) by (auto simp: compressed_size_def bind_ok_eq_Inr)
  then have "unat n = unat m - unat m mod 8" by (simp add: unat_sub word_le_nat_alt unat_mod)
  then have n8: "unat n = 8 * (unat n div 8)" by presburger
  let ?new = "unat n div 8"
  have le: "?new \<le> length ?bt" "0 < ?new" using n(2,3) sz n8 by (auto simp: word_less_nat_alt)
  have "length ?bt \<le> 2 * ?new"
  proof (rule ccontr)
    assume "\<not> length ?bt \<le> 2 * ?new"
    with fold_table_overruns [of ?new ?bt] le tmp show False by simp
  qed
  moreover have "n = of_nat (8 * ?new)" using arg_cong [OF n8, of "of_nat :: nat \<Rightarrow> u64"] by simp
  ultimately show thesis using le tmp g n8 that [of ?new] by (simp add: fold_table_ok)
qed

text \<open>C36. Compression keeps what a filter contains: every key found before is found after it, and the filter stays well
  formed, so it can be filled and compressed further.\<close>

theorem compression_keeps_elements:
  assumes "compressible_ok f" "compress fpp percentage f = Inr (b, g)"
  shows "compressible_ok g \<and>
    (\<forall>key. bloom_contains compressible_indices key f = Inr True \<longrightarrow> bloom_contains compressible_indices key g = Inr True)"
proof (cases b)
  case False
  then have "g = f" using assms(2) by (auto simp: compress_def Let_def bind_ok_eq_Inr split: if_splits)
  with assms(1) show ?thesis by simp
next
  case True
  with assms(2) have c: "compress fpp percentage f = Inr (True, g)" by simp
  obtain new where
    new: "0 < new" "new \<le> length (bit_table f)" "length (bit_table f) \<le> 2 * new"
      "bit_table g = map (\<lambda>i. if new + i < length (bit_table f) then bit_table f ! i OR bit_table f ! (new + i) else bit_table f ! i) [0..<new]"
      "size_list g = size_list f @ [of_nat (8 * new)]" "unat (of_nat (8 * new) :: u64) = 8 * new" "salt g = salt f"
    by (rule compress_True [OF assms(1) c])
  have "(of_nat (8 * new) :: u64) \<noteq> 0"
  proof
    assume "(of_nat (8 * new) :: u64) = 0"
    then have "unat (of_nat (8 * new) :: u64) = 0" by simp
    with new(1,6) show False by simp
  qed
  then have ok: "compressible_ok g" using assms(1) new(4-6) by (auto simp: compressible_ok_def compressible_size_def)
  have pos: "compressible_position g h = compressible_position f h mod (8 * new)" for h
    by (simp only: compressible_position_def new(5) fold_append comp_apply fold.simps id_apply new(6))
  have folded: "compressible_position f h mod (8 * new) \<in> table_bits (bit_table g)"
    if "compressible_position f h \<in> table_bits (bit_table f)" for h
    by (rule table_bits_folded [OF new(2,3,4) compressed.position_bound [OF assms(1)] that])
  have "set (compressed.positions g key) \<subseteq> table_bits (bit_table g)"
    if "set (compressed.positions f key) \<subseteq> table_bits (bit_table f)" for key
  proof
    fix j assume "j \<in> set (compressed.positions g key)"
    then obtain s where s: "s \<in> set (salt f)" "j = compressible_position f (hash_ap key s) mod (8 * new)"
      by (auto simp: compressed.positions_def new(7) pos)
    then have "compressible_position f (hash_ap key s) \<in> table_bits (bit_table f)"
      using that by (auto simp: compressed.positions_def)
    then show "j \<in> table_bits (bit_table g)" unfolding s(2) by (rule folded)
  qed
  then show ?thesis by (simp add: compressed.contains_ok ok assms(1))
qed

definition demo_compressible :: compressible_filter where
  "demo_compressible = bloom_filter.extend (demo_filter\<lparr>bit_table := [0xFF, 0xFF]\<rparr>) (compressible_filter.fields [16])"

lemma demo_compressible_ok: "compressible_ok demo_compressible"
  by (simp add: demo_compressible_def compressible_ok_def compressible_size_def bloom_filter.defs compressible_filter.defs)

theorem compression_keeps_elements_witness:
  "\<exists>g. compress (\<lambda>_. Finite 0) 50 demo_compressible = Inr (True, g) \<and> bit_table g = [0xFF] \<and> compressible_ok g \<and>
    bloom_contains compressible_indices [1, 0, 0, 0] g = Inr True"
proof -
  have sz: "compressible_size demo_compressible = 16" and bt: "bit_table demo_compressible = [0xFF, 0xFF]"
    by (simp_all add: demo_compressible_def compressible_size_def bloom_filter.defs compressible_filter.defs)
  have "compressed_size 50 16 = (Inr 8 :: unit failure + _)" by code_simp
  moreover have "fold_table 1 2 [0xFF, 0xFF] = Inr [0xFF]" by code_simp
  ultimately obtain g where g: "compress (\<lambda>_. Finite 0) 50 demo_compressible = Inr (True, g)" "bit_table g = [0xFF]"
    using sz bt by (simp add: compress_def Let_def bits_per_char_def)
  have "table_bits [0xFF, 0xFF] = {..<16}"
  proof -
    have byte: "bit (0xFF :: u8) i" if "i < 8" for i
      using that by (auto simp: less_Suc_eq numeral_eq_Suc)
    have "[0xFF, 0xFF] ! (j div 8) = (0xFF :: u8)" if "j < 16" for j :: nat
      using that by (cases "j div 8 = 0") (auto simp: nth_Cons split: nat.split)
    moreover have "bit (255 :: u8) (j mod 8)" for j :: nat using byte [of "j mod 8"] by simp
    ultimately show ?thesis by (auto simp: table_bits_def)
  qed
  then have "bloom_contains compressible_indices [1, 0, 0, 0] demo_compressible = Inr True"
    using compressed.positions_bound [OF demo_compressible_ok] by (simp add: compressed.contains_ok demo_compressible_ok bt)
  with compression_keeps_elements [OF demo_compressible_ok g(1)] g show ?thesis by blast
qed

section \<open>Degenerate filters\<close>

lemma predef_salt_length [simp]: "length predef_salt = 128"
  by (simp add: predef_salt_def)

lemma length_mix_salts [simp]: "length (mix_salts seed salts) = length salts"
proof -
  have "length (fold (\<lambda>i s. s[i := s ! i * s ! ((i + 3) mod length s) + seed]) is salts) = length salts" for "is"
    by (induction "is" arbitrary: salts) simp_all
  then show ?thesis by (simp add: mix_salts_def)
qed

lemma made_salts:
  assumes "make_bloom_filter srand p = (Inr f :: 's failure + _)" "unat (number_of_hashes p) \<le> 128"
  shows "length (salt f) = unat (number_of_hashes p)"
proof -
  have "salt f = mix_salts (ucast (bf_random_seed f)) (take (unat (number_of_hashes p)) predef_salt)"
    using made_filter(6) [OF assms(1)] assms(2) by (simp add: generate_unique_salt_def)
  with assms(2) show ?thesis by simp
qed

text \<open>C37. Degenerate sizes are not refused: the clamping of the optimal parameters makes filters of less than eight bits,
  which have no byte, and inserting into one, or asking it, is an access outside its table; compressing a filter
  to less than half its bytes writes past the end of the new table.\<close>

theorem degenerate_filters_undefined:
  assumes "make_bloom_filter srand p = (Inr f :: unit failure + _)" "0 < table_size p" "table_size p < 8"
    and "0 < number_of_hashes p" "number_of_hashes p \<le> 128"
    and "compressible_ok c" "0 \<le> percentage" "percentage < 100"
    and "compressed_size percentage (compressible_size c) = (Inr new :: unit failure + _)" "8 \<le> new" "2 * unat new < unat (compressible_size c)"
  shows "bloom_insert compute_indices key f = Inl (Undefined OutOfBounds) \<and>
    bloom_contains compute_indices key f = Inl (Undefined OutOfBounds) \<and>
    compress fpp percentage c = Inl (Undefined OutOfBounds)"
proof -
  have "unat (table_size p) < 8" "unat (number_of_hashes p) \<le> 128" "0 < unat (number_of_hashes p)"
    using assms(3-5) by (simp_all add: word_less_nat_alt word_le_nat_alt)
  then have "bit_table f = []" "salt f \<noteq> []" "bf_table_size f \<noteq> 0"
    using made_filter(1,2) [OF assms(1)] made_salts [OF assms(1)] assms(2) by auto
  then have "bloom_insert compute_indices key f = Inl (Undefined OutOfBounds)" "bloom_contains compute_indices key f = Inl (Undefined OutOfBounds)"
    by (cases "salt f"; simp add: bloom_insert_def bloom_contains_def set_bit_of_def compute_indices_def vec_get_def)+
  moreover have "compress fpp percentage c = Inl (Undefined OutOfBounds)"
  proof -
    let ?bt = "bit_table c"
    have sz: "unat (compressible_size c) = 8 * length ?bt" using assms(6) by (simp add: compressible_ok_def)
    have n: "8 \<le> unat new" "new < compressible_size c" using assms(10,11) by (simp_all add: word_le_nat_alt word_less_nat_alt)
    then have "fold_table (unat new div 8) (length ?bt) ?bt = Inl (Undefined OutOfBounds)"
      using assms(11) sz by (intro fold_table_overruns) auto
    with n sz assms(7-9) show ?thesis by (simp add: compress_def bits_per_char_def Let_def)
  qed
  ultimately show ?thesis by blast
qed

theorem degenerate_filters_undefined_witness:
  "\<exists>f. make_bloom_filter (\<lambda>s i. of_nat i) (demo_parameters\<lparr>table_size := 1\<rparr>) = (Inr f :: unit failure + _) \<and>
    bloom_insert compute_indices [1, 0, 0, 0] f = Inl (Undefined OutOfBounds) \<and>
    compress (\<lambda>_. Finite 0) 75 (demo_compressible\<lparr>bit_table := [1, 2, 3, 4], size_list := [32]\<rparr>) = Inl (Undefined OutOfBounds)"
proof -
  let ?c = "demo_compressible\<lparr>bit_table := [1, 2, 3, 4], size_list := [32]\<rparr>"
  have c: "compressible_ok ?c" by (simp add: compressible_ok_def compressible_size_def)
  have "compressed_size 75 32 = (Inr 8 :: unit failure + _)" by code_simp
  then have size: "compressed_size 75 (compressible_size ?c) = (Inr 8 :: unit failure + _)" by (simp add: compressible_size_def)
  obtain f where f: "make_bloom_filter (\<lambda>s i. of_nat i) (demo_parameters\<lparr>table_size := 1\<rparr>) = (Inr f :: unit failure + _)"
    by (simp add: make_bloom_filter_def generate_unique_salt_def demo_parameters_def Let_def)
  from degenerate_filters_undefined [OF f _ _ _ _ c _ _ size, of "[1, 0, 0, 0]" "\<lambda>_. Finite 0"] f show ?thesis
    by (simp add: demo_parameters_def compressible_size_def)
qed

end
