(* ===== verification/Recon_Graphene.thy ===== *)
theory Recon_Graphene
  imports Recon_Digest Bloom_Properties
begin

text \<open>
  Graphene from the request to the map of the server: the Bloom filter of the server sorts out most of what it
  lacks, the lookup tables find the keys the filter let pass by mistake. The client only sends; what the server
  has more stays there.
\<close>

section \<open>Failures do not depend on the caller\<close>

lemma bloom_for_any:
  assumes "bloom_for env n p = (Inr bf :: 'f failure + _)"
  shows "bloom_for env n p = (Inr bf :: 'h failure + _)"
proof -
  have cast: "(cast_u64 x :: 'f failure + _) = Inr y \<Longrightarrow> (cast_u64 x :: 'h failure + _) = Inr y" for x y
    by (auto simp: cast_u64_def split: double.splits if_splits)
  have salts: "(generate_unique_salt r k seed :: 'f failure + _) = Inr y \<Longrightarrow> (generate_unique_salt r k seed :: 'h failure + _) = Inr y" for r k seed y
    by (auto simp: generate_unique_salt_def returns_def split: option.splits if_splits)
  have "(compute_optimal_parameters bits q :: 'f failure + _) = Inr y \<Longrightarrow> (compute_optimal_parameters bits q :: 'h failure + _) = Inr y" for bits q y
    using cast by (fastforce simp: compute_optimal_parameters_def Let_def bind_ok_eq_Inr split: prod.splits if_splits)
  moreover have "(make_bloom_filter r q :: 'f failure + _) = Inr y \<Longrightarrow> (make_bloom_filter r q :: 'h failure + _) = Inr y" for r q y
    using salts by (fastforce simp: make_bloom_filter_def Let_def bind_ok_eq_Inr)
  ultimately show ?thesis using assms by (fastforce simp: bloom_for_def bind_ok_eq_Inr)
qed

lemma tabulated_any:
  assumes "tabulated_IBLT env n v = (Inr t :: 'f failure + _)"
  shows "tabulated_IBLT env n v = (Inr t :: 'h failure + _)"
  using assms by (auto simp: tabulated_IBLT_def IBLT_def Let_def bind_ok_eq_Inr returns_def split: option.splits if_splits)

section \<open>The two tables\<close>

definition key_list :: "(key \<times> string) list \<Rightarrow> bytes list" where
  "key_list kvs = map (key_bytes \<circ> fst) kvs"

lemma insert_both_ok:
  assumes "bloom_ok bf" "represents t ps"
  shows "\<exists>bf' t'. insert_both s kvs bf t = Inr (bf', t') \<and>
    bloom_insert_range compute_indices (key_list kvs) bf = Inr bf' \<and> insert_keys kvs t = Inr t'"
  using assms
proof (induction kvs arbitrary: bf t ps)
  case (Cons kv kvs)
  let ?bf = "(with_table (fold mark (plain.positions bf (key_bytes (fst kv))) (bit_table bf)) bf)
    \<lparr>inserted_element_count := inserted_element_count bf + 1\<rparr>"
  have ok: "bloom_ok ?bf" using Cons.prems(1) by (simp add: bloom_ok_def with_table_def)
  obtain t1 where t1: "iblt_insert (key_element (fst kv)) [0] t = Inr t1" "represents t1 ((1, key_element (fst kv)) # ps)"
    using insert_represents [OF Cons.prems(2)] by (metis iblt_insert_def)
  from Cons.IH [OF ok t1(2)] Cons.prems(1) t1(1) show ?case
    by (simp add: insert_both_def plain.insert_ok bloom_insert_range_def insert_keys_def key_list_def)
qed (simp add: insert_both_def bloom_insert_range_def insert_keys_def key_list_def)

lemma split_by_filter_ok:
  assumes "bloom_ok bf" "represents t ps"
  defines "passes \<equiv> \<lambda>kv. set (plain.positions bf (key_bytes (fst kv))) \<subseteq> table_bits (bit_table bf)"
  shows "\<exists>t'. split_by_filter s bf kvs t = Inr (map fst (filter (Not \<circ> passes) kvs), t') \<and>
    insert_keys (filter passes kvs) t = Inr t'"
proof -
  let ?step = "\<lambda>kv (Z_compl, table).
         bind_ok (fail_map (\<lambda>_. s) (bloom_contains compute_indices (key_bytes (fst kv)) bf)) (\<lambda>there.
         if there then bind_ok (fail_map (\<lambda>_. s) (iblt_insert (key_element (fst kv)) [0] table)) (\<lambda>table'. Inr (Z_compl, table'))
         else Inr (Z_compl @ [fst kv], table))"
  have "represents t ps \<Longrightarrow> \<exists>t'. fold_ok ?step kvs (z, t) = Inr (z @ map fst (filter (Not \<circ> passes) kvs), t') \<and>
      insert_keys (filter passes kvs) t = Inr t'" for z t ps
  proof (induction kvs arbitrary: z t ps)
    case (Cons kv kvs)
    obtain t1 where t1: "iblt_insert (key_element (fst kv)) [0] t = Inr t1" "represents t1 ((1, key_element (fst kv)) # ps)"
      using insert_represents [OF Cons.prems] by (metis iblt_insert_def)
    have c: "bloom_contains compute_indices (key_bytes (fst kv)) bf = Inr (passes kv)"
      by (simp add: plain.contains_ok [OF assms(1)] passes_def)
    show ?case
    proof (cases "passes kv")
      case True
      with Cons.IH [OF t1(2), of z] t1(1) c show ?thesis by (simp add: insert_keys_def)
    next
      case False
      with Cons.IH [OF Cons.prems, of "z @ [fst kv]"] c show ?thesis by simp
    qed
  qed (simp add: insert_keys_def)
  from this [OF assms(2), of "[]"] show ?thesis by (simp add: split_by_filter_def)
qed

text \<open>The pairs of the client the lookup table is made of: those whose keys pass the filter of the server.\<close>

definition passing :: "rat \<Rightarrow> bloom_filter \<Rightarrow> (key \<times> string) list \<Rightarrow> (key \<times> string) list \<Rightarrow> (key \<times> string) list" where
  "passing fpr bf us ts =
     (if no_bloom fpr then ts
      else filter (\<lambda>kv. set (plain.positions bf (key_bytes (fst kv))) \<subseteq>
             (\<Union>k\<in>keys_of us. set (plain.positions bf (key_bytes k)))) ts)"

lemma passing_server: "kv \<in> set ts \<Longrightarrow> fst kv \<in> keys_of us \<Longrightarrow> kv \<in> set (passing fpr bf us ts)"
  by (auto simp: passing_def)

section \<open>The answer of the server\<close>

lemma u32_of_u64: "(ucast (of_nat n :: u64) :: u32) = of_nat n"
  by (rule bit_word_eqI) (simp add: bit_simps)

lemma sint_of_nat32: "n < 2 ^ 31 \<Longrightarrow> sint (of_nat n :: u32) = int n"
  using sint_of_size [of n] by (simp add: u32_of_u64)

lemma u64_of_u32: "n < 2 ^ 32 \<Longrightarrow> (ucast (of_nat n :: u32) :: u64) = of_nat n"
proof (rule word_unat_eq_iff [THEN iffD2])
  assume "n < 2 ^ 32"
  then show "unat (ucast (of_nat n :: u32) :: u64) = unat (of_nat n :: u64)"
    using unat_of_nat_u32 [of n] unat_of_nat_u64 [of n] by (simp add: unsigned_ucast_eq take_bit_eq_mod)
qed

lemma bloom_for_blank:
  assumes "bloom_for env n p = (Inr bf :: 'f failure + _)" "bf_table_size bf \<noteq> 0" "bf_table_size bf mod 8 = 0"
  shows "bit_table bf = replicate (unat (bf_table_size bf div 8)) 0" "bloom_ok bf" "bit_table bf \<noteq> []"
    "unat (bf_table_size bf) div 8 = length (bit_table bf)"
proof -
  from assms(1) obtain r q where q: "make_bloom_filter r q = (Inr bf :: 'f failure + _)"
    by (auto simp: bloom_for_def bind_ok_eq_Inr)
  note made = made_filter [OF q]
  then show table: "bit_table bf = replicate (unat (bf_table_size bf div 8)) 0" by (simp add: unat_div)
  have "whole_bytes q" using assms(2,3) made(2) by (simp add: whole_bytes_def)
  with made show ok: "bloom_ok bf" by simp
  show "bit_table bf \<noteq> []"
  proof
    assume "bit_table bf = []"
    with ok show False by (simp add: bloom_ok_def unat_eq_0)
  qed
  show "unat (bf_table_size bf) div 8 = length (bit_table bf)" by (simp add: table unat_div)
qed

lemma filter_bits:
  assumes "bloom_ok bf" "bit_table bf = replicate n 0" "bloom_insert_range compute_indices (key_list kvs) bf = Inr g"
  shows "table_bits (bit_table g) = (\<Union>k\<in>keys_of kvs. set (plain.positions bf (key_bytes k)))" "length (bit_table g) = length (bit_table bf)"
    "bf_table_size g = bf_table_size bf"
proof -
  let ?js = "concat (map (plain.positions bf) (key_list kvs))"
  have g: "bit_table g = fold mark ?js (bit_table bf)" "bf_table_size g = bf_table_size bf"
    using assms(3) by (auto simp: plain.insert_range_ok [OF assms(1)] with_table_def)
  then show "length (bit_table g) = length (bit_table bf)" "bf_table_size g = bf_table_size bf" by simp_all
  have "set ?js \<subseteq> {..<8 * length (bit_table bf)}" using plain.positions_bound [OF assms(1)] by auto
  from table_bits_marks [OF this] show "table_bits (bit_table g) = (\<Union>k\<in>keys_of kvs. set (plain.positions bf (key_bytes k)))"
    by (simp add: g assms(2) key_list_def keys_of_def)
qed

lemma ReconcileGraphene_eq:
  fixes s :: "'sk server"
  assumes u: "sv_key_value_pairs s = Some u" "length (entries u) < 2 ^ 31"
    and solve: "env_solve_a env (sint m) (int (length (entries u))) = (a, fpr)" "0 \<le> \<lceil>a\<rceil>" "\<lceil>a\<rceil> < 2 ^ 31"
    and blank: "tabulated_IBLT env (of_int \<lceil>a\<rceil>) 1 = (Inr blank :: 'sk server failure + _)" "represents blank []"
    and bf: "\<not> no_bloom fpr \<Longrightarrow> bloom_for env (of_nat (max 1 (length (entries u)))) (Finite fpr) = (Inr bf :: 'sk server failure + _)"
      "\<not> no_bloom fpr \<Longrightarrow> bf_table_size bf \<noteq> 0" "\<not> no_bloom fpr \<Longrightarrow> bf_table_size bf mod 8 = 0"
  shows "\<exists>b reply. ReconcileGraphene env m s = Inr (OK, reply, s) \<and> gr_a reply = of_int \<lceil>a\<rceil> \<and> gr_ibf reply = cells_of b \<and>
    insert_keys (entries u) blank = Inr b \<and> (gr_bf reply = [] \<longleftrightarrow> no_bloom fpr) \<and>
    (\<not> no_bloom fpr \<longrightarrow> gr_n reply = of_nat (max 1 (length (entries u))) \<and> gr_fpr reply = Finite fpr \<and>
      length (gr_bf reply) = length (bit_table bf) \<and>
      table_bits (gr_bf reply) = (\<Union>k\<in>keys_of (entries u). set (plain.positions bf (key_bytes k))))"
proof -
  have size: "sint (of_nat (oh_size u) :: u32) = int (length (entries u))"
    using u(2) by (simp add: oh_size_def sint_of_nat32)
  have cast: "\<not> (\<lceil>a\<rceil> < - (2 ^ 31) \<or> 2 ^ 31 \<le> \<lceil>a\<rceil>)" using solve by simp
  have n: "(if oh_size u = 0 then 1 else of_nat (oh_size u)) = (of_nat (max 1 (length (entries u))) :: u64)"
    by (cases "entries u") (auto simp: oh_size_def max_def)
  show ?thesis
  proof (cases "no_bloom fpr")
    case True
    obtain b where "insert_keys (entries u) blank = Inr b"
      using insert_all_represents [OF blank(2), of "[0]" "host_elements (entries u)"] by (auto simp: insert_keys_eq host_elements_def)
    with True show ?thesis
      using u(1) solve cast blank(1) unfolding ReconcileGraphene_def
      by (simp add: size no_graphene_def Let_def)
  next
    case False
    note bloom = bloom_for_blank [OF bf(1) [OF False] bf(2) [OF False] bf(3) [OF False]]
    obtain g b where gb: "insert_both s (entries u) bf blank = Inr (g, b)"
      "bloom_insert_range compute_indices (key_list (entries u)) bf = Inr g" "insert_keys (entries u) blank = Inr b"
      using insert_both_ok [OF bloom(2) blank(2), of s "entries u"] by (elim exE conjE) blast
    note g = filter_bits [OF bloom(2,1) gb(2)]
    have "ucast (of_nat (max 1 (length (entries u))) :: u64) = (of_nat (max 1 (length (entries u))) :: u32)"
      by (rule u32_of_u64)
    moreover have "unat (bf_table_size g) div 8 = length (bit_table g)" using bloom(4) g by simp
    moreover have "bit_table g \<noteq> []" using bloom(3) g(2) by (metis length_0_conv)
    ultimately show ?thesis
      using False u(1) solve cast blank(1) bf(1) gb(1,3) g bloom(3) unfolding ReconcileGraphene_def
      by (simp add: size n bloom_table_def Let_def)
  qed
qed

section \<open>The protocol\<close>

lemma passing_facts:
  assumes "distinct (map fst ts)"
  shows "set (passing fpr bf us ts) \<subseteq> set ts" "distinct (map fst (passing fpr bf us ts))"
    "keys_of ts - keys_of (passing fpr bf us ts) \<subseteq> keys_of ts - keys_of us"
    "keys_of us \<inter> keys_of ts \<subseteq> keys_of (passing fpr bf us ts)"
proof -
  show "set (passing fpr bf us ts) \<subseteq> set ts" by (auto simp: passing_def)
  show "distinct (map fst (passing fpr bf us ts))" using assms by (simp add: passing_def distinct_map_filter)
  show "keys_of us \<inter> keys_of ts \<subseteq> keys_of (passing fpr bf us ts)"
  proof
    fix k assume "k \<in> keys_of us \<inter> keys_of ts"
    then obtain v where "(k, v) \<in> set ts" "k \<in> keys_of us" by (auto simp: keys_of_def)
    with passing_server [of "(k, v)" ts us fpr bf] show "k \<in> keys_of (passing fpr bf us ts)" by (force simp: keys_of_def)
  qed
  then show "keys_of ts - keys_of (passing fpr bf us ts) \<subseteq> keys_of ts - keys_of us" by blast
qed

text \<open>The keys the client sends: those the filter stops and those the tables list.\<close>

lemma sent_keys:
  assumes ts: "distinct (map fst ts)" and R: "R = passing fpr bf us ts"
    and stopped: "distinct stopped" "set stopped = keys_of ts - keys_of R"
    and pos: "distinct (map fst pos)" "fst ` set pos = key_element ` (keys_of R - keys_of us)"
  shows "distinct (stopped @ map (element_key \<circ> fst) pos)" "set (stopped @ map (element_key \<circ> fst) pos) = keys_of ts - keys_of us"
proof -
  note R = passing_facts [OF ts, where fpr = fpr and bf = bf and us = us, folded R]
  have "set (map (element_key \<circ> fst) pos) = element_key ` (fst ` set pos)" by (simp add: image_comp)
  also have "\<dots> = keys_of R - keys_of us" by (simp add: pos(2) image_image)
  finally have set_pos: "set (map (element_key \<circ> fst) pos) = keys_of R - keys_of us" .
  have inj: "inj_on element_key (key_element ` K)" for K by (intro inj_onI) auto
  have "distinct (map element_key (map fst pos))"
    using pos inj [of "keys_of R - keys_of us"] by (simp add: distinct_map comp_inj_on)
  then show "distinct (stopped @ map (element_key \<circ> fst) pos)" using stopped set_pos by auto
  have "keys_of R \<subseteq> keys_of ts" using R(1) by (auto simp: keys_of_def)
  then show "set (stopped @ map (element_key \<circ> fst) pos) = keys_of ts - keys_of us" using stopped(2) set_pos R(3) by auto
qed

text \<open>What the client makes of a reply: the keys the filter stops, and the table of the others.\<close>

lemma receiver_tables:
  fixes w :: 'w
  assumes t: "distinct (map fst ts)" and blank: "represents blank []"
    and bf: "\<not> no_bloom fpr \<Longrightarrow> bloom_for env n p = (Inr bf :: 'w failure + _)" "\<not> no_bloom fpr \<Longrightarrow> bf_table_size bf \<noteq> 0"
      "\<not> no_bloom fpr \<Longrightarrow> bf_table_size bf mod 8 = 0"
    and bs: "bs = [] \<longleftrightarrow> no_bloom fpr" "\<not> no_bloom fpr \<Longrightarrow> length bs = length (bit_table bf)"
      "\<not> no_bloom fpr \<Longrightarrow> table_bits bs = (\<Union>k\<in>keys_of us. set (plain.positions bf (key_bytes k)))"
  shows "\<exists>stopped a. (if bs = [] then bind_ok (fail_map (\<lambda>_. w) (insert_keys ts blank)) (\<lambda>table. Inr ([], table))
      else bind_ok (bloom_for env n p) (\<lambda>bf0. bind_ok (fail_map (\<lambda>_. w) (bloom_set bs bf0)) (\<lambda>(ignored, bf).
           split_by_filter w bf ts blank))) = Inr (stopped, a) \<and> distinct stopped \<and>
    set stopped = keys_of ts - keys_of (passing fpr bf us ts) \<and> insert_keys (passing fpr bf us ts) blank = Inr a"
proof (cases "no_bloom fpr")
  case True
  obtain a where "insert_keys ts blank = Inr a"
    using insert_all_represents [OF blank, of "[0]" "host_elements ts"] by (auto simp: insert_keys_eq host_elements_def)
  with True bs(1) show ?thesis by (simp add: passing_def)
next
  case False
  note bloom = bloom_for_blank [OF bf(1) [OF False] bf(2) [OF False] bf(3) [OF False]]
  let ?g = "with_table bs bf"
  have g: "bloom_ok ?g" "plain.positions ?g = plain.positions bf"
    using bloom(2) bs(2) [OF False] by (simp_all add: bloom_ok_def)
  have set: "bloom_set bs bf = Inr (int (length bs), ?g)"
    using bloom(4) bs(2) [OF False] by (simp add: bloom_set_def with_table_def unat_div)
  let ?passes = "\<lambda>kv. set (plain.positions ?g (key_bytes (fst kv))) \<subseteq> table_bits (bit_table ?g)"
  have R: "filter ?passes ts = passing fpr bf us ts" using False bs(3) by (simp add: passing_def g(2))
  from split_by_filter_ok [OF g(1) blank, of w ts] obtain a where
    a: "split_by_filter w ?g ts blank = Inr (map fst (filter (Not \<circ> ?passes) ts), a)" "insert_keys (filter ?passes ts) blank = Inr a" by blast
  have "set (map fst (filter (Not \<circ> ?passes) ts)) = keys_of ts - keys_of (filter ?passes ts)"
    using t by (auto simp: keys_of_def distinct_map inj_on_def)
  moreover have "distinct (map fst (filter (Not \<circ> ?passes) ts))" using t by (rule distinct_map_filter)
  ultimately show ?thesis using a R False bs(1) bf(1) [OF False] set by simp
qed

text \<open>The client lists the difference between its table and the table in the reply.\<close>

lemma listed_difference:
  assumes "represents blank []" "insert_keys R blank = Inr ra" "insert_keys us blank = Inr b"
    and "distinct (map fst R)" "distinct (map fst us)"
    and "regular_keys (length (hashTable blank)) (buckets blank) (signed_difference (host_elements R) (host_elements us))"
  obtains so d ok pos neg where "set_cells (cells_of b) blank = (Inr so :: 's failure + _)" "iblt_minus ra so = Inr d"
    "listEntries d = Some (Inr (ok, pos, neg))"
    "ok \<longrightarrow> distinct (map fst pos) \<and> fst ` set pos = key_element ` (keys_of R - keys_of us)"
proof -
  have tab: "same_shape blank x \<and> represents x (map (Pair 1) (rev (host_elements kvs)))" if "insert_keys kvs blank = Inr x" for kvs x
    using insert_all_represents [OF assms(1), of "[0]" "host_elements kvs"] that by (auto simp: insert_keys_eq host_elements_def)
  from set_cells_of [OF conjunct1 [OF tab [OF assms(3)]] conjunct2 [OF tab [OF assms(3)]], where 's = 's] obtain so where
    so: "set_cells (cells_of b) blank = (Inr so :: 's failure + _)" "same_shape blank so" "represents so (map (Pair 1) (rev (host_elements us)))"
    by blast
  have dist: "distinct (host_elements R)" "distinct (host_elements us)" using assms(4,5) by (simp_all add: distinct_host_elements)
  have "same_shape ra so" using tab [OF assms(2)] so(2) by (simp add: same_shape_def)
  from minus_difference [OF dist conjunct2 [OF tab [OF assms(2)]] so(3) this] obtain d where
    d: "iblt_minus ra so = Inr d" "same_shape ra d" "represents d (signed_difference (host_elements R) (host_elements us))" by blast
  have sh: "same_shape blank d" using tab [OF assms(2)] d(2) by (simp add: same_shape_def)
  have reg: "regular_keys (length (hashTable d)) (buckets d) (signed_difference (host_elements R) (host_elements us))"
    using assms(6) sh same_shape_buckets [OF sh] by (simp add: same_shape_def)
  from listEntries_ok [OF signed_signed_difference [OF dist] reg d(3)] obtain ok pos neg where
    l: "listEntries d = Some (Inr (ok, pos, neg))"
      "ok \<longrightarrow> fst ` set pos = {k. (1, k) \<in> set (signed_difference (host_elements R) (host_elements us))} \<and> distinct (map fst pos)" by blast
  moreover have "{k. (1, k) \<in> set (signed_difference (host_elements R) (host_elements us))} = key_element ` (keys_of R - keys_of us)"
    using inj_key_element by (auto simp: signed_difference_def set_host_elements image_set_diff)
  ultimately show thesis using that [OF so(1) d(1) l(1)] by simp
qed

text \<open>The last push of exactly the keys the server lacks completes its map.\<close>

lemma push_completes:
  assumes "kv_good n t" "sv_key_value_pairs s = Some u" "kv_good n u" "agree (entries t) (entries u)"
    and "distinct sent" "set sent = keys_of (entries t) - keys_of (entries u)"
    and "n + card (differences (entries t) (entries u)) \<le> oh_limit"
  shows "\<exists>u'. Push sent t s = Inr (True, t, s\<lparr>sv_key_value_pairs := Some u'\<rparr>) \<and> map_of (entries u') = map_of (entries t) ++ map_of (entries u) \<and>
    (keys_of (entries u) \<subseteq> keys_of (entries t) \<longrightarrow> map_of (entries u') = map_of (entries t))"
proof -
  let ?ts = "entries t" and ?us = "entries u"
  have "length sent \<le> card (differences ?ts ?us)" using assms(5,6) by (intro length_differences) (auto simp: differences_def)
  with assms(7) have room: "n + length sent \<le> oh_limit" by linarith
  have "set sent \<subseteq> keys_of ?ts" using assms(6) by blast
  from Push_eq [OF assms(1-3) room this] obtain u' where
    u': "Push sent t s = Inr (True, t, s\<lparr>sv_key_value_pairs := Some u'\<rparr>)" "entries u' = fold dict_insert (pairs_of ?ts sent) ?us" by blast
  have "keys_of (pairs_of ?ts sent) \<inter> keys_of ?us = {}" unfolding map_fst_pairs_of(2) assms(6) by blast
  then have "entries u' = ?us @ pairs_of ?ts sent" unfolding u'(2) by (intro fold_dict_insert_fresh) (simp_all only: map_fst_pairs_of assms(5))
  then have union: "map_of (entries u') = map_of ?ts ++ map_of ?us" using completed_same(2) [OF assms(4) set_sorted_list_of_set assms(6)] by simp
  have "map_of ?ts ++ map_of ?us = map_of ?ts" if "keys_of ?us \<subseteq> keys_of ?ts"
    using that assms(4) by (auto simp: fun_eq_iff map_add_def map_of_value agree_def split: option.splits)
  with union u'(1) show ?thesis by auto
qed

text \<open>C6. Graphene completes the server, provided that no check sum deceives it. The conditions: two well-formed maps
  that agree on their common keys, together with at most \<open>2 ^ 27\<close> entries; solved parameters with a size that, rounded
  up, is an \<open>int\<close> and not negative, for which the constructor makes a well-formed lookup table and, if a filter is used
  at all, one with a table of whole bytes that is not empty; and \<open>regular_keys\<close> for the keys that passed the filter and those
  of the server: for no part of the keys that differ does a cell of the table look like a single key when it holds
  several, or empty when it holds some. (Otherwise the peeling may list wrong keys or go on for ever.) Then the
  protocol returns and never changes the map of the client. If the listing succeeds, the server has exactly what the filter stopped or let pass by mistake added to its map, which
  makes it the union of the two, so both agree when the server had nothing of its own; if not, the result is
  false and nothing has changed.\<close>

theorem graphene_completes_server:
  fixes s :: "'sk server"
  assumes "kv_good n t" "sv_key_value_pairs s = Some u" "kv_good n u" "agree (entries t) (entries u)"
    and "env_solve_a env (int (length (entries t))) (int (length (entries u))) = (a, fpr)" "0 \<le> \<lceil>a\<rceil>" "\<lceil>a\<rceil> < 2 ^ 31"
    and "tabulated_IBLT env (of_int \<lceil>a\<rceil>) 1 = (Inr blank :: 'sk world failure + _)" "represents blank []"
    and "\<not> no_bloom fpr \<longrightarrow> bloom_for env (of_nat (max 1 (length (entries u)))) (Finite fpr) = (Inr bf :: 'sk world failure + _) \<and>
        bf_table_size bf \<noteq> 0 \<and> bf_table_size bf mod 8 = 0"
    and "regular_keys (length (hashTable blank)) (buckets blank)
        (signed_difference (host_elements (passing fpr bf (entries u) (entries t))) (host_elements (entries u)))"
    and "n + card (differences (entries t) (entries u)) \<le> oh_limit"
  shows "\<exists>ok s'. Reconciliation_Graphene env t s = Inr (ok, t, s') \<and>
    (ok \<longrightarrow> (\<exists>u'. s' = s\<lparr>sv_key_value_pairs := Some u'\<rparr> \<and> map_of (entries u') = map_of (entries t) ++ map_of (entries u) \<and>
      (keys_of (entries u) \<subseteq> keys_of (entries t) \<longrightarrow> map_of (entries u') = map_of (entries t)))) \<and>
    (\<not> ok \<longrightarrow> s' = s)"
proof -
  let ?ts = "entries t" and ?us = "entries u" and ?R = "passing fpr bf (entries u) (entries t)"
  let ?N = "max 1 (length ?us)"
  have len: "length ?ts < 2 ^ 31" "length ?us < 2 ^ 31"
    using assms(1,3,12) by (auto simp: oh_good_def oh_limit_def)
  have m: "sint (of_nat (oh_size t) :: u32) = int (length ?ts)" using len by (simp add: oh_size_def sint_of_nat32)
  note dist = good_distinct [OF assms(1)] good_distinct [OF assms(3)]
  have solve: "env_solve_a env (sint (of_nat (oh_size t) :: u32)) (int (length ?us)) = (a, fpr)" using m assms(5) by simp
  have bf: "\<not> no_bloom fpr \<Longrightarrow> bloom_for env (of_nat ?N) (Finite fpr) = (Inr bf :: 'h failure + _)"
    "\<not> no_bloom fpr \<Longrightarrow> bf_table_size bf \<noteq> 0" "\<not> no_bloom fpr \<Longrightarrow> bf_table_size bf mod 8 = 0"
    using assms(10) bloom_for_any by blast+
  obtain b reply where r: "ReconcileGraphene env (of_nat (oh_size t)) s = Inr (OK, reply, s)" "gr_a reply = of_int \<lceil>a\<rceil>"
      "gr_ibf reply = cells_of b" "insert_keys ?us blank = Inr b" "gr_bf reply = [] \<longleftrightarrow> no_bloom fpr"
      "\<not> no_bloom fpr \<longrightarrow> gr_n reply = of_nat ?N \<and> gr_fpr reply = Finite fpr \<and> length (gr_bf reply) = length (bit_table bf) \<and>
        table_bits (gr_bf reply) = (\<Union>k\<in>keys_of ?us. set (plain.positions bf (key_bytes k)))"
    using ReconcileGraphene_eq [OF assms(2) len(2) solve assms(6,7) tabulated_any [OF assms(8)] assms(9) bf] by blast
  have fits: "(ucast (of_nat k :: u32) :: u64) = of_nat k" if "k < 2 ^ 31" for k using that by (intro u64_of_u32) simp
  have "(ucast (gr_a reply) :: u64) = of_int \<lceil>a\<rceil>" using fits [of "nat \<lceil>a\<rceil>"] assms(6,7) r(2) by (simp add: nat_less_iff)
  then have blank: "tabulated_IBLT env (ucast (gr_a reply)) 1 = (Inr blank :: 'sk world failure + _)" using assms(8) by simp
  have "?N < 2 ^ 31" using len(2) by simp
  then have N: "\<not> no_bloom fpr \<Longrightarrow> ucast (gr_n reply) = (of_nat ?N :: u64) \<and> gr_fpr reply = Finite fpr" using r(6) fits by simp
  from receiver_tables [OF dist(1) assms(9), of fpr env "ucast (gr_n reply)" "gr_fpr reply" bf "gr_bf reply" ?us "(t, s)"] r(5,6) bf N
  obtain stopped ra where ra: "(if gr_bf reply = [] then bind_ok (fail_map (\<lambda>_. (t, s)) (insert_keys ?ts blank)) (\<lambda>table. Inr ([], table))
      else bind_ok (bloom_for env (ucast (gr_n reply)) (gr_fpr reply)) (\<lambda>bf0. bind_ok (fail_map (\<lambda>_. (t, s)) (bloom_set (gr_bf reply) bf0))
        (\<lambda>(ignored, bf). split_by_filter (t, s) bf ?ts blank))) = Inr (stopped, ra)"
    and stopped: "distinct stopped" "set stopped = keys_of ?ts - keys_of ?R" and R: "insert_keys ?R blank = Inr ra" by auto
  have dR: "distinct (map fst ?R)" using passing_facts(2) [OF dist(1)] by simp
  obtain so d ok pos neg where so: "set_cells (cells_of b) blank = (Inr so :: 'sk world failure + _)" and d: "iblt_minus ra so = Inr d"
    and l: "listEntries d = Some (Inr (ok, pos, neg))"
      "ok \<longrightarrow> distinct (map fst pos) \<and> fst ` set pos = key_element ` (keys_of ?R - keys_of ?us)"
    by (rule listed_difference [OF assms(9) R r(4) dR dist(2) assms(11), where 's = "'sk world"])
  let ?sent = "stopped @ map (element_key \<circ> fst) pos"
  have run: "Reconciliation_Graphene env t s =
      (if \<not> ok then Inr (False, t, s) else bind_ok (Push ?sent t s) (\<lambda>(ignored, w). Inr (True, w)))"
    unfolding Reconciliation_Graphene_def r(3) using r(1,3) blank ra so d l(1) by simp
  show ?thesis
  proof (cases ok)
    case False
    with run show ?thesis by (intro exI [of _ False]) simp
  next
    case True
    then have pos: "distinct (map fst pos)" "fst ` set pos = key_element ` (keys_of ?R - keys_of ?us)" using l(2) by simp_all
    note sent = sent_keys [OF dist(1) refl stopped pos]
    from push_completes [OF assms(1-4) sent assms(12)] run True show ?thesis
      by (elim exE) (rule exI [of _ True], auto)
  qed
qed

section \<open>An instance\<close>

abbreviation graphene_env :: "(unit, nat) host_env" where "graphene_env \<equiv> demo_env blind_api (\<lambda>e s. e) (3, 3)"

lemma graphene_table:
  "tabulated_IBLT graphene_env 4 1 = (Inr \<lparr>valueSize = 1, numHashes = 4, hashTable = replicate 4 zero_cell\<rparr> :: 's failure + _)"
proof -
  have "OptimalParameters (\<lambda>i. if i = 4 then Some (4 :: nat, 1 :: rat) else None) 4 = Some (4, 1)"
    by (subst OptimalParameters.simps) simp
  moreover have "fround 53 (4 * fround 24 1) = 4" by code_simp
  moreover have "fround 53 4 = 4" by code_simp
  ultimately show ?thesis
    by (simp add: tabulated_IBLT_def demo_env_def IBLT_def raise_to_multiple.simps)
qed

lemma constant_bits: "least_bits (\<lambda>k n p. Finite c) p = (Finite c, 1)"
proof -
  have "fold (\<lambda>k (min_m, min_k). if double_less (Finite c) min_m then (Finite c, k) else (min_m, min_k)) ks (Finite c, 1) = (Finite c, 1 :: nat)" for ks
    by (induction ks) simp_all
  moreover have "[1..<1000] = (1 :: nat) # [2..<1000]" using upt_conv_Cons [of 1 1000] by (simp add: numeral_2_eq_2 del: upt_rec_numeral)
  ultimately show ?thesis by (simp add: least_bits_def Let_def del: upt_rec_numeral)
qed

lemma graphene_filter:
  obtains bf where "bloom_for graphene_env 1 (Finite (1 / 2)) = (Inr bf :: 'f failure + _)" "bf_table_size bf = 64"
proof -
  let ?p = "default_parameters\<lparr>projected_element_count := 1, false_positive_probability := Finite (1 / 2)\<rparr>"
  have valid: "\<not> invalid_parameters ?p" by (simp add: invalid_parameters_def default_parameters_def)
  have cast: "cast_u64 (Finite 64) = (Inr 64 :: 'f failure + _)" by (simp add: cast_u64_def)
  have pad: "pad_to_char 64 = 64" by (simp add: pad_to_char_def)
  have "bloom_for graphene_env 1 (Finite (1 / 2)) =
      (make_bloom_filter (\<lambda>s i. of_nat i) (?p\<lparr>number_of_hashes := 1, table_size := 64\<rparr>) :: 'f failure + _)"
    unfolding bloom_for_def compute_optimal_parameters_def using valid cast pad
    by (simp add: demo_env_def constant_bits) (simp add: default_parameters_def clamp_def)
  then show thesis using that by (simp add: make_bloom_filter_def generate_unique_salt_def Let_def)
qed

lemma one_key_regular: "regular_keys 4 1 [(1, k)]" "regular_keys 4 1 []"
  by (simp_all add: regular_keys_def at_cell_def hits_def sig_pure_def sig_add_def key_sig_def)

theorem graphene_completes_server_witness:
  "\<exists>t u. insert_pairs [(1, ''a''), (2, ''b'')] empty_hash = Inr t \<and> insert_pairs [(2, ''b'')] empty_hash = Inr u \<and>
    (\<exists>ok s'. Reconciliation_Graphene graphene_env t (demo_server 2 u) = Inr (ok, t, s') \<and>
      (ok \<longrightarrow> (\<exists>u'. s' = (demo_server 2 u)\<lparr>sv_key_value_pairs := Some u'\<rparr> \<and> map_of (entries u') = map_of (entries t))) \<and>
      (\<not> ok \<longrightarrow> s' = demo_server 2 u))"
proof -
  obtain t where t: "insert_pairs [(1, ''a''), (2, ''b'')] empty_hash = Inr t" "kv_good 2 t" "entries t = [(1, ''a''), (2, ''b'')]"
    by (rule map_from_pairs [of "[(1, ''a''), (2, ''b'')]" 2]) (simp_all add: oh_limit_def)
  obtain u where u: "insert_pairs [(2, ''b'')] empty_hash = Inr u" "kv_good 1 u" "entries u = [(2, ''b'')]"
    by (rule map_from_pairs [of "[(2, ''b'')]" 1]) (simp_all add: oh_limit_def)
  obtain bf where bf: "bloom_for graphene_env 1 (Finite (1 / 2)) = (Inr bf :: unit world failure + _)" "bf_table_size bf = 64"
    by (rule graphene_filter)
  let ?blank = "\<lparr>valueSize = 1, numHashes = 4, hashTable = replicate 4 zero_cell\<rparr>"
  have blank: "represents ?blank []"
    using empty_represents(1) [of 4 4 1 ?blank] by (simp add: IBLT_def raise_to_multiple.simps)
  have "signed_difference (host_elements (passing (1 / 2) bf [(2, ''b'')] [(1, ''a''), (2, ''b'')])) (host_elements [(2, ''b'')]) \<in> {[], [(1, 1)]}"
    by (auto simp: signed_difference_def host_elements_def passing_def key_element_def)
  then have reg: "regular_keys 4 1 (signed_difference (host_elements (passing (1 / 2) bf [(2, ''b'')] [(1, ''a''), (2, ''b'')])) (host_elements [(2, ''b'')]))"
    using one_key_regular by auto
  have "differences [(1, ''a''), (2, ''b'')] [(2, ''b'')] = {1}" by (auto simp: differences_def)
  then have "\<exists>ok s'. Reconciliation_Graphene graphene_env t (demo_server 2 u) = Inr (ok, t, s') \<and>
    (ok \<longrightarrow> (\<exists>u'. s' = (demo_server 2 u)\<lparr>sv_key_value_pairs := Some u'\<rparr> \<and> map_of (entries u') = map_of (entries t) ++ map_of (entries u) \<and>
      (keys_of (entries u) \<subseteq> keys_of (entries t) \<longrightarrow> map_of (entries u') = map_of (entries t)))) \<and>
    (\<not> ok \<longrightarrow> s' = demo_server 2 u)"
    by (intro graphene_completes_server [where n = 2 and a = 4 and fpr = "1 / 2" and blank = ?blank and bf = bf])
      (use t u good_mono [OF u(2)] bf blank reg graphene_table in
        \<open>simp_all add: agree_def value_of_def oh_limit_def buckets_def demo_env_def\<close>)
  with t u show ?thesis by auto
qed

end
