(* ===== verification/Recon_Estimate.thy ===== *)
theory Recon_Estimate
  imports Recon_Loops
begin

text \<open>
  The estimate of the number of differences: what a call computes from the two maps, and the sequence of remote
  calls as a step relation with the invariant that keeps \<open>Estimate\<close> within bounds.
\<close>

section \<open>Rounding\<close>

lemma fround_nonneg: "0 \<le> x \<Longrightarrow> 0 \<le> fround p x"
proof -
  assume x: "0 \<le> x"
  have "0 \<le> round_half_even y" if "0 \<le> y" for y
    using that by (simp add: round_half_even_def Let_def)
  moreover have "0 \<le> (2 :: rat) powi n" for n by simp
  ultimately show ?thesis using x by (simp add: fround_def Let_def)
qed

lemma round_half_even_of_int [simp]: "round_half_even (of_int z) = z"
  by (simp add: round_half_even_def)

lemma magnitude_of_int: "z \<noteq> 0 \<Longrightarrow> \<bar>z\<bar> < 2 ^ p \<Longrightarrow> magnitude (of_int z) < int p"
proof -
  assume z: "z \<noteq> 0" "\<bar>z\<bar> < 2 ^ p"
  from z(2) have "nat \<bar>z\<bar> < 2 ^ p" by (simp add: nat_less_iff)
  then have "floorlog 2 (nat \<bar>z\<bar>) \<le> p" by (simp add: floorlog_le_iff)
  moreover have "floorlog 2 (Suc 0) = 1" by (simp add: floorlog_def)
  moreover have "quotient_of \<bar>of_int z\<bar> = (\<bar>z\<bar>, 1)"
    by (simp flip: of_int_abs add: quotient_of_int del: of_int_abs)
  ultimately show ?thesis by (simp add: magnitude_def Let_def)
qed

text \<open>Whole numbers of at most \<open>p\<close> bits are not rounded.\<close>

lemma fround_of_int: "\<bar>z\<bar> < 2 ^ p \<Longrightarrow> fround p (of_int z) = of_int z"
proof (cases "z = 0")
  case False
  assume "\<bar>z\<bar> < 2 ^ p"
  let ?e = "magnitude (of_int z) - int p + 1" and ?n = "nat (int p - 1 - magnitude (of_int z))"
  let ?u = "1 / 2 ^ ?n :: rat"
  from magnitude_of_int [OF False \<open>\<bar>z\<bar> < 2 ^ p\<close>] have e: "?e = - int ?n" by simp
  have u: "2 powi ?e = ?u" by (subst e) (simp add: power_int_minus inverse_eq_divide del: int_nat_eq)
  have "of_int z / ?u = of_int (z * 2 ^ ?n)" by simp
  then have "fround p (of_int z) = of_int (z * 2 ^ ?n) * ?u"
    using False by (simp add: fround_def Let_def u round_half_even_of_int del: of_int_mult)
  then show ?thesis by simp
qed (simp add: fround_def)

lemma INFLATION_RATIO_nonneg: "0 \<le> INFLATION_RATIO"
  by (simp add: INFLATION_RATIO_def fround_nonneg)

lemma ESTIMATE_SM99_nonneg:
  "0 \<le> x \<Longrightarrow> ESTIMATE_SM99 x = (Inr (nat \<lceil>to_double (INFLATION_RATIO * x)\<rceil>) :: 's failure + _)"
  using fround_nonneg [of "INFLATION_RATIO * x" 53] INFLATION_RATIO_nonneg
  by (auto simp: ESTIMATE_SM99_def Let_def not_less)

section \<open>The estimate\<close>

lemma tow_sum_set: "distinct ks \<Longrightarrow> tow_sum xxh seed ks = (\<Sum>k \<in> set ks. tow_sign xxh seed k)"
  by (simp add: tow_sum_def sum_list_distinct_conv_sum_set)

lemma tow_sum_diff:
  assumes "distinct as" "distinct bs"
  shows "tow_sum xxh seed as - tow_sum xxh seed bs =
    (\<Sum>k \<in> set as - set bs. tow_sign xxh seed k) - (\<Sum>k \<in> set bs - set as. tow_sign xxh seed k)"
proof -
  have "sum (tow_sign xxh seed) A = sum (tow_sign xxh seed) (A - B) + sum (tow_sign xxh seed) (A \<inter> B)" if "finite A" for A B
    using that by (metis add.commute sum.Int_Diff)
  from this [of "set as" "set bs"] this [of "set bs" "set as"] show ?thesis
    using assms by (simp add: tow_sum_set Int_commute)
qed

definition sign_difference :: "hash32 \<Rightarrow> u32 \<Rightarrow> (key \<times> string) list \<Rightarrow> (key \<times> string) list \<Rightarrow> int" where
  "sign_difference xxh seed as bs =
     (\<Sum>k \<in> keys_of as - keys_of bs. tow_sign xxh seed k) - (\<Sum>k \<in> keys_of bs - keys_of as. tow_sign xxh seed k)"

definition sum_squares :: "int list \<Rightarrow> rat" where
  "sum_squares zs = fold add_square zs 0"

definition mean_square :: "hash32 \<Rightarrow> u32 list \<Rightarrow> (key \<times> string) list \<Rightarrow> (key \<times> string) list \<Rightarrow> rat" where
  "mean_square xxh seeds as bs =
     to_float (to_double (sum_squares (map (\<lambda>seed. sign_difference xxh seed as bs) seeds) / of_nat (length seeds)))"

lemma sum_squares_nonneg: "0 \<le> sum_squares zs"
proof -
  have "0 \<le> d \<Longrightarrow> 0 \<le> fold add_square zs d" for d
    by (induction zs arbitrary: d) (simp_all add: add_square_def fround_nonneg)
  then show ?thesis by (simp add: sum_squares_def)
qed

lemma mean_square_nonneg: "0 \<le> mean_square xxh seeds as bs"
  by (simp add: mean_square_def fround_nonneg sum_squares_nonneg)

text \<open>The sum is the exact one as long as that is below \<open>2 ^ 53\<close>.\<close>

lemma sum_squares_exact:
  assumes "sum_list (map (\<lambda>z. z * z) zs) < 2 ^ 53"
  shows "sum_squares zs = of_int (sum_list (map (\<lambda>z. z * z) zs))"
proof -
  have "fold add_square zs (of_int d) = of_int (d + sum_list (map (\<lambda>z. z * z) zs))"
    if "0 \<le> d" "d + sum_list (map (\<lambda>z. z * z) zs) < 2 ^ 53" for d
    using that
  proof (induction zs arbitrary: d)
    case (Cons z zs)
    have "0 \<le> sum_list (map (\<lambda>z. z * z) zs)" by (intro sum_list_nonneg) auto
    moreover have "0 \<le> z * z" by simp
    ultimately have "\<bar>z * z\<bar> < 2 ^ 53" "\<bar>d + z * z\<bar> < 2 ^ 53" "0 \<le> d + z * z"
      using Cons.prems by (simp_all only: list.map sum_list.Cons)
    then have "add_square z (of_int d) = of_int (d + z * z)"
      using fround_of_int [of "z * z" 53] fround_of_int [of "d + z * z" 53] by (simp add: add_square_def)
    with Cons.IH [of "d + z * z"] Cons.prems \<open>0 \<le> d + z * z\<close> show ?case by (simp add: add.assoc)
  qed simp
  from this [of 0] assms show ?thesis by (simp add: sum_squares_def)
qed

definition sketches_of :: "('sk, 'g) host_env \<Rightarrow> tug_of_war \<Rightarrow> (key \<times> string) list \<Rightarrow> int list" where
  "sketches_of env e es = map (\<lambda>seed. tow_sum (env_xxh32 env) seed (map fst es)) (tow_hashes e)"

lemma apply_sketches:
  "tow_ok e \<Longrightarrow> length es < 2 ^ 31 \<Longrightarrow> tow_apply_key_value_pairs (env_xxh32 env) e es = (Inr (sketches_of env e es) :: 's failure + _)"
  by (simp add: tow_apply_key_value_pairs_def tow_apply_eq sketches_of_def)

lemma sum_of_squares:
  assumes "length xs \<le> length ys" "\<And>i. i < length xs \<Longrightarrow> fits_int (xs ! i - ys ! i)"
  shows "fold_ok (\<lambda>i d. bind_ok (vec_get ys i) (\<lambda>y. bind_ok (int_result (xs ! i - y)) (\<lambda>tmp. Inr (add_square tmp d)))) [0..<length xs] 0 =
    (Inr (sum_squares (map2 (-) xs ys)) :: 's failure + _)"
proof -
  have "fold_ok (\<lambda>i d. bind_ok (vec_get ys i) (\<lambda>y. bind_ok (int_result (xs ! i - y)) (\<lambda>tmp. Inr (add_square tmp d)))) [0..<n] 0 =
      (Inr (sum_squares (take n (map2 (-) xs ys))) :: 's failure + _)" if "n \<le> length xs" for n
    using that
  proof (induction n)
    case (Suc n)
    then show ?case using assms by (simp add: fold_ok_append ok_simps take_Suc_conv_app_nth sum_squares_def)
  qed (simp add: sum_squares_def)
  from this [of "length xs"] assms show ?thesis by simp
qed

lemma sketch_differences_fit:
  assumes "distinct (map fst as)" "distinct (map fst bs)" "length as + length bs < 2 ^ 31" "i < length (tow_hashes e)"
  shows "sketches_of env e as ! i - sketches_of env e bs ! i = sign_difference (env_xxh32 env) (tow_hashes e ! i) as bs"
    and "fits_int (sketches_of env e as ! i - sketches_of env e bs ! i)"
proof -
  let ?sum = "\<lambda>es. tow_sum (env_xxh32 env) (tow_hashes e ! i) (map fst es)"
  have nth: "sketches_of env e es ! i = ?sum es" for es using assms(4) by (simp add: sketches_of_def)
  show "sketches_of env e as ! i - sketches_of env e bs ! i = sign_difference (env_xxh32 env) (tow_hashes e ! i) as bs"
    unfolding nth tow_sum_diff [OF assms(1,2)] by (simp add: sign_difference_def keys_of_def)
  have "\<bar>?sum as\<bar> \<le> int (length as)" "\<bar>?sum bs\<bar> \<le> int (length bs)"
    using abs_tow_sum [of _ _ "map fst as"] abs_tow_sum [of _ _ "map fst bs"] by simp_all
  moreover have "int (length as) + int (length bs) < 2 ^ 31" using assms(3) by simp
  ultimately show "fits_int (sketches_of env e as ! i - sketches_of env e bs ! i)"
    unfolding nth by (intro fits_int_abs) linarith
qed

lemma answer_estimate_eq:
  fixes s :: "'sk server"
  assumes "length (sv_sketches s) \<le> length xs" "\<And>i. i < length (sv_sketches s) \<Longrightarrow> fits_int (sv_sketches s ! i - xs ! i)"
  defines "m \<equiv> to_float (to_double (sum_squares (map2 (-) (sv_sketches s) xs) / of_nat (tow_m (sv_estimator s))))"
  shows "answer_estimate xs s = Inr (OK, m, s\<lparr>sv_estimated_diff := int (nat \<lceil>to_double (INFLATION_RATIO * m)\<rceil>)\<rparr>)"
proof -
  have "0 \<le> m" by (simp add: m_def fround_nonneg sum_squares_nonneg)
  from ESTIMATE_SM99_nonneg [OF this, where 's = "'sk server"] sum_of_squares [OF assms(1,2), where 's = "'sk server"]
  show ?thesis by (simp add: answer_estimate_def Let_def flip: m_def del: int_nat_eq)
qed

lemma Estimate_eq:
  fixes s :: "'sk server"
  assumes "tow_ok e" "sv_estimator s = e" "sv_key_value_pairs s = Some u"
    and "distinct (map fst (entries u))" "distinct (map fst (entries t))" "length (entries u) + length (entries t) < 2 ^ 31"
    and "sv_sketches s = [] \<or> sv_sketches s = sketches_of env e (entries u)"
  defines "m \<equiv> mean_square (env_xxh32 env) (tow_hashes e) (entries u) (entries t)"
  shows "Estimate env (sketches_of env e (entries t)) s =
    Inr (OK, m, s\<lparr>sv_sketches := sketches_of env e (entries u), sv_estimated_diff := int (nat \<lceil>to_double (INFLATION_RATIO * m)\<rceil>)\<rparr>)"
proof -
  let ?sk = "sketches_of env e (entries u)" and ?own = "sketches_of env e (entries t)"
  let ?s = "s\<lparr>sv_sketches := ?sk\<rparr>"
  have len: "length ?sk = length (tow_hashes e)" "length ?own = length (tow_hashes e)" "tow_m e = length (tow_hashes e)" "?sk \<noteq> []"
    using assms(1) by (auto simp: sketches_of_def tow_ok_def)
  have start: "Estimate env ?own s = answer_estimate ?own ?s"
  proof (cases "sv_sketches s = []")
    case True
    with assms(1,3,6) show ?thesis by (simp add: Estimate_def LocalSketchForKeyValuePairs_def assms(2) apply_sketches)
  next
    case False
    with assms(7) have "?s = s" by (cases s) simp
    with False show ?thesis by (simp add: Estimate_def)
  qed
  note fit = sketch_differences_fit [OF assms(4,5,6)]
  have diff: "map2 (-) ?sk ?own = map (\<lambda>seed. sign_difference (env_xxh32 env) seed (entries u) (entries t)) (tow_hashes e)"
    by (rule nth_equalityI) (simp_all add: len fit(1))
  have "fits_int (sv_sketches ?s ! i - ?own ! i)" if "i < length (sv_sketches ?s)" for i
    using that by (simp add: len fit(2))
  from answer_estimate_eq [OF _ this] show ?thesis
    unfolding start by (simp add: len diff assms(2) m_def mean_square_def)
qed

text \<open>C17. The estimate is a function of the differences alone, for maps of together fewer than \<open>2 ^ 31\<close> keys: a server
  that has its sketches, or computes them now from its map, answers a client with the same seeds with the mean
  over the seeds of the squared sum of signs of the keys only one side has (common keys cancel), accumulated in
  \<open>double\<close> (exact below \<open>2 ^ 53\<close>) and rounded to \<open>float\<close>; no counter or difference overflows; server and client
  both derive the same scaled number of differences from it, and equal key sets give zero.\<close>

theorem estimate_of_differences:
  assumes "tow_ok e" "tow_hashes (sv_estimator s) = tow_hashes e" "tow_m (sv_estimator s) = tow_m e"
    and "sv_key_value_pairs s = Some u" "distinct (map fst (entries u))" "distinct (map fst (entries t))"
    and "length (entries u) + length (entries t) < 2 ^ 31"
    and "sv_sketches s = [] \<or> sv_sketches s = sketches_of env e (entries u)"
  shows "\<exists>n. EstimationKeyValuePairs env e t s = (Inr (mean_square (env_xxh32 env) (tow_hashes e) (entries u) (entries t),
      s\<lparr>sv_sketches := sketches_of env e (entries u), sv_estimated_diff := int n\<rparr>) :: 's failure + _) \<and>
    scaled_d env e None t s = (Inr (n, s\<lparr>sv_sketches := sketches_of env e (entries u), sv_estimated_diff := int n\<rparr>) :: 's failure + _) \<and>
    (keys_of (entries t) = keys_of (entries u) \<longrightarrow> n = 0)"
proof -
  let ?m = "mean_square (env_xxh32 env) (tow_hashes e) (entries u) (entries t)"
  define n where "n = nat \<lceil>to_double (INFLATION_RATIO * ?m)\<rceil>"
  have e: "sv_estimator s = e" using assms(2,3) by (cases e; cases "sv_estimator s") simp
  note est = ESTIMATE_SM99_nonneg [OF mean_square_nonneg [of "env_xxh32 env" "tow_hashes e" "entries u" "entries t"], where 's = 's, folded n_def]
  have call: "EstimationKeyValuePairs env e t s =
      (Inr (?m, s\<lparr>sv_sketches := sketches_of env e (entries u), sv_estimated_diff := int n\<rparr>) :: 's failure + _)"
    using assms(1,7) by (simp add: EstimationKeyValuePairs_def apply_sketches call_Estimate_def
        Estimate_eq [OF assms(1) e assms(4-8), folded n_def] est)
  moreover have zero: "fold add_square (map (\<lambda>seed. 0) seeds) 0 = 0" for seeds :: "u32 list"
    by (induction seeds) (simp_all add: add_square_def fround_def)
  moreover have "n = 0" if "keys_of (entries t) = keys_of (entries u)"
    using that zero by (simp add: n_def mean_square_def sign_difference_def sum_squares_def fround_def)
  ultimately show ?thesis by (intro exI [of _ n]) (simp add: scaled_d_def est)
qed

theorem estimate_of_differences_witness:
  "\<exists>t u. insert_pairs alice_pairs empty_hash = Inr t \<and> insert_pairs bob_pairs empty_hash = Inr u \<and>
    (\<exists>n. EstimationKeyValuePairs (demo_env blind_api (\<lambda>e s. e) (3, 3)) \<lparr>tow_m = 2, tow_hashes = [0, 1]\<rparr> t (demo_server 0 u) =
        (Inr (mean_square (env_xxh32 (demo_env blind_api (\<lambda>e s. e) (3, 3))) (tow_hashes \<lparr>tow_m = 2, tow_hashes = [0, 1]\<rparr>) (entries u) (entries t),
          (demo_server 0 u)\<lparr>sv_sketches := sketches_of (demo_env blind_api (\<lambda>e s. e) (3, 3)) \<lparr>tow_m = 2, tow_hashes = [0, 1]\<rparr> (entries u),
            sv_estimated_diff := int n\<rparr>) :: unit failure + _) \<and>
      scaled_d (demo_env blind_api (\<lambda>e s. e) (3, 3)) \<lparr>tow_m = 2, tow_hashes = [0, 1]\<rparr> None t (demo_server 0 u) =
        (Inr (n, (demo_server 0 u)\<lparr>sv_sketches := sketches_of (demo_env blind_api (\<lambda>e s. e) (3, 3)) \<lparr>tow_m = 2, tow_hashes = [0, 1]\<rparr> (entries u),
            sv_estimated_diff := int n\<rparr>) :: unit failure + _) \<and>
      (keys_of (entries t) = keys_of (entries u) \<longrightarrow> n = 0))"
proof -
  obtain t where t: "insert_pairs alice_pairs empty_hash = Inr t" "kv_good 4 t" "entries t = alice_pairs" by (rule alice_map)
  obtain u where u: "insert_pairs bob_pairs empty_hash = Inr u" "kv_good 4 u" "entries u = bob_pairs" by (rule bob_map)
  note est = estimate_of_differences [of "\<lparr>tow_m = 2, tow_hashes = [0, 1]\<rparr>" "demo_server 0 u" u t "demo_env blind_api (\<lambda>e s. e) (3, 3)", where 's = unit]
  show ?thesis
    by (intro exI [of _ t] exI [of _ u] conjI t(1) u(1) est) (simp_all add: tow_ok_def t u)
qed

end
