(* ===== verification/Recon_Requests.thy ===== *)
theory Recon_Requests
  imports Recon_Estimate Sketch_Properties
begin

text \<open>
  The server as a state machine: one step is one remote call, whatever the client sends. A small calculus of
  outcomes (what holds after a return and after a throw) gives the invariants that every reachable state has.
\<close>

section \<open>Outcomes\<close>

text \<open>Nothing is claimed after undefined behaviour.\<close>

definition ends :: "('s \<Rightarrow> bool) \<Rightarrow> ('a \<Rightarrow> bool) \<Rightarrow> 's failure + 'a \<Rightarrow> bool" where
  "ends P Q r = (case r of Inl (Throws e s) \<Rightarrow> P s | Inl (Undefined u) \<Rightarrow> True | Inr x \<Rightarrow> Q x)"

lemma ends_simps [simp]:
  "ends P Q (Inr x) \<longleftrightarrow> Q x" "ends P Q (Inl (Throws e s)) \<longleftrightarrow> P s" "ends P Q (Inl (Undefined u))"
  by (simp_all add: ends_def)

lemma ends_bind: "ends P R r \<Longrightarrow> (\<And>x. R x \<Longrightarrow> ends P Q (f x)) \<Longrightarrow> ends P Q (bind_ok r f)"
  by (cases r) (simp_all add: ends_def split: failure.splits)

lemma ends_fail_map: "ends (\<lambda>t. P (g t)) Q r \<Longrightarrow> ends P Q (fail_map g r)"
  by (auto simp: ends_def fail_map_def split: sum.splits failure.splits)

lemma ends_mono: "ends P Q r \<Longrightarrow> (\<And>s. P s \<Longrightarrow> P' s) \<Longrightarrow> (\<And>x. Q x \<Longrightarrow> Q' x) \<Longrightarrow> ends P' Q' r"
  by (auto simp: ends_def split: sum.splits failure.splits)

lemma ends_True [simp]: "ends (\<lambda>_. True) (\<lambda>_. True) r"
  by (auto simp: ends_def split: sum.splits failure.splits)

lemma ends_fold:
  "R x0 \<Longrightarrow> (\<And>x s. R s \<Longrightarrow> ends P R (f x s)) \<Longrightarrow> ends P R (fold_ok f xs x0)"
  by (induction xs arbitrary: x0) (auto intro: ends_bind)

text \<open>An operation that never throws.\<close>

abbreviation silent :: "'s failure + 'a \<Rightarrow> bool" where "silent r \<equiv> ends (\<lambda>_. False) (\<lambda>_. True) r"

lemma silent_bind: "silent r \<Longrightarrow> (\<And>x. ends P Q (f x)) \<Longrightarrow> ends P Q (bind_ok r f)"
  by (rule ends_bind [where R = "\<lambda>_. True"]) (auto elim: ends_mono)

lemma any_bind: "ends P (\<lambda>_. True) r \<Longrightarrow> (\<And>x. ends P Q (f x)) \<Longrightarrow> ends P Q (bind_ok r f)"
  by (rule ends_bind [where R = "\<lambda>_. True"]) auto

lemma ends_call: "(\<And>t. P (g t)) \<Longrightarrow> (\<And>x. ends P Q (f x)) \<Longrightarrow> ends P Q (bind_ok (fail_map g r) f)"
  by (rule any_bind) (auto intro: ends_fail_map ends_mono [OF ends_True])

lemma silent_vec_get [simp]: "silent (vec_get v i)"
  by (simp add: vec_get_def)

lemma silent_vec_set [simp]: "silent (vec_set v i x)"
  by (simp add: vec_set_def)

lemma silent_int_result [simp]: "silent (int_result i)"
  by (simp add: int_result_def)

lemma silent_ESTIMATE [simp]: "silent (ESTIMATE_SM99 x)"
  by (simp add: ESTIMATE_SM99_def Let_def)

lemma silent_IBLT [simp]: "silent (IBLT n v h)"
  by (simp add: IBLT_def)

lemma silent_ddigest_table [simp]: "silent (ddigest_table d)"
  by (auto simp: ddigest_table_def iblt_entries_def Let_def intro!: silent_bind)

lemma silent_set_cells [simp]: "silent (set_cells cells t)"
  by (simp add: set_cells_def)

lemma silent_returns [simp]: "silent (returns (map_option Inr x))"
  by (cases x) simp_all

lemma silent_tabulated [simp]: "silent (tabulated_IBLT env n v)"
  by (auto simp: tabulated_IBLT_def Let_def intro!: silent_bind)

lemma silent_cast_u64 [simp]: "silent (cast_u64 x)"
  by (auto simp: cast_u64_def split: double.split)

lemma silent_make_bloom [simp]: "silent (make_bloom_filter srand p)"
  by (auto simp: make_bloom_filter_def generate_unique_salt_def Let_def intro!: silent_bind)

lemma silent_optimal [simp]: "silent (compute_optimal_parameters bits p)"
  by (auto simp: compute_optimal_parameters_def Let_def intro!: silent_bind split: prod.split)

lemma silent_bloom_for [simp]: "silent (bloom_for env n p)"
  unfolding bloom_for_def by (auto intro!: silent_bind)

lemma silent_ps_deref [simp]: "silent (ps_deref ps)"
  by (simp add: ps_deref_def split: option.split)

lemma silent_ps_encode [simp]: "silent (ps_encode_key_value_pairs api kvs ps)"
  unfolding ps_encode_key_value_pairs_def ps_encode_def by (intro ends_fold silent_bind) simp_all

lemma silent_ps_decode [simp]: "silent (ps_decode api other ps)"
  unfolding ps_decode_def by (intro silent_bind) (auto split: option.split)

lemma silent_from_mem [simp]: "silent (from_mem x)"
  by (cases x) simp_all

lemma silent_deref [simp]: "silent (deref p)"
  by (cases p) (simp_all add: deref_def)

lemma silent_parse_good: "silent (parse_good api msg bs k)"
  unfolding parse_good_def by (auto intro!: silent_bind ends_fold [where R = "\<lambda>_. True"])

lemma silent_parse_bad: "silent (parse_bad api msg bs k r)"
  unfolding parse_bad_def by (auto intro!: silent_bind ends_fold [where R = "\<lambda>_. True"] split: prod.split)

lemma silent_enc_parse [simp]: "silent (enc_parse api msg bs n)"
  by (auto simp: enc_parse_def Let_def silent_parse_good silent_parse_bad intro!: silent_bind)

lemma silent_default_sketch [simp]: "silent (default_sketch env d)"
  by (auto simp: default_sketch_def ParityBitmapSketch_def calcBchParams_def Let_def intro!: silent_bind)

lemma silent_hint [simp]: "silent (PbsEncodingHintMessage n)"
  by (simp add: PbsEncodingHintMessage_def CeilLog2_def)

section \<open>Calls\<close>

text \<open>The numbers of an estimate request are \<open>int32\<close>, read as signed.\<close>

datatype request =
    EstimateCall "u32 list"
  | SetUpCall setup_request
  | SynchronizeCall sync_message
  | DDigestCall "ibf_cell list"
  | PinSketchCall bytes
  | GrapheneCall u32
  | PbsCall pbs_request

text \<open>The state a call leaves: that of the return or of the throw; none after undefined behaviour.\<close>

definition state_after :: "'sk server failure + (grpc_status \<times> 'r \<times> 'sk server) \<Rightarrow> 'sk server option" where
  "state_after r = (case r of Inr (status, reply, s) \<Rightarrow> Some s | Inl (Throws e s) \<Rightarrow> Some s | Inl (Undefined u) \<Rightarrow> None)"

fun after_call :: "('sk, 'g) host_env \<Rightarrow> request \<Rightarrow> 'sk server \<Rightarrow> 'sk server option" where
  "after_call env (EstimateCall xs) s = state_after (Estimate env (map sint xs) s)"
| "after_call env (SetUpCall req) s = state_after (ReconcileSetUp env req s)"
| "after_call env (SynchronizeCall req) s = state_after (Synchronize req s)"
| "after_call env (DDigestCall cells) s = state_after (ReconcileDDigest cells s)"
| "after_call env (PinSketchCall sketch) s = state_after (ReconcilePinSketch env sketch s)"
| "after_call env (GrapheneCall m) s = state_after (ReconcileGraphene env m s)"
| "after_call env (PbsCall req) s = state_after (ReconcileParityBitmapSketch env req s)"

inductive serves :: "('sk, 'g) host_env \<Rightarrow> 'sk server \<Rightarrow> 'sk server \<Rightarrow> bool" for env where
  call: "after_call env req s = Some s' \<Longrightarrow> serves env s s'"

inductive reachable :: "('sk, 'g) host_env \<Rightarrow> 'sk server \<Rightarrow> bool" for env where
  start: "EstimationServiceImpl draws = (Inr s :: unit failure + _) \<Longrightarrow> reachable env s"
| step: "reachable env s \<Longrightarrow> serves env s s' \<Longrightarrow> reachable env s'"

lemma ends_state: "ends P (\<lambda>(status, reply, s). P s) r \<Longrightarrow> state_after r = Some s' \<Longrightarrow> P s'"
  by (auto simp: ends_def state_after_def split: sum.splits failure.splits prod.splits)

section \<open>Well-formed servers\<close>

definition server_ok :: "'sk server \<Rightarrow> bool" where
  "server_ok s \<longleftrightarrow> tow_ok (sv_estimator s) \<and> tow_m (sv_estimator s) = DEFAULT_SKETCHES \<and> distinct (tow_hashes (sv_estimator s)) \<and>
     (sv_sketches s = [] \<or> length (sv_sketches s) = DEFAULT_SKETCHES) \<and> (\<forall>x \<in> set (sv_sketches s). fits_int x) \<and> -1 \<le> sv_estimated_diff s"

lemma server_ok_set [simp]:
  "server_ok (set_key_value_pairs t s) \<longleftrightarrow> server_ok s" "server_ok (put_pbs s p) \<longleftrightarrow> server_ok s"
  "server_ok (s\<lparr>sv_pbs := q\<rparr>) \<longleftrightarrow> server_ok s" "server_ok (s\<lparr>sv_key_value_pairs := x\<rparr>) \<longleftrightarrow> server_ok s"
  by (simp_all add: server_ok_def set_key_value_pairs_def put_pbs_def)

text \<open>Whatever the keys, applying the estimator overflows or gives one \<open>int\<close> per seed.\<close>

definition int_or_overflow :: "('a \<Rightarrow> bool) \<Rightarrow> 's failure + 'a \<Rightarrow> bool" where
  "int_or_overflow Q r = (case r of Inl f \<Rightarrow> f = Undefined SignedOverflow | Inr x \<Rightarrow> Q x)"

lemma int_or_overflow_simps [simp]:
  "int_or_overflow Q (Inr x) = Q x" "int_or_overflow Q (Inl f) = (f = Undefined SignedOverflow)"
  by (simp_all add: int_or_overflow_def)

lemma int_or_overflow_bind:
  "int_or_overflow R r \<Longrightarrow> (\<And>x. R x \<Longrightarrow> int_or_overflow Q (f x)) \<Longrightarrow> int_or_overflow Q (bind_ok r f)"
  by (cases r) auto

lemma int_or_overflow_fold:
  "R x0 \<Longrightarrow> (\<And>x s. x \<in> set xs \<Longrightarrow> R s \<Longrightarrow> int_or_overflow R (f x s)) \<Longrightarrow> int_or_overflow R (fold_ok f xs x0)"
  by (induction xs arbitrary: x0) (auto intro: int_or_overflow_bind)

lemma int_or_overflow_result: "int_or_overflow fits_int (int_result i)"
  by (simp add: int_result_def)

lemma tow_apply_one_typed: "i < length (tow_hashes e) \<Longrightarrow> int_or_overflow fits_int (tow_apply_one xxh e ks i)"
  unfolding tow_apply_one_def
  by (rule int_or_overflow_fold) (simp_all add: ok_simps int_or_overflow_result, simp add: fits_int_def)

lemma tow_apply_typed:
  assumes "tow_ok e"
  shows "int_or_overflow (\<lambda>sk. length sk = tow_m e \<and> (\<forall>x \<in> set sk. fits_int x)) (tow_apply xxh e ks)"
  unfolding tow_apply_def
proof (rule int_or_overflow_fold, goal_cases)
  case (2 i sk)
  with assms have "i < length (tow_hashes e)" "i < length sk" by (auto simp: tow_ok_def)
  with 2 show ?case
    by (intro int_or_overflow_bind [OF tow_apply_one_typed]) (auto simp: ok_simps dest: set_update_subset_insert [THEN subsetD])
qed (simp add: fits_int_def)

lemma LocalSketch_typed:
  fixes s :: "'sk server"
  assumes "server_ok s"
  shows "int_or_overflow (\<lambda>s1. server_ok s1 \<and> sv_sketches s1 \<noteq> []) (LocalSketchForKeyValuePairs env t s :: 'sk server failure + _)"
  unfolding LocalSketchForKeyValuePairs_def tow_apply_key_value_pairs_def
  using assms by (intro int_or_overflow_bind [OF tow_apply_typed]) (auto simp: server_ok_def DEFAULT_SKETCHES_def)

lemma LocalSketch_ok:
  fixes s :: "'sk server"
  shows "server_ok s \<Longrightarrow> ends P server_ok (LocalSketchForKeyValuePairs env t s :: 'sk server failure + _)"
  using LocalSketch_typed [of s env t]
  by (auto simp: int_or_overflow_def ends_def split: sum.splits)

abbreviation keeps_ok :: "'sk server failure + (grpc_status \<times> 'r \<times> 'sk server) \<Rightarrow> bool" where
  "keeps_ok r \<equiv> ends server_ok (\<lambda>(status, reply, s). server_ok s) r"

lemma answer_estimate_keeps: "server_ok s \<Longrightarrow> keeps_ok (answer_estimate req s)"
  by (auto simp: answer_estimate_def Let_def server_ok_def intro!: silent_bind ends_fold [where R = "\<lambda>_. True"])

lemma Estimate_keeps: "server_ok s \<Longrightarrow> keeps_ok (Estimate env req s)"
  by (auto simp: Estimate_def answer_estimate_keeps split: option.split intro!: ends_bind [OF LocalSketch_ok])

lemma silent_erase_range [simp]: "silent (oh_erase_range i j t)"
  by (cases "erase_sweep i j (m_buckets t) 0") (simp_all add: oh_erase_range_def)

lemma ReconcileSetUp_keeps:
  assumes "server_ok s"
  shows "keeps_ok (ReconcileSetUp env req s)"
proof (cases "next_algorithm req = M_END")
  case True
  then show ?thesis
    using assms unfolding ReconcileSetUp_def Let_def
    by (simp split: option.split) (intro allI impI ends_call; simp)
next
  case False
  note local_ok = ends_bind [OF LocalSketch_ok]
  from False assms show ?thesis
    unfolding ReconcileSetUp_def Let_def
    by (cases "next_algorithm req"; simp; intro ends_call local_ok silent_bind; simp)
qed

lemma Synchronize_keeps: "server_ok s \<Longrightarrow> keeps_ok (Synchronize req s)"
  unfolding Synchronize_def by (cases "sv_key_value_pairs s"; simp; intro ends_call; auto intro: ends_call)

lemma ReconcileDDigest_keeps: "server_ok s \<Longrightarrow> keeps_ok (ReconcileDDigest cells s)"
  unfolding ReconcileDDigest_def Let_def
  by (cases "sv_key_value_pairs s"; simp; intro impI ends_call silent_bind; auto intro!: ends_call)

lemma ReconcilePinSketch_keeps: "server_ok s \<Longrightarrow> keeps_ok (ReconcilePinSketch env sketch s)"
  unfolding ReconcilePinSketch_def Let_def
  by (cases "sv_key_value_pairs s"; simp; intro impI ends_call silent_bind; auto intro!: ends_call)

lemma ReconcileGraphene_keeps: "server_ok s \<Longrightarrow> keeps_ok (ReconcileGraphene env m s)"
proof -
  assume s: "server_ok s"
  then have both: "ends server_ok (\<lambda>_. True) (insert_both s kvs bf table)" for kvs bf table
    unfolding insert_both_def by (auto intro!: ends_fold [where R = "\<lambda>_. True"] ends_call)
  have ins: "ends server_ok (\<lambda>_. True) (fail_map (\<lambda>_. s) (r :: iblt failure + iblt))" for r
    using s by (intro ends_fail_map ends_mono [OF ends_True]) auto
  show ?thesis
    using s unfolding ReconcileGraphene_def Let_def
    by (auto intro!: any_bind [OF ins] any_bind [OF both] silent_bind [OF silent_tabulated] silent_bind [OF silent_bloom_for]
        split: option.split prod.split)
qed

lemma server_encoding_keeps:
  "server_ok s \<Longrightarrow> ends server_ok (\<lambda>(enc, s'). server_ok s') (server_encoding env hint t s)"
  unfolding server_encoding_def
  by (cases "sv_pbs s"; simp; intro ends_call silent_bind; auto intro!: ends_call)

lemma ReconcilePbs_keeps: "server_ok s \<Longrightarrow> keeps_ok (ReconcileParityBitmapSketch env req s)"
proof -
  assume s: "server_ok s"
  show ?thesis
  proof (cases "sv_key_value_pairs s")
    case None
    with s show ?thesis by (simp add: ReconcileParityBitmapSketch_def Let_def)
  next
    case (Some t)
    with s show ?thesis
      unfolding ReconcileParityBitmapSketch_def Let_def
      by (simp; intro impI ends_bind [OF server_encoding_keeps [OF s]]; auto intro!: silent_bind ends_call)
  qed
qed

lemma after_call_ok: "after_call env req s = Some s' \<Longrightarrow> server_ok s \<Longrightarrow> server_ok s'"
  by (cases req) (auto intro: ends_state Estimate_keeps ReconcileSetUp_keeps Synchronize_keeps ReconcileDDigest_keeps
      ReconcilePinSketch_keeps ReconcileGraphene_keeps ReconcilePbs_keeps)

section \<open>Reachable servers\<close>

lemma draw_seeds_distinct:
  assumes "draw_seeds draws m i seeds = Some r"
  shows "distinct seeds \<longrightarrow> length seeds \<le> m \<longrightarrow> distinct r \<and> length r = m"
proof (rule draw_seeds.raw_induct [OF _ assms])
  fix f :: "(nat \<Rightarrow> u32) \<Rightarrow> nat \<Rightarrow> nat \<Rightarrow> u32 list \<Rightarrow> u32 list option" and draws m i seeds r
  assume IH: "\<And>draws m i seeds r. f draws m i seeds = Some r \<Longrightarrow> distinct seeds \<longrightarrow> length seeds \<le> m \<longrightarrow> distinct r \<and> length r = m"
    and r: "(if m \<le> length seeds then Some seeds else f draws m (Suc i) (List.insert (draws i) seeds)) = Some r"
  show "distinct seeds \<longrightarrow> length seeds \<le> m \<longrightarrow> distinct r \<and> length r = m"
    using r IH [of draws m "Suc i" "List.insert (draws i) seeds" r] by (auto simp: List.insert_def split: if_splits)
qed

lemma constructed_ok: "EstimationServiceImpl draws = (Inr s :: unit failure + _) \<Longrightarrow> server_ok s"
proof -
  assume "EstimationServiceImpl draws = (Inr s :: unit failure + _)"
  then obtain seeds where "draw_seeds draws DEFAULT_SKETCHES 0 [] = Some seeds"
      "s = \<lparr>sv_estimator = \<lparr>tow_m = DEFAULT_SKETCHES, tow_hashes = seeds\<rparr>, sv_sketches = [], sv_estimated_diff = -1,
        sv_key_value_pairs = None, sv_pbs = None\<rparr>"
    by (auto simp: EstimationServiceImpl_def TugOfWarHash_def bind_ok_eq_Inr returns_def split: option.splits)
  with draw_seeds_distinct [of draws DEFAULT_SKETCHES 0 "[]"] show ?thesis
    by (simp add: server_ok_def tow_ok_def) (simp add: DEFAULT_SKETCHES_def)
qed

lemma reachable_ok: "reachable env s \<Longrightarrow> server_ok s"
  by (induction rule: reachable.induct) (auto elim!: serves.cases intro: constructed_ok after_call_ok)

text \<open>The largest absolute value a sketch of the server can have in an estimate.\<close>

definition sketch_bound :: "'sk server \<Rightarrow> int" where
  "sketch_bound s =
     (if sv_sketches s = [] then (case sv_key_value_pairs s of None \<Rightarrow> 0 | Some t \<Rightarrow> int (length (entries t)))
      else Max (abs ` set (sv_sketches s)))"

lemma answer_estimate_typed:
  fixes s :: "'sk server"
  assumes "length (sv_sketches s) \<le> length xs"
  shows "int_or_overflow (\<lambda>(status, est, s'). 0 \<le> est \<and> status = OK) (answer_estimate xs s)"
  unfolding answer_estimate_def
proof (rule int_or_overflow_bind [where R = "\<lambda>d. 0 \<le> d"], goal_cases)
  case 1
  then show ?case
    using assms by (intro int_or_overflow_fold) (auto simp: ok_simps add_square_def fround_nonneg intro!: int_or_overflow_bind [OF int_or_overflow_result])
next
  case (2 d)
  then have "0 \<le> to_float (to_double (d / of_nat (tow_m (sv_estimator s))))" by (simp add: fround_nonneg)
  with ESTIMATE_SM99_nonneg [OF this, where 's = "'sk server"] show ?case by (simp add: Let_def)
qed

lemma Estimate_typed:
  fixes s :: "'sk server"
  assumes "server_ok s" "DEFAULT_SKETCHES \<le> length xs"
  shows "int_or_overflow (\<lambda>(status, est, s'). 0 \<le> est \<and>
      status = (if sv_sketches s = [] \<and> sv_key_value_pairs s = None then UNAVAILABLE else OK)) (Estimate env xs s)"
proof -
  have "int_or_overflow (\<lambda>(status, est, s'). 0 \<le> est \<and> status = OK) (answer_estimate xs s1)" if "server_ok s1" for s1 :: "'sk server"
    using that assms(2) by (intro answer_estimate_typed) (auto simp: server_ok_def)
  with assms(1) show ?thesis
    by (auto simp: Estimate_def split: option.split intro!: int_or_overflow_bind [OF LocalSketch_typed [OF assms(1)]])
qed

text \<open>Small numbers and sketches leave no room for an overflow.\<close>

lemma answer_estimate_small:
  fixes s1 :: "'sk server"
  assumes "length (sv_sketches s1) \<le> length xs" "\<forall>x \<in> set (sv_sketches s1). \<bar>x\<bar> \<le> b" "\<forall>x \<in> set xs. \<bar>x\<bar> + b < 2 ^ 31"
  shows "answer_estimate xs s1 \<noteq> Inl (Undefined SignedOverflow)"
proof -
  have "fits_int (sv_sketches s1 ! i - xs ! i)" if "i < length (sv_sketches s1)" for i
  proof (rule fits_int_abs)
    have "\<bar>sv_sketches s1 ! i\<bar> \<le> b" "\<bar>xs ! i\<bar> + b < 2 ^ 31" using that assms by auto
    then show "\<bar>sv_sketches s1 ! i - xs ! i\<bar> < 2 ^ 31" by linarith
  qed
  from answer_estimate_eq [OF assms(1) this] show ?thesis by simp
qed

lemma Estimate_small:
  fixes s :: "'sk server"
  assumes "server_ok s" "DEFAULT_SKETCHES \<le> length xs" "\<forall>x \<in> set xs. \<bar>x\<bar> + sketch_bound s < 2 ^ 31"
  shows "Estimate env xs s \<noteq> Inl (Undefined SignedOverflow)"
proof (cases "sv_sketches s = []")
  case False
  with assms answer_estimate_small [of s xs "sketch_bound s"] show ?thesis
    by (simp add: Estimate_def server_ok_def sketch_bound_def)
next
  case True
  show ?thesis
  proof (cases "sv_key_value_pairs s")
    case (Some t)
    let ?sk = "sketches_of env (sv_estimator s) (entries t)"
    have b: "sketch_bound s = int (length (entries t))" using True Some by (simp add: sketch_bound_def)
    have "xs \<noteq> []" using assms(2) by (auto simp: DEFAULT_SKETCHES_def)
    then obtain x where "x \<in> set xs" by (cases xs) auto
    with assms(3) b have "\<bar>x\<bar> + int (length (entries t)) < 2 ^ 31" by auto
    then have "length (entries t) < 2 ^ 31" by simp
    with assms(1) have local: "LocalSketchForKeyValuePairs env t s = (Inr (s\<lparr>sv_sketches := ?sk\<rparr>) :: 'sk server failure + _)"
      by (simp add: LocalSketchForKeyValuePairs_def apply_sketches server_ok_def)
    have "length ?sk \<le> length xs" using assms(1,2) by (simp add: sketches_of_def server_ok_def tow_ok_def)
    moreover have "\<forall>x \<in> set ?sk. \<bar>x\<bar> \<le> sketch_bound s"
      using abs_tow_sum [of _ _ "map fst (entries t)"] by (auto simp: sketches_of_def b)
    ultimately show ?thesis
      using answer_estimate_small [of "s\<lparr>sv_sketches := ?sk\<rparr>" xs "sketch_bound s"] assms(3) by (simp add: Estimate_def True Some local)
  qed (simp add: Estimate_def True)
qed

lemma Estimate_returns:
  fixes s :: "'sk server"
  assumes "server_ok s" "DEFAULT_SKETCHES \<le> length xs" "\<forall>x \<in> set xs. \<bar>x\<bar> + sketch_bound s < 2 ^ 31"
  shows "\<exists>status est s'. Estimate env xs s = Inr (status, est, s') \<and> 0 \<le> est \<and>
    status = (if sv_sketches s = [] \<and> sv_key_value_pairs s = None then UNAVAILABLE else OK)"
  using Estimate_typed [OF assms(1,2), of env] Estimate_small [OF assms, of env]
  by (auto simp: int_or_overflow_def split: sum.splits)

text \<open>C18. Whatever requests a server gets, in whatever order, and also after calls that threw: it keeps an estimator
  with 128 different seeds, no sketches or 128 of them, each an \<open>int\<close>, and a number of differences of at least
  \<open>-1\<close>. So an estimate for a request of at least 128 numbers never reads outside the sketches, never throws, and
  fails in no way but one, a signed overflow of a counter or of a difference (of a server after such a failure
  nothing is claimed); it returns, with an estimate that is not negative, whenever the numbers of the request and the largest sketch (or the number of keys, when the
  sketches are computed in the call) add up to less than \<open>2 ^ 31\<close>.\<close>

theorem reachable_server_typed:
  fixes xs :: "u32 list"
  assumes "reachable env s" "DEFAULT_SKETCHES \<le> length xs"
  shows "server_ok s \<and>
    int_or_overflow (\<lambda>(status, est, s'). 0 \<le> est \<and> status \<in> {OK, UNAVAILABLE}) (Estimate env (map sint xs) s) \<and>
    ((\<forall>x \<in> set xs. \<bar>sint x\<bar> + sketch_bound s < 2 ^ 31) \<longrightarrow>
       (\<exists>status est s'. Estimate env (map sint xs) s = Inr (status, est, s') \<and> 0 \<le> est \<and> status \<in> {OK, UNAVAILABLE}))"
  using reachable_ok [OF assms(1)] Estimate_typed [OF reachable_ok [OF assms(1)], of "map sint xs" env]
    Estimate_returns [OF reachable_ok [OF assms(1)], of "map sint xs" env] assms(2)
  by (auto simp: int_or_overflow_def split: sum.splits if_splits)

lemma draw_seeds_counting:
  assumes "m < 2 ^ 32" "i \<le> m"
  shows "draw_seeds of_nat m i (rev (map of_nat [0..<i])) = Some (rev (map of_nat [0..<m]))"
  using assms(2)
proof (induction "m - i" arbitrary: i)
  case 0
  then show ?case by (subst draw_seeds.simps) simp
next
  case (Suc k)
  have "(of_nat i :: u32) \<notin> of_nat ` {0..<i}"
  proof
    assume "(of_nat i :: u32) \<in> of_nat ` {0..<i}"
    then obtain j where j: "j < i" "(of_nat i :: u32) = of_nat j" by auto
    with unat_of_nat_u32 [of i] unat_of_nat_u32 [of j] Suc.prems assms(1) show False by simp
  qed
  with Suc.hyps(1) [of "Suc i"] Suc.hyps(2) have "draw_seeds of_nat m (Suc i) (List.insert (of_nat i) (rev (map of_nat [0..<i]))) = Some (rev (map of_nat [0..<m]))"
    by (simp add: List.insert_def)
  with Suc.hyps(2) show ?case by (subst draw_seeds.simps) simp
qed

theorem reachable_server_typed_witness:
  "\<exists>s. reachable (demo_env blind_api (\<lambda>e s. e) (3, 3)) s \<and> server_ok s \<and>
    (\<exists>status est s'. Estimate (demo_env blind_api (\<lambda>e s. e) (3, 3)) (map sint (replicate 200 (7 :: u32))) s = Inr (status, est, s') \<and>
      0 \<le> est \<and> status \<in> {OK, UNAVAILABLE})"
proof -
  let ?s = "\<lparr>sv_estimator = \<lparr>tow_m = DEFAULT_SKETCHES, tow_hashes = rev (map of_nat [0..<DEFAULT_SKETCHES])\<rparr>, sv_sketches = [],
    sv_estimated_diff = -1, sv_key_value_pairs = None, sv_pbs = None\<rparr> :: unit server"
  have "draw_seeds of_nat DEFAULT_SKETCHES 0 [] = Some (rev (map of_nat [0..<DEFAULT_SKETCHES]))"
    using draw_seeds_counting [of DEFAULT_SKETCHES 0] by (simp add: DEFAULT_SKETCHES_def)
  then have "EstimationServiceImpl of_nat = (Inr ?s :: unit failure + _)"
    by (simp add: EstimationServiceImpl_def TugOfWarHash_def)
  then have r: "reachable (demo_env blind_api (\<lambda>e s. e) (3, 3)) ?s" by (rule reachable.start)
  from reachable_server_typed [OF r, of "replicate 200 7"] r show ?thesis by (auto simp: DEFAULT_SKETCHES_def sketch_bound_def)
qed

section \<open>A sketch left behind\<close>

definition reply_of :: "'s failure + (grpc_status \<times> 'r \<times> 'x) \<Rightarrow> (grpc_status \<times> 'r) option" where
  "reply_of r = (case r of Inr (status, reply, s) \<Rightarrow> Some (status, reply) | Inl e \<Rightarrow> None)"

lemma reply_of_simps [simp]: "reply_of (Inr (status, reply, s)) = Some (status, reply)" "reply_of (Inl e) = None"
  by (simp_all add: reply_of_def)

lemma reply_of_bind: "reply_of (bind_ok r f) = (case r of Inl e \<Rightarrow> None | Inr x \<Rightarrow> reply_of (f x))"
  by (cases r) simp_all

lemma case_fail_map: "(case fail_map g r of Inl e \<Rightarrow> None | Inr x \<Rightarrow> h x) = (case r of Inl e \<Rightarrow> None | Inr x \<Rightarrow> h x)"
  by (auto simp: fail_map_def split: sum.split failure.split)

lemma SetUp_keeps_pbs:
  assumes "ReconcileSetUp env req s = Inr (status, reply, s')" "next_algorithm req \<noteq> M_END"
  shows "sv_pbs s' = sv_pbs s"
proof -
  have "ends (\<lambda>_. True) (\<lambda>s1. sv_pbs s1 = sv_pbs s) (LocalSketchForKeyValuePairs env t (set_key_value_pairs t s))" for t
    unfolding LocalSketchForKeyValuePairs_def by (rule any_bind) (simp_all add: set_key_value_pairs_def)
  note local = ends_bind [OF this]
  have "ends (\<lambda>_. True) (\<lambda>(status, reply, s'). sv_pbs s' = sv_pbs s) (ReconcileSetUp env req s)"
    using assms(2) unfolding ReconcileSetUp_def Let_def
    by (cases "next_algorithm req"; simp; intro ends_call local any_bind ends_True; simp add: set_key_value_pairs_def)
  with assms(1) show ?thesis by simp
qed

lemma pbs_reply_stale:
  fixes s :: "'sk server"
  assumes "sv_pbs s = Some p" "pq_pushed_key_values q = []" "pq_missing_keys q = []" "sv_key_value_pairs s = Some t"
  shows "reply_of (ReconcileParityBitmapSketch env q (set_key_value_pairs t' s)) = reply_of (ReconcileParityBitmapSketch env q s)"
  using assms
  by (simp add: ReconcileParityBitmapSketch_def server_encoding_def bind_ok_assoc reply_of_bind case_fail_map
      put_pbs_def set_key_value_pairs_def Let_def case_prod_beta cong: sum.case_cong)


definition next_setup :: setup_request where
  "next_setup = \<lparr>next_algorithm = M_PBS, su_seed = 1, su_d = 0, su_object_sz = 8, su_usz = 0\<rparr>"


end
