(* ===== verification/Host_Properties.thy ===== *)
theory Host_Properties
  imports Recon_Loops
begin

text \<open>
  The data of the experiments: the comparison of two maps decides equality of the maps they stand for, and
  the generator of random pairs ends once enough different keys have been drawn.
\<close>

section \<open>Comparing maps\<close>

lemma is_equal_loop:
  assumes "kv_good n b"
  shows "fold_ok (\<lambda>(k, v) r. if \<not> r then Inr False
     else bind_ok (oh_count hash_key k b) (\<lambda>n. if n = 0 then Inr False
          else bind_ok (oh_at hash_key b k b) (\<lambda>w. Inr (w = v)))) es r =
    (Inr (r \<and> (\<forall>(k, v) \<in> set es. map_of (entries b) k = Some v)) :: kv_map failure + _)"
proof (induction es arbitrary: r)
  case (Cons e es)
  obtain k v where e: "e = (k, v)" by (cases e)
  have count: "oh_count hash_key k b = (Inr (if k \<in> keys_of (entries b) then 1 else 0) :: kv_map failure + _)"
    using assms by (simp add: oh_count_ok oh_good_def)
  show ?case
  proof (cases "k \<in> keys_of (entries b)")
    case True
    with Cons count assms show ?thesis by (auto simp: e map_of_value)
  next
    case False
    with Cons count assms show ?thesis by (auto simp: e map_of_value)
  qed
qed simp

lemma map_eq_of_size:
  assumes "distinct (map fst as)" "distinct (map fst bs)" "length as = length bs"
    and "\<forall>(k, v) \<in> set as. map_of bs k = Some v"
  shows "map_of as = map_of bs"
proof -
  have le: "map_of as \<subseteq>\<^sub>m map_of bs"
    unfolding map_le_def
  proof
    fix k assume "k \<in> dom (map_of as)"
    then obtain v where v: "map_of as k = Some v" by auto
    from map_of_SomeD [OF v] assms(4) have "map_of bs k = Some v" by auto
    with v show "map_of as k = map_of bs k" by simp
  qed
  have "card (dom (map_of as)) = card (dom (map_of bs))"
    using assms(1-3) by (simp add: dom_map_of_conv_image_fst distinct_card [of "map fst as", simplified] distinct_card [of "map fst bs", simplified])
  moreover have "dom (map_of as) \<subseteq> dom (map_of bs)" "finite (dom (map_of bs))"
    using le by (auto simp: map_le_implies_dom_le finite_dom_map_of)
  ultimately have "dom (map_of as) = dom (map_of bs)" by (intro card_subset_eq) auto
  with le show ?thesis by (metis map_le_antisym map_le_def)
qed

text \<open>C32. The comparison that ends an experiment decides equality: for two well-formed tables (as up to \<open>2 ^ 27\<close>
  operations leave them) it returns, never throws for a missing key, and is true exactly when they hold the same
  values under the same keys, in whatever order these were inserted.\<close>

theorem is_equal_decides:
  assumes "kv_good n a" "kv_good n b"
  shows "is_equal a b = Inr (map_of (entries a) = map_of (entries b))"
proof -
  note da = good_distinct [OF assms(1)] and db = good_distinct [OF assms(2)]
  show ?thesis
  proof (cases "length (entries a) = length (entries b)")
    case True
    have "(\<forall>(k, v) \<in> set (entries a). map_of (entries b) k = Some v) \<longleftrightarrow> map_of (entries a) = map_of (entries b)"
    proof
      assume same: "map_of (entries a) = map_of (entries b)"
      show "\<forall>(k, v) \<in> set (entries a). map_of (entries b) k = Some v"
        using map_of_is_SomeI [OF da] by (auto simp: same [symmetric])
    qed (rule map_eq_of_size [OF da db True])
    with True is_equal_loop [OF assms(2), of "entries a" True] show ?thesis by (simp add: is_equal_def oh_size_def)
  next
    case False
    have "map_of (entries a) \<noteq> map_of (entries b)"
    proof
      assume "map_of (entries a) = map_of (entries b)"
      then have "fst ` set (entries a) = fst ` set (entries b)" by (metis dom_map_of_conv_image_fst)
      with da db False show False by (metis distinct_card length_map set_map)
    qed
    with False show ?thesis by (simp add: is_equal_def oh_size_def)
  qed
qed

text \<open>The maps of the two hosts differ; a map equals itself.\<close>

theorem is_equal_decides_witness:
  "\<exists>a b. insert_pairs alice_pairs empty_hash = Inr a \<and> insert_pairs bob_pairs empty_hash = Inr b \<and>
    is_equal a b = Inr False \<and> is_equal a a = Inr True"
proof -
  obtain a where a: "insert_pairs alice_pairs empty_hash = Inr a" "kv_good 4 a" "entries a = alice_pairs" by (rule alice_map)
  obtain b where b: "insert_pairs bob_pairs empty_hash = Inr b" "kv_good 4 b" "entries b = bob_pairs" by (rule bob_map)
  have "map_of alice_pairs 1 \<noteq> map_of bob_pairs (1 :: key)" by simp
  then have "map_of alice_pairs \<noteq> map_of bob_pairs" by metis
  then show ?thesis
    using a b is_equal_decides [OF a(2) b(2)] is_equal_decides [OF a(2) a(2)] by (intro exI [of _ a] exI [of _ b]) (simp only: a(3) b(3), simp)
qed

section \<open>Random pairs\<close>

text \<open>The first pairs the generator draws.\<close>

fun drawn_pairs :: "'g random_engine \<Rightarrow> nat \<Rightarrow> nat \<Rightarrow> 'g \<Rightarrow> (key \<times> string) list" where
  "drawn_pairs rnd value_size 0 g = []"
| "drawn_pairs rnd value_size (Suc n) g =
     (let (k, g1) = rnd_key rnd g; (v, g2) = GenerateRandomString rnd value_size alphanum g1
      in (k, v) # drawn_pairs rnd value_size n g2)"

lemma generate_loop_ok:
  assumes "kv_good m t" "m + n \<le> oh_limit" "length (entries t) \<le> sz"
    and "sz \<le> card (keys_of (entries t) \<union> keys_of (drawn_pairs rnd vs n g))"
  shows "\<exists>t' j. generate_loop rnd sz vs g t = Some (Inr t') \<and> j \<le> n \<and> kv_good (m + j) t' \<and> length (entries t') = sz \<and>
    entries t' = fold dict_insert (drawn_pairs rnd vs j g) (entries t)"
  using assms
proof (induction n arbitrary: m g t)
  case 0
  have "card (keys_of (entries t)) \<le> length (entries t)" by (simp add: keys_of_def) (metis card_length length_map set_map)
  with 0 have "length (entries t) = sz" by simp
  with 0 show ?case
    by (subst generate_loop.simps) (auto simp: oh_size_def intro!: exI [of _ 0])
next
  case (Suc n)
  show ?case
  proof (cases "length (entries t) = sz")
    case True
    with Suc.prems show ?thesis by (subst generate_loop.simps) (auto simp: oh_size_def intro!: exI [of _ 0])
  next
    case False
    obtain k g1 where k: "rnd_key rnd g = (k, g1)" by fastforce
    obtain v g2 where v: "GenerateRandomString rnd vs alphanum g1 = (v, g2)" by fastforce
    from omap.ins_law [OF Suc.prems(1), of k v] Suc.prems(2) obtain t1 where
      t1: "oh_insert hash_key k v t = Inr (k \<notin> keys_of (entries t), t1)" "kv_good (Suc m) t1" "entries t1 = dict_insert (k, v) (entries t)"
      by auto
    have "length (entries t1) \<le> sz" using False Suc.prems(3) t1(3) by (simp add: dict_insert_def)
    moreover have "keys_of (entries t) \<union> keys_of (drawn_pairs rnd vs (Suc n) g) = keys_of (entries t1) \<union> keys_of (drawn_pairs rnd vs n g2)"
      using t1(3) by (simp add: k v)
    ultimately obtain t' j where r: "generate_loop rnd sz vs g2 t1 = Some (Inr t')" "j \<le> n" "kv_good (Suc m + j) t'" "length (entries t') = sz"
        "entries t' = fold dict_insert (drawn_pairs rnd vs j g2) (entries t1)"
      using Suc.IH [OF t1(2), of g2] Suc.prems(2,4) by auto
    have "generate_loop rnd sz vs g t = Some (Inr t')"
      using False Suc.prems(3) r(1) by (subst generate_loop.simps) (simp add: oh_size_def k v t1(1))
    with r t1(3) show ?thesis by (intro exI [of _ t'] exI [of _ "Suc j"]) (simp add: k v)
  qed
qed

text \<open>The generator ends: from a sound map of at most the size wanted, once the keys of the map and the first
  \<open>n\<close> draws are at least that many, it returns after at most \<open>n\<close> draws, with exactly that many pairs: those of
  the map, then the drawn ones in order, without the repeated keys.\<close>

lemma generator_ends:
  assumes "kv_good m t" "m + n \<le> oh_limit" "length (entries t) \<le> sz"
    and "sz \<le> card (keys_of (entries t) \<union> keys_of (drawn_pairs rnd value_size n (rnd_seed rnd seed)))"
  shows "\<exists>t' j. GenerateKeyValuePairs rnd sz value_size seed t = Inr t' \<and> j \<le> n \<and> oh_size t' = sz \<and> kv_good (m + j) t' \<and>
    entries t' = fold dict_insert (drawn_pairs rnd value_size j (rnd_seed rnd seed)) (entries t)"
  using generate_loop_ok [OF assms] by (auto simp: GenerateKeyValuePairs_def oh_size_def)

end
