(* ===== verification/Pbs_Params.thy ===== *)
theory Pbs_Params
  imports Bloom_Filter
begin

text \<open>
  \<open>src/pbs_params.h\<close>, its numerical part: how many of the balls thrown into bins are alone in their bin, the
  transition matrices of a round of PBS, and the bound on the failure probability from them. A matrix of the
  library Eigen has its numbers of rows and columns; an access outside is undefined. Its rounding and the order
  of its sums, \<open>stats::dbinom\<close> and \<open>std::pow\<close> are parameters; they get no infinities as long as the numbers of elements per group and of groups are not zero. A
  \<open>size_t\<close> is a number whose difference wraps.
\<close>

section \<open>Arithmetic\<close>

type_synonym number = "rat option"      \<comment> \<open>a \<open>double\<close>, or not a number\<close>

record arithmetic =
  rounded :: "rat \<Rightarrow> rat"               \<comment> \<open>the result of an operation on \<open>double\<close>\<close>
  summed :: "rat list \<Rightarrow> rat"           \<comment> \<open>Eigen's sum, in an order of its own\<close>
  dbinom :: "nat \<Rightarrow> nat \<Rightarrow> rat \<Rightarrow> rat"
  power_of :: "rat \<Rightarrow> rat \<Rightarrow> number"

definition exact :: "arithmetic \<Rightarrow> bool" where
  "exact fp \<longleftrightarrow> rounded fp = (\<lambda>x. x) \<and> summed fp = sum_list"

definition size_minus :: "nat \<Rightarrow> nat \<Rightarrow> nat" where
  "size_minus a b = (a + (2 ^ 64 - b mod 2 ^ 64)) mod 2 ^ 64"

section \<open>Matrices\<close>

record mat =
  mat_rows :: nat
  mat_cols :: nat
  coeff :: "nat \<Rightarrow> nat \<Rightarrow> rat"

definition mat_zero :: "nat \<Rightarrow> nat \<Rightarrow> mat" where
  "mat_zero r c = \<lparr>mat_rows = r, mat_cols = c, coeff = (\<lambda>_ _. 0)\<rparr>"

definition mat_at :: "mat \<Rightarrow> nat \<Rightarrow> nat \<Rightarrow> 's failure + rat" where
  "mat_at M i j = (if i < mat_rows M \<and> j < mat_cols M then Inr (coeff M i j) else Inl (Undefined OutOfBounds))"

definition mat_put :: "mat \<Rightarrow> nat \<Rightarrow> nat \<Rightarrow> rat \<Rightarrow> 's failure + mat" where
  "mat_put M i j v =
     (if i < mat_rows M \<and> j < mat_cols M
      then Inr (M\<lparr>coeff := (\<lambda>k l. if k = i \<and> l = j then v else coeff M k l)\<rparr>) else Inl (Undefined OutOfBounds))"

definition mat_block :: "mat \<Rightarrow> nat \<Rightarrow> nat \<Rightarrow> nat \<Rightarrow> nat \<Rightarrow> 's failure + mat" where
  "mat_block M i j h w =
     (if i + h \<le> mat_rows M \<and> j + w \<le> mat_cols M
      then Inr \<lparr>mat_rows = h, mat_cols = w, coeff = (\<lambda>k l. coeff M (i + k) (j + l))\<rparr> else Inl (Undefined OutOfBounds))"

definition mat_put_block :: "mat \<Rightarrow> nat \<Rightarrow> nat \<Rightarrow> mat \<Rightarrow> 's failure + mat" where
  "mat_put_block M i j B =
     (if i + mat_rows B \<le> mat_rows M \<and> j + mat_cols B \<le> mat_cols M
      then Inr (M\<lparr>coeff := (\<lambda>k l. if i \<le> k \<and> k < i + mat_rows B \<and> j \<le> l \<and> l < j + mat_cols B
                               then coeff B (k - i) (l - j) else coeff M k l)\<rparr>)
      else Inl (Undefined OutOfBounds))"

definition mat_sum :: "arithmetic \<Rightarrow> mat \<Rightarrow> rat" where
  "mat_sum fp M = summed fp [coeff M i j. j \<leftarrow> [0..<mat_cols M], i \<leftarrow> [0..<mat_rows M]]"

definition mat_times :: "arithmetic \<Rightarrow> mat \<Rightarrow> mat \<Rightarrow> mat" where
  "mat_times fp A B =
     \<lparr>mat_rows = mat_rows A, mat_cols = mat_cols B,
      coeff = (\<lambda>i j. summed fp [rounded fp (coeff A i k * coeff B k j). k \<leftarrow> [0..<mat_cols A]])\<rparr>"

definition ones_minus :: "arithmetic \<Rightarrow> mat \<Rightarrow> mat" where
  "ones_minus fp M = M\<lparr>coeff := (\<lambda>i j. rounded fp (1 - coeff M i j))\<rparr>"

section \<open>Balls into bins\<close>

text \<open>\<open>p * static_cast<double>(k) / n\<close>.\<close>

definition weighted :: "arithmetic \<Rightarrow> rat \<Rightarrow> nat \<Rightarrow> nat \<Rightarrow> rat" where
  "weighted fp p k n = rounded fp (rounded fp (p * rounded fp (of_nat k)) / rounded fp (of_nat n))"

text \<open>The cell \<open>(a, b)\<close> after one more ball, from the matrix before it.\<close>

definition next_probability :: "arithmetic \<Rightarrow> nat \<Rightarrow> nat \<Rightarrow> mat \<Rightarrow> nat \<Rightarrow> nat \<Rightarrow> 's failure + rat" where
  "next_probability fp m n prev a b =
     (let others = (size_minus (size_minus n a) b + 1) mod 2 ^ 64
      in if b = 1 then
           bind_ok (mat_at prev a (b + 1)) (\<lambda>p. bind_ok (mat_at prev a b) (\<lambda>q.
           Inr (rounded fp (weighted fp p b n + weighted fp q others n))))
         else if b = m + 1 then
           bind_ok (mat_at prev (a + 1) (b - 1)) (\<lambda>p. bind_ok (mat_at prev a b) (\<lambda>q.
           Inr (rounded fp (weighted fp p (a + 1) n + weighted fp q others n))))
         else
           bind_ok (mat_at prev (a + 1) (b - 1)) (\<lambda>p. bind_ok (mat_at prev a (b + 1)) (\<lambda>q. bind_ok (mat_at prev a b) (\<lambda>r.
           Inr (rounded fp (rounded fp (weighted fp p (a + 1) n + weighted fp q b n) + weighted fp r others n))))))"

definition put_in :: "nat \<Rightarrow> nat \<Rightarrow> nat \<Rightarrow> rat \<Rightarrow> mat list \<Rightarrow> 's failure + mat list" where
  "put_in x i j v m3d = bind_ok (vec_get m3d x) (\<lambda>M. bind_ok (mat_put M i j v) (\<lambda>M'. vec_set m3d x M'))"

definition computeProbabilityMatrix3D :: "arithmetic \<Rightarrow> nat \<Rightarrow> nat \<Rightarrow> 's failure + mat list" where
  "computeProbabilityMatrix3D fp m n =
     bind_ok (put_in 1 (size_minus n 1) 2 1 (replicate (m + 1) (mat_zero (n + 1) (m + 2))))
     (fold_ok (\<lambda>x. fold_ok (\<lambda>a. fold_ok (\<lambda>b m3d.
          bind_ok (vec_get m3d (x - 1)) (\<lambda>prev.
          bind_ok (next_probability fp m n prev a b) (\<lambda>p. put_in x a b p m3d)))
        [1..<x + 2]) [size_minus n m..<n]) [2..<m + 1])"

section \<open>Transitions\<close>

definition computeTransitionProbabilityMatrix :: "arithmetic \<Rightarrow> nat \<Rightarrow> nat \<Rightarrow> nat \<Rightarrow> 's failure + mat" where
  "computeTransitionProbabilityMatrix fp m n t =
     bind_ok (computeProbabilityMatrix3D fp m n) (\<lambda>m3d.
     bind_ok (fold_ok (\<lambda>i. fold_ok (\<lambda>j m2d.
          bind_ok (vec_get m3d i) (\<lambda>P. bind_ok (mat_block P (size_minus n t) (i - j + 1) (t + 1) 1) (\<lambda>B.
          mat_put m2d i (j + 1) (mat_sum fp B))))
        [0..<i + 1]) [1..<m + 1] (mat_zero (m + 1) (m + 2))) (\<lambda>m2d.
     fold_ok (\<lambda>i m2d. bind_ok (mat_block m2d i 1 1 i) (\<lambda>B. mat_put m2d i (i + 1) (rounded fp (1 - mat_sum fp B))))
       [t + 1..<m + 1] m2d))"

text \<open>The loop over the rounds, on the columns and the power of the matrix so far.\<close>

definition multi_rounds :: "arithmetic \<Rightarrow> nat \<Rightarrow> nat \<Rightarrow> mat \<Rightarrow> 's failure + mat" where
  "multi_rounds fp m r trans_mat_reform =
     bind_ok (fold_ok (\<lambda>i (mr_m2d, temp).
          bind_ok (mat_block temp 1 0 m 1) (\<lambda>B. bind_ok (mat_put_block mr_m2d 0 i B) (\<lambda>mr'.
          Inr (mr', mat_times fp temp trans_mat_reform))))
        [0..<r] (mat_zero m r, trans_mat_reform)) (\<lambda>(mr_m2d, temp).
     mat_put_block (mat_zero (m + 1) (r + 1)) 1 1 (ones_minus fp mr_m2d))"

definition multi_round_matrix :: "arithmetic \<Rightarrow> nat \<Rightarrow> nat \<Rightarrow> nat \<Rightarrow> nat \<Rightarrow> 's failure + mat" where
  "multi_round_matrix fp m n t r =
     bind_ok (computeTransitionProbabilityMatrix fp m n t) (\<lambda>m2d.
     bind_ok (mat_block m2d 1 1 m (m + 1)) (\<lambda>B.
     bind_ok (mat_put_block (mat_zero (m + 1) (m + 1)) 1 0 B) (\<lambda>T0.
     bind_ok (mat_put T0 0 0 1) (\<lambda>trans_mat_reform. multi_rounds fp m r trans_mat_reform))))"

section \<open>The bound on the failure probability\<close>

definition MAX_BALLS :: nat where "MAX_BALLS = 200"

text \<open>\<open>2.0 * (1.0 - std::pow(1.0 - p, k))\<close>.\<close>

definition times_two_bound :: "arithmetic \<Rightarrow> number \<Rightarrow> rat \<Rightarrow> number" where
  "times_two_bound fp p k =
     map_option (\<lambda>q. rounded fp (2 * rounded fp (1 - q))) (Option.bind p (\<lambda>p. power_of fp (rounded fp (1 - p)) k))"

definition computeFailureProbabilityBound ::
    "arithmetic \<Rightarrow> mat \<Rightarrow> nat \<Rightarrow> nat \<Rightarrow> nat \<Rightarrow> nat \<Rightarrow> 's failure + number" where
  "computeFailureProbabilityBound fp mr_m2d m n t r =
     bind_ok (fold_ok (\<lambda>i (prob_fail_one_group, prob_tail).
          let p = dbinom fp i m (rounded fp (1 / rounded fp (of_nat n)))
          in bind_ok (mat_at mr_m2d (i + 1) r) (\<lambda>q.
             Inr (rounded fp (prob_fail_one_group + rounded fp (p * q)), rounded fp (prob_tail - p))))
        [0..<t] (0, 1)) (\<lambda>(prob_fail_one_group, prob_tail).
     Inr (times_two_bound fp (Some (rounded fp (prob_fail_one_group + prob_tail))) (rounded fp (of_nat n))))"

definition add_product :: "arithmetic \<Rightarrow> number \<Rightarrow> rat \<Rightarrow> number \<Rightarrow> number" where
  "add_product fp s p q = Option.bind s (\<lambda>s. map_option (\<lambda>q. rounded fp (s + rounded fp (p * q))) q)"

text \<open>\<open>failureProbabilityUB\<close> once it has its matrix.\<close>

definition number_of_groups :: "arithmetic \<Rightarrow> nat \<Rightarrow> rat \<Rightarrow> rat" where
  "number_of_groups fp d delta = (let g = rounded fp (rounded fp (of_nat d) / delta) in if g < 1 then 1 else g)"

definition failure_bound ::
    "arithmetic \<Rightarrow> mat \<Rightarrow> nat \<Rightarrow> rat \<Rightarrow> nat \<Rightarrow> nat \<Rightarrow> nat \<Rightarrow> nat \<Rightarrow> 's failure + number" where
  "failure_bound fp mr_md d delta m r t c =
     (let g = number_of_groups fp d delta; p = (\<lambda>i. dbinom fp i d (rounded fp (1 / g)))
      in bind_ok (fold_ok (\<lambda>i (prob_fail_one_group, prob_tail).
             bind_ok (mat_at mr_md (i + 1) r) (\<lambda>q.
             Inr (add_product fp prob_fail_one_group (p i) (Some q), rounded fp (prob_tail - p i))))
           [0..<t] (Some 0, 1)) (\<lambda>so_far.
         bind_ok (fold_ok (\<lambda>i (prob_fail_one_group, prob_tail).
             bind_ok (computeFailureProbabilityBound fp mr_md i c t (size_minus r 1)) (\<lambda>q.
             Inr (add_product fp prob_fail_one_group (p i) q, rounded fp (prob_tail - p i))))
           [t..<m] so_far) (\<lambda>(prob_fail_one_group, prob_tail).
         Inr (times_two_bound fp (map_option (\<lambda>s. rounded fp (s + prob_tail)) prob_fail_one_group) g))))"

end
