(* ===== verification/Cache_Policies.thy ===== *)
theory Cache_Policies
  imports Pbs_Prelude
begin

text \<open>
  \<open>3rd/include/stlcache/policy.hpp\<close>, \<open>policy_lru.hpp\<close> and \<open>policy_mru.hpp\<close>: the expiration policies of the cache
  that keeps the matrices of the parameter search. A policy keeps its keys in a \<open>std::list\<close> and, for each key,
  an iterator into it. A list node has an address here, so that two nodes with the same key stay two nodes, and
  an iterator is the address of its node.
\<close>

section \<open>The interface\<close>

text \<open>The virtual functions of \<open>policy\<close>; a victim is there or not.\<close>

record ('p, 'k) policy =
  pol_insert :: "'k \<Rightarrow> 'p \<Rightarrow> unit failure + 'p"
  pol_remove :: "'k \<Rightarrow> 'p \<Rightarrow> unit failure + 'p"
  pol_touch :: "'k \<Rightarrow> 'p \<Rightarrow> unit failure + 'p"
  pol_clear :: "'p \<Rightarrow> 'p"
  pol_victim :: "'p \<Rightarrow> unit failure + 'k option"

section \<open>Least and most recently used\<close>

record 'k lru_policy =
  pol_entries :: "(nat \<times> 'k) list"
  pol_entries_map :: "'k \<Rightarrow> nat option"
  next_node :: nat      \<comment> \<open>the address of the next node\<close>

definition new_lru :: "'k lru_policy" where
  "new_lru = \<lparr>pol_entries = [], pol_entries_map = (\<lambda>_. None), next_node = 0\<rparr>"

text \<open>Erasing through an iterator that points to no node of the list is undefined.\<close>

definition erase_node :: "nat \<Rightarrow> (nat \<times> 'k) list \<Rightarrow> 's failure + (nat \<times> 'k) list" where
  "erase_node a es = (if a \<in> fst ` set es then Inr (filter (\<lambda>n. fst n \<noteq> a) es) else Inl (Undefined OutOfBounds))"

text \<open>\<open>std::map::insert\<close> keeps the iterator of a key that is there already.\<close>

definition lru_insert :: "'k \<Rightarrow> 'k lru_policy \<Rightarrow> unit failure + 'k lru_policy" where
  "lru_insert k p =
     Inr (p\<lparr>pol_entries := (next_node p, k) # pol_entries p,
            pol_entries_map := (if pol_entries_map p k = None then (pol_entries_map p)(k \<mapsto> next_node p) else pol_entries_map p),
            next_node := Suc (next_node p)\<rparr>)"

definition lru_remove :: "'k \<Rightarrow> 'k lru_policy \<Rightarrow> unit failure + 'k lru_policy" where
  "lru_remove k p =
     (case pol_entries_map p k of
        None \<Rightarrow> Inr p
      | Some a \<Rightarrow> bind_ok (erase_node a (pol_entries p)) (\<lambda>es.
          Inr (p\<lparr>pol_entries := es, pol_entries_map := (pol_entries_map p)(k := None)\<rparr>)))"

definition lru_touch :: "'k \<Rightarrow> 'k lru_policy \<Rightarrow> unit failure + 'k lru_policy" where
  "lru_touch k p =
     (case pol_entries_map p k of
        None \<Rightarrow> Inr p
      | Some a \<Rightarrow> bind_ok (erase_node a (pol_entries p)) (\<lambda>es.
          Inr (p\<lparr>pol_entries := (next_node p, k) # es, pol_entries_map := (pol_entries_map p)(k \<mapsto> next_node p),
                 next_node := Suc (next_node p)\<rparr>)))"

definition lru_clear :: "'k lru_policy \<Rightarrow> 'k lru_policy" where
  "lru_clear p = p\<lparr>pol_entries := [], pol_entries_map := (\<lambda>_. None)\<rparr>"

definition lru_swap :: "'k lru_policy \<Rightarrow> 'k lru_policy \<Rightarrow> 'k lru_policy \<times> 'k lru_policy" where
  "lru_swap p q = (q, p)"

text \<open>\<open>back()\<close> and \<open>front()\<close> of an empty list are undefined.\<close>

definition lru_victim :: "'k lru_policy \<Rightarrow> unit failure + 'k option" where
  "lru_victim p = (if pol_entries p = [] then Inl (Undefined OutOfBounds) else Inr (Some (snd (List.last (pol_entries p)))))"

definition mru_victim :: "'k lru_policy \<Rightarrow> unit failure + 'k option" where
  "mru_victim p = (if pol_entries p = [] then Inl (Undefined OutOfBounds) else Inr (Some (snd (hd (pol_entries p)))))"

text \<open>A copy has new nodes; its map keeps the first node of a key.\<close>

definition lru_copy :: "'k lru_policy \<Rightarrow> 'k lru_policy" where
  "lru_copy x =
     (let es = zip [0..<length (pol_entries x)] (map snd (pol_entries x))
      in \<lparr>pol_entries = es, pol_entries_map = fold (\<lambda>(a, k) m. if m k = None then m(k \<mapsto> a) else m) es (\<lambda>_. None),
          next_node = length es\<rparr>)"

definition policy_lru :: "('k lru_policy, 'k) policy" where
  "policy_lru = \<lparr>pol_insert = lru_insert, pol_remove = lru_remove, pol_touch = lru_touch, pol_clear = lru_clear,
     pol_victim = lru_victim\<rparr>"

lemma policy_lru_simps [simp]:
  "pol_insert policy_lru = lru_insert" "pol_remove policy_lru = lru_remove" "pol_touch policy_lru = lru_touch"
  "pol_clear policy_lru = lru_clear" "pol_victim policy_lru = lru_victim"
  by (simp_all add: policy_lru_def)

definition policy_mru :: "('k lru_policy, 'k) policy" where
  "policy_mru = policy_lru\<lparr>pol_victim := mru_victim\<rparr>"

section \<open>No policy\<close>

text \<open>A set of keys; the victim is the largest.\<close>

definition none_victim :: "'k::linorder set \<Rightarrow> unit failure + 'k option" where
  "none_victim es = Inr (if es = {} then None else Some (Max es))"

definition none_copy :: "'k set \<Rightarrow> 'k set" where
  "none_copy es = es"

definition policy_none :: "('k::linorder set, 'k) policy" where
  "policy_none = \<lparr>pol_insert = (\<lambda>k es. Inr (insert k es)), pol_remove = (\<lambda>k es. Inr (es - {k})), pol_touch = (\<lambda>k es. Inr es),
     pol_clear = (\<lambda>es. {}), pol_victim = none_victim\<rparr>"

section \<open>What a policy promises\<close>

text \<open>
  Seen from the cache, a policy is a list of different keys, in an order of its own: new keys join, removed ones
  leave, a touch may move one, and the victim is one of them.
\<close>

locale cache_policy =
  fixes pol :: "('p, 'k::linorder) policy"
    and good :: "'p \<Rightarrow> bool"
    and tracked :: "'p \<Rightarrow> 'k list"
    and join_key raise_key :: "'k \<Rightarrow> 'k list \<Rightarrow> 'k list"
    and pick :: "'k list \<Rightarrow> 'k"
  assumes tracked_distinct: "good p \<Longrightarrow> distinct (tracked p)"
    and insert_law: "good p \<Longrightarrow> k \<notin> set (tracked p) \<Longrightarrow> \<exists>p'. pol_insert pol k p = Inr p' \<and> good p' \<and> tracked p' = join_key k (tracked p)"
    and remove_law: "good p \<Longrightarrow> \<exists>p'. pol_remove pol k p = Inr p' \<and> good p' \<and> tracked p' = removeAll k (tracked p)"
    and touch_law: "good p \<Longrightarrow> \<exists>p'. pol_touch pol k p = Inr p' \<and> good p' \<and>
      tracked p' = (if k \<in> set (tracked p) then raise_key k (tracked p) else tracked p)"
    and clear_law: "good p \<Longrightarrow> good (pol_clear pol p) \<and> tracked (pol_clear pol p) = []"
    and victim_law: "good p \<Longrightarrow> tracked p \<noteq> [] \<Longrightarrow> pol_victim pol p = Inr (Some (pick (tracked p)))"
    and pick_in: "ks \<noteq> [] \<Longrightarrow> pick ks \<in> set ks"
    and join_set: "set (join_key k ks) = insert k (set ks)"
    and raise_set: "k \<in> set ks \<Longrightarrow> set (raise_key k ks) = set ks"

definition lru_good :: "'k lru_policy \<Rightarrow> bool" where
  "lru_good p \<longleftrightarrow> distinct (map fst (pol_entries p)) \<and> distinct (map snd (pol_entries p)) \<and>
     (\<forall>n\<in>set (pol_entries p). fst n < next_node p) \<and>
     (\<forall>k a. pol_entries_map p k = Some a \<longleftrightarrow> (a, k) \<in> set (pol_entries p))"

definition lru_keys :: "'k lru_policy \<Rightarrow> 'k list" where
  "lru_keys p = map snd (pol_entries p)"

definition to_front :: "'k \<Rightarrow> 'k list \<Rightarrow> 'k list" where
  "to_front k ks = k # removeAll k ks"

lemma lru_new_good: "lru_good new_lru"
  by (simp add: lru_good_def new_lru_def)

lemma lru_absent: "lru_good p \<Longrightarrow> pol_entries_map p k = None \<longleftrightarrow> k \<notin> set (lru_keys p)"
proof -
  assume "lru_good p"
  then have "(a, k) \<in> set (pol_entries p) \<longleftrightarrow> pol_entries_map p k = Some a" for a by (simp add: lru_good_def)
  moreover have "k \<in> set (lru_keys p) \<longleftrightarrow> (\<exists>a. (a, k) \<in> set (pol_entries p))" by (force simp: lru_keys_def)
  ultimately show ?thesis by simp
qed

lemma erase_node_keys:
  assumes "distinct (map fst es)" "distinct (map snd es)" "(a, k) \<in> set es"
  shows "erase_node a es = (Inr (filter (\<lambda>n. fst n \<noteq> a) es) :: 's failure + _)"
    "map snd (filter (\<lambda>n. fst n \<noteq> a) es) = removeAll k (map snd es)"
    "set (filter (\<lambda>n. fst n \<noteq> a) es) = set es - {(a, k)}"
proof -
  have one: "fst n = a \<longleftrightarrow> n = (a, k)" "snd n = k \<longleftrightarrow> n = (a, k)" if "n \<in> set es" for n
    using assms that inj_onD [of fst "set es" n "(a, k)"] inj_onD [of snd "set es" n "(a, k)"] by (auto simp: distinct_map)
  show "erase_node a es = (Inr (filter (\<lambda>n. fst n \<noteq> a) es) :: 's failure + _)" using assms(3) by (force simp: erase_node_def)
  have "filter (\<lambda>n. fst n \<noteq> a) es = filter (\<lambda>n. snd n \<noteq> k) es" by (rule filter_cong) (simp_all add: one)
  then show "map snd (filter (\<lambda>n. fst n \<noteq> a) es) = removeAll k (map snd es)"
    by (simp add: removeAll_filter_not_eq filter_map comp_def eq_commute)
  show "set (filter (\<lambda>n. fst n \<noteq> a) es) = set es - {(a, k)}" using one(1) by auto
qed

lemma entry_key: "(a, k) \<in> set (pol_entries p) \<Longrightarrow> k \<in> set (lru_keys p)"
  by (force simp: lru_keys_def)

text \<open>What is left after a node is erased.\<close>

lemma lru_drop:
  assumes "lru_good p" "pol_entries_map p k = Some a"
  defines "es \<equiv> filter (\<lambda>n. fst n \<noteq> a) (pol_entries p)"
  shows "erase_node a (pol_entries p) = (Inr es :: 's failure + _)" "map snd es = removeAll k (lru_keys p)"
    "distinct (map fst es)" "distinct (map snd es)" "\<forall>n\<in>set es. fst n < next_node p"
    "(b, j) \<in> set es \<longleftrightarrow> j \<noteq> k \<and> pol_entries_map p j = Some b" "k \<in> set (lru_keys p)"
proof -
  have g: "distinct (map fst (pol_entries p))" "distinct (map snd (pol_entries p))" "\<forall>n\<in>set (pol_entries p). fst n < next_node p"
    "\<And>j b. pol_entries_map p j = Some b \<longleftrightarrow> (b, j) \<in> set (pol_entries p)" using assms(1) by (simp_all add: lru_good_def)
  have in_list: "(a, k) \<in> set (pol_entries p)" using g(4) assms(2) by simp
  show keys: "map snd es = removeAll k (lru_keys p)" using erase_node_keys(2) [OF g(1,2) in_list] by (simp add: es_def lru_keys_def)
  show "erase_node a (pol_entries p) = (Inr es :: 's failure + _)" using erase_node_keys(1) [OF g(1,2) in_list] by (simp add: es_def)
  show "distinct (map fst es)" "distinct (map snd es)" using g(1,2) by (simp_all add: es_def distinct_map_filter)
  show "\<forall>n\<in>set es. fst n < next_node p" using g(3) by (simp add: es_def)
  show "(b, j) \<in> set es \<longleftrightarrow> j \<noteq> k \<and> pol_entries_map p j = Some b"
  proof
    assume e: "(b, j) \<in> set es"
    then have "j \<in> set (map snd es)" by force
    with e g(4) show "j \<noteq> k \<and> pol_entries_map p j = Some b" unfolding keys by (simp add: es_def)
  next
    assume j: "j \<noteq> k \<and> pol_entries_map p j = Some b"
    then have "(b, j) \<in> set (pol_entries p) - {(a, k)}" using g(4) by simp
    then show "(b, j) \<in> set es" unfolding es_def erase_node_keys(3) [OF g(1,2) in_list] .
  qed
  show "k \<in> set (lru_keys p)" using in_list by (rule entry_key)
qed

lemma lru_dropE:
  assumes "lru_good p" "pol_entries_map p k = Some a"
  obtains es where "erase_node a (pol_entries p) = (Inr es :: unit failure + _)" "map snd es = removeAll k (lru_keys p)"
    "distinct (map fst es)" "distinct (map snd es)" "\<forall>n\<in>set es. fst n < next_node p"
    "\<forall>b j. (b, j) \<in> set es \<longleftrightarrow> j \<noteq> k \<and> pol_entries_map p j = Some b" "k \<in> set (lru_keys p)"
  using lru_drop [OF assms] by blast

lemma lru_insert_good:
  assumes "lru_good p" "k \<notin> set (lru_keys p)"
  shows "\<exists>p'. lru_insert k p = Inr p' \<and> lru_good p' \<and> lru_keys p' = k # lru_keys p"
proof -
  have absent: "pol_entries_map p k = None" using assms by (simp add: lru_absent)
  have "next_node p \<notin> fst ` set (pol_entries p)" using assms(1) by (auto simp: lru_good_def)
  moreover have "(a, k) \<notin> set (pol_entries p)" for a using assms(2) entry_key by metis
  ultimately show ?thesis
    using assms absent by (auto simp: lru_insert_def lru_good_def lru_keys_def less_Suc_eq)
qed

lemma lru_remove_good:
  assumes "lru_good p"
  shows "\<exists>p'. lru_remove k p = Inr p' \<and> lru_good p' \<and> lru_keys p' = removeAll k (lru_keys p)"
proof (cases "pol_entries_map p k")
  case None
  with assms have "k \<notin> set (lru_keys p)" by (simp add: lru_absent)
  with None assms show ?thesis by (simp add: lru_remove_def)
next
  case (Some a)
  obtain es where d: "erase_node a (pol_entries p) = (Inr es :: unit failure + _)" "map snd es = removeAll k (lru_keys p)"
    "distinct (map fst es)" "distinct (map snd es)" "\<forall>n\<in>set es. fst n < next_node p"
    "\<forall>b j. (b, j) \<in> set es \<longleftrightarrow> j \<noteq> k \<and> pol_entries_map p j = Some b" "k \<in> set (lru_keys p)"
    by (rule lru_dropE [OF assms Some])
  then show ?thesis
    unfolding lru_remove_def Some by (auto simp: lru_good_def lru_keys_def)
qed

lemma lru_touch_good:
  assumes "lru_good p"
  shows "\<exists>p'. lru_touch k p = Inr p' \<and> lru_good p' \<and>
    lru_keys p' = (if k \<in> set (lru_keys p) then to_front k (lru_keys p) else lru_keys p)"
proof (cases "pol_entries_map p k")
  case None
  with assms have "k \<notin> set (lru_keys p)" by (simp add: lru_absent)
  with None assms show ?thesis by (simp add: lru_touch_def)
next
  case (Some a)
  obtain es where d: "erase_node a (pol_entries p) = (Inr es :: unit failure + _)" "map snd es = removeAll k (lru_keys p)"
    "distinct (map fst es)" "distinct (map snd es)" "\<forall>n\<in>set es. fst n < next_node p"
    "\<forall>b j. (b, j) \<in> set es \<longleftrightarrow> j \<noteq> k \<and> pol_entries_map p j = Some b" "k \<in> set (lru_keys p)"
    by (rule lru_dropE [OF assms Some])
  let ?p = "p\<lparr>pol_entries := (next_node p, k) # es, pol_entries_map := (pol_entries_map p)(k \<mapsto> next_node p), next_node := Suc (next_node p)\<rparr>"
  have "lru_touch k p = Inr ?p" using Some by (simp add: lru_touch_def d(1))
  moreover have "lru_keys ?p = to_front k (lru_keys p)" using d(2) by (simp add: lru_keys_def to_front_def)
  moreover have "lru_good ?p"
  proof -
    have "next_node p \<notin> set (map fst es)" using d(5) by auto
    moreover have "k \<notin> set (map snd es)" unfolding d(2) by simp
    moreover have "(b, k) \<notin> set es" for b using d(6) by simp
    moreover note d(6)
    ultimately show ?thesis using d(3-5) by (auto simp: lru_good_def less_Suc_eq)
  qed
  ultimately show ?thesis using d(7) by auto
qed

interpretation lru: cache_policy policy_lru lru_good lru_keys Cons to_front List.last
proof (unfold_locales, goal_cases)
  case (1 p) then show ?case by (simp add: lru_good_def lru_keys_def)
next
  case (2 p k) then show ?case using lru_insert_good by (simp add: policy_lru_def)
next
  case (3 p k) then show ?case using lru_remove_good by (simp add: policy_lru_def)
next
  case (4 p k) then show ?case using lru_touch_good [of p k] by (simp add: policy_lru_def)
next
  case (5 p) then show ?case by (simp add: policy_lru_def lru_clear_def lru_good_def lru_keys_def)
next
  case (6 p) then show ?case by (simp add: policy_lru_def lru_victim_def lru_keys_def last_map)
next
  case (7 ks) then show ?case by simp
qed (auto simp: to_front_def)

interpretation mru: cache_policy policy_mru lru_good lru_keys Cons to_front hd
proof (unfold_locales, goal_cases)
  case (6 p) then show ?case by (simp add: policy_mru_def mru_victim_def lru_keys_def hd_map)
next
  case (4 p k) then show ?case using lru.touch_law [of p k] by (simp add: policy_mru_def)
qed (use lru.tracked_distinct lru.insert_law lru.remove_law lru.clear_law lru.raise_set in
    \<open>simp_all add: policy_mru_def\<close>)

definition descending :: "'k::linorder set \<Rightarrow> 'k list" where
  "descending es = rev (sorted_list_of_set es)"

definition insert_descending :: "'k::linorder \<Rightarrow> 'k list \<Rightarrow> 'k list" where
  "insert_descending k ks = rev (insort k (rev ks))"

interpretation unordered: cache_policy policy_none finite descending insert_descending "\<lambda>k ks. ks" hd
proof (unfold_locales, goal_cases)
  case (3 p k)
  have "remove1 k (sorted_list_of_set p) = removeAll k (sorted_list_of_set p)" by (simp add: distinct_remove1_removeAll)
  with 3 show ?case by (simp add: policy_none_def descending_def sorted_list_of_set_remove removeAll_filter_not_eq rev_filter)
next
  case (6 p)
  then have p: "p \<noteq> {}" "finite p" by (auto simp: descending_def)
  have "x \<le> List.last (sorted_list_of_set p)" if "x \<in> p" for x
    using that p sorted_nth_mono [OF sorted_sorted_list_of_set, of _ "length (sorted_list_of_set p) - 1" p]
    by (metis Suc_pred' in_set_conv_nth last_conv_nth length_greater_0_conv less_Suc_eq_le list.set(1) diff_less set_sorted_list_of_set zero_less_one)
  then have "Max p = List.last (sorted_list_of_set p)"
    using p last_in_set [of "sorted_list_of_set p"] by (intro Max_eqI) (auto simp: sorted_list_of_set_eq_Nil_iff)
  with p show ?case by (simp add: policy_none_def none_victim_def descending_def hd_rev)
qed (auto simp: policy_none_def descending_def insert_descending_def set_insort_key)

end
