(* ===== verification/Stl_Cache.thy ===== *)
theory Stl_Cache
  imports Cache_Policies
begin

text \<open>
  \<open>3rd/include/stlcache/stlcache.hpp\<close>: the cache with a bounded number of entries over an expiration policy. Its
  \<open>std::map\<close> is the list of its pairs, sorted by key. The exceptions of the library are runtime errors; locks and
  assertions are left out. The counters never get negative or wrap, as they count entries.
\<close>

section \<open>Operations\<close>

record ('k, 'v, 'p) cache =
  storage :: "('k \<times> 'v) list"
  max_entries :: nat
  curr_entries :: nat
  cache_pol :: 'p

definition cached :: "'k \<Rightarrow> ('k, 'v, 'p) cache \<Rightarrow> bool" where
  "cached k c \<longleftrightarrow> k \<in> fst ` set (storage c)"

text \<open>\<open>std::map::insert\<close> keeps the value of a key that is there.\<close>

definition store :: "'k::linorder \<Rightarrow> 'v \<Rightarrow> ('k \<times> 'v) list \<Rightarrow> ('k \<times> 'v) list" where
  "store k v m = (if k \<in> fst ` set m then m else insort_key fst (k, v) m)"

definition unstore :: "'k \<Rightarrow> ('k \<times> 'v) list \<Rightarrow> ('k \<times> 'v) list" where
  "unstore k m = filter (\<lambda>e. fst e \<noteq> k) m"

definition new_cache :: "nat \<Rightarrow> 'p \<Rightarrow> ('k, 'v, 'p) cache" where
  "new_cache n p = \<lparr>storage = [], max_entries = n, curr_entries = 0, cache_pol = p\<rparr>"

definition assign_cache :: "('p \<Rightarrow> 'p) \<Rightarrow> ('k, 'v, 'p) cache \<Rightarrow> ('k, 'v, 'p) cache" where
  "assign_cache copy x =
     \<lparr>storage = storage x, max_entries = max_entries x, curr_entries = length (storage x), cache_pol = copy (cache_pol x)\<rparr>"

definition cache_clear :: "('p, 'k) policy \<Rightarrow> ('k, 'v, 'p) cache \<Rightarrow> ('k, 'v, 'p) cache" where
  "cache_clear pol c = c\<lparr>storage := [], cache_pol := pol_clear pol (cache_pol c), curr_entries := 0\<rparr>"

text \<open>\<open>size\<close> is the counter; \<open>swap\<close> assigns it to itself on both sides.\<close>

definition cache_size :: "('k, 'v, 'p) cache \<Rightarrow> nat" where
  "cache_size c = curr_entries c"

definition cache_swap :: "('k, 'v, 'p) cache \<Rightarrow> ('k, 'v, 'p) cache \<Rightarrow> ('k, 'v, 'p) cache \<times> ('k, 'v, 'p) cache" where
  "cache_swap c mp =
     (c\<lparr>storage := storage mp, cache_pol := cache_pol mp, max_entries := max_entries mp, curr_entries := cache_size c\<rparr>,
      mp\<lparr>storage := storage c, cache_pol := cache_pol c, max_entries := max_entries c, curr_entries := cache_size mp\<rparr>)"

definition in_policy ::
    "(unit failure + 'p) \<Rightarrow> ('k, 'v, 'p) cache \<Rightarrow> ('k, 'v, 'p) cache failure + ('k, 'v, 'p) cache" where
  "in_policy r c = bind_ok (fail_map (\<lambda>_. c) r) (\<lambda>p. Inr (c\<lparr>cache_pol := p\<rparr>))"

definition cache_erase ::
    "('p, 'k) policy \<Rightarrow> 'k \<Rightarrow> ('k, 'v, 'p) cache \<Rightarrow> ('k, 'v, 'p) cache failure + (nat \<times> ('k, 'v, 'p) cache)" where
  "cache_erase pol k c =
     (let ret = (if cached k c then 1 else 0); c1 = c\<lparr>storage := unstore k (storage c)\<rparr>
      in bind_ok (in_policy (pol_remove pol k (cache_pol c1)) c1) (\<lambda>c2.
         Inr (ret, c2\<lparr>curr_entries := curr_entries c2 - ret\<rparr>)))"

text \<open>
  The loop of \<open>insert\<close> that makes room. A victim that is not in the storage leaves the counter as it is, so the
  loop need not end.
\<close>

partial_function (option) evict_loop ::
    "('p, 'k) policy \<Rightarrow> ('k, 'v, 'p) cache \<Rightarrow> (('k, 'v, 'p) cache failure + ('k, 'v, 'p) cache) option" where
  [code]: "evict_loop pol c =
     (if curr_entries c < max_entries c then Some (Inr c)
      else case fail_map (\<lambda>_. c) (pol_victim pol (cache_pol c)) of
             Inl e \<Rightarrow> Some (Inl e)
           | Inr None \<Rightarrow> Some (Inl (Throws RuntimeError c))
           | Inr (Some k) \<Rightarrow>
               (case cache_erase pol k c of
                  Inl e \<Rightarrow> Some (Inl e)
                | Inr (n, c') \<Rightarrow> evict_loop pol c'))"

definition cache_insert ::
    "('p, 'k::linorder) policy \<Rightarrow> 'k \<Rightarrow> 'v \<Rightarrow> ('k, 'v, 'p) cache \<Rightarrow> ('k, 'v, 'p) cache failure + (bool \<times> ('k, 'v, 'p) cache)" where
  "cache_insert pol k v c =
     bind_ok (returns (evict_loop pol c)) (\<lambda>c1.
     bind_ok (in_policy (pol_insert pol k (cache_pol c1)) c1) (\<lambda>c2.
     let result = (\<not> cached k c2)
     in Inr (result, c2\<lparr>storage := store k v (storage c2), curr_entries := curr_entries c2 + (if result then 1 else 0)\<rparr>)))"

definition insert_or_assign ::
    "('p, 'k::linorder) policy \<Rightarrow> 'k \<Rightarrow> 'v \<Rightarrow> ('k, 'v, 'p) cache \<Rightarrow> ('k, 'v, 'p) cache failure + (bool \<times> ('k, 'v, 'p) cache)" where
  "insert_or_assign pol k v c =
     (if \<not> cached k c then bind_ok (cache_insert pol k v c) (\<lambda>(ignored, c1). Inr (True, c1))
      else bind_ok (in_policy (pol_touch pol k (cache_pol c)) c) (\<lambda>c1.
           Inr (False, c1\<lparr>storage := store k v (unstore k (storage c1))\<rparr>)))"

definition cache_touch ::
    "('p, 'k) policy \<Rightarrow> 'k \<Rightarrow> ('k, 'v, 'p) cache \<Rightarrow> ('k, 'v, 'p) cache failure + ('k, 'v, 'p) cache" where
  "cache_touch pol k c = in_policy (pol_touch pol k (cache_pol c)) c"

definition cache_check ::
    "('p, 'k) policy \<Rightarrow> 'k \<Rightarrow> ('k, 'v, 'p) cache \<Rightarrow> ('k, 'v, 'p) cache failure + (bool \<times> ('k, 'v, 'p) cache)" where
  "cache_check pol k c = bind_ok (cache_touch pol k c) (\<lambda>c1. Inr (cached k c1, c1))"

text \<open>A fetched key is touched twice, by \<open>_check\<close> and by \<open>fetch\<close>.\<close>

definition cache_fetch ::
    "('p, 'k) policy \<Rightarrow> 'k \<Rightarrow> ('k, 'v, 'p) cache \<Rightarrow> ('k, 'v, 'p) cache failure + ('v \<times> ('k, 'v, 'p) cache)" where
  "cache_fetch pol k c =
     bind_ok (cache_check pol k c) (\<lambda>(there, c1).
     if \<not> there then Inl (Throws RuntimeError c1)
     else bind_ok (cache_touch pol k c1) (\<lambda>c2. Inr (the (map_of (storage c2) k), c2)))"

definition cache_merge ::
    "('p, 'k::linorder) policy \<Rightarrow> ('k, 'v, 'p) cache \<Rightarrow> ('k, 'v, 'p) cache \<Rightarrow> ('k, 'v, 'p) cache failure + ('k, 'v, 'p) cache" where
  "cache_merge pol second c =
     fold_ok (\<lambda>(k, v) c. bind_ok (cache_check pol k c) (\<lambda>(there, c1).
         if \<not> there then bind_ok (cache_insert pol k v c1) (\<lambda>(ignored, c2). Inr c2)
         else cache_touch pol k c1)) (storage second) c"

definition cache_count :: "'k \<Rightarrow> ('k, 'v, 'p) cache \<Rightarrow> nat" where
  "cache_count k c = (if cached k c then 1 else 0)"

definition cache_empty :: "('k, 'v, 'p) cache \<Rightarrow> bool" where
  "cache_empty c \<longleftrightarrow> storage c = []"

definition cache_max_size :: "('k, 'v, 'p) cache \<Rightarrow> nat" where
  "cache_max_size c = max_entries c"

section \<open>Calls\<close>

text \<open>A sequence of calls by a caller who catches the exceptions.\<close>

datatype ('k, 'v) cache_call =
    Insert_new 'k 'v | Assign 'k 'v | Fetch 'k | Check 'k | Touch 'k | Erase_key 'k | Clear_all

datatype 'v outcome = Told bool | Found 'v | Erased nat | Thrown exn | Quiet

definition outcome_of :: "('a \<Rightarrow> 'v outcome) \<Rightarrow> 'c failure + ('a \<times> 'c) \<Rightarrow> ub + ('v outcome \<times> 'c)" where
  "outcome_of f r = (case r of Inr (x, c) \<Rightarrow> Inr (f x, c) | Inl (Throws e c) \<Rightarrow> Inr (Thrown e, c) | Inl (Undefined u) \<Rightarrow> Inl u)"

fun call_cache ::
    "('p, 'k::linorder) policy \<Rightarrow> ('k, 'v) cache_call \<Rightarrow> ('k, 'v, 'p) cache \<Rightarrow> ub + ('v outcome \<times> ('k, 'v, 'p) cache)" where
  "call_cache pol (Insert_new k v) c = outcome_of Told (cache_insert pol k v c)"
| "call_cache pol (Assign k v) c = outcome_of Told (insert_or_assign pol k v c)"
| "call_cache pol (Fetch k) c = outcome_of Found (cache_fetch pol k c)"
| "call_cache pol (Check k) c = outcome_of Told (cache_check pol k c)"
| "call_cache pol (Touch k) c = outcome_of (\<lambda>_. Quiet) (bind_ok (cache_touch pol k c) (\<lambda>c1. Inr ((), c1)))"
| "call_cache pol (Erase_key k) c = outcome_of Erased (cache_erase pol k c)"
| "call_cache pol Clear_all c = Inr (Quiet, cache_clear pol c)"

fun call_all :: "('s \<Rightarrow> 'c \<Rightarrow> ub + ('o \<times> 'c)) \<Rightarrow> 's list \<Rightarrow> 'c \<Rightarrow> ub + ('o list \<times> 'c)" where
  "call_all f [] c = Inr ([], c)"
| "call_all f (x # xs) c = bind_ok (f x c) (\<lambda>(o1, c1). bind_ok (call_all f xs c1) (\<lambda>(os, c2). Inr (o1 # os, c2)))"

section \<open>The bounded map a cache stands for\<close>

text \<open>
  The keys in the order of the policy and the values; a new key in a full map takes the place of the key picked.
\<close>

type_synonym ('k, 'v) bounded_map = "'k list \<times> ('k \<rightharpoonup> 'v)"

definition spec_evict :: "nat \<Rightarrow> ('k list \<Rightarrow> 'k) \<Rightarrow> ('k, 'v) bounded_map \<Rightarrow> ('k, 'v) bounded_map" where
  "spec_evict cap pick = (\<lambda>(ks, m). if length ks < cap then (ks, m) else (removeAll (pick ks) ks, m(pick ks := None)))"

fun spec_call ::
    "nat \<Rightarrow> ('k \<Rightarrow> 'k list \<Rightarrow> 'k list) \<Rightarrow> ('k \<Rightarrow> 'k list \<Rightarrow> 'k list) \<Rightarrow> ('k list \<Rightarrow> 'k) \<Rightarrow>
     ('k, 'v) cache_call \<Rightarrow> ('k, 'v) bounded_map \<Rightarrow> 'v outcome \<times> ('k, 'v) bounded_map" where
  "spec_call cap join raise pick (Insert_new k v) s = (let (ks, m) = spec_evict cap pick s in (Told True, join k ks, m(k \<mapsto> v)))"
| "spec_call cap join raise pick (Assign k v) (ks, m) =
     (if m k = None then let (ks1, m1) = spec_evict cap pick (ks, m) in (Told True, join k ks1, m1(k \<mapsto> v)) else (Told False, raise k ks, m(k \<mapsto> v)))"
| "spec_call cap join raise pick (Fetch k) (ks, m) =
     (case m k of None \<Rightarrow> (Thrown RuntimeError, ks, m) | Some v \<Rightarrow> (Found v, raise k (raise k ks), m))"
| "spec_call cap join raise pick (Check k) (ks, m) = (Told (m k \<noteq> None), if m k = None then ks else raise k ks, m)"
| "spec_call cap join raise pick (Touch k) (ks, m) = (Quiet, if m k = None then ks else raise k ks, m)"
| "spec_call cap join raise pick (Erase_key k) (ks, m) = (Erased (if m k = None then 0 else 1), removeAll k ks, m(k := None))"
| "spec_call cap join raise pick Clear_all (ks, m) = (Quiet, [], \<lambda>_. None)"

text \<open>\<open>insert\<close> is for new keys only.\<close>

fun legal :: "('k, 'v) cache_call \<Rightarrow> ('k, 'v) bounded_map \<Rightarrow> bool" where
  "legal (Insert_new k v) (ks, m) \<longleftrightarrow> m k = None"
| "legal _ s \<longleftrightarrow> True"

fun spec_calls ::
    "nat \<Rightarrow> ('k \<Rightarrow> 'k list \<Rightarrow> 'k list) \<Rightarrow> ('k \<Rightarrow> 'k list \<Rightarrow> 'k list) \<Rightarrow> ('k list \<Rightarrow> 'k) \<Rightarrow>
     ('k, 'v) cache_call list \<Rightarrow> ('k, 'v) bounded_map \<Rightarrow> ('v outcome list \<times> ('k, 'v) bounded_map) option" where
  "spec_calls cap join raise pick [] s = Some ([], s)"
| "spec_calls cap join raise pick (x # xs) s =
     (if \<not> legal x s then None
      else let (o1, s1) = spec_call cap join raise pick x s
           in map_option (\<lambda>(os, s2). (o1 # os, s2)) (spec_calls cap join raise pick xs s1))"

end
