(* ===== verification/Cache_Properties.thy ===== *)
theory Cache_Properties
  imports Stl_Cache
begin

text \<open>
  A cache under a policy that keeps its promises is a bounded map; a policy that gets a key twice does not keep
  them, and the cache may then evict for ever.
\<close>

section \<open>The cache under any policy\<close>

definition stands_for ::
    "('p \<Rightarrow> bool) \<Rightarrow> ('p \<Rightarrow> 'k list) \<Rightarrow> nat \<Rightarrow> ('k, 'v, 'p) cache \<Rightarrow> ('k, 'v) bounded_map \<Rightarrow> bool" where
  "stands_for good tracked cap c s \<longleftrightarrow>
     good (cache_pol c) \<and> fst s = tracked (cache_pol c) \<and> snd s = map_of (storage c) \<and> distinct (map fst (storage c)) \<and>
     set (tracked (cache_pol c)) = fst ` set (storage c) \<and> curr_entries c = length (storage c) \<and> max_entries c = cap \<and> curr_entries c \<le> cap"

lemma cached_map: "cached k c \<longleftrightarrow> map_of (storage c) k \<noteq> None"
  by (force simp: cached_def map_of_eq_None_iff)

lemma map_of_unstore: "map_of (unstore k m) = (map_of m)(k := None)"
  by (induction m) (auto simp: unstore_def)

lemma unstore_keys: "map fst (unstore k m) = removeAll k (map fst m)"
  by (induction m) (auto simp: unstore_def)

lemma unstore_fst: "fst ` set (unstore k m) = fst ` set m - {k}"
  by (auto simp: unstore_def)

lemma length_unstore:
  assumes "distinct (map fst m)"
  shows "length (unstore k m) = length m - (if k \<in> fst ` set m then 1 else 0)"
proof -
  have "length (unstore k m) = length (removeAll k (map fst m))" by (metis length_map unstore_keys)
  also have "\<dots> = length (remove1 k (map fst m))" using assms by (simp add: distinct_remove1_removeAll)
  finally show ?thesis by (simp add: length_remove1)
qed

lemma distinct_unstore: "distinct (map fst m) \<Longrightarrow> distinct (map fst (unstore k m))"
  unfolding unstore_keys by (rule distinct_removeAll)

lemma insort_keys: "map fst (insort_key fst (k, v) m) = insort k (map fst m)"
  by (induction m) auto

lemma store_new:
  assumes "k \<notin> fst ` set m" "distinct (map fst m)"
  shows "map_of (store k v m) = (map_of m)(k \<mapsto> v)" "distinct (map fst (store k v m))"
    "fst ` set (store k v m) = insert k (fst ` set m)" "length (store k v m) = Suc (length m)"
proof -
  show d: "distinct (map fst (store k v m))" using assms by (simp add: store_def insort_keys distinct_insort)
  have s: "set (store k v m) = insert (k, v) (set m)" using assms(1) by (simp add: store_def set_insort_key)
  have "map_of (store k v m) = map_of ((k, v) # m)"
    using d assms s by (subst map_of_inject_set) simp_all
  then show "map_of (store k v m) = (map_of m)(k \<mapsto> v)" by simp
  show "fst ` set (store k v m) = insert k (fst ` set m)" using s by simp
  show "length (store k v m) = Suc (length m)" using assms(1) by (simp add: store_def length_insort)
qed

text \<open>The keys of the policy are as many as the entries.\<close>

lemma stands_for_length:
  assumes "stands_for good tracked cap c s" "distinct (tracked (cache_pol c))"
  shows "length (fst s) = curr_entries c"
proof -
  have s: "fst s = tracked (cache_pol c)" "distinct (map fst (storage c))" "set (tracked (cache_pol c)) = fst ` set (storage c)"
    "curr_entries c = length (storage c)" using assms(1) by (simp_all add: stands_for_def)
  have "length (fst s) = card (set (fst s))" using assms(2) s(1) by (simp add: distinct_card)
  also have "\<dots> = length (map fst (storage c))" unfolding s(1,3) using distinct_card [OF s(2)] by simp
  finally show ?thesis using s(4) by simp
qed

context cache_policy
begin

abbreviation rel :: "nat \<Rightarrow> ('k, 'v, 'p) cache \<Rightarrow> ('k, 'v) bounded_map \<Rightarrow> bool" where
  "rel \<equiv> stands_for good tracked"

lemma rel_keys: "rel cap c (ks, m) \<Longrightarrow> k \<in> set ks \<longleftrightarrow> m k \<noteq> None"
  using cached_map [of k c] by (auto simp: stands_for_def cached_def)

lemma rel_cached: "rel cap c (ks, m) \<Longrightarrow> cached k c \<longleftrightarrow> m k \<noteq> None"
  by (simp add: stands_for_def cached_map)

lemma rel_length: "rel cap c (ks, m) \<Longrightarrow> length ks = curr_entries c"
  using stands_for_length [of good tracked cap c "(ks, m)"] tracked_distinct [of "cache_pol c"]
  by (auto simp: stands_for_def)

lemma touch_rel:
  assumes "rel cap c (ks, m)"
  shows "\<exists>c'. cache_touch pol k c = Inr c' \<and> rel cap c' (if m k = None then ks else raise_key k ks, m)"
proof -
  have g: "good (cache_pol c)" "tracked (cache_pol c) = ks" using assms by (simp_all add: stands_for_def)
  obtain p where p: "pol_touch pol k (cache_pol c) = Inr p" "good p" "tracked p = (if k \<in> set ks then raise_key k ks else ks)"
    using touch_law [OF g(1)] g(2) by auto
  have "tracked p = (if m k = None then ks else raise_key k ks)" "set (tracked p) = set ks"
    using p(3) rel_keys [OF assms, of k] raise_set [of k ks] by auto
  with assms p(2) have "rel cap (c\<lparr>cache_pol := p\<rparr>) (if m k = None then ks else raise_key k ks, m)"
    unfolding stands_for_def by (simp del: map_of_eq_None_iff)
  then show ?thesis by (simp add: cache_touch_def in_policy_def p(1))
qed

lemma check_rel:
  assumes "rel cap c (ks, m)"
  shows "\<exists>c'. cache_check pol k c = Inr (m k \<noteq> None, c') \<and> rel cap c' (if m k = None then ks else raise_key k ks, m)"
proof -
  obtain c' where "cache_touch pol k c = Inr c'" "rel cap c' (if m k = None then ks else raise_key k ks, m)"
    using touch_rel [OF assms] by blast
  then show ?thesis by (simp add: cache_check_def rel_cached)
qed

lemma fetch_rel:
  assumes "rel cap c (ks, m)"
  shows "case m k of
      None \<Rightarrow> \<exists>c'. cache_fetch pol k c = Inl (Throws RuntimeError c') \<and> rel cap c' (ks, m)
    | Some v \<Rightarrow> \<exists>c'. cache_fetch pol k c = Inr (v, c') \<and> rel cap c' (raise_key k (raise_key k ks), m)"
proof -
  obtain c1 where c1: "cache_check pol k c = Inr (m k \<noteq> None, c1)" "rel cap c1 (if m k = None then ks else raise_key k ks, m)"
    using check_rel [OF assms] by blast
  show ?thesis
  proof (cases "m k")
    case None
    with c1 show ?thesis by (simp add: cache_fetch_def)
  next
    case (Some v)
    then obtain c2 where c2: "cache_touch pol k c1 = Inr c2" "rel cap c2 (raise_key k (raise_key k ks), m)"
      using touch_rel [OF c1(2), of k] by auto
    then have "map_of (storage c2) k = Some v" using Some by (simp add: stands_for_def)
    with c1(1) c2 Some show ?thesis by (simp add: cache_fetch_def)
  qed
qed

lemma erase_rel:
  assumes "rel cap c (ks, m)"
  shows "\<exists>c'. cache_erase pol k c = Inr (if m k = None then 0 else 1, c') \<and> rel cap c' (removeAll k ks, m(k := None))"
proof -
  have g: "good (cache_pol c)" "tracked (cache_pol c) = ks" using assms by (simp_all add: stands_for_def)
  obtain p where p: "pol_remove pol k (cache_pol c) = Inr p" "good p" "tracked p = removeAll k ks"
    using remove_law [OF g(1)] g(2) by auto
  let ?ret = "if m k = None then 0 else 1 :: nat"
  let ?c = "c\<lparr>storage := unstore k (storage c), cache_pol := p, curr_entries := curr_entries c - ?ret\<rparr>"
  have "cache_erase pol k c = Inr (?ret, ?c)"
    by (simp add: cache_erase_def in_policy_def p(1) rel_cached [OF assms])
  moreover have "length (unstore k (storage c)) = curr_entries c - ?ret"
  proof -
    have "k \<in> fst ` set (storage c) \<longleftrightarrow> m k \<noteq> None" using rel_cached [OF assms, of k] by (simp add: cached_def)
    moreover have "distinct (map fst (storage c))" "curr_entries c = length (storage c)" using assms by (simp_all add: stands_for_def)
    ultimately show ?thesis by (simp add: length_unstore)
  qed
  moreover from this have "rel cap ?c (removeAll k ks, m(k := None))"
    using assms p(2,3) by (auto simp: stands_for_def map_of_unstore distinct_unstore unstore_fst)
  ultimately show ?thesis by blast
qed

lemma evict_rel:
  assumes "rel cap c (ks, m)" "0 < cap"
  shows "\<exists>c'. evict_loop pol c = Some (Inr c') \<and> rel cap c' (spec_evict cap pick (ks, m)) \<and> curr_entries c' < cap"
proof (cases "length ks < cap")
  case True
  then have "curr_entries c < max_entries c" using assms rel_length [OF assms(1)] by (simp add: stands_for_def)
  then have "evict_loop pol c = Some (Inr c)" by (simp add: evict_loop.simps)
  with True assms rel_length [OF assms(1)] show ?thesis by (simp add: spec_evict_def)
next
  case False
  have full: "curr_entries c = cap" "max_entries c = cap" "length ks = cap"
    using False assms rel_length [OF assms(1)] by (simp_all add: stands_for_def)
  then have ks: "ks \<noteq> []" using assms(2) by auto
  have v: "pol_victim pol (cache_pol c) = Inr (Some (pick ks))"
    using victim_law [of "cache_pol c"] assms(1) ks by (simp add: stands_for_def)
  have there: "m (pick ks) \<noteq> None" using pick_in [OF ks] rel_keys [OF assms(1)] by blast
  obtain c' where c': "cache_erase pol (pick ks) c = Inr (1, c')" "rel cap c' (removeAll (pick ks) ks, m(pick ks := None))"
    using erase_rel [OF assms(1), of "pick ks"] there by auto
  have "distinct ks" using assms(1) tracked_distinct by (auto simp: stands_for_def)
  then have "length (removeAll (pick ks) ks) = cap - 1"
    using pick_in [OF ks] full(3) by (simp add: length_remove1 flip: distinct_remove1_removeAll)
  then have less: "curr_entries c' < cap" "max_entries c' = cap" using rel_length [OF c'(2)] assms(2) c'(2) by (linarith, simp add: stands_for_def)
  then have "evict_loop pol c' = Some (Inr c')" by (simp add: evict_loop.simps)
  then have "evict_loop pol c = Some (Inr c')" by (subst evict_loop.simps) (simp add: full v c'(1))
  with c'(2) False less show ?thesis by (simp add: spec_evict_def)
qed

lemma insert_rel:
  assumes "rel cap c (ks, m)" "0 < cap" "m k = None"
  shows "\<exists>c'. cache_insert pol k v c = Inr (True, c') \<and>
    rel cap c' (join_key k (fst (spec_evict cap pick (ks, m))), (snd (spec_evict cap pick (ks, m)))(k \<mapsto> v))"
proof -
  obtain ks1 m1 where s1: "spec_evict cap pick (ks, m) = (ks1, m1)" by fastforce
  obtain c1 where c1: "evict_loop pol c = Some (Inr c1)" "rel cap c1 (ks1, m1)" "curr_entries c1 < cap"
    using evict_rel [OF assms(1,2)] s1 by auto
  have m1: "m1 k = None" using s1 assms(3) by (auto simp: spec_evict_def split: if_splits)
  have out: "k \<notin> set ks1" "\<not> cached k c1" using rel_keys [OF c1(2)] rel_cached [OF c1(2)] m1 by simp_all
  have "good (cache_pol c1)" "tracked (cache_pol c1) = ks1" using c1(2) by (simp_all add: stands_for_def)
  then obtain p where p: "pol_insert pol k (cache_pol c1) = Inr p" "good p" "tracked p = join_key k ks1"
    using insert_law [of "cache_pol c1" k] out(1) by auto
  let ?c = "c1\<lparr>cache_pol := p, storage := store k v (storage c1), curr_entries := Suc (curr_entries c1)\<rparr>"
  have "cache_insert pol k v c = Inr (True, ?c)"
    using out(2) by (simp add: cache_insert_def returns_def c1(1) in_policy_def p(1) cached_def)
  moreover have "rel cap ?c (join_key k ks1, m1(k \<mapsto> v))"
    using c1(2,3) p(2,3) out(2) by (simp add: stands_for_def store_new join_set cached_def)
  ultimately show ?thesis unfolding s1 by auto
qed

lemma assign_rel:
  assumes "rel cap c (ks, m)" "m k \<noteq> None"
  shows "\<exists>c'. insert_or_assign pol k v c = Inr (False, c') \<and> rel cap c' (raise_key k ks, m(k \<mapsto> v))"
proof -
  obtain c1 where c1: "in_policy (pol_touch pol k (cache_pol c)) c = Inr c1" "rel cap c1 (raise_key k ks, m)"
    using touch_rel [OF assms(1), of k] assms(2) by (auto simp: cache_touch_def)
  have there: "k \<in> fst ` set (storage c1)" using rel_cached [OF c1(2)] assms(2) by (simp add: cached_def)
  have new: "k \<notin> fst ` set (unstore k (storage c1))" by (simp add: unstore_fst)
  have d: "distinct (map fst (storage c1))" using c1(2) by (simp add: stands_for_def)
  then have len: "0 < length (storage c1)" using there by auto
  have "rel cap (c1\<lparr>storage := store k v (unstore k (storage c1))\<rparr>) (raise_key k ks, m(k \<mapsto> v))"
    using c1(2) there len
    by (simp add: stands_for_def store_new [OF new distinct_unstore [OF d]] map_of_unstore unstore_fst length_unstore insert_absorb)
  then show ?thesis
    using rel_cached [OF assms(1)] assms(2) by (simp add: insert_or_assign_def c1(1))
qed

lemma call_rel:
  assumes "rel cap c s" "0 < cap" "legal x s"
  shows "\<exists>c'. call_cache pol x c = Inr (fst (spec_call cap join_key raise_key pick x s), c') \<and>
    rel cap c' (snd (spec_call cap join_key raise_key pick x s))"
proof -
  obtain ks m where s: "s = (ks, m)" by fastforce
  note r = assms(1) [unfolded s]
  show ?thesis
  proof (cases x)
    case (Insert_new k v)
    then have "m k = None" using assms(3) s by simp
    then show ?thesis using insert_rel [OF r assms(2), of k v] Insert_new s by (auto simp: outcome_of_def split: prod.split)
  next
    case (Assign k v)
    show ?thesis
    proof (cases "m k")
      case None
      then show ?thesis using insert_rel [OF r assms(2), of k v] rel_cached [OF r, of k] Assign s
        by (auto simp: insert_or_assign_def outcome_of_def split: prod.split)
    next
      case Some
      then show ?thesis using assign_rel [OF r, of k v] Assign s by (auto simp: outcome_of_def)
    qed
  next
    case (Fetch k)
    then show ?thesis using fetch_rel [OF r, of k] s by (auto simp: outcome_of_def split: option.splits)
  next
    case (Check k)
    then show ?thesis using check_rel [OF r, of k] s by (auto simp: outcome_of_def)
  next
    case (Touch k)
    then show ?thesis using touch_rel [OF r, of k] s by (auto simp: outcome_of_def)
  next
    case (Erase_key k)
    then show ?thesis using erase_rel [OF r, of k] s by (auto simp: outcome_of_def)
  next
    case Clear_all
    have "rel cap (cache_clear pol c) ([], \<lambda>_. None)" using r clear_law by (simp add: stands_for_def cache_clear_def)
    then show ?thesis using Clear_all s by simp
  qed
qed

lemma calls_rel:
  assumes "rel cap c s" "0 < cap" "spec_calls cap join_key raise_key pick xs s = Some (os, s')"
  shows "\<exists>c'. call_all (call_cache pol) xs c = Inr (os, c') \<and> rel cap c' s'"
  using assms
proof (induction xs arbitrary: c s os)
  case Nil
  then show ?case by simp
next
  case (Cons x xs)
  obtain o1 s1 where o1: "spec_call cap join_key raise_key pick x s = (o1, s1)" by (cases "spec_call cap join_key raise_key pick x s")
  have l: "legal x s" using Cons.prems(3) by (simp split: if_splits)
  then obtain os1 where os1: "spec_calls cap join_key raise_key pick xs s1 = Some (os1, s')" "os = o1 # os1"
    using Cons.prems(3) o1 by auto
  obtain c1 where c1: "call_cache pol x c = Inr (o1, c1)" "rel cap c1 s1"
    using call_rel [OF Cons.prems(1,2) l] o1 by auto
  then show ?case using Cons.IH [OF c1(2) Cons.prems(2) os1(1)] os1(2) by auto
qed

end

section \<open>Properties\<close>

text \<open>C8. A cache over the policy of the least recently used key is a bounded map: from the empty
  cache, every sequence of calls that inserts only new keys has the outcomes of the map that makes
  room by dropping the key used longest ago, and ends with that map, its keys in the order of their
  use, and no more entries than the capacity.\<close>

theorem lru_cache_refines_map:
  assumes "0 < cap" "spec_calls cap Cons to_front List.last xs ([], \<lambda>_. None) = Some (os, ks, m)"
  shows "\<exists>c. call_all (call_cache policy_lru) xs (new_cache cap new_lru) = Inr (os, c) \<and> lru_keys (cache_pol c) = ks \<and>
    map_of (storage c) = m \<and> length (storage c) \<le> cap"
proof -
  have "lru.rel cap (new_cache cap new_lru) ([], \<lambda>_. None)"
    by (simp add: stands_for_def new_cache_def lru_new_good) (simp add: lru_keys_def new_lru_def)
  from lru.calls_rel [OF this assms] show ?thesis by (auto simp: stands_for_def)
qed

theorem lru_cache_refines_map_witness:
  "\<exists>c. call_all (call_cache policy_lru) [Insert_new (1::nat) ''a'', Insert_new 2 ''b'', Fetch 1, Insert_new 3 ''c'', Check 2, Fetch 2] (new_cache 2 new_lru) =
      Inr ([Told True, Told True, Found ''a'', Told True, Told False, Thrown RuntimeError], c) \<and> lru_keys (cache_pol c) = [3, 1] \<and>
    map_of (storage c) = [1 \<mapsto> ''a'', 3 \<mapsto> ''c''] \<and> length (storage c) \<le> 2"
  by (rule lru_cache_refines_map) (simp_all add: spec_evict_def to_front_def fun_eq_iff)

text \<open>The steps of \<open>insert\<close> under this policy.\<close>

lemma lru_evict_room: "curr_entries c < max_entries c \<Longrightarrow> evict_loop policy_lru c = Some (Inr c)"
  by (simp add: evict_loop.simps)

lemma lru_evict_stored:
  assumes "max_entries c \<le> curr_entries c" "pol_entries (cache_pol c) = es @ [(i, k)]" "i \<notin> fst ` set es"
    "pol_entries_map (cache_pol c) k = Some i" "cached k c"
  shows "evict_loop policy_lru c = evict_loop policy_lru
    (c\<lparr>storage := unstore k (storage c),
       cache_pol := (cache_pol c)\<lparr>pol_entries := es, pol_entries_map := (pol_entries_map (cache_pol c))(k := None)\<rparr>,
       curr_entries := curr_entries c - 1\<rparr>)"
proof -
  have es: "filter (\<lambda>n. fst n \<noteq> i) (es @ [(i, k)]) = es" using assms(3) by (force simp: filter_id_conv)
  show ?thesis
    by (subst evict_loop.simps)
      (use assms es in \<open>simp add: lru_victim_def cache_erase_def lru_remove_def erase_node_def in_policy_def\<close>)
qed

lemma lru_insert_into:
  assumes "evict_loop policy_lru c = Some (Inr c1)"
  shows "cache_insert policy_lru k v c = Inr (\<not> cached k c1,
    c1\<lparr>storage := store k v (storage c1), curr_entries := curr_entries c1 + (if cached k c1 then 0 else 1),
       cache_pol := (cache_pol c1)\<lparr>pol_entries := (next_node (cache_pol c1), k) # pol_entries (cache_pol c1),
         pol_entries_map := (if pol_entries_map (cache_pol c1) k = None then (pol_entries_map (cache_pol c1))(k \<mapsto> next_node (cache_pol c1))
           else pol_entries_map (cache_pol c1)), next_node := Suc (next_node (cache_pol c1))\<rparr>\<rparr>)"
  by (simp add: cache_insert_def assms in_policy_def lru_insert_def cached_def)

text \<open>A victim that is known neither to the map of the policy nor to the storage stays where it is.\<close>

lemma stale_victim_loops:
  assumes "max_entries c \<le> curr_entries c" "pol_entries (cache_pol c) = es @ [(i, k)]"
    "pol_entries_map (cache_pol c) k = None" "\<not> cached k c"
  shows "evict_loop policy_lru c = None"
proof -
  have unstore: "unstore k (storage c) = storage c"
    using assms(4) by (force simp: unstore_def cached_def filter_id_conv)
  have "pol = policy_lru \<longrightarrow> c' = c \<longrightarrow> False" if "evict_loop pol c' = Some r" for pol c' r
  proof (rule evict_loop.raw_induct [OF _ that], intro impI)
    fix f pol c' r
    assume "\<And>pol c' r. f pol c' = Some r \<Longrightarrow> pol = policy_lru \<longrightarrow> c' = c \<longrightarrow> False" "pol = policy_lru" "c' = c"
      and "(if curr_entries c' < max_entries c' then Some (Inr c')
        else case fail_map (\<lambda>_. c') (pol_victim pol (cache_pol c')) of Inl e \<Rightarrow> Some (Inl e)
          | Inr None \<Rightarrow> Some (Inl (Throws RuntimeError c'))
          | Inr (Some k) \<Rightarrow> (case cache_erase pol k c' of Inl e \<Rightarrow> Some (Inl e) | Inr (n, c') \<Rightarrow> f pol c')) = Some r"
    with assms unstore show False
      by (auto simp: lru_victim_def cache_erase_def lru_remove_def in_policy_def)
  qed
  then show ?thesis by (cases "evict_loop policy_lru c") auto
qed

text \<open>C40. The policy takes a key that is in the cache a second time, although the cache does not: after
  a second insertion of the same key into a cache for two entries, a later insertion never returns.\<close>

theorem duplicate_insert_hangs:
  fixes a b c d :: "'k::linorder" and v :: 'v
  assumes "distinct [a, b, c, d]"
  shows "call_all (call_cache policy_lru) [Insert_new a v, Insert_new a v, Insert_new b v, Insert_new c v, Insert_new d v] (new_cache 2 new_lru) =
    Inl NoProgress"
proof -
  let ?c = "\<lambda>m n es pm i. \<lparr>storage = m, max_entries = 2, curr_entries = n,
    cache_pol = \<lparr>pol_entries = es, pol_entries_map = pm, next_node = i\<rparr>\<rparr>"
  let ?m2 = "store b v [(a, v)]" and ?m3 = "store c v [(b, v)]"
  note full = cached_def new_cache_def new_lru_def
  have "cache_insert policy_lru a v (new_cache 2 new_lru) = Inr (True, ?c [(a, v)] 1 [(0, a)] [a \<mapsto> 0] 1)"
    by (subst lru_insert_into [OF lru_evict_room]) (simp_all add: full store_def)
  moreover have "cache_insert policy_lru a v (?c [(a, v)] 1 [(0, a)] [a \<mapsto> 0] 1) = Inr (False, ?c [(a, v)] 1 [(1, a), (0, a)] [a \<mapsto> 0] 2)"
    by (subst lru_insert_into [OF lru_evict_room]) (simp_all add: full store_def)
  moreover have "cache_insert policy_lru b v (?c [(a, v)] 1 [(1, a), (0, a)] [a \<mapsto> 0] 2) =
      Inr (True, ?c ?m2 2 [(2, b), (1, a), (0, a)] [a \<mapsto> 0, b \<mapsto> 2] 3)"
    using assms by (subst lru_insert_into [OF lru_evict_room]) (auto simp: full)
  moreover have evict: "evict_loop policy_lru (?c ?m2 2 [(2, b), (1, a), (0, a)] [a \<mapsto> 0, b \<mapsto> 2] 3) =
      Some (Inr (?c [(b, v)] 1 [(2, b), (1, a)] [b \<mapsto> 2] 3))"
    using assms by (subst lru_evict_stored [where es = "[(2, b), (1, a)]" and i = 0 and k = a])
      (auto simp: lru_evict_room cached_def store_def unstore_def)
  moreover have "cache_insert policy_lru c v (?c ?m2 2 [(2, b), (1, a), (0, a)] [a \<mapsto> 0, b \<mapsto> 2] 3) =
      Inr (True, ?c ?m3 2 [(3, c), (2, b), (1, a)] [b \<mapsto> 2, c \<mapsto> 3] 4)"
    using assms by (subst lru_insert_into [OF evict]) (auto simp: full)
  moreover have "evict_loop policy_lru (?c ?m3 2 [(3, c), (2, b), (1, a)] [b \<mapsto> 2, c \<mapsto> 3] 4) = None"
    using assms by (intro stale_victim_loops [where es = "[(3, c), (2, b)]" and i = 1 and k = a]) (auto simp: cached_def store_def)
  then have "cache_insert policy_lru d v (?c ?m3 2 [(3, c), (2, b), (1, a)] [b \<mapsto> 2, c \<mapsto> 3] 4) = Inl (Undefined NoProgress)"
    by (simp add: cache_insert_def)
  ultimately show ?thesis by (simp add: outcome_of_def)
qed

theorem duplicate_insert_hangs_witness:
  "call_all (call_cache policy_lru) [Insert_new (1::nat) ''x'', Insert_new 1 ''x'', Insert_new 2 ''x'', Insert_new 3 ''x'', Insert_new 4 ''x'']
    (new_cache 2 new_lru) = Inl NoProgress"
  by (rule duplicate_insert_hangs) simp

end
