(* ===== verification/Matrix_Cache.thy ===== *)
theory Matrix_Cache
  imports Pbs_Params Cache_Properties "HOL-Library.Product_Lexorder"
begin

text \<open>
  \<open>src/cache_helper.h\<close> and the functions of \<open>pbs_params.h\<close> that use it: the matrices of the search are kept in
  memory, under the policy of the least recently used key, and in files. The archives of boost and Eigen are
  parameters. The directory of the files is there and can be written; what the functions print is left out.
\<close>

section \<open>Keys and files\<close>

type_synonym cache_key = "nat \<times> nat \<times> nat \<times> nat"
type_synonym mem_cache = "(cache_key, mat, cache_key lru_policy) cache"

definition max_cache :: nat where "max_cache = 1024"

fun decimal :: "nat \<Rightarrow> string" where
  "decimal n = (if n < 10 then [char_of (48 + n)] else decimal (n div 10) @ [char_of (48 + n mod 10)])"

declare decimal.simps [simp del]

definition DEFAULT_CACHE_DIR :: string where "DEFAULT_CACHE_DIR = ''../cache/''"

definition get_cache_filename :: "cache_key \<Rightarrow> string" where
  "get_cache_filename key =
     (case key of (k0, k1, k2, k3) \<Rightarrow>
        DEFAULT_CACHE_DIR @ ''multiple_round_m2d_'' @ decimal k0 @ ''_'' @ decimal k1 @ ''_'' @ decimal k2 @ ''_'' @ decimal k3 @ ''.eigen3'')"

section \<open>The two caches\<close>

record 'f archives =
  archive :: "mat \<Rightarrow> 'f"                \<comment> \<open>the content of a file\<close>
  unarchive :: "'f \<Rightarrow> mat option"     \<comment> \<open>nothing: an exception\<close>

record 'f caches =
  memcache :: mem_cache
  disk :: "string \<Rightarrow> 'f option"

definition get_memcache :: mem_cache where
  "get_memcache = new_cache max_cache new_lru"

definition memcache_write :: "cache_key \<Rightarrow> mat \<Rightarrow> 'f caches \<Rightarrow> 'f caches failure + 'f caches" where
  "memcache_write key val st =
     bind_ok (fail_map (\<lambda>c. st\<lparr>memcache := c\<rparr>) (cache_insert policy_lru key val (memcache st))) (\<lambda>(ignored, c).
     Inr (st\<lparr>memcache := c\<rparr>))"

definition memcache_check :: "cache_key \<Rightarrow> 'f caches \<Rightarrow> 'f caches failure + (bool \<times> 'f caches)" where
  "memcache_check key st =
     bind_ok (fail_map (\<lambda>c. st\<lparr>memcache := c\<rparr>) (cache_check policy_lru key (memcache st))) (\<lambda>(there, c).
     Inr (there, st\<lparr>memcache := c\<rparr>))"

definition memcache_fetch :: "cache_key \<Rightarrow> 'f caches \<Rightarrow> 'f caches failure + (mat \<times> 'f caches)" where
  "memcache_fetch key st =
     bind_ok (fail_map (\<lambda>c. st\<lparr>memcache := c\<rparr>) (cache_fetch policy_lru key (memcache st))) (\<lambda>(val, c).
     Inr (val, st\<lparr>memcache := c\<rparr>))"

definition memcache_clear :: "'f caches \<Rightarrow> 'f caches" where
  "memcache_clear st = st\<lparr>memcache := cache_clear policy_lru (memcache st)\<rparr>"

definition save_cache :: "'f archives \<Rightarrow> cache_key \<Rightarrow> mat \<Rightarrow> 'f caches \<Rightarrow> 'f caches" where
  "save_cache ar key val st = st\<lparr>disk := (disk st)(get_cache_filename key \<mapsto> archive ar val)\<rparr>"

definition load_cache :: "'f archives \<Rightarrow> cache_key \<Rightarrow> 'f caches \<Rightarrow> 'f caches failure + mat option" where
  "load_cache ar key st =
     (case disk st (get_cache_filename key) of
        None \<Rightarrow> Inr None
      | Some content \<Rightarrow> (case unarchive ar content of None \<Rightarrow> Inl (Throws RuntimeError st) | Some val \<Rightarrow> Inr (Some val)))"

section \<open>The cached matrices\<close>

definition computeMultiRoundProbabilityMatrix ::
    "arithmetic \<Rightarrow> 'f archives \<Rightarrow> nat \<Rightarrow> nat \<Rightarrow> nat \<Rightarrow> nat \<Rightarrow> 'f caches \<Rightarrow> 'f caches failure + (mat \<times> 'f caches)" where
  "computeMultiRoundProbabilityMatrix fp ar m n t r st =
     bind_ok (memcache_check (m, n, t, r) st) (\<lambda>(there, st1).
     if there then memcache_fetch (m, n, t, r) st1
     else bind_ok (load_cache ar (m, n, t, r) st1) (\<lambda>loaded.
       case loaded of
         Some cached_mat \<Rightarrow> bind_ok (memcache_write (m, n, t, r) cached_mat st1) (\<lambda>st2. Inr (cached_mat, st2))
       | None \<Rightarrow>
           bind_ok (multi_round_matrix fp m n t r) (\<lambda>mr_m2d_matlab.
           bind_ok (memcache_write (m, n, t, r) mr_m2d_matlab st1) (\<lambda>st2.
           Inr (mr_m2d_matlab, save_cache ar (m, n, t, r) mr_m2d_matlab st2)))))"

definition failureProbabilityUB ::
    "arithmetic \<Rightarrow> 'f archives \<Rightarrow> nat \<Rightarrow> rat \<Rightarrow> nat \<Rightarrow> nat \<Rightarrow> nat \<Rightarrow> nat \<Rightarrow> 'f caches \<Rightarrow> 'f caches failure + (number \<times> 'f caches)" where
  "failureProbabilityUB fp ar d delta n r t c st =
     (let m = min MAX_BALLS (size_minus n 1)
      in bind_ok (computeMultiRoundProbabilityMatrix fp ar m n t r st) (\<lambda>(mr_md, st1).
         bind_ok (failure_bound fp mr_md d delta m r t c) (\<lambda>p. Inr (p, st1))))"

section \<open>The caches are transparent\<close>

text \<open>The matrix of a key, without any cache.\<close>

definition matrix_of :: "arithmetic \<Rightarrow> cache_key \<Rightarrow> mat option" where
  "matrix_of fp key = (case key of (m, n, t, r) \<Rightarrow>
     (case multi_round_matrix fp m n t r of Inl (e :: unit failure) \<Rightarrow> None | Inr M \<Rightarrow> Some M))"

text \<open>Whatever is cached, in memory or in a file, is the matrix of its key.\<close>

definition caches_ok :: "arithmetic \<Rightarrow> 'f archives \<Rightarrow> 'f caches \<Rightarrow> bool" where
  "caches_ok fp ar st \<longleftrightarrow>
     stands_for lru_good lru_keys max_cache (memcache st) (lru_keys (cache_pol (memcache st)), map_of (storage (memcache st))) \<and>
     (\<forall>key M. map_of (storage (memcache st)) key = Some M \<longrightarrow> matrix_of fp key = Some M) \<and>
     (\<forall>key content. disk st (get_cache_filename key) = Some content \<longrightarrow> matrix_of fp key = unarchive ar content \<and> unarchive ar content \<noteq> None)"

lemma caches_ok_empty: "caches_ok fp ar \<lparr>memcache = get_memcache, disk = (\<lambda>_. None)\<rparr>"
  by (simp add: caches_ok_def stands_for_def get_memcache_def new_cache_def max_cache_def lru_new_good)
    (simp add: lru_keys_def new_lru_def)

subsection \<open>File names\<close>

definition numeral_of :: "string \<Rightarrow> nat" where
  "numeral_of s = foldl (\<lambda>v c. 10 * v + (of_char c - 48)) 0 s"

lemma decimal_chars: "c \<in> set (decimal n) \<Longrightarrow> \<exists>d<10. c = char_of (48 + d :: nat)"
proof (induction n rule: decimal.induct)
  case (1 n)
  show ?case
  proof (cases "n < 10")
    case True
    with "1.prems" show ?thesis by (subst (asm) decimal.simps) auto
  next
    case False
    with "1.prems" consider "c \<in> set (decimal (n div 10))" | "c = char_of (48 + n mod 10)"
      by (subst (asm) decimal.simps) auto
    then show ?thesis
    proof cases
      case 1
      with "1.IH" False show ?thesis by blast
    next
      case 2
      then show ?thesis by (intro exI [of _ "n mod 10"]) simp
    qed
  qed
qed

lemma decimal_no_underscore: "CHR ''_'' \<notin> set (decimal n)" "CHR ''.'' \<notin> set (decimal n)"
proof -
  have "(of_char c :: nat) < 58 \<and> 48 \<le> (of_char c :: nat)" if c: "c \<in> set (decimal n)" for c
  proof -
    obtain d where "d < 10" "c = char_of (48 + d :: nat)" using decimal_chars [OF c] by blast
    then show ?thesis by simp
  qed
  from this [of "CHR ''_''"] this [of "CHR ''.''"] show "CHR ''_'' \<notin> set (decimal n)" "CHR ''.'' \<notin> set (decimal n)" by auto
qed

lemma numeral_decimal: "numeral_of (decimal n) = n"
proof (induction n rule: decimal.induct)
  case (1 n)
  show ?case
  proof (cases "n < 10")
    case True
    then show ?thesis by (subst decimal.simps) (simp add: numeral_of_def)
  next
    case False
    then have "numeral_of (decimal n) = 10 * numeral_of (decimal (n div 10)) + n mod 10"
      by (subst decimal.simps) (simp add: numeral_of_def)
    with False "1.IH" show ?thesis by simp
  qed
qed

lemma decimal_eq: "decimal a = decimal b \<longleftrightarrow> a = b"
  by (metis numeral_decimal)

lemma split_at_sep:
  assumes "c \<notin> set as" "c \<notin> set bs"
  shows "as @ c # xs = bs @ c # ys \<longleftrightarrow> as = bs \<and> xs = ys"
  using assms
proof (induction as arbitrary: bs)
  case Nil
  then show ?case by (cases bs) auto
next
  case (Cons a as)
  then show ?case by (cases bs) auto
qed

lemma cache_filename_inject: "get_cache_filename key = get_cache_filename key' \<longleftrightarrow> key = key'"
proof -
  obtain a b c d where key: "key = (a, b, c, d)" by (cases key)
  obtain a' b' c' d' where key': "key' = (a', b', c', d')" by (cases key')
  note sep = split_at_sep [OF decimal_no_underscore(1) decimal_no_underscore(1)]
    split_at_sep [OF decimal_no_underscore(2) decimal_no_underscore(2)]
  have "get_cache_filename (a, b, c, d) = get_cache_filename (a', b', c', d') \<longleftrightarrow> a = a' \<and> b = b' \<and> c = c' \<and> d = d'"
    by (simp add: get_cache_filename_def sep decimal_eq)
  then show ?thesis by (simp add: key key')
qed

subsection \<open>Lookups\<close>

lemma memcache_check_ok:
  assumes "caches_ok fp ar st"
  shows "\<exists>st'. memcache_check key st = Inr (map_of (storage (memcache st)) key \<noteq> None, st') \<and> caches_ok fp ar st' \<and>
    map_of (storage (memcache st')) = map_of (storage (memcache st)) \<and> disk st' = disk st"
proof -
  have "stands_for lru_good lru_keys max_cache (memcache st) (lru_keys (cache_pol (memcache st)), map_of (storage (memcache st)))"
    using assms by (simp add: caches_ok_def)
  from lru.check_rel [OF this, of key] obtain c ks where
    c: "cache_check policy_lru key (memcache st) = Inr (map_of (storage (memcache st)) key \<noteq> None, c)"
      "stands_for lru_good lru_keys max_cache c (ks, map_of (storage (memcache st)))" by blast
  then have same: "ks = lru_keys (cache_pol c)" "map_of (storage c) = map_of (storage (memcache st))" by (simp_all add: stands_for_def)
  have "caches_ok fp ar (st\<lparr>memcache := c\<rparr>)" using assms c(2) unfolding caches_ok_def by (simp add: same)
  then show ?thesis using c(1) same(2) by (simp add: memcache_check_def)
qed

lemma memcache_fetch_ok:
  assumes "caches_ok fp ar st" "map_of (storage (memcache st)) key = Some M"
  shows "\<exists>st'. memcache_fetch key st = Inr (M, st') \<and> caches_ok fp ar st'"
proof -
  have "stands_for lru_good lru_keys max_cache (memcache st) (lru_keys (cache_pol (memcache st)), map_of (storage (memcache st)))"
    using assms by (simp add: caches_ok_def)
  from lru.fetch_rel [OF this, of key] assms(2) obtain c ks where
    c: "cache_fetch policy_lru key (memcache st) = Inr (M, c)"
      "stands_for lru_good lru_keys max_cache c (ks, map_of (storage (memcache st)))" by auto
  then have same: "ks = lru_keys (cache_pol c)" "map_of (storage c) = map_of (storage (memcache st))" by (simp_all add: stands_for_def)
  have "caches_ok fp ar (st\<lparr>memcache := c\<rparr>)" using assms(1) c(2) unfolding caches_ok_def by (simp add: same)
  then show ?thesis using c(1) by (simp add: memcache_fetch_def)
qed

lemma memcache_write_ok:
  assumes "caches_ok fp ar st" "map_of (storage (memcache st)) key = None" "matrix_of fp key = Some M"
  shows "\<exists>st'. memcache_write key M st = Inr st' \<and> caches_ok fp ar st' \<and> disk st' = disk st"
proof -
  let ?m = "map_of (storage (memcache st))" and ?ks = "lru_keys (cache_pol (memcache st))"
  have r: "stands_for lru_good lru_keys max_cache (memcache st) (?ks, ?m)" using assms by (simp add: caches_ok_def)
  have "0 < max_cache" by (simp add: max_cache_def)
  from lru.insert_rel [OF r this assms(2)] obtain c where
    c: "cache_insert policy_lru key M (memcache st) = Inr (True, c)"
      "stands_for lru_good lru_keys max_cache c
        (key # fst (spec_evict max_cache List.last (?ks, ?m)), (snd (spec_evict max_cache List.last (?ks, ?m)))(key \<mapsto> M))" by blast
  have less: "snd (spec_evict max_cache List.last (?ks, ?m)) k = Some N \<Longrightarrow> ?m k = Some N" for k N
    by (auto simp: spec_evict_def split: if_splits)
  have same: "lru_keys (cache_pol c) = key # fst (spec_evict max_cache List.last (?ks, ?m))"
    "map_of (storage c) = (snd (spec_evict max_cache List.last (?ks, ?m)))(key \<mapsto> M)" using c(2) by (simp_all add: stands_for_def)
  have "caches_ok fp ar (st\<lparr>memcache := c\<rparr>)"
    using assms c(2) less unfolding caches_ok_def by (auto simp: same split: if_splits)
  then show ?thesis using c(1) by (simp add: memcache_write_def)
qed

lemma save_cache_ok:
  assumes "caches_ok fp ar st" "matrix_of fp key = Some M" "unarchive ar (archive ar M) = Some M"
  shows "caches_ok fp ar (save_cache ar key M st)"
  using assms by (auto simp: caches_ok_def save_cache_def cache_filename_inject)

text \<open>The matrices do not depend on the state that a failure would carry.\<close>

lemma fail_map_bind: "fail_map h (bind_ok r f) = bind_ok (fail_map h r) (\<lambda>x. fail_map h (f x))"
  by (cases r) (auto simp: fail_map_def split: failure.splits)

lemma fail_map_fold: "fail_map h (fold_ok f xs s) = fold_ok (\<lambda>x s. fail_map h (f x s)) xs s"
  by (induction xs arbitrary: s) (simp_all add: fail_map_bind)

lemma fail_map_leaf:
  "fail_map h (mat_at M i j) = mat_at M i j" "fail_map h (mat_put M i j v) = mat_put M i j v"
  "fail_map h (mat_block M i j a b) = mat_block M i j a b" "fail_map h (mat_put_block M i j B) = mat_put_block M i j B"
  "fail_map h (vec_get xs i) = vec_get xs i" "fail_map h (vec_set xs i x) = vec_set xs i x"
  by (simp_all add: mat_at_def mat_put_def mat_block_def mat_put_block_def vec_get_def vec_set_def)

lemmas fail_map_push = fail_map_bind fail_map_fold fail_map_leaf

lemma multi_round_any: "fail_map h (multi_round_matrix fp m n t r) = multi_round_matrix fp m n t r"
proof -
  have cell: "fail_map h (next_probability fp m n prev a b) = next_probability fp m n prev a b" for prev a b
    by (simp add: next_probability_def Let_def fail_map_push)
  have put: "fail_map h (put_in x i j v m3d) = put_in x i j v m3d" for x i j v m3d
    by (simp add: put_in_def fail_map_push)
  have "fail_map h (computeProbabilityMatrix3D fp m n) = computeProbabilityMatrix3D fp m n"
    by (simp add: computeProbabilityMatrix3D_def fail_map_push cell put)
  then have "fail_map h (computeTransitionProbabilityMatrix fp m n t) = computeTransitionProbabilityMatrix fp m n t"
    by (simp add: computeTransitionProbabilityMatrix_def fail_map_push)
  moreover have "fail_map h (multi_rounds fp m r T) = multi_rounds fp m r T" for T
    by (simp add: multi_rounds_def fail_map_push case_prod_unfold)
  ultimately show ?thesis by (simp add: multi_round_matrix_def fail_map_push)
qed

lemma matrix_of_Inr:
  assumes "matrix_of fp (m, n, t, r) = Some M"
  shows "multi_round_matrix fp m n t r = (Inr M :: 's failure + mat)"
proof -
  have "multi_round_matrix fp m n t r = (Inr M :: unit failure + mat)"
    using assms by (auto simp: matrix_of_def split: sum.splits)
  then have "fail_map h (multi_round_matrix fp m n t r :: unit failure + mat) = Inr M" for h :: "unit \<Rightarrow> 's" by simp
  from this [unfolded multi_round_any] show ?thesis .
qed

lemma cached_matrix_ok:
  fixes st :: "'f caches"
  assumes ok: "caches_ok fp ar st" and M: "matrix_of fp (m, n, t, r) = Some M" and ar: "unarchive ar (archive ar M) = Some M"
  shows "\<exists>st'. computeMultiRoundProbabilityMatrix fp ar m n t r st = Inr (M, st') \<and> caches_ok fp ar st'"
proof -
  let ?key = "(m, n, t, r)"
  obtain st1 where st1: "memcache_check ?key st = Inr (map_of (storage (memcache st)) ?key \<noteq> None, st1)" "caches_ok fp ar st1"
    "map_of (storage (memcache st1)) = map_of (storage (memcache st))" "disk st1 = disk st"
    using memcache_check_ok [OF ok] by blast
  show ?thesis
  proof (cases "map_of (storage (memcache st)) ?key")
    case (Some N)
    then have "N = M" using ok M by (auto simp: caches_ok_def)
    with Some obtain st2 where "memcache_fetch ?key st1 = Inr (M, st2)" "caches_ok fp ar st2"
      using memcache_fetch_ok [OF st1(2), of ?key M] st1(3) by auto
    then show ?thesis using st1(1) Some by (simp add: computeMultiRoundProbabilityMatrix_def)
  next
    case None
    then obtain st2 where st2: "memcache_write ?key M st1 = Inr st2" "caches_ok fp ar st2" "disk st2 = disk st1"
      using memcache_write_ok [OF st1(2) _ M] st1(3) by auto
    show ?thesis
    proof (cases "disk st1 (get_cache_filename ?key)")
      case (Some content)
      then have "unarchive ar content = Some M" using st1(2) M by (auto simp: caches_ok_def)
      then show ?thesis using st1(1) None Some st2(1,2) by (simp add: computeMultiRoundProbabilityMatrix_def load_cache_def)
    next
      case disk: None
      then show ?thesis using st1(1) None st2(1) save_cache_ok [OF st2(2) M ar] matrix_of_Inr [OF M, where 's = "'f caches"]
        by (simp add: computeMultiRoundProbabilityMatrix_def load_cache_def)
    qed
  qed
qed

end
