(* ===== verification/Params_Search.thy ===== *)
theory Params_Search
  imports Matrix_Cache
begin

text \<open>
  \<open>src/pbs_params.h\<close>: the search for the code \<open>BCH(2 ^ m - 1, t)\<close> with the least cost that reaches a success
  probability, with its cache of results and the text files of that cache. Printing and reading a \<open>double\<close> are
  parameters; so are the values of the variables that a failed read leaves uninitialised.
\<close>

section \<open>State\<close>

type_synonym search_result = "nat \<times> nat \<times> number"     \<comment> \<open>\<open>m\<close>, \<open>t\<close> and the probability of failure\<close>
type_synonym direct_cache = "(nat, search_result) ordered_hash"

record 'f search_env =
  env_fp :: arithmetic
  env_archives :: "'f archives"
  print_number :: "number \<Rightarrow> string"
  scan_number :: "string \<Rightarrow> number option \<times> string"
  unread :: "nat \<times> search_result"

record 'f search_state =
  matrix_caches :: "'f caches"
  getDirectCache :: direct_cache
  csv_files :: "string \<Rightarrow> string option"

definition hash_size :: "nat \<Rightarrow> u64" where
  "hash_size d = of_nat d"

definition in_direct :: "'f search_state \<Rightarrow> direct_cache failure + 'a \<Rightarrow> 'f search_state failure + 'a" where
  "in_direct st = fail_map (\<lambda>t. st\<lparr>getDirectCache := t\<rparr>)"

section \<open>The files\<close>

definition double_epsilon :: rat where "double_epsilon = 1 / 2 ^ 52"
definition ONE_IN_240 :: rat where "ONE_IN_240 = to_double (1 / 240)"

definition getCachedFilename :: "arithmetic \<Rightarrow> rat \<Rightarrow> 's \<Rightarrow> 's failure + string" where
  "getCachedFilename fp targetProb s =
     (if \<bar>rounded fp (targetProb - to_double (99 / 100))\<bar> < double_epsilon
      then Inr (DEFAULT_CACHE_DIR @ ''best_bch_parameters_99.csv'')
      else if \<bar>rounded fp (targetProb - ONE_IN_240)\<bar> < double_epsilon
      then Inr (DEFAULT_CACHE_DIR @ ''best_bch_parameters_9958.csv'')
      else Inl (Throws RuntimeError s))"

definition new_line :: string where "new_line = [CHR 0x0A]"

definition csv_line :: "'f search_env \<Rightarrow> nat \<times> search_result \<Rightarrow> string" where
  "csv_line env = (\<lambda>(d, m, t, p). decimal d @ '' '' @ decimal m @ '' '' @ decimal t @ '' '' @ print_number env p @ new_line)"

definition save2CachedFile :: "'f search_env \<Rightarrow> rat \<Rightarrow> 'f search_state \<Rightarrow> 'f search_state failure + 'f search_state" where
  "save2CachedFile env targetProb st =
     bind_ok (getCachedFilename (env_fp env) targetProb st) (\<lambda>fn.
     Inr (st\<lparr>csv_files := (csv_files st)(fn \<mapsto> concat (map (csv_line env) (m_values (getDirectCache st))))\<rparr>))"

text \<open>An \<open>std::ifstream\<close>; extraction from a stream that is not good fails and leaves the variable alone.\<close>

record input_stream =
  left :: string
  at_eof :: bool
  failed :: bool

definition is_space :: "char \<Rightarrow> bool" where
  "is_space c \<longleftrightarrow> c \<in> {CHR '' '', CHR 0x09, CHR 0x0A, CHR 0x0B, CHR 0x0C, CHR 0x0D}"

definition sentry :: "input_stream \<Rightarrow> input_stream" where
  "sentry s =
     (if failed s \<or> at_eof s then s\<lparr>failed := True\<rparr>
      else let r = dropWhile is_space (left s)
           in if r = [] then \<lparr>left = [], at_eof = True, failed = True\<rparr> else s\<lparr>left := r\<rparr>)"

definition is_digit :: "char \<Rightarrow> bool" where
  "is_digit c \<longleftrightarrow> 48 \<le> (of_char c :: nat) \<and> (of_char c :: nat) \<le> 57"

definition extract_size :: "nat \<Rightarrow> input_stream \<Rightarrow> nat \<times> input_stream" where
  "extract_size old s =
     (let s1 = sentry s
      in if failed s1 then (old, s1)
         else let minus = (hd (left s1) = CHR ''-''); r = (if minus \<or> hd (left s1) = CHR ''+'' then tl (left s1) else left s1);
                  ds = takeWhile is_digit r; r' = dropWhile is_digit r; n = numeral_of ds
              in if ds = [] then (0, \<lparr>left = r', at_eof = (r' = []), failed = True\<rparr>)
                 else if 2 ^ 64 \<le> n then (2 ^ 64 - 1, \<lparr>left = r', at_eof = (r' = []), failed = True\<rparr>)
                 else (if minus then size_minus 0 n else n, \<lparr>left = r', at_eof = (r' = []), failed = False\<rparr>))"

definition extract_double :: "'f search_env \<Rightarrow> number \<Rightarrow> input_stream \<Rightarrow> number \<times> input_stream" where
  "extract_double env old s =
     (let s1 = sentry s
      in if failed s1 then (old, s1)
         else case scan_number env (left s1) of
                (None, r) \<Rightarrow> (Some 0, \<lparr>left = r, at_eof = (r = []), failed = True\<rparr>)
              | (Some p, r) \<Rightarrow> (p, \<lparr>left = r, at_eof = (r = []), failed = False\<rparr>))"

definition read_entry :: "'f search_env \<Rightarrow> input_stream \<Rightarrow> (nat \<times> search_result) \<times> input_stream" where
  "read_entry env s =
     (case unread env of (d0, m0, t0, p0) \<Rightarrow>
        let (d, s1) = extract_size d0 s; (m, s2) = extract_size m0 s1; (t, s3) = extract_size t0 s2; (p, s4) = extract_double env p0 s3
        in ((d, m, t, p), s4))"

partial_function (option) load_loop ::
    "'f search_env \<Rightarrow> input_stream \<Rightarrow> direct_cache \<Rightarrow> (direct_cache failure + direct_cache) option" where
  [code]: "load_loop env s t =
     (if at_eof s then Some (Inr t)
      else let (e, s') = read_entry env s
           in case oh_insert hash_size (fst e) (snd e) t of
                Inl f \<Rightarrow> Some (Inl f)
              | Inr (b, t') \<Rightarrow> load_loop env s' t')"

definition loadFromCachedFile :: "'f search_env \<Rightarrow> rat \<Rightarrow> 'f search_state \<Rightarrow> 'f search_state failure + 'f search_state" where
  "loadFromCachedFile env targetProb st =
     bind_ok (getCachedFilename (env_fp env) targetProb st) (\<lambda>fn.
     case csv_files st fn of
       None \<Rightarrow> Inr st
     | Some content \<Rightarrow>
         bind_ok (in_direct st (returns (load_loop env \<lparr>left = content, at_eof = False, failed = False\<rparr> (getDirectCache st)))) (\<lambda>t.
         Inr (st\<lparr>getDirectCache := t\<rparr>)))"

section \<open>The search\<close>

definition M_MIN :: nat where "M_MIN = 6"
definition M_MAX :: nat where "M_MAX = 14"
definition double_max :: rat where "double_max = 2 ^ 1024 - 2 ^ 971"

definition least_of :: "rat \<Rightarrow> number \<Rightarrow> bool" where
  "least_of target p \<longleftrightarrow> (case p of None \<Rightarrow> False | Some q \<Rightarrow> target \<le> q)"

text \<open>\<open>1 - failureProbabilityUB(d, delta, j, r, t, c)\<close>.\<close>

definition success ::
    "'f search_env \<Rightarrow> nat \<Rightarrow> rat \<Rightarrow> nat \<Rightarrow> nat \<Rightarrow> nat \<Rightarrow> nat \<Rightarrow> 'f search_state \<Rightarrow> 'f search_state failure + (number \<times> 'f search_state)" where
  "success env d delta r c j t st =
     bind_ok (fail_map (\<lambda>cs. st\<lparr>matrix_caches := cs\<rparr>)
       (failureProbabilityUB (env_fp env) (env_archives env) d delta j r t c (matrix_caches st))) (\<lambda>(p, cs).
     Inr (map_option (\<lambda>q. rounded (env_fp env) (1 - q)) p, st\<lparr>matrix_caches := cs\<rparr>))"

text \<open>The binary search for the capacity.\<close>

partial_function (option) halve ::
    "(nat \<Rightarrow> 's \<Rightarrow> 's failure + (number \<times> 's)) \<Rightarrow> rat \<Rightarrow> nat \<Rightarrow> nat \<Rightarrow> 's \<Rightarrow> ('s failure + (nat \<times> nat \<times> 's)) option" where
  [code]: "halve prob targetProb t_min t_max st =
     (if \<not> 1 < size_minus t_max t_min then Some (Inr (t_min, t_max, st))
      else let t_mid = (t_min + size_minus t_max t_min div 2) mod 2 ^ 64
           in case prob t_mid st of
                Inl e \<Rightarrow> Some (Inl e)
              | Inr (p, st') \<Rightarrow>
                  if least_of targetProb p then halve prob targetProb t_min t_mid st'
                  else halve prob targetProb t_mid t_max st')"

record candidate =
  best_cost :: rat
  best_m :: nat
  best_t :: nat
  failure_prob_ub :: number

definition offer :: "'f search_env \<Rightarrow> nat \<Rightarrow> nat \<Rightarrow> number \<Rightarrow> candidate \<Rightarrow> candidate" where
  "offer env i t p best =
     (let cost = rounded (env_fp env) (rounded (env_fp env) (of_nat t) * rounded (env_fp env) (of_nat i))
      in if cost < best_cost best
         then \<lparr>best_cost = cost, best_m = i, best_t = t, failure_prob_ub = map_option (\<lambda>q. rounded (env_fp env) (1 - q)) p\<rparr>
         else best)"

definition try_m ::
    "'f search_env \<Rightarrow> nat \<Rightarrow> rat \<Rightarrow> nat \<Rightarrow> nat \<Rightarrow> rat \<Rightarrow> nat \<Rightarrow> candidate \<times> 'f search_state \<Rightarrow>
     'f search_state failure + (candidate \<times> 'f search_state)" where
  "try_m env d delta r c targetProb i = (\<lambda>(best, st).
     bind_ok (cast_u64 (Finite (of_int \<lceil>rounded (env_fp env) (5 * delta)\<rceil>))) (\<lambda>balls.
     let t_min = i; t_max = min MAX_BALLS (min (size_minus (2 ^ i) 2) (unat balls)); j = 2 ^ i - 1; prob = success env d delta r c j
     in bind_ok (prob t_min st) (\<lambda>(p_min, st1).
        bind_ok (prob t_max st1) (\<lambda>(p_max, st2).
        if least_of targetProb p_min then Inr (offer env i t_min p_min best, st2)
        else if least_of targetProb p_max then
          bind_ok (returns (halve prob targetProb t_min t_max st2)) (\<lambda>(t_min, t_max, st3).
          bind_ok (prob t_min st3) (\<lambda>(p, st4).
          if least_of targetProb p then Inr (offer env i t_min p best, st4)
          else bind_ok (prob t_max st4) (\<lambda>(p, st5). Inr (offer env i t_max p best, st5))))
        else Inr (best, st2)))))"

definition bestBchParam ::
    "'f search_env \<Rightarrow> nat \<Rightarrow> rat \<Rightarrow> nat \<Rightarrow> nat \<Rightarrow> rat \<Rightarrow> 'f search_state \<Rightarrow>
     'f search_state failure + (number \<times> (nat \<times> nat) \<times> 'f search_state)" where
  "bestBchParam env d delta r c targetProb st =
     bind_ok (loadFromCachedFile env targetProb st) (\<lambda>st1.
     bind_ok (in_direct st1 (oh_contains hash_size d (getDirectCache st1))) (\<lambda>there.
     if there then
       bind_ok (oh_at hash_size st1 d (getDirectCache st1)) (\<lambda>(m, t, p). Inr (p, (m, t), st1))
     else
       bind_ok (fold_ok (try_m env d delta r c targetProb) [M_MIN..<M_MAX + 1]
           (\<lparr>best_cost = double_max, best_m = 1, best_t = 1, failure_prob_ub = Some (-1)\<rparr>, st1)) (\<lambda>(best, st2).
       bind_ok (in_direct st2 (oh_insert hash_size d (best_m best, best_t best, failure_prob_ub best) (getDirectCache st2))) (\<lambda>(b, direct).
       bind_ok (save2CachedFile env targetProb (st2\<lparr>getDirectCache := direct\<rparr>)) (\<lambda>st3.
       Inr (failure_prob_ub best, (best_m best, best_t best), st3))))))"

end
