(* ===== verification/Occupancy.thy ===== *)
theory Occupancy
  imports Pbs_Prelude
begin

text \<open>
  Balls thrown into bins: a throw of \<open>x\<close> balls is the list of the bins they fall into. How many throws leave a
  given number of bins empty and a given number with a single ball, ball by ball.
\<close>

definition throws :: "nat \<Rightarrow> nat \<Rightarrow> nat list set" where
  "throws n x = {ys. length ys = x \<and> set ys \<subseteq> {..<n}}"

definition empty_bins :: "nat \<Rightarrow> nat list \<Rightarrow> nat set" where
  "empty_bins n ys = {i. i < n \<and> count_list ys i = 0}"

definition single_bins :: "nat \<Rightarrow> nat list \<Rightarrow> nat set" where
  "single_bins n ys = {i. i < n \<and> count_list ys i = 1}"

definition occupied :: "nat \<Rightarrow> nat \<Rightarrow> nat \<Rightarrow> nat \<Rightarrow> nat" where
  "occupied n x a s = card {ys \<in> throws n x. card (empty_bins n ys) = a \<and> card (single_bins n ys) = s}"

lemma finite_throws [simp]: "finite (throws n x)"
proof -
  have "throws n x = {ys. set ys \<subseteq> {..<n} \<and> length ys = x}" by (auto simp: throws_def)
  then show ?thesis by (simp add: finite_lists_length_eq)
qed

lemma card_throws: "card (throws n x) = n ^ x"
proof -
  have "throws n x = {ys. set ys \<subseteq> {..<n} \<and> length ys = x}" by (auto simp: throws_def)
  then show ?thesis by (simp add: card_lists_length_eq)
qed

lemma throws_0: "throws n 0 = {[]}"
  by (auto simp: throws_def)

lemma throws_Suc: "throws n (Suc x) = (\<lambda>(ys, y). y # ys) ` (throws n x \<times> {..<n})"
  by (auto simp: throws_def length_Suc_conv image_iff)

lemma finite_bins [simp]: "finite (empty_bins n ys)" "finite (single_bins n ys)"
  by (simp_all add: empty_bins_def single_bins_def)

lemma disjoint_bins: "empty_bins n ys \<inter> single_bins n ys = {}"
  by (auto simp: empty_bins_def single_bins_def)

section \<open>The bounds of the counts\<close>

lemma count_list_pos: "0 < count_list ys i \<longleftrightarrow> i \<in> set ys"
  by (simp add: zero_less_iff_neq_zero count_list_0_iff)

lemma empty_bins_lower:
  assumes "ys \<in> throws n x"
  shows "n - x \<le> card (empty_bins n ys)"
proof -
  have "empty_bins n ys = {..<n} - set ys" by (auto simp: empty_bins_def count_list_0_iff)
  moreover have "set ys \<subseteq> {..<n}" "length ys = x" using assms by (simp_all add: throws_def)
  ultimately show ?thesis using card_length [of ys] by (simp add: card_Diff_subset)
qed

lemma bins_upper: "card (empty_bins n ys) + card (single_bins n ys) \<le> n"
proof -
  have "card (empty_bins n ys \<union> single_bins n ys) \<le> card {..<n}"
    by (rule card_mono) (auto simp: empty_bins_def single_bins_def)
  then show ?thesis using disjoint_bins by (simp add: card_Un_disjoint)
qed

lemma single_bins_upper:
  assumes "ys \<in> throws n x"
  shows "card (single_bins n ys) \<le> x"
proof -
  have "i \<in> set ys" if "i \<in> single_bins n ys" for i
    using that count_list_pos [of ys i] by (simp add: single_bins_def)
  then have "card (single_bins n ys) \<le> card (set ys)" by (intro card_mono) auto
  then show ?thesis using assms card_length [of ys] by (simp add: throws_def)
qed

lemma occupied_bounds:
  assumes "occupied n x a s \<noteq> 0"
  shows "n - x \<le> a" "s \<le> x" "a + s \<le> n"
proof -
  have "{ys \<in> throws n x. card (empty_bins n ys) = a \<and> card (single_bins n ys) = s} \<noteq> {}"
    using assms unfolding occupied_def by (metis card.empty)
  then obtain ys where ys: "ys \<in> throws n x" "card (empty_bins n ys) = a" "card (single_bins n ys) = s" by blast
  show "n - x \<le> a" using empty_bins_lower [OF ys(1)] ys(2) by simp
  show "s \<le> x" using single_bins_upper [OF ys(1)] ys(3) by simp
  show "a + s \<le> n" using bins_upper [of n ys] ys(2,3) by simp
qed

section \<open>One more ball\<close>

lemma empty_bins_Cons: "empty_bins n (y # ys) = empty_bins n ys - {y}"
  by (auto simp: empty_bins_def)

lemma single_bins_Cons:
  assumes "y < n"
  shows "single_bins n (y # ys) =
    (if y \<in> empty_bins n ys then insert y (single_bins n ys) else single_bins n ys - {y})"
  using assms by (auto simp: single_bins_def empty_bins_def)

text \<open>The bins into which one more ball leads to the counts wanted.\<close>

lemma bins_for_next:
  fixes n :: nat and ys :: "nat list"
  defines "E \<equiv> empty_bins n ys" and "S \<equiv> single_bins n ys"
  shows "card {y. y < n \<and> card (empty_bins n (y # ys)) = a \<and> card (single_bins n (y # ys)) = s} =
    (if card E = a + 1 \<and> Suc (card S) = s then a + 1 else 0) + (if card E = a \<and> card S = s + 1 then s + 1 else 0) +
    (if card E = a \<and> card S = s then n - a - s else 0)"
proof -
  let ?R = "{..<n} - (E \<union> S)"
  have fin: "finite E" "finite S" and disj: "E \<inter> S = {}" and sub: "E \<subseteq> {..<n}" "S \<subseteq> {..<n}"
    using disjoint_bins by (auto simp: E_def S_def) (auto simp: empty_bins_def single_bins_def)
  have step: "card (empty_bins n (y # ys)) = (if y \<in> E then card E - 1 else card E)"
    "card (single_bins n (y # ys)) = (if y \<in> E then Suc (card S) else if y \<in> S then card S - 1 else card S)" if "y < n" for y
    using that disj fin unfolding empty_bins_Cons single_bins_Cons [OF that] E_def S_def
    by (auto simp: card_insert_if)
  have pos: "0 < card E" if "y \<in> E" for y using that fin(1) card_gt_0_iff by blast
  have posS: "0 < card S" if "y \<in> S" for y using that fin(2) card_gt_0_iff by blast
  have "{y. y < n \<and> card (empty_bins n (y # ys)) = a \<and> card (single_bins n (y # ys)) = s} =
      {y \<in> E. card E = a + 1 \<and> Suc (card S) = s} \<union> {y \<in> S. card E = a \<and> card S = s + 1} \<union> {y \<in> ?R. card E = a \<and> card S = s}"
    (is "?L = ?RHS")
  proof (rule set_eqI)
    fix y
    consider "y \<in> E" | "y \<in> S" "y \<notin> E" | "y \<in> ?R" | "\<not> y < n" by auto
    then show "y \<in> ?L \<longleftrightarrow> y \<in> ?RHS"
    proof cases
      case 1
      then have "y < n" "y \<notin> S" using sub disj by auto
      with 1 step [of y] pos [of y] show ?thesis by auto
    next
      case 2
      then have "y < n" using sub by auto
      with 2 step [of y] posS [of y] show ?thesis by auto
    next
      case 3
      with step [of y] show ?thesis by auto
    next
      case 4
      with sub have "y \<notin> E" "y \<notin> S" by auto
      with 4 show ?thesis by auto
    qed
  qed
  moreover have "card ({y \<in> E. P} \<union> {y \<in> S. Q} \<union> {y \<in> ?R. U}) =
      (if P then card E else 0) + (if Q then card S else 0) + (if U then n - (card E + card S) else 0)" for P Q U
  proof -
    have "card ?R = n - (card E + card S)"
      using fin disj sub by (subst card_Diff_subset) (auto simp: card_Un_disjoint)
    moreover have "card ({y \<in> E. P} \<union> {y \<in> S. Q} \<union> {y \<in> ?R. U}) = card {y \<in> E. P} + card {y \<in> S. Q} + card {y \<in> ?R. U}"
      using fin disj by (subst card_Un_disjoint; (subst card_Un_disjoint)?) auto
    moreover have "{y \<in> ?R. U} = (if U then ?R else {})" by auto
    ultimately show ?thesis by (simp del: Diff_iff)
  qed
  ultimately show ?thesis by auto
qed

lemma occupied_Suc:
  "occupied n (Suc x) a s =
     (if s = 0 then 0 else (a + 1) * occupied n x (a + 1) (s - 1)) + (s + 1) * occupied n x a (s + 1) + (n - a - s) * occupied n x a s"
proof -
  let ?next = "\<lambda>ys. {y. y < n \<and> card (empty_bins n (y # ys)) = a \<and> card (single_bins n (y # ys)) = s}"
  let ?is = "\<lambda>e u ys. card (empty_bins n ys) = e \<and> card (single_bins n ys) = u"
  have "{ys \<in> throws n (Suc x). ?is a s ys} = (\<lambda>(ys, y). y # ys) ` (SIGMA ys:throws n x. ?next ys)"
    by (auto simp: throws_Suc)
  then have "occupied n (Suc x) a s = card (SIGMA ys:throws n x. ?next ys)"
    unfolding occupied_def by (simp add: card_image inj_on_def)
  also have "\<dots> = (\<Sum>ys\<in>throws n x. card (?next ys))" by (rule card_SigmaI) simp_all
  also have "\<dots> = (\<Sum>ys\<in>throws n x. (if s \<noteq> 0 \<and> ?is (a + 1) (s - 1) ys then a + 1 else 0) +
      (if ?is a (s + 1) ys then s + 1 else 0) + (if ?is a s ys then n - a - s else 0))"
    by (rule sum.cong) (auto simp: bins_for_next)
  also have "\<dots> = (\<Sum>ys\<in>throws n x. if s \<noteq> 0 \<and> ?is (a + 1) (s - 1) ys then a + 1 else 0) +
      (\<Sum>ys\<in>throws n x. if ?is a (s + 1) ys then s + 1 else 0) + (\<Sum>ys\<in>throws n x. if ?is a s ys then n - a - s else 0)"
    by (simp only: sum.distrib)
  also have "\<dots> = (if s = 0 then 0 else (a + 1) * occupied n x (a + 1) (s - 1)) + (s + 1) * occupied n x a (s + 1) +
      (n - a - s) * occupied n x a s"
    by (simp add: occupied_def sum.If_cases Int_def mult.commute)
  finally show ?thesis .
qed

lemma occupied_one: "0 < n \<Longrightarrow> occupied n (Suc 0) a s = (if a = n - 1 \<and> s = 1 then n else 0)"
proof -
  have "empty_bins n [] = {..<n}" "single_bins n [] = {}" by (auto simp: empty_bins_def single_bins_def)
  then have "{ys \<in> throws n 0. card (empty_bins n ys) = a \<and> card (single_bins n ys) = s} = (if a = n \<and> s = 0 then {[]} else {})" for a s
    by (auto simp: throws_0)
  then have "occupied n 0 a s = (if a = n \<and> s = 0 then 1 else 0)" for a s by (simp add: occupied_def)
  then show "0 < n \<Longrightarrow> ?thesis" by (auto simp: occupied_Suc)
qed

text \<open>Every throw has some counts.\<close>

lemma occupied_total:
  assumes "x \<le> t" "t \<le> n"
  shows "(\<Sum>a = n - t..n. \<Sum>s\<le>x. occupied n x a s) = n ^ x"
proof -
  let ?at = "\<lambda>(a, s). {ys \<in> throws n x. card (empty_bins n ys) = a \<and> card (single_bins n ys) = s}"
  have "throws n x = (\<Union>p\<in>{n - t..n} \<times> {..x}. ?at p)"
  proof
    show "throws n x \<subseteq> (\<Union>p\<in>{n - t..n} \<times> {..x}. ?at p)"
    proof
      fix ys assume ys: "ys \<in> throws n x"
      have "n - t \<le> card (empty_bins n ys)" "card (empty_bins n ys) \<le> n" "card (single_bins n ys) \<le> x"
        using empty_bins_lower [OF ys] bins_upper [of n ys] single_bins_upper [OF ys] assms by linarith+
      with ys show "ys \<in> (\<Union>p\<in>{n - t..n} \<times> {..x}. ?at p)" by auto
    qed
  qed auto
  moreover have "card (\<Union>p\<in>{n - t..n} \<times> {..x}. ?at p) = (\<Sum>p\<in>{n - t..n} \<times> {..x}. card (?at p))"
    by (rule card_UN_disjoint) auto
  ultimately have "n ^ x = (\<Sum>(a, s)\<in>{n - t..n} \<times> {..x}. occupied n x a s)"
    by (simp add: card_throws flip: card_throws) (simp add: occupied_def case_prod_unfold)
  then show ?thesis by (simp add: sum.cartesian_product)
qed

lemma occupied_partial: "(\<Sum>a = n - t..n. \<Sum>s\<le>x. occupied n x a s) \<le> n ^ x"
proof -
  let ?at = "\<lambda>(a, s). {ys \<in> throws n x. card (empty_bins n ys) = a \<and> card (single_bins n ys) = s}"
  have "(\<Sum>p\<in>{n - t..n} \<times> {..x}. card (?at p)) = card (\<Union>p\<in>{n - t..n} \<times> {..x}. ?at p)"
    by (rule card_UN_disjoint [symmetric]) auto
  also have "\<dots> \<le> card (throws n x)" by (rule card_mono) auto
  finally show ?thesis by (simp add: card_throws occupied_def sum.cartesian_product case_prod_unfold)
qed

end
