(* ===== verification/Params_Matrices.thy ===== *)
theory Params_Matrices
  imports Pbs_Params Occupancy
begin

text \<open>
  With exact arithmetic the matrices of the parameter search are probabilities: the counts of throws over the
  number of throws, the chances to be left with a number of unresolved elements after a round, and those to be
  left with any after some rounds.
\<close>

lemma size_minus_le: "b \<le> a \<Longrightarrow> a < 2 ^ 64 \<Longrightarrow> size_minus a b = a - b"
proof -
  assume ba: "b \<le> a" "a < 2 ^ 64"
  then have "a + (2 ^ 64 - b mod 2 ^ 64) = (a - b) + 2 ^ 64" by simp
  moreover have "(a - b) mod 2 ^ 64 = a - b" using ba(2) by (intro mod_less) simp
  ultimately show ?thesis by (simp only: size_minus_def mod_add_self2)
qed

text \<open>A loop over a list, with an invariant on the part done.\<close>

lemma fold_ok_done:
  assumes "\<And>ys z zs s. xs = ys @ z # zs \<Longrightarrow> I ys s \<Longrightarrow> \<exists>s'. f z s = Inr s' \<and> I (ys @ [z]) s'" and "I [] s"
  shows "\<exists>s'. fold_ok f xs s = Inr s' \<and> I xs s'"
proof -
  have "\<exists>s'. fold_ok f ys s = Inr s' \<and> I ys s'" if "xs = ys @ zs" for ys zs
    using that
  proof (induction ys arbitrary: zs rule: rev_induct)
    case Nil
    with assms(2) show ?case by simp
  next
    case (snoc y ys)
    then have xs: "xs = ys @ y # zs" by simp
    with snoc.IH obtain s1 where s1: "fold_ok f ys s = Inr s1" "I ys s1" by blast
    from assms(1) [OF xs s1(2)] obtain s2 where "f y s1 = Inr s2" "I (ys @ [y]) s2" by blast
    with s1(1) show ?case by (simp add: fold_ok_append)
  qed
  from this [of xs "[]"] show ?thesis by simp
qed

lemma fold_ok_states:
  assumes "\<And>ys z zs. xs = ys @ z # zs \<Longrightarrow> f z (g ys) = Inr (g (ys @ [z]))"
  shows "fold_ok f xs (g []) = Inr (g xs)"
  using fold_ok_done [of xs "\<lambda>ys s. s = g ys" f "g []"] assms by auto

text \<open>A matrix that has some of its cells.\<close>

definition cells :: "nat \<Rightarrow> nat \<Rightarrow> (nat \<times> nat) set \<Rightarrow> (nat \<Rightarrow> nat \<Rightarrow> rat) \<Rightarrow> mat" where
  "cells r c S f = \<lparr>mat_rows = r, mat_cols = c, coeff = (\<lambda>i j. if (i, j) \<in> S then f i j else 0)\<rparr>"

lemma cells_empty: "mat_zero r c = cells r c {} f"
  by (simp add: cells_def mat_zero_def)

lemma cells_put:
  assumes "i < r" "j < c" "v = f i j"
  shows "mat_put (cells r c S f) i j v = (Inr (cells r c (insert (i, j) S) f) :: 's failure + _)"
  using assms by (auto simp: mat_put_def cells_def fun_eq_iff)

lemma cells_cong: "(\<And>i j. (if (i, j) \<in> S then f i j else 0) = g i j) \<Longrightarrow> cells r c S f = \<lparr>mat_rows = r, mat_cols = c, coeff = g\<rparr>"
  by (simp add: cells_def fun_eq_iff)

section \<open>Balls into bins\<close>

definition occupancy :: "nat \<Rightarrow> nat \<Rightarrow> nat \<Rightarrow> nat \<Rightarrow> rat" where
  "occupancy n x a b = (if b = 0 then 0 else of_nat (occupied n x a (b - 1)) / of_nat n ^ x)"

definition occupancy_mat :: "nat \<Rightarrow> nat \<Rightarrow> nat \<Rightarrow> mat" where
  "occupancy_mat m n x = \<lparr>mat_rows = n + 1, mat_cols = m + 2, coeff = occupancy n x\<rparr>"

lemma occupied_all_empty: "occupied n (Suc x) n s = 0"
  using occupied_bounds [of n x "n + 1" "s - 1"] occupied_bounds [of n x n "s + 1"] by (auto simp: occupied_Suc)

lemma occupancy_outside:
  assumes "0 < x" "x \<le> m" "m < n" "\<not> (n - m \<le> a \<and> a < n \<and> 1 \<le> b \<and> b \<le> x + 1)"
  shows "occupancy n x a b = 0"
proof -
  have "b = 0 \<or> occupied n x a (b - 1) = 0"
  proof (rule ccontr)
    assume "\<not> (b = 0 \<or> occupied n x a (b - 1) = 0)"
    then have "b \<noteq> 0" and o: "occupied n x a (b - 1) \<noteq> 0" by simp_all
    moreover have "a \<noteq> n" using o occupied_all_empty [of n "x - 1" "b - 1"] assms(1) by auto
    ultimately show False using occupied_bounds [OF o] assms by auto
  qed
  then show ?thesis by (auto simp: occupancy_def)
qed

lemma occupancy_step:
  assumes "0 < n" "1 \<le> b"
  shows "occupancy n (Suc x) a b * of_nat n =
    (if b = 1 then 0 else occupancy n x (a + 1) (b - 1) * of_nat (a + 1)) + occupancy n x a (b + 1) * of_nat b +
    occupancy n x a b * of_nat (n - a - (b - 1))"
proof -
  obtain s where b: "b = Suc s" using assms(2) by (metis One_nat_def Suc_le_D)
  have "of_nat (occupied n (Suc x) a s) =
      (if s = 0 then 0 else of_nat (occupied n x (a + 1) (s - 1)) * of_nat (a + 1)) + of_nat (occupied n x a (s + 1)) * of_nat (s + 1) +
      of_nat (occupied n x a s) * (of_nat (n - a - s) :: rat)"
    unfolding occupied_Suc by (simp add: mult.commute distrib_left distrib_right)
  then show ?thesis
    using assms(1) by (cases s) (simp_all add: b occupancy_def add_divide_distrib [symmetric] divide_simps)
qed

lemma weighted_exact: "exact fp \<Longrightarrow> weighted fp p k n = p * of_nat k / of_nat n"
  by (simp add: weighted_def exact_def)

lemma others_left:
  assumes "a < n" "n < 2 ^ 63" "b \<le> n" "0 < b"
  shows "(size_minus (size_minus n a) b + 1) mod 2 ^ 64 = (if a + b \<le> n + 1 then n - a - (b - 1) else 2 ^ 64 + n + 1 - a - b)"
proof -
  have na: "size_minus n a = n - a" using assms by (simp add: size_minus_le)
  show ?thesis
  proof (cases "a + b \<le> n")
    case True
    then have "size_minus (n - a) b = n - a - b" using assms(2) by (simp add: size_minus_le)
    then show ?thesis using True assms na by simp
  next
    case False
    then have "size_minus (n - a) b = 2 ^ 64 + n - a - b" using assms by (simp add: size_minus_def)
    then show ?thesis using False assms unfolding na by (cases "a + b = n + 1") auto
  qed
qed

lemma others_weight:
  assumes "a < n" "n < 2 ^ 63" "b \<le> n" "0 < b"
  shows "occupancy n x a b * of_nat ((size_minus (size_minus n a) b + 1) mod 2 ^ 64) = occupancy n x a b * of_nat (n - a - (b - 1))"
proof (cases "a + b \<le> n + 1")
  case False
  then have "occupied n x a (b - 1) = 0" using occupied_bounds(3) [of n x a "b - 1"] assms(4) by (cases "occupied n x a (b - 1)") auto
  then show ?thesis by (simp add: occupancy_def)
next
  case True
  then show ?thesis unfolding others_left [OF assms] by simp
qed

lemma next_occupancy:
  assumes "exact fp" "0 < x" "x < m" "m < n" "n < 2 ^ 63" "a < n" "1 \<le> b" "b \<le> x + 2"
  shows "next_probability fp m n (occupancy_mat m n x) a b = (Inr (occupancy n (Suc x) a b) :: 's failure + _)"
proof -
  have n: "(of_nat n :: rat) \<noteq> 0" using assms by simp
  have b: "b \<le> n" "0 < b" using assms by linarith+
  have r: "rounded fp = (\<lambda>x. x)" using assms(1) by (simp add: exact_def)
  define others where "others = (size_minus (size_minus n a) b + 1) mod 2 ^ 64"
  have ow: "occupancy n x a b * of_nat others = occupancy n x a b * of_nat (n - a - (b - 1))"
    unfolding others_def by (rule others_weight [OF assms(6,5) b])
  note sums = occupancy_step [of n b x a, unfolded ow [symmetric]]
  have div: "v / of_nat n = occupancy n (Suc x) a b" if "v = occupancy n (Suc x) a b * of_nat n" for v :: rat
    using that n by simp
  note cell = next_probability_def others_def [symmetric] Let_def weighted_exact [OF assms(1)] mat_at_def occupancy_mat_def
    add_divide_distrib [symmetric]
  consider "b = 1" | "b = m + 1" "b \<noteq> 1" | "b \<noteq> 1" "b \<noteq> m + 1" by blast
  then show ?thesis
  proof cases
    case 1
    then show ?thesis using assms sums n unfolding cell by (simp add: exact_def div)
  next
    case 2
    have "occupancy n x a (b + 1) = 0" using occupancy_outside [of x m n a "b + 1"] assms 2 by simp
    then show ?thesis using 2 assms sums n unfolding cell by (simp add: exact_def div)
  next
    case 3
    moreover have "b - 1 < m + 2" using assms by simp
    ultimately show ?thesis using assms sums n unfolding cell r by (simp add: div)
  qed
qed


section \<open>The matrices of the balls\<close>

definition occupancy_mats :: "nat \<Rightarrow> nat \<Rightarrow> nat \<Rightarrow> mat list" where
  "occupancy_mats m n x = mat_zero (n + 1) (m + 2) # map (occupancy_mat m n) [1..<x + 1] @ replicate (m - x) (mat_zero (n + 1) (m + 2))"

lemma length_occupancy_mats: "x \<le> m \<Longrightarrow> length (occupancy_mats m n x) = m + 1"
  by (simp add: occupancy_mats_def del: upt_Suc)

lemma nth_occupancy_mats: "0 < y \<Longrightarrow> y \<le> x \<Longrightarrow> occupancy_mats m n x ! y = occupancy_mat m n y"
  by (cases y) (simp_all add: occupancy_mats_def nth_append del: upt_Suc)

lemma occupancy_mats_upd:
  assumes "x < m"
  shows "(occupancy_mats m n x)[Suc x := occupancy_mat m n (Suc x)] = occupancy_mats m n (Suc x)"
proof -
  have "replicate (m - x) z = z # replicate (m - Suc x) z" for z :: mat
    using assms by (metis Suc_diff_Suc replicate_Suc)
  then show ?thesis by (simp add: occupancy_mats_def list_update_append)
qed

lemma occupancy_cells:
  assumes "0 < x" "x \<le> m" "m < n"
  shows "cells (n + 1) (m + 2) ({n - m..<n} \<times> {1..<x + 2}) (occupancy n x) = occupancy_mat m n x"
  unfolding occupancy_mat_def using occupancy_outside [OF assms] by (intro cells_cong) auto

lemma occupancy_first:
  assumes "0 < m" "m < n" "n < 2 ^ 63"
  shows "put_in 1 (size_minus n 1) 2 1 (replicate (m + 1) (mat_zero (n + 1) (m + 2))) = (Inr (occupancy_mats m n 1) :: 's failure + _)"
proof -
  have n1: "size_minus n 1 = n - 1" using assms by (simp add: size_minus_le)
  have "cells (n + 1) (m + 2) {(n - 1, 2)} (occupancy n 1) = occupancy_mat m n 1"
    unfolding occupancy_mat_def using assms by (intro cells_cong) (auto simp: occupancy_def occupied_one)
  moreover have "occupancy n 1 (n - 1) 2 = 1" using assms by (simp add: occupancy_def occupied_one)
  moreover have "n - 1 < n + 1" "2 < m + 2" using assms by simp_all
  ultimately have "mat_put (mat_zero (n + 1) (m + 2)) (n - 1) 2 1 = (Inr (occupancy_mat m n 1) :: 's failure + _)"
    unfolding cells_empty [where f = "occupancy n 1"] by (subst cells_put) simp_all
  then have "put_in 1 (size_minus n 1) 2 1 (replicate (m + 1) (mat_zero (n + 1) (m + 2))) =
      (Inr ((replicate (m + 1) (mat_zero (n + 1) (m + 2)))[1 := occupancy_mat m n 1]) :: 's failure + _)"
    unfolding n1 using assms(1) by (simp add: put_in_def vec_get_def vec_set_def)
  also have "(replicate (m + 1) (mat_zero (n + 1) (m + 2)))[1 := occupancy_mat m n 1] = occupancy_mats m n 1"
    using assms(1) by (cases m) (simp_all add: occupancy_mats_def)
  finally show ?thesis .
qed

lemma occupancy_row:
  fixes S :: "(nat \<times> nat) set"
  assumes "exact fp" "0 < x" "x < m" "m < n" "n < 2 ^ 63" "a < n"
  defines "state \<equiv> \<lambda>S. (occupancy_mats m n x)[Suc x := cells (n + 1) (m + 2) S (occupancy n (Suc x))]"
  shows "fold_ok (\<lambda>b m3d. bind_ok (vec_get m3d (Suc x - 1)) (\<lambda>prev.
      bind_ok (next_probability fp m n prev a b) (\<lambda>p. put_in (Suc x) a b p m3d))) [1..<Suc x + 2] (state S) =
    (Inr (state (S \<union> {a} \<times> {1..<Suc x + 2})) :: 's failure + _)"
proof -
  have "fold_ok (\<lambda>b m3d. bind_ok (vec_get m3d (Suc x - 1)) (\<lambda>prev.
      bind_ok (next_probability fp m n prev a b) (\<lambda>p. put_in (Suc x) a b p m3d))) [1..<Suc x + 2] (state (S \<union> {a} \<times> set [])) =
    (Inr (state (S \<union> {a} \<times> set [1..<Suc x + 2])) :: 's failure + _)"
  proof (rule fold_ok_states [where g = "\<lambda>bs. state (S \<union> {a} \<times> set bs)"])
    fix ys b zs assume split: "[1..<Suc x + 2] = ys @ b # zs"
    then have "b \<in> set [1..<Suc x + 2]" by simp
    then have "b \<in> {1..<Suc x + 2}" unfolding set_upt .
    then have b: "1 \<le> b" "b \<le> x + 2" by simp_all
    let ?S = "S \<union> {a} \<times> set ys"
    have prev: "vec_get (state ?S) (Suc x - 1) = (Inr (occupancy_mat m n x) :: 's failure + _)"
      using assms(2,3) length_occupancy_mats [of x m n] nth_occupancy_mats [of x x m n] by (simp add: state_def vec_get_def)
    have "mat_put (cells (n + 1) (m + 2) ?S (occupancy n (Suc x))) a b (occupancy n (Suc x) a b) =
        (Inr (cells (n + 1) (m + 2) (insert (a, b) ?S) (occupancy n (Suc x))) :: 's failure + _)"
      by (rule cells_put) (use assms b in auto)
    then have "put_in (Suc x) a b (occupancy n (Suc x) a b) (state ?S) = (Inr (state (insert (a, b) ?S)) :: 's failure + _)"
      using assms by (simp add: put_in_def state_def vec_get_def vec_set_def length_occupancy_mats)
    moreover have "insert (a, b) ?S = S \<union> {a} \<times> set (ys @ [b])" by auto
    ultimately have put: "put_in (Suc x) a b (occupancy n (Suc x) a b) (state ?S) = (Inr (state (S \<union> {a} \<times> set (ys @ [b]))) :: 's failure + _)"
      by (simp only:)
    show "bind_ok (vec_get (state ?S) (Suc x - 1)) (\<lambda>prev. bind_ok (next_probability fp m n prev a b) (\<lambda>p. put_in (Suc x) a b p (state ?S))) =
        (Inr (state (S \<union> {a} \<times> set (ys @ [b]))) :: 's failure + _)"
      unfolding prev bind_ok_Inr next_occupancy [OF assms(1-6) b] put ..
  qed
  then show ?thesis unfolding set_upt list.set Sigma_empty2 Un_empty_right .
qed

lemma occupancy_ball:
  assumes "exact fp" "0 < x" "x < m" "m < n" "n < 2 ^ 63"
  shows "fold_ok (\<lambda>a. fold_ok (\<lambda>b m3d. bind_ok (vec_get m3d (Suc x - 1)) (\<lambda>prev.
      bind_ok (next_probability fp m n prev a b) (\<lambda>p. put_in (Suc x) a b p m3d))) [1..<Suc x + 2]) [size_minus n m..<n] (occupancy_mats m n x) =
    (Inr (occupancy_mats m n (Suc x)) :: 's failure + _)"
proof -
  let ?state = "\<lambda>S. (occupancy_mats m n x)[Suc x := cells (n + 1) (m + 2) S (occupancy n (Suc x))]"
  let ?body = "\<lambda>a. fold_ok (\<lambda>b m3d. bind_ok (vec_get m3d (Suc x - 1)) (\<lambda>prev.
      bind_ok (next_probability fp m n prev a b) (\<lambda>p. put_in (Suc x) a b p m3d))) [1..<Suc x + 2]"
  have nm: "size_minus n m = n - m" using assms by (simp add: size_minus_le)
  have "fold_ok ?body [n - m..<n] (?state (set [] \<times> {1..<Suc x + 2})) =
      (Inr (?state (set [n - m..<n] \<times> {1..<Suc x + 2})) :: 's failure + _)"
  proof (rule fold_ok_states [where g = "\<lambda>as. ?state (set as \<times> {1..<Suc x + 2})"])
    fix ys a zs assume split: "[n - m..<n] = ys @ a # zs"
    then have "a \<in> set [n - m..<n]" by simp
    then have a: "a < n" by simp
    have "set ys \<times> {1..<Suc x + 2} \<union> {a} \<times> {1..<Suc x + 2} = set (ys @ [a]) \<times> {1..<Suc x + 2}" by auto
    with occupancy_row [OF assms a, of "set ys \<times> {1..<Suc x + 2}", where 's = 's]
    show "?body a (?state (set ys \<times> {1..<Suc x + 2})) = (Inr (?state (set (ys @ [a]) \<times> {1..<Suc x + 2})) :: 's failure + _)" by simp
  qed
  moreover have "?state ({} \<times> {1..<Suc x + 2}) = occupancy_mats m n x"
  proof -
    have "occupancy_mats m n x ! Suc x = mat_zero (n + 1) (m + 2)"
      using assms by (simp add: occupancy_mats_def nth_append)
    then show ?thesis by (metis Sigma_empty1 cells_empty list_update_id)
  qed
  moreover have "?state ({n - m..<n} \<times> {1..<Suc x + 2}) = occupancy_mats m n (Suc x)"
    using occupancy_cells [of "Suc x" m n] occupancy_mats_upd [of x m n] assms by simp
  ultimately show ?thesis by (simp add: nm)
qed

lemma probability_matrix:
  assumes "exact fp" "0 < m" "m < n" "n < 2 ^ 63"
  shows "computeProbabilityMatrix3D fp m n = (Inr (occupancy_mats m n m) :: 's failure + _)"
proof -
  let ?body = "\<lambda>x. fold_ok (\<lambda>a. fold_ok (\<lambda>b m3d. bind_ok (vec_get m3d (x - 1)) (\<lambda>prev.
      bind_ok (next_probability fp m n prev a b) (\<lambda>p. put_in x a b p m3d))) [1..<x + 2]) [size_minus n m..<n]"
  have "fold_ok ?body [2..<m + 1] (occupancy_mats m n (1 + length ([] :: nat list))) =
      (Inr (occupancy_mats m n (1 + length [2..<m + 1])) :: 's failure + _)"
  proof (rule fold_ok_states [where g = "\<lambda>xs. occupancy_mats m n (1 + length xs)"])
    fix ys x zs assume split: "[2..<m + 1] = ys @ x # zs"
    have x: "x = Suc (1 + length ys)" "x < m + 1"
      using arg_cong [OF split, of "\<lambda>l. l ! length ys"] arg_cong [OF split, of length] by (auto simp: nth_append)
    then show "?body x (occupancy_mats m n (1 + length ys)) = (Inr (occupancy_mats m n (1 + length (ys @ [x]))) :: 's failure + _)"
      using occupancy_ball [OF assms(1) _ _ assms(3,4), of "1 + length ys", where 's = 's] by simp
  qed
  then show ?thesis
    using assms(2) unfolding computeProbabilityMatrix3D_def occupancy_first [OF assms(2-4)] by (simp del: upt_Suc)
qed


section \<open>The transitions of a round\<close>

text \<open>
  The chance that \<open>i\<close> elements fall into at most \<open>t\<close> bins and all but \<open>j\<close> of them are alone; with more than \<open>t\<close>
  bins decoding fails, and all of them are left.
\<close>

definition left_over :: "nat \<Rightarrow> nat \<Rightarrow> nat \<Rightarrow> nat \<Rightarrow> rat" where
  "left_over n t i j = (\<Sum>a = n - t..n. occupancy n i a (i - j + 1))"

definition transition :: "nat \<Rightarrow> nat \<Rightarrow> nat \<Rightarrow> nat \<Rightarrow> rat" where
  "transition n t i j =
     (if i = 0 then (if j = 0 then 1 else 0)
      else if j < i \<or> j = i \<and> i \<le> t then left_over n t i j
      else if j = i then 1 - (\<Sum>l<i. left_over n t i l) else 0)"

lemma sum_column:
  assumes "exact fp" "t \<le> n" "n < 2 ^ 63" "0 < c" "c \<le> m + 1"
  shows "bind_ok (mat_block (occupancy_mat m n i) (size_minus n t) c (t + 1) 1) (\<lambda>B. mat_put M k l (mat_sum fp B)) =
    (mat_put M k l (\<Sum>a = n - t..n. occupancy n i a c) :: 's failure + mat)"
proof -
  have "size_minus n t = n - t" using assms by (simp add: size_minus_le)
  moreover have "sum_list (map (\<lambda>a. occupancy n i (n - t + a) c) [0..<t + 1]) = (\<Sum>a = n - t..n. occupancy n i a c)"
  proof -
    have "sum_list (map (\<lambda>a. occupancy n i (n - t + a) c) [0..<t + 1]) = (\<Sum>a = 0..<t + 1. occupancy n i (n - t + a) c)"
      by (rule sum_set_upt_conv_sum_list_nat [symmetric, unfolded set_upt])
    also have "\<dots> = (\<Sum>a = n - t..<n + 1. occupancy n i a c)"
      using sum.shift_bounds_nat_ivl [of "\<lambda>a. occupancy n i a c" 0 "n - t" "t + 1"] assms(2) by (simp add: add.commute)
    finally show ?thesis by (simp only: Suc_eq_plus1 [symmetric] atLeastLessThanSuc_atLeastAtMost)
  qed
  moreover have "[0..<Suc 0] = [0]" by simp
  ultimately show ?thesis
    using assms by (simp add: mat_block_def occupancy_mat_def mat_sum_def exact_def del: upt_Suc)
qed

lemma transition_cells:
  assumes "exact fp" "m < n" "t \<le> n" "n < 2 ^ 63"
  shows "fold_ok (\<lambda>i. fold_ok (\<lambda>j m2d. bind_ok (vec_get (occupancy_mats m n m) i) (\<lambda>P.
      bind_ok (mat_block P (size_minus n t) (i - j + 1) (t + 1) 1) (\<lambda>B. mat_put m2d i (j + 1) (mat_sum fp B)))) [0..<i + 1])
      [1..<m + 1] (mat_zero (m + 1) (m + 2)) =
    (Inr (cells (m + 1) (m + 2) {(i, l). 1 \<le> i \<and> i \<le> m \<and> 1 \<le> l \<and> l \<le> i + 1} (\<lambda>i l. left_over n t i (l - 1))) :: 's failure + mat)"
    (is "fold_ok ?body _ _ = _")
proof -
  let ?f = "\<lambda>i l. left_over n t i (l - 1)"
  let ?c = "\<lambda>S. cells (m + 1) (m + 2) S ?f"
  let ?S = "\<lambda>is. {(i, l). i \<in> set is \<and> 1 \<le> l \<and> l \<le> i + 1}"
  have row: "?body i (?c S) = (Inr (?c (S \<union> {(i, l) |l. 1 \<le> l \<and> l \<le> i + 1})) :: 's failure + mat)" if i: "1 \<le> i" "i \<le> m" for i S
  proof -
    let ?r = "\<lambda>js. S \<union> (\<lambda>j. (i, j + 1)) ` set js"
    have get: "vec_get (occupancy_mats m n m) i = (Inr (occupancy_mat m n i) :: 's failure + _)"
      using i length_occupancy_mats [of m m n] nth_occupancy_mats [of i m m n] by (simp add: vec_get_def)
    have "fold_ok (\<lambda>j m2d. bind_ok (vec_get (occupancy_mats m n m) i) (\<lambda>P.
        bind_ok (mat_block P (size_minus n t) (i - j + 1) (t + 1) 1) (\<lambda>B. mat_put m2d i (j + 1) (mat_sum fp B)))) [0..<i + 1] (?c (?r [])) =
      (Inr (?c (?r [0..<i + 1])) :: 's failure + mat)"
    proof (rule fold_ok_states [where g = "\<lambda>js. ?c (?r js)"])
      fix ys j zs assume "[0..<i + 1] = ys @ j # zs"
      then have "j \<in> set [0..<i + 1]" by simp
      then have "j \<in> {0..<i + 1}" unfolding set_upt .
      then have j: "j \<le> i" by simp
      have "mat_put (?c (?r ys)) i (j + 1) (\<Sum>a = n - t..n. occupancy n i a (i - j + 1)) =
          (Inr (?c (insert (i, j + 1) (?r ys))) :: 's failure + mat)"
        by (rule cells_put) (use i j in \<open>simp_all add: left_over_def\<close>)
      moreover have "insert (i, j + 1) (?r ys) = ?r (ys @ [j])" by auto
      moreover have "0 < i - j + 1" "i - j + 1 \<le> m + 1" using i by simp_all
      ultimately show "bind_ok (vec_get (occupancy_mats m n m) i) (\<lambda>P. bind_ok (mat_block P (size_minus n t) (i - j + 1) (t + 1) 1)
          (\<lambda>B. mat_put (?c (?r ys)) i (j + 1) (mat_sum fp B))) = (Inr (?c (?r (ys @ [j]))) :: 's failure + mat)"
        using sum_column [OF assms(1,3,4), of "i - j + 1" m i "?c (?r ys)" i "j + 1", where 's = 's] by (simp only: get bind_ok_Inr)
    qed
    moreover have "?r [0..<i + 1] = S \<union> {(i, l) |l. 1 \<le> l \<and> l \<le> i + 1}"
    proof -
      have "\<exists>j\<in>{0..<i + 1}. l = j + 1" if "1 \<le> l" "l \<le> i + 1" for l by (rule bexI [of _ "l - 1"]) (use that in auto)
      then show ?thesis unfolding set_upt by auto
    qed
    ultimately show ?thesis by simp
  qed
  have "fold_ok ?body [1..<m + 1] (?c (?S [])) = (Inr (?c (?S [1..<m + 1])) :: 's failure + mat)"
  proof (rule fold_ok_states [where g = "\<lambda>is. ?c (?S is)"])
    fix ys i zs assume "[1..<m + 1] = ys @ i # zs"
    then have "i \<in> set [1..<m + 1]" by simp
    then have "i \<in> {1..<m + 1}" unfolding set_upt .
    then have i: "1 \<le> i" "i \<le> m" by simp_all
    have "?S ys \<union> {(i, l) |l. 1 \<le> l \<and> l \<le> i + 1} = ?S (ys @ [i])" by auto
    with row [OF i, of "?S ys"] show "?body i (?c (?S ys)) = (Inr (?c (?S (ys @ [i]))) :: 's failure + mat)" by simp
  qed
  moreover have "?S [1..<m + 1] = {(i, l). 1 \<le> i \<and> i \<le> m \<and> 1 \<le> l \<and> l \<le> i + 1}" unfolding set_upt by auto
  ultimately show ?thesis unfolding cells_empty [where f = ?f] by simp
qed

definition transition_mat :: "nat \<Rightarrow> nat \<Rightarrow> nat \<Rightarrow> mat" where
  "transition_mat m n t = cells (m + 1) (m + 2) {(i, l). 1 \<le> i \<and> i \<le> m \<and> 1 \<le> l \<and> l \<le> i + 1} (\<lambda>i l. transition n t i (l - 1))"

lemma row_sum:
  assumes "exact fp" "i < r" "i < c"
  shows "bind_ok (mat_block (cells r c S f) i 1 1 i) (\<lambda>B. mat_put M k l (rounded fp (1 - mat_sum fp B))) =
    (mat_put M k l (1 - (\<Sum>j<i. if (i, j + 1) \<in> S then f i (j + 1) else 0)) :: 's failure + mat)"
proof -
  have "sum_list (concat (map (\<lambda>j. map (\<lambda>k. if (i + k, 1 + j) \<in> S then f (i + k) (1 + j) else 0) [0..<1]) [0..<i])) =
      sum_list (map (\<lambda>j. if (i, j + 1) \<in> S then f i (j + 1) else 0) [0..<i])"
  proof -
    have "concat (map (\<lambda>j. map (g j) [0..<1]) js) = map (\<lambda>j. g j 0) js" for g :: "nat \<Rightarrow> nat \<Rightarrow> rat" and js
      by (induction js) simp_all
    from this [of "\<lambda>j k. if (i + k, 1 + j) \<in> S then f (i + k) (1 + j) else 0" "[0..<i]"] show ?thesis by (simp only: add_0_right add.commute [of 1])
  qed
  also have "\<dots> = (\<Sum>j<i. if (i, j + 1) \<in> S then f i (j + 1) else 0)"
    using sum_set_upt_conv_sum_list_nat [of "\<lambda>j. if (i, j + 1) \<in> S then f i (j + 1) else 0" 0 i]
    by (simp add: atLeast0LessThan)
  finally show ?thesis
    using assms by (simp add: mat_block_def mat_sum_def exact_def cells_def del: upt_Suc cong: if_cong)
qed

lemma transition_matrix:
  assumes "exact fp" "0 < m" "m < n" "t \<le> n" "n < 2 ^ 63"
  shows "computeTransitionProbabilityMatrix fp m n t = (Inr (transition_mat m n t) :: 's failure + mat)"
proof -
  let ?S = "{(i, l). 1 \<le> i \<and> i \<le> m \<and> 1 \<le> l \<and> l \<le> i + 1}"
  let ?f = "\<lambda>is i l. if i \<in> set is \<and> l = i + 1 then 1 - (\<Sum>j<i. left_over n t i j) else left_over n t i (l - 1)"
  let ?c = "\<lambda>is. cells (m + 1) (m + 2) ?S (?f is)"
  let ?body = "\<lambda>i m2d. bind_ok (mat_block m2d i 1 1 i) (\<lambda>B. mat_put m2d i (i + 1) (rounded fp (1 - mat_sum fp B)))"
  have "fold_ok ?body [t + 1..<m + 1] (?c []) = (Inr (?c [t + 1..<m + 1]) :: 's failure + mat)"
  proof (rule fold_ok_states [where g = ?c])
    fix ys i zs assume "[t + 1..<m + 1] = ys @ i # zs"
    then have "i \<in> set [t + 1..<m + 1]" by simp
    then have "i \<in> {t + 1..<m + 1}" unfolding set_upt .
    then have i: "1 \<le> i" "i \<le> m" by simp_all
    have "(\<Sum>j<i. if (i, j + 1) \<in> ?S then ?f ys i (j + 1) else 0) = (\<Sum>j<i. left_over n t i j)"
      by (rule sum.cong) (use i in auto)
    then have "?body i (?c ys) = mat_put (?c ys) i (i + 1) (1 - (\<Sum>j<i. left_over n t i j))"
      using row_sum [OF assms(1), of i "m + 1" "m + 2" ?S "?f ys" "?c ys" i "i + 1"] i by simp
    also have "\<dots> = (Inr (?c (ys @ [i])) :: 's failure + mat)"
      using i by (auto simp: mat_put_def cells_def fun_eq_iff)
    finally show "?body i (?c ys) = (Inr (?c (ys @ [i])) :: 's failure + mat)" .
  qed
  moreover have "?c [t + 1..<m + 1] = transition_mat m n t"
    unfolding transition_mat_def cells_def set_upt by (auto simp: fun_eq_iff transition_def)
  ultimately show ?thesis
    unfolding computeTransitionProbabilityMatrix_def probability_matrix [OF assms(1,2,3,5)] bind_ok_Inr
      transition_cells [OF assms(1,3,4,5)]
    by (simp del: upt_Suc)
qed

section \<open>Several rounds\<close>

definition chain :: "nat \<Rightarrow> nat \<Rightarrow> nat \<Rightarrow> nat \<Rightarrow> nat \<Rightarrow> rat" where
  "chain m n t i j = (if i \<le> m then transition n t i j else 0)"

text \<open>The chance to be left with \<open>j\<close> of \<open>i\<close> elements after \<open>k + 1\<close> rounds.\<close>

fun after_rounds :: "nat \<Rightarrow> nat \<Rightarrow> nat \<Rightarrow> nat \<Rightarrow> nat \<Rightarrow> nat \<Rightarrow> rat" where
  "after_rounds m n t 0 i j = chain m n t i j"
| "after_rounds m n t (Suc k) i j = (\<Sum>l\<le>m. after_rounds m n t k i l * chain m n t l j)"

definition unresolved :: "nat \<Rightarrow> nat \<Rightarrow> nat \<Rightarrow> nat \<Rightarrow> nat \<Rightarrow> rat" where
  "unresolved m n t x k = 1 - after_rounds m n t (k - 1) x 0"

definition unresolved_mat :: "nat \<Rightarrow> nat \<Rightarrow> nat \<Rightarrow> nat \<Rightarrow> mat" where
  "unresolved_mat m n t r = cells (m + 1) (r + 1) ({1..m} \<times> {1..r}) (unresolved m n t)"

lemma transition_above: "i < j \<Longrightarrow> transition n t i j = 0"
  by (simp add: transition_def)

lemma reformed:
  assumes "0 < m"
  shows "bind_ok (mat_block (transition_mat m n t) 1 1 m (m + 1)) (\<lambda>B. bind_ok (mat_put_block (mat_zero (m + 1) (m + 1)) 1 0 B) (\<lambda>T0.
      bind_ok (mat_put T0 0 0 1) f)) =
    f \<lparr>mat_rows = m + 1, mat_cols = m + 1, coeff = chain m n t\<rparr>"
proof -
  let ?T = "\<lambda>k l. if k = 0 \<and> l = 0 then 1 else if 1 \<le> k \<and> k < 1 + m \<and> l < m + 1
    then (if l \<le> k then transition n t k l else 0) else (0 :: rat)"
  have "?T = chain m n t" by (auto simp: fun_eq_iff chain_def transition_above) (auto simp: transition_def)
  moreover have "bind_ok (mat_block (transition_mat m n t) 1 1 m (m + 1)) (\<lambda>B. bind_ok (mat_put_block (mat_zero (m + 1) (m + 1)) 1 0 B) (\<lambda>T0.
      bind_ok (mat_put T0 0 0 1) f)) = f \<lparr>mat_rows = m + 1, mat_cols = m + 1, coeff = ?T\<rparr>"
    by (simp add: mat_block_def mat_put_block_def mat_put_def mat_zero_def transition_mat_def cells_def)
      (rule arg_cong [where f = f], auto simp: fun_eq_iff)
  ultimately show ?thesis by simp
qed

lemma times_chain:
  assumes "exact fp"
  shows "mat_times fp \<lparr>mat_rows = m + 1, mat_cols = m + 1, coeff = after_rounds m n t k\<rparr> \<lparr>mat_rows = m + 1, mat_cols = m + 1, coeff = chain m n t\<rparr> =
    \<lparr>mat_rows = m + 1, mat_cols = m + 1, coeff = after_rounds m n t (Suc k)\<rparr>"
proof -
  have "sum_list (map (\<lambda>l. after_rounds m n t k i l * chain m n t l j) [0..<m + 1]) = after_rounds m n t (Suc k) i j" for i j
    using sum_set_upt_conv_sum_list_nat [of "\<lambda>l. after_rounds m n t k i l * chain m n t l j" 0 "m + 1"]
    by (simp add: atLeast0LessThan lessThan_Suc_atMost del: upt_Suc)
  then show ?thesis using assms by (simp add: mat_times_def exact_def fun_eq_iff del: upt_Suc)
qed

lemma multi_rounds_matrix:
  assumes "exact fp"
  shows "multi_rounds fp m r \<lparr>mat_rows = m + 1, mat_cols = m + 1, coeff = chain m n t\<rparr> = (Inr (unresolved_mat m n t r) :: 's failure + mat)"
proof -
  let ?T = "\<lambda>k. \<lparr>mat_rows = m + 1, mat_cols = m + 1, coeff = after_rounds m n t k\<rparr>"
  let ?M = "\<lambda>k. \<lparr>mat_rows = m, mat_cols = r, coeff = (\<lambda>x l. if x < m \<and> l < k then after_rounds m n t l (x + 1) 0 else 0)\<rparr>"
  let ?body = "\<lambda>i (mr_m2d, temp). bind_ok (mat_block temp 1 0 m 1) (\<lambda>B. bind_ok (mat_put_block mr_m2d 0 i B) (\<lambda>mr'.
          Inr (mr', mat_times fp temp (?T 0))))"
  have chain0: "\<lparr>mat_rows = m + 1, mat_cols = m + 1, coeff = chain m n t\<rparr> = ?T 0" by (simp add: fun_eq_iff)
  have "\<exists>s'. fold_ok ?body [0..<r] (?M 0, ?T 0) = (Inr s' :: 's failure + mat \<times> mat) \<and> s' = (?M r, ?T r)"
  proof (rule fold_ok_upt [where P = "\<lambda>i s. s = (?M i, ?T i)"])
    fix i and s :: "mat \<times> mat" assume i: "i < r" "s = (?M i, ?T i)"
    have "mat_times fp (?T i) (?T 0) = ?T (Suc i)" using times_chain [OF assms, of m n t i] unfolding chain0 .
    then show "\<exists>s'. ?body i s = (Inr s' :: 's failure + mat \<times> mat) \<and> s' = (?M (Suc i), ?T (Suc i))"
      using i by (auto simp: mat_block_def mat_put_block_def fun_eq_iff less_Suc_eq)
  qed simp
  then have loop: "fold_ok ?body [0..<r] (?M 0, ?T 0) = (Inr (?M r, ?T r) :: 's failure + mat \<times> mat)" by blast
  have "mat_zero m r = ?M 0" by (simp add: mat_zero_def)
  moreover have "mat_put_block (mat_zero (m + 1) (r + 1)) 1 1 (ones_minus fp (?M r)) = (Inr (unresolved_mat m n t r) :: 's failure + mat)"
    using assms by (auto simp: mat_put_block_def mat_zero_def ones_minus_def exact_def unresolved_mat_def cells_def unresolved_def fun_eq_iff)
  ultimately show ?thesis unfolding multi_rounds_def chain0 using loop by simp
qed

lemma multi_round:
  assumes "exact fp" "0 < m" "m < n" "t \<le> n" "n < 2 ^ 63"
  shows "multi_round_matrix fp m n t r = (Inr (unresolved_mat m n t r) :: 's failure + mat)"
  unfolding multi_round_matrix_def transition_matrix [OF assms] bind_ok_Inr reformed [OF assms(2)]
  by (rule multi_rounds_matrix [OF assms(1)])

end
