(* ===== verification/Params_Properties.thy ===== *)
theory Params_Properties
  imports Params_Matrices
begin

text \<open>
  The matrices are stochastic, and the chance that elements are left over gets smaller from round to round.
\<close>

section \<open>Transitions are probabilities\<close>

lemma occupancy_nonneg: "0 \<le> occupancy n x a b"
  by (simp add: occupancy_def)

lemma left_over_nonneg: "0 \<le> left_over n t i j"
  by (simp add: left_over_def sum_nonneg occupancy_nonneg)

lemma left_over_sum:
  "(\<Sum>j\<le>i. left_over n t i j) = of_nat (\<Sum>a = n - t..n. \<Sum>s\<le>i. occupied n i a s) / of_nat n ^ i"
proof -
  have "(\<Sum>j\<le>i. left_over n t i j) = (\<Sum>s\<le>i. \<Sum>a = n - t..n. occupancy n i a (s + 1))"
    unfolding left_over_def by (rule sum.reindex_bij_witness [of _ "\<lambda>s. i - s" "\<lambda>j. i - j"]) auto
  also have "\<dots> = (\<Sum>a = n - t..n. \<Sum>s\<le>i. occupancy n i a (s + 1))" by (rule sum.swap)
  also have "\<dots> = (\<Sum>a = n - t..n. \<Sum>s\<le>i. of_nat (occupied n i a s)) / of_nat n ^ i"
    by (simp add: occupancy_def sum_divide_distrib)
  finally show ?thesis by simp
qed

lemma left_over_total:
  assumes "0 < n"
  shows "(\<Sum>j\<le>i. left_over n t i j) \<le> 1" "i \<le> t \<Longrightarrow> t \<le> n \<Longrightarrow> (\<Sum>j\<le>i. left_over n t i j) = 1"
proof -
  have n: "(of_nat n :: rat) ^ i \<noteq> 0" "(of_nat n :: rat) ^ i = of_nat (n ^ i)" using assms by simp_all
  have "of_nat (\<Sum>a = n - t..n. \<Sum>s\<le>i. occupied n i a s) \<le> (of_nat (n ^ i) :: rat)"
    using occupied_partial [of n i t] by (simp only: of_nat_le_iff)
  then show "(\<Sum>j\<le>i. left_over n t i j) \<le> 1" using assms unfolding left_over_sum by (simp add: divide_le_eq)
  assume "i \<le> t" "t \<le> n"
  then show "(\<Sum>j\<le>i. left_over n t i j) = 1" using n(1) by (simp add: left_over_sum occupied_total n(2) del: of_nat_sum of_nat_power)
qed

lemma chain_nonneg: "0 < n \<Longrightarrow> 0 \<le> chain m n t i j"
proof -
  assume n: "0 < n"
  have "(\<Sum>l<i. left_over n t i l) \<le> (\<Sum>l\<le>i. left_over n t i l)"
    by (rule sum_mono2) (auto simp: left_over_nonneg)
  also have "\<dots> \<le> 1" by (rule left_over_total(1) [OF n])
  finally show ?thesis by (simp add: chain_def transition_def left_over_nonneg)
qed

lemma chain_row:
  assumes "0 < n" "t \<le> n" "i \<le> m"
  shows "(\<Sum>j\<le>m. chain m n t i j) = 1"
proof -
  have "(\<Sum>j\<le>m. chain m n t i j) = (\<Sum>j\<le>i. transition n t i j)"
    using assms(3) by (intro sum.mono_neutral_cong_right) (auto simp: chain_def transition_above)
  also have "\<dots> = 1"
  proof -
    consider "i = 0" | "i \<noteq> 0" "i \<le> t" | "i \<noteq> 0" "t < i" by linarith
    then show ?thesis
    proof cases
      case 1
      then show ?thesis by (simp add: transition_def)
    next
      case 2
      then have "(\<Sum>j\<le>i. transition n t i j) = (\<Sum>j\<le>i. left_over n t i j)" by (intro sum.cong) (auto simp: transition_def)
      with 2 left_over_total(2) [OF assms(1) _ assms(2), of i] show ?thesis by simp
    next
      case 3
    then have "(\<Sum>j<i. transition n t i j) = (\<Sum>j<i. left_over n t i j)" by (intro sum.cong) (auto simp: transition_def)
    moreover have "{..i} = insert i {..<i}" by auto
    ultimately show ?thesis using 3 by (simp add: transition_def)
    qed
  qed
  finally show ?thesis .
qed

lemma after_rounds_nonneg: "0 < n \<Longrightarrow> 0 \<le> after_rounds m n t k i j"
  by (induction k arbitrary: j) (auto simp: chain_nonneg intro!: sum_nonneg)

lemma after_rounds_row:
  assumes "0 < n" "t \<le> n" "i \<le> m"
  shows "(\<Sum>j\<le>m. after_rounds m n t k i j) = 1"
proof (induction k)
  case 0
  show ?case using chain_row [OF assms] by simp
next
  case (Suc k)
  have "(\<Sum>j\<le>m. after_rounds m n t (Suc k) i j) = (\<Sum>l\<le>m. \<Sum>j\<le>m. after_rounds m n t k i l * chain m n t l j)"
    by simp (rule sum.swap)
  also have "\<dots> = (\<Sum>l\<le>m. after_rounds m n t k i l)"
    by (intro sum.cong) (simp_all add: chain_row [OF assms(1,2)] flip: sum_distrib_left)
  finally show ?case using Suc.IH by simp
qed

lemma unresolved_bounds:
  assumes "0 < n" "t \<le> n" "x \<le> m"
  shows "0 \<le> unresolved m n t x k" "unresolved m n t x k \<le> 1"
proof -
  have "after_rounds m n t (k - 1) x 0 \<le> (\<Sum>j\<le>m. after_rounds m n t (k - 1) x j)"
    by (rule member_le_sum) (auto simp: after_rounds_nonneg [OF assms(1)])
  then show "0 \<le> unresolved m n t x k" using after_rounds_row [OF assms] by (simp add: unresolved_def)
  show "unresolved m n t x k \<le> 1" using after_rounds_nonneg [OF assms(1)] by (simp add: unresolved_def)
qed

text \<open>What is resolved stays resolved.\<close>

lemma unresolved_antimono:
  assumes "0 < n"
  shows "unresolved m n t x (Suc (Suc k)) \<le> unresolved m n t x (Suc k)"
proof -
  have "after_rounds m n t k x 0 * chain m n t 0 0 \<le> (\<Sum>l\<le>m. after_rounds m n t k x l * chain m n t l 0)"
    by (rule member_le_sum [where f = "\<lambda>l. after_rounds m n t k x l * chain m n t l 0"])
      (auto simp: after_rounds_nonneg [OF assms] chain_nonneg [OF assms])
  then show ?thesis by (simp add: unresolved_def chain_def transition_def)
qed

text \<open>After the first round nothing is left exactly when at most \<open>t\<close> elements fell into bins of their own.\<close>

lemma count_list_distinct: "distinct ys \<Longrightarrow> i \<in> set ys \<Longrightarrow> count_list ys i = Suc 0"
  by (induction ys) (auto simp: count_list_0_iff)

lemma card_single_bins: "ys \<in> throws n x \<Longrightarrow> card (single_bins n ys) = x \<longleftrightarrow> distinct ys"
proof -
  assume ys: "ys \<in> throws n x"
  then have len: "length ys = x" and sub: "set ys \<subseteq> {..<n}" by (simp_all add: throws_def)
  have in_set: "single_bins n ys \<subseteq> set ys" using count_list_pos [of ys] by (fastforce simp: single_bins_def)
  show ?thesis
  proof
    assume "card (single_bins n ys) = x"
    then have "x \<le> card (set ys)" using card_mono [OF _ in_set] by simp
    then show "distinct ys" using card_length [of ys] len by (intro card_distinct) simp
  next
    assume d: "distinct ys"
    then have "single_bins n ys = set ys" using sub in_set by (auto simp: single_bins_def count_list_distinct)
    then show "card (single_bins n ys) = x" using distinct_card [OF d] len by simp
  qed
qed

lemma distinct_empty_bins: "ys \<in> throws n x \<Longrightarrow> distinct ys \<Longrightarrow> card (empty_bins n ys) = n - x \<and> x \<le> n"
proof -
  assume ys: "ys \<in> throws n x" "distinct ys"
  then have "card (set ys) = x" "set ys \<subseteq> {..<n}" by (simp_all add: throws_def distinct_card)
  moreover have "empty_bins n ys = {..<n} - set ys" by (auto simp: empty_bins_def count_list_0_iff)
  moreover have "card (set ys) \<le> card {..<n}" using \<open>set ys \<subseteq> {..<n}\<close> by (intro card_mono) auto
  ultimately show ?thesis by (simp add: card_Diff_subset)
qed

lemma first_round:
  assumes "0 < x" "x \<le> m" "t \<le> n"
  shows "unresolved m n t x 1 = 1 - (if x \<le> t then of_nat (card {ys \<in> throws n x. distinct ys}) / of_nat n ^ x else 0)"
proof -
  let ?at = "\<lambda>a. {ys \<in> throws n x. card (empty_bins n ys) = a \<and> card (single_bins n ys) = x}"
  have "(\<Sum>a = n - t..n. card (?at a)) = card (\<Union>a\<in>{n - t..n}. ?at a)"
    by (rule card_UN_disjoint [symmetric]) auto
  also have "(\<Union>a\<in>{n - t..n}. ?at a) = (if x \<le> t then {ys \<in> throws n x. distinct ys} else {})"
  proof -
    have "(\<exists>a\<in>{n - t..n}. ys \<in> ?at a) \<longleftrightarrow> x \<le> t \<and> distinct ys" if ys: "ys \<in> throws n x" for ys
    proof (cases "distinct ys")
      case True
      then show ?thesis using ys distinct_empty_bins [OF ys True] card_single_bins [OF ys] assms(3) by auto
    qed (use card_single_bins [OF ys] in simp)
    note here = this
    have "(\<Union>a\<in>{n - t..n}. ?at a) = {ys \<in> throws n x. \<exists>a\<in>{n - t..n}. ys \<in> ?at a}" by auto
    also have "\<dots> = {ys \<in> throws n x. x \<le> t \<and> distinct ys}" by (intro Collect_cong conj_cong refl here)
    finally show ?thesis by simp
  qed
  finally have "(\<Sum>a = n - t..n. occupied n x a x) = (if x \<le> t then card {ys \<in> throws n x. distinct ys} else 0)"
    by (simp add: occupied_def split: if_splits)
  then have sum: "(\<Sum>a = n - t..n. of_nat (occupied n x a x)) = (if x \<le> t then of_nat (card {ys \<in> throws n x. distinct ys}) else (0 :: rat))"
    by (simp flip: of_nat_sum)
  have "after_rounds m n t 0 x 0 = (\<Sum>a = n - t..n. of_nat (occupied n x a x)) / of_nat n ^ x"
    using assms by (simp add: chain_def transition_def left_over_def occupancy_def sum_divide_distrib)
  then show ?thesis by (simp add: unresolved_def sum)
qed

lemma unresolved_step: "0 < k \<Longrightarrow> k < r \<Longrightarrow> 0 < x \<Longrightarrow> x \<le> m \<Longrightarrow> 0 < n \<Longrightarrow> t \<le> n \<Longrightarrow>
    unresolved m n t x (Suc k) = (\<Sum>l = 1..m. after_rounds m n t (k - 1) x l * unresolved m n t l 1)"
proof -
  assume k: "0 < k" "k < r" and x: "0 < x" "x \<le> m" and n: "0 < n" "t \<le> n"
  let ?p = "\<lambda>l. after_rounds m n t (k - 1) x l"
  have "after_rounds m n t k x 0 = (\<Sum>l\<le>m. ?p l * chain m n t l 0)" using k by (cases k) simp_all
  then have "unresolved m n t x (Suc k) = (\<Sum>l\<le>m. ?p l) - (\<Sum>l\<le>m. ?p l * chain m n t l 0)"
    using after_rounds_row [OF n x(2), of "k - 1"] by (simp add: unresolved_def)
  also have "\<dots> = (\<Sum>l\<le>m. ?p l * (1 - chain m n t l 0))" by (simp add: sum_subtractf right_diff_distrib)
  also have "\<dots> = (\<Sum>l = 1..m. ?p l * (1 - chain m n t l 0))"
    by (rule sum.mono_neutral_right) (auto simp: chain_def transition_def Suc_le_eq)
  finally show ?thesis by (simp add: unresolved_def)
qed

end
