(* ===== verification/Matrix_Shapes.thy ===== *)
theory Matrix_Shapes
  imports Params_Matrices
begin

text \<open>
  The matrices of the parameter search are computed without an access out of bounds, whatever the rounding, the
  order of the sums and the values of the distribution: their sizes alone decide it.
\<close>

section \<open>Results with a property\<close>

definition yields :: "('a \<Rightarrow> bool) \<Rightarrow> 's failure + 'a \<Rightarrow> bool" where
  "yields P r \<longleftrightarrow> (\<exists>x. r = Inr x \<and> P x)"

lemma yields_Inr [simp]: "yields P (Inr x) \<longleftrightarrow> P x"
  by (simp add: yields_def)

lemma yields_bind: "yields R r \<Longrightarrow> (\<And>x. R x \<Longrightarrow> yields P (f x)) \<Longrightarrow> yields P (bind_ok r f)"
  by (auto simp: yields_def)

lemma yields_fold:
  assumes "P s" "\<And>x s. x \<in> set xs \<Longrightarrow> P s \<Longrightarrow> yields P (f x s)"
  shows "yields P (fold_ok f xs s)"
  using assms by (induction xs arbitrary: s) (auto intro!: yields_bind [where R = P])

lemma yields_any: "yields P r \<Longrightarrow> yields (\<lambda>_. True) r"
  by (auto simp: yields_def)

section \<open>Sizes\<close>

definition sized :: "nat \<Rightarrow> nat \<Rightarrow> mat \<Rightarrow> bool" where
  "sized r c M \<longleftrightarrow> mat_rows M = r \<and> mat_cols M = c"

lemma sized_zero [simp]: "sized r c (mat_zero r c)"
  by (simp add: sized_def mat_zero_def)

lemma at_sized: "sized r c M \<Longrightarrow> i < r \<Longrightarrow> j < c \<Longrightarrow> yields (\<lambda>_. True) (mat_at M i j)"
  by (simp add: sized_def mat_at_def)

lemma put_sized: "sized r c M \<Longrightarrow> i < r \<Longrightarrow> j < c \<Longrightarrow> yields (sized r c) (mat_put M i j v)"
  by (simp add: sized_def mat_put_def)

lemma block_sized: "sized r c M \<Longrightarrow> i + h \<le> r \<Longrightarrow> j + w \<le> c \<Longrightarrow> yields (sized h w) (mat_block M i j h w)"
  by (simp add: sized_def mat_block_def)

lemma put_block_sized:
  "sized r c M \<Longrightarrow> sized h w B \<Longrightarrow> i + h \<le> r \<Longrightarrow> j + w \<le> c \<Longrightarrow> yields (sized r c) (mat_put_block M i j B)"
  by (simp add: sized_def mat_put_block_def)

lemma times_sized: "sized r k A \<Longrightarrow> sized k c B \<Longrightarrow> sized r c (mat_times fp A B)"
  by (simp add: sized_def mat_times_def)

lemma ones_minus_sized: "sized r c M \<Longrightarrow> sized r c (ones_minus fp M)"
  by (simp add: sized_def ones_minus_def)

definition all_sized :: "nat \<Rightarrow> nat \<Rightarrow> nat \<Rightarrow> mat list \<Rightarrow> bool" where
  "all_sized l r c Ms \<longleftrightarrow> length Ms = l \<and> (\<forall>M \<in> set Ms. sized r c M)"

lemma get_sized: "all_sized l r c Ms \<Longrightarrow> x < l \<Longrightarrow> yields (sized r c) (vec_get Ms x)"
  by (simp add: all_sized_def vec_get_def)

lemma set_sized: "all_sized l r c Ms \<Longrightarrow> x < l \<Longrightarrow> sized r c M \<Longrightarrow> yields (all_sized l r c) (vec_set Ms x M)"
  by (auto simp: all_sized_def vec_set_def dest: set_update_subset_insert [THEN subsetD])

lemma put_in_sized: "all_sized l r c Ms \<Longrightarrow> x < l \<Longrightarrow> i < r \<Longrightarrow> j < c \<Longrightarrow> yields (all_sized l r c) (put_in x i j v Ms)"
  unfolding put_in_def by (auto intro!: yields_bind [OF get_sized] yields_bind [OF put_sized] set_sized)

section \<open>The computation returns\<close>

lemma next_probability_yields:
  assumes "sized (n + 1) (m + 2) prev" "1 \<le> m" "a < n" "1 \<le> b" "b \<le> m + 1"
  shows "yields (\<lambda>_. True) (next_probability fp m n prev a b)"
proof -
  note at = yields_bind [OF at_sized [OF assms(1)]]
  consider "b = 1" | "b = m + 1" "b \<noteq> 1" | "b \<noteq> 1" "b < m + 1" using assms(5) by linarith
  then show ?thesis
    by cases (use assms(2-5) in \<open>auto simp: next_probability_def Let_def intro!: at\<close>)
qed

lemma probability_matrix_sized:
  assumes "1 \<le> m" "m < n" "n < 2 ^ 63"
  shows "yields (all_sized (m + 1) (n + 1) (m + 2)) (computeProbabilityMatrix3D fp m n)"
proof -
  have n: "size_minus n 1 = n - 1" "size_minus n m = n - m" using assms by (simp_all add: size_minus_le)
  have start: "all_sized (m + 1) (n + 1) (m + 2) (replicate (m + 1) (mat_zero (n + 1) (m + 2)))"
    by (simp add: all_sized_def)
  have first: "yields (all_sized (m + 1) (n + 1) (m + 2)) (put_in 1 (n - 1) 2 1 (replicate (m + 1) (mat_zero (n + 1) (m + 2))))"
    by (rule put_in_sized [OF start]) (use assms in simp_all)
  have cell: "yields (all_sized (m + 1) (n + 1) (m + 2)) (bind_ok (vec_get Ms (x - 1)) (\<lambda>prev.
      bind_ok (next_probability fp m n prev a b) (\<lambda>p. put_in x a b p Ms)))"
    if "x \<in> set [2..<m + 1]" "a \<in> set [n - m..<n]" "b \<in> set [1..<x + 2]" "all_sized (m + 1) (n + 1) (m + 2) Ms" for x a b Ms
  proof -
    have "x \<in> {2..<m + 1}" "a \<in> {n - m..<n}" "b \<in> {1..<x + 2}" using that(1-3) by (simp_all only: set_upt)
    then have "x - 1 < m + 1" "x < m + 1" "a < n" "1 \<le> b" "b \<le> m + 1" by auto
    with that(4) assms show ?thesis
      by (auto intro!: yields_bind [OF get_sized] yields_bind [OF next_probability_yields] put_in_sized)
  qed
  show ?thesis
    unfolding computeProbabilityMatrix3D_def n
    by (rule yields_bind [OF first]) (intro yields_fold cell; assumption)
qed

lemma transition_matrix_sized:
  assumes "1 \<le> m" "m < n" "t \<le> n" "n < 2 ^ 63"
  shows "yields (sized (m + 1) (m + 2)) (computeTransitionProbabilityMatrix fp m n t)"
proof -
  have n: "size_minus n t = n - t" using assms by (simp add: size_minus_le)
  have "yields (sized (m + 1) (m + 2)) (bind_ok (fold_ok (\<lambda>i. fold_ok (\<lambda>j m2d.
          bind_ok (vec_get m3d i) (\<lambda>P. bind_ok (mat_block P (n - t) (i - j + 1) (t + 1) 1) (\<lambda>B.
          mat_put m2d i (j + 1) (mat_sum fp B)))) [0..<i + 1]) [1..<m + 1] (mat_zero (m + 1) (m + 2))) (\<lambda>m2d.
     fold_ok (\<lambda>i m2d. bind_ok (mat_block m2d i 1 1 i) (\<lambda>B. mat_put m2d i (i + 1) (rounded fp (1 - mat_sum fp B)))) [t + 1..<m + 1] m2d))"
    if m3d: "all_sized (m + 1) (n + 1) (m + 2) m3d" for m3d
  proof (rule yields_bind [where R = "sized (m + 1) (m + 2)"], goal_cases)
    case 1
    show ?case
    proof ((intro yields_fold sized_zero; assumption?), goal_cases)
      case (1 i s j s')
      then have "i \<in> {1..<m + 1}" "j \<in> {0..<i + 1}" by (simp_all only: set_upt)
      with 1(4) m3d assms show ?case
        by (auto intro!: yields_bind [OF get_sized] yields_bind [OF block_sized] put_sized)
    qed
  next
    case (2 m2d)
    then show ?case
    proof ((intro yields_fold; assumption?), goal_cases)
      case (1 i s)
      then have "i \<in> {t + 1..<m + 1}" by (simp only: set_upt)
      with 1 show ?case by (auto intro!: yields_bind [OF block_sized] put_sized)
    qed
  qed
  then show ?thesis
    unfolding computeTransitionProbabilityMatrix_def n by (rule yields_bind [OF probability_matrix_sized [OF assms(1,2,4)]])
qed

lemma multi_rounds_sized:
  assumes "sized (m + 1) (m + 1) T"
  shows "yields (sized (m + 1) (r + 1)) (multi_rounds fp m r T)"
proof -
  have "yields (\<lambda>(M, P). sized m r M \<and> sized (m + 1) (m + 1) P) (fold_ok (\<lambda>i (mr_m2d, temp).
          bind_ok (mat_block temp 1 0 m 1) (\<lambda>B. bind_ok (mat_put_block mr_m2d 0 i B) (\<lambda>mr'.
          Inr (mr', mat_times fp temp T)))) [0..<r] (mat_zero m r, T))"
  proof (rule yields_fold, goal_cases)
    case (2 i s)
    then have "i < r" by (simp only: set_upt atLeastLessThan_iff)
    with 2 assms show ?case
      by (cases s) (auto intro!: yields_bind [OF block_sized] yields_bind [OF put_block_sized] times_sized)
  qed (use assms in simp)
  then show ?thesis
    unfolding multi_rounds_def by (rule yields_bind) (auto intro!: put_block_sized ones_minus_sized)
qed

lemma multi_round_sized:
  assumes "1 \<le> m" "m < n" "t \<le> n" "n < 2 ^ 63"
  shows "yields (sized (m + 1) (r + 1)) (multi_round_matrix fp m n t r)"
proof -
  have rest: "yields (sized (m + 1) (r + 1)) (bind_ok (mat_block m2d 1 1 m (m + 1)) (\<lambda>B.
     bind_ok (mat_put_block (mat_zero (m + 1) (m + 1)) 1 0 B) (\<lambda>T0.
     bind_ok (mat_put T0 0 0 1) (multi_rounds fp m r))))" if "sized (m + 1) (m + 2) m2d" for m2d
    using that
    by (auto intro!: yields_bind [OF block_sized] yields_bind [OF put_block_sized] yields_bind [OF put_sized] multi_rounds_sized [simplified])
  show ?thesis
    unfolding multi_round_matrix_def by (rule yields_bind [OF transition_matrix_sized [OF assms] rest])
qed

end
