(* ===== verification/Search_Properties.thy ===== *)
theory Search_Properties
  imports Params_Search Params_Properties Matrix_Shapes
begin

text \<open>
  The search for the parameters: what the caches keep is what would be computed; the capacity found for a field
  reaches the target and the one below does not, whatever the rounding; the cost of the parameters is the least
  among those found; and what goes wrong with the cache of results.
\<close>

section \<open>The failure probability\<close>

lemma bound_any: "fail_map h (computeFailureProbabilityBound fp M m n t r) = computeFailureProbabilityBound fp M m n t r"
  by (simp add: computeFailureProbabilityBound_def Let_def fail_map_push case_prod_unfold)

lemma failure_bound_any: "fail_map h (failure_bound fp M d delta m r t c) = failure_bound fp M d delta m r t c"
  by (simp add: failure_bound_def Let_def fail_map_push case_prod_unfold bound_any)

text \<open>Without any cache; the matrix has the elements of a group that can be told apart.\<close>

definition balls_of :: "nat \<Rightarrow> nat" where
  "balls_of n = min MAX_BALLS (n - 1)"

definition failure_value :: "arithmetic \<Rightarrow> nat \<Rightarrow> rat \<Rightarrow> nat \<Rightarrow> nat \<Rightarrow> nat \<Rightarrow> nat \<Rightarrow> number" where
  "failure_value fp d delta n r t c =
     (case bind_ok (multi_round_matrix fp (balls_of n) n t r) (\<lambda>M. failure_bound fp M d delta (balls_of n) r t c) of
        Inl (e :: unit failure) \<Rightarrow> None | Inr p \<Rightarrow> p)"

lemma bound_returns:
  assumes "sized (m + 1) (r + 1) M" "t \<le> m" "k \<le> r"
  shows "yields (\<lambda>_. True) (computeFailureProbabilityBound fp M i c t k)"
  unfolding computeFailureProbabilityBound_def
proof (rule yields_bind [where R = "\<lambda>_. True"], rule yields_fold, goal_cases)
  case (2 x s)
  then have "x < t" by (simp only: set_upt atLeastLessThan_iff)
  with assms show ?case by (auto simp: case_prod_unfold Let_def intro!: yields_bind [OF at_sized [OF assms(1)]])
qed (simp_all add: case_prod_unfold)

lemma failure_bound_returns:
  assumes M: "sized (m + 1) (r + 1) M" and "t \<le> m" "1 \<le> r" "r < 2 ^ 64"
  shows "yields (\<lambda>_. True) (failure_bound fp M d delta m r t c)"
proof -
  have "size_minus r 1 \<le> r" using assms(3,4) by (simp add: size_minus_le)
  note bound = yields_bind [OF bound_returns [OF M assms(2) this]]
  show ?thesis
    unfolding failure_bound_def Let_def
  proof (rule yields_bind [where R = "\<lambda>_. True"], rule yields_fold, goal_cases)
    case (2 x s)
    then have "x < t" by (simp only: set_upt atLeastLessThan_iff)
    with assms(2) show ?case by (auto simp: case_prod_unfold intro!: yields_bind [OF at_sized [OF M]])
  next
    case (3 s)
    show ?case
      by (rule yields_bind [where R = "\<lambda>_. True"], rule yields_fold) (auto simp only: case_prod_unfold intro!: bound, simp_all)
  qed simp
qed

text \<open>What is computed from the matrix, in any state a failure would carry.\<close>

lemma failure_bound_value:
  assumes M: "matrix_of fp (balls_of n, n, t, r) = Some M" and "sized (balls_of n + 1) (r + 1) M"
    and "t \<le> balls_of n" "1 \<le> r" "r < 2 ^ 64"
  shows "failure_bound fp M d delta (balls_of n) r t c = (Inr (failure_value fp d delta n r t c) :: 's failure + number)"
proof -
  obtain p where p: "failure_bound fp M d delta (balls_of n) r t c = (Inr p :: unit failure + number)"
    using failure_bound_returns [OF assms(2-5), of fp d delta c] unfolding yields_def by blast
  then have "fail_map h (failure_bound fp M d delta (balls_of n) r t c :: unit failure + number) = Inr p" for h :: "unit \<Rightarrow> 's"
    by simp
  from this [unfolded failure_bound_any] p show ?thesis
    by (simp add: failure_value_def matrix_of_Inr [OF M])
qed

lemma matrix_exists:
  assumes "3 \<le> n" "n < 2 ^ 63" "t \<le> balls_of n"
  shows "\<exists>M. matrix_of fp (balls_of n, n, t, r) = Some M \<and> sized (balls_of n + 1) (r + 1) M"
proof -
  have "1 \<le> balls_of n" "balls_of n < n" "t \<le> n" using assms by (auto simp: balls_of_def MAX_BALLS_def)
  from multi_round_sized [OF this assms(2), of r fp] obtain M where
    "multi_round_matrix fp (balls_of n) n t r = (Inr M :: unit failure + mat)" "sized (balls_of n + 1) (r + 1) M"
    unfolding yields_def by blast
  then show ?thesis by (simp add: matrix_of_def)
qed

lemma failure_value_exact:
  assumes "exact fp" "3 \<le> n" "n < 2 ^ 63" "t \<le> balls_of n"
  shows "failure_value fp d delta n r t c =
    (case failure_bound fp (unresolved_mat (balls_of n) n t r) d delta (balls_of n) r t c of Inl (e :: unit failure) \<Rightarrow> None | Inr p \<Rightarrow> p)"
proof -
  have "0 < balls_of n" "balls_of n < n" "t \<le> n" using assms by (auto simp: balls_of_def MAX_BALLS_def)
  from multi_round [OF assms(1) this assms(3), where 's = unit] show ?thesis by (simp add: failure_value_def)
qed

definition search_ok :: "'f search_env \<Rightarrow> 'f search_state \<Rightarrow> bool" where
  "search_ok env st \<longleftrightarrow> caches_ok (env_fp env) (env_archives env) (matrix_caches st)"

text \<open>The part of the state the loop does not touch.\<close>

definition results_of :: "'f search_state \<Rightarrow> direct_cache \<times> (string \<Rightarrow> string option)" where
  "results_of st = (getDirectCache st, csv_files st)"

lemma success_ok:
  assumes "\<forall>M. unarchive (env_archives env) (archive (env_archives env) M) = Some M" "search_ok env st"
    and "3 \<le> n" "n < 2 ^ 63" "t \<le> balls_of n" "1 \<le> r" "r < 2 ^ 64"
  shows "\<exists>st'. success env d delta r c n t st =
      Inr (map_option (\<lambda>q. rounded (env_fp env) (1 - q)) (failure_value (env_fp env) d delta n r t c), st') \<and>
    search_ok env st' \<and> results_of st' = results_of st"
proof -
  have min: "min MAX_BALLS (size_minus n 1) = balls_of n" using assms(3,4) by (simp add: balls_of_def size_minus_le)
  obtain M where M: "matrix_of (env_fp env) (balls_of n, n, t, r) = Some M" "sized (balls_of n + 1) (r + 1) M"
    using matrix_exists [OF assms(3-5)] by blast
  obtain cs where cs: "computeMultiRoundProbabilityMatrix (env_fp env) (env_archives env) (balls_of n) n t r (matrix_caches st) = Inr (M, cs)"
    "caches_ok (env_fp env) (env_archives env) cs"
    using cached_matrix_ok [OF _ M(1)] assms(1,2) unfolding search_ok_def by blast
  have "failureProbabilityUB (env_fp env) (env_archives env) d delta n r t c (matrix_caches st) =
      Inr (failure_value (env_fp env) d delta n r t c, cs)"
    unfolding failureProbabilityUB_def Let_def min by (simp add: cs(1) failure_bound_value [OF M assms(5-7)])
  then show ?thesis using cs(2) by (simp add: success_def search_ok_def results_of_def)
qed

section \<open>The binary search\<close>

text \<open>It ends at a capacity that reaches the target above one that does not, the same one from every state.\<close>

lemma halve_finds:
  assumes prob: "\<And>t st. t \<le> cap \<Longrightarrow> ok st \<Longrightarrow> \<exists>st'. prob t st = Inr (v t, st') \<and> ok st' \<and> frame st' = frame st"
    and "lo < hi" "hi \<le> cap" "cap < 2 ^ 64" "\<not> least_of target (v lo)" "least_of target (v hi)"
  shows "\<exists>a. lo \<le> a \<and> a < hi \<and> \<not> least_of target (v a) \<and> least_of target (v (a + 1)) \<and>
    (\<forall>st. ok st \<longrightarrow> (\<exists>st'. halve prob target lo hi st = Some (Inr (a, a + 1, st')) \<and> ok st' \<and> frame st' = frame st))"
  using assms(2-)
proof (induction "hi - lo" arbitrary: lo hi rule: less_induct)
  case less
  have gap: "size_minus hi lo = hi - lo" using less.prems by (simp add: size_minus_le)
  show ?case
  proof (cases "1 < hi - lo")
    case False
    then have "hi = lo + 1" using less.prems(1) by linarith
    moreover from this gap have "halve prob target lo hi st = Some (Inr (lo, lo + 1, st))" for st
      by (subst halve.simps) simp
    ultimately show ?thesis using less.prems by (intro exI [of _ lo]) auto
  next
    case True
    define mid where "mid = lo + (hi - lo) div 2"
    have mid: "lo < mid" "mid < hi" "mid \<le> cap" using True less.prems unfolding mid_def by linarith+
    have wrap: "(lo + size_minus hi lo div 2) mod 2 ^ 64 = mid" unfolding gap mid_def [symmetric] using mid less.prems by (intro mod_less) linarith
    define lo' where "lo' = (if least_of target (v mid) then lo else mid)"
    define hi' where "hi' = (if least_of target (v mid) then mid else hi)"
    have step: "\<exists>st1. halve prob target lo hi st = halve prob target lo' hi' st1 \<and> ok st1 \<and> frame st1 = frame st" if ok: "ok st" for st
    proof -
      obtain st1 where st1: "prob mid st = Inr (v mid, st1)" "ok st1" "frame st1 = frame st" using prob [OF mid(3) ok] by blast
      have "halve prob target lo hi st = halve prob target lo' hi' st1"
        using True unfolding halve.simps [of prob target lo hi st] Let_def wrap lo'_def hi'_def unfolding gap by (simp add: st1(1))
      with st1 show ?thesis by blast
    qed
    have "hi' - lo' < hi - lo" "lo' < hi'" "hi' \<le> cap" "\<not> least_of target (v lo')" "least_of target (v hi')" "lo \<le> lo'" "hi' \<le> hi"
      using mid less.prems by (auto simp: lo'_def hi'_def)
    with less.hyps [of hi' lo'] less.prems(3) obtain a where a: "lo' \<le> a" "a < hi'" "\<not> least_of target (v a)" "least_of target (v (a + 1))"
      "\<forall>st. ok st \<longrightarrow> (\<exists>st'. halve prob target lo' hi' st = Some (Inr (a, a + 1, st')) \<and> ok st' \<and> frame st' = frame st)" by blast
    have "\<exists>st'. halve prob target lo hi st = Some (Inr (a, a + 1, st')) \<and> ok st' \<and> frame st' = frame st" if "ok st" for st
      using step [OF that] a(5) by metis
    with a \<open>lo \<le> lo'\<close> \<open>hi' \<le> hi\<close> show ?thesis by (intro exI [of _ a]) auto
  qed
qed

section \<open>The capacity of a field\<close>

definition success_value :: "arithmetic \<Rightarrow> nat \<Rightarrow> rat \<Rightarrow> nat \<Rightarrow> nat \<Rightarrow> nat \<Rightarrow> nat \<Rightarrow> number" where
  "success_value fp d delta r c i t = map_option (\<lambda>q. rounded fp (1 - q)) (failure_value fp d delta (2 ^ i - 1) r t c)"

definition largest_t :: "arithmetic \<Rightarrow> rat \<Rightarrow> nat \<Rightarrow> nat" where
  "largest_t fp delta i = min MAX_BALLS (min (2 ^ i - 2) (nat \<lceil>rounded fp (5 * delta)\<rceil>))"

definition reaches :: "arithmetic \<Rightarrow> nat \<Rightarrow> rat \<Rightarrow> nat \<Rightarrow> nat \<Rightarrow> rat \<Rightarrow> nat \<Rightarrow> nat \<Rightarrow> bool" where
  "reaches fp d delta r c target i t \<longleftrightarrow> least_of target (success_value fp d delta r c i t)"

text \<open>
  What the search relies on, for any rounding: whole numbers up to the largest cost are \<open>double\<close> numbers, archives
  can be read back, arguments are in range.
\<close>

definition keeps_small :: "arithmetic \<Rightarrow> bool" where
  "keeps_small fp \<longleftrightarrow> (\<forall>n \<le> 2800. rounded fp (of_nat n) = of_nat n)"

definition search_setting :: "'f search_env \<Rightarrow> rat \<Rightarrow> nat \<Rightarrow> bool" where
  "search_setting env delta r \<longleftrightarrow>
     keeps_small (env_fp env) \<and> (\<forall>M. unarchive (env_archives env) (archive (env_archives env) M) = Some M) \<and>
     14 < \<lceil>rounded (env_fp env) (5 * delta)\<rceil> \<and> \<lceil>rounded (env_fp env) (5 * delta)\<rceil> < 2 ^ 64 \<and> 1 \<le> r \<and> r < 2 ^ 64"

lemma exact_keeps_small: "exact fp \<Longrightarrow> keeps_small fp"
  by (simp add: exact_def keeps_small_def)

text \<open>The capacity chosen for a field, if any: one that reaches the target, the one below it not.\<close>

fun chosen :: "(nat \<Rightarrow> bool) \<Rightarrow> nat \<Rightarrow> nat \<Rightarrow> nat option \<Rightarrow> bool" where
  "chosen reach lo hi None \<longleftrightarrow> \<not> reach lo \<and> \<not> reach hi"
| "chosen reach lo hi (Some t) \<longleftrightarrow> lo \<le> t \<and> t \<le> hi \<and> reach t \<and> (t = lo \<or> \<not> reach (t - 1))"

lemma search_sizes:
  assumes "6 \<le> i" "i \<le> 14" "14 < \<lceil>rounded fp (5 * delta)\<rceil>"
  shows "i < largest_t fp delta i" "largest_t fp delta i \<le> balls_of (2 ^ i - 1)" "3 \<le> (2 ^ i - 1 :: nat)" "(2 ^ i - 1 :: nat) < 2 ^ 63"
    "largest_t fp delta i < 2 ^ 64" "size_minus (2 ^ i) 2 = 2 ^ i - 2"
proof -
  have "i \<in> {6, 7, 8, 9, 10, 11, 12, 13, 14}" using assms(1,2) by auto
  moreover have "14 < nat \<lceil>rounded fp (5 * delta)\<rceil>" using assms(3) by linarith
  ultimately show "i < largest_t fp delta i" "largest_t fp delta i \<le> balls_of (2 ^ i - 1)" "3 \<le> (2 ^ i - 1 :: nat)" "(2 ^ i - 1 :: nat) < 2 ^ 63"
    "largest_t fp delta i < 2 ^ 64" "size_minus (2 ^ i) 2 = 2 ^ i - 2"
    by (auto simp: largest_t_def balls_of_def MAX_BALLS_def size_minus_def)
qed

lemma cast_ceiling:
  assumes "0 \<le> k" "k < 2 ^ 64"
  shows "\<exists>w. cast_u64 (Finite (of_int k)) = (Inr w :: 's failure + u64) \<and> unat w = nat k"
proof -
  have "(of_int k :: rat) < of_int (2 ^ 64)" using assms(2) by (simp only: of_int_less_iff)
  then have "cast_u64 (Finite (of_int k)) = (Inr (of_int k) :: 's failure + u64)" using assms(1) by (simp add: cast_u64_def)
  moreover have "unat (of_int k :: u64) = nat k"
    using unat_of_nat_u64 [of "nat k"] assms by (simp add: nat_less_iff)
  ultimately show ?thesis by simp
qed

text \<open>What one turn of the loop makes of the best candidate, by the capacity chosen.\<close>

definition with_choice :: "'f search_env \<Rightarrow> (nat \<Rightarrow> nat \<Rightarrow> number) \<Rightarrow> (nat \<Rightarrow> nat option) \<Rightarrow> nat \<Rightarrow> candidate \<Rightarrow> candidate" where
  "with_choice env v ch i best = (case ch i of None \<Rightarrow> best | Some t \<Rightarrow> offer env i t (v i t) best)"

lemma try_m_ok:
  assumes setting: "search_setting env delta r" and i: "6 \<le> i" "i \<le> 14"
  shows "\<exists>ch. chosen (reaches (env_fp env) d delta r c target i) i (largest_t (env_fp env) delta i) ch \<and>
    (\<forall>best st. search_ok env st \<longrightarrow> (\<exists>st'. try_m env d delta r c target i (best, st) =
      Inr (with_choice env (success_value (env_fp env) d delta r c) (\<lambda>_. ch) i best, st') \<and>
      search_ok env st' \<and> results_of st' = results_of st))"
proof -
  let ?v = "success_value (env_fp env) d delta r c i" and ?prob = "success env d delta r c (2 ^ i - 1)"
  let ?hi = "largest_t (env_fp env) delta i"
  have set: "\<forall>M. unarchive (env_archives env) (archive (env_archives env) M) = Some M"
    "14 < \<lceil>rounded (env_fp env) (5 * delta)\<rceil>" "\<lceil>rounded (env_fp env) (5 * delta)\<rceil> < 2 ^ 64" "1 \<le> r" "r < 2 ^ 64"
    using setting by (simp_all add: search_setting_def)
  note sizes = search_sizes [OF i set(2)]
  have prob: "\<exists>s'. ?prob t s = Inr (?v t, s') \<and> search_ok env s' \<and> results_of s' = results_of s" if "t \<le> ?hi" "search_ok env s" for t s
    using success_ok [OF set(1) that(2) sizes(3,4) le_trans [OF that(1) sizes(2)] set(4,5)]
    unfolding success_value_def by blast
  obtain w where w: "cast_u64 (Finite (of_int \<lceil>rounded (env_fp env) (5 * delta)\<rceil>)) = (Inr w :: 'a search_state failure + u64)"
    "min MAX_BALLS (min (size_minus (2 ^ i) 2) (unat w)) = ?hi"
    using cast_ceiling [of "\<lceil>rounded (env_fp env) (5 * delta)\<rceil>", where 's = "'a search_state"] set unfolding sizes(6) by (auto simp: largest_t_def)
  have ends: "\<exists>st1 st2. ?prob i st = Inr (?v i, st1) \<and> ?prob ?hi st1 = Inr (?v ?hi, st2) \<and> search_ok env st2 \<and> results_of st2 = results_of st"
    if "search_ok env st" for st
    using prob [of i st] prob [of ?hi] sizes(1) that by (metis less_imp_le order_refl)
  note run = try_m_def case_prod_conv w(1) bind_ok_Inr Let_def w(2) with_choice_def
  consider (low) "least_of target (?v i)" | (none) "\<not> least_of target (?v i)" "\<not> least_of target (?v ?hi)"
    | (search) "\<not> least_of target (?v i)" "least_of target (?v ?hi)" by blast
  then show ?thesis
  proof cases
    case low
    then show ?thesis using sizes(1) ends unfolding run by (intro exI [of _ "Some i"]) (fastforce simp: reaches_def)
  next
    case none
    then show ?thesis using ends unfolding run by (intro exI [of _ None]) (fastforce simp: reaches_def)
  next
    case search
    obtain a where a: "i \<le> a" "a < ?hi" "\<not> least_of target (?v a)" "least_of target (?v (a + 1))"
      "\<forall>st. search_ok env st \<longrightarrow> (\<exists>st'. halve ?prob target i ?hi st = Some (Inr (a, a + 1, st')) \<and> search_ok env st' \<and> results_of st' = results_of st)"
      using halve_finds [where ok = "search_ok env" and frame = results_of and prob = ?prob and v = ?v and cap = ?hi,
          OF prob sizes(1) order_refl sizes(5) search] by blast
    have "\<exists>st'. try_m env d delta r c target i (best, st) = Inr (offer env i (a + 1) (?v (a + 1)) best, st') \<and>
        search_ok env st' \<and> results_of st' = results_of st" if ok: "search_ok env st" for best st
    proof -
      obtain st1 st2 where st2: "?prob i st = Inr (?v i, st1)" "?prob ?hi st1 = Inr (?v ?hi, st2)" "search_ok env st2" "results_of st2 = results_of st"
        using ends [OF ok] by blast
      obtain st3 where st3: "halve ?prob target i ?hi st2 = Some (Inr (a, a + 1, st3))" "search_ok env st3" "results_of st3 = results_of st2"
        using a(5) st2(3) by blast
      obtain st4 where st4: "?prob a st3 = Inr (?v a, st4)" "search_ok env st4" "results_of st4 = results_of st3" using prob [of a st3] a(2) st3(2) by auto
      obtain st5 where st5: "?prob (a + 1) st4 = Inr (?v (a + 1), st5)" "search_ok env st5" "results_of st5 = results_of st4"
        using prob [of "a + 1" st4] a(2) st4(2) by auto
      have "try_m env d delta r c target i (best, st) = Inr (offer env i (a + 1) (?v (a + 1)) best, st5)"
        unfolding run by (simp only: search a(3,4) st2(1,2) st3(1) if_True if_False returns_simps bind_ok_Inr case_prod_conv st4(1) st5(1))
      with st2 st3 st4 st5 show ?thesis by simp
    qed
    then show ?thesis
      using search a(1-4) by (intro exI [of _ "Some (a + 1)"]) (simp add: reaches_def with_choice_def)
  qed
qed

section \<open>The least cost\<close>

abbreviation no_candidate :: candidate where
  "no_candidate \<equiv> \<lparr>best_cost = double_max, best_m = 1, best_t = 1, failure_prob_ub = Some (-1)\<rparr>"

text \<open>The least cost among the capacities chosen for the fields tried so far.\<close>

definition best_so_far :: "'f search_env \<Rightarrow> (nat \<Rightarrow> nat \<Rightarrow> number) \<Rightarrow> (nat \<Rightarrow> nat option) \<Rightarrow> nat set \<Rightarrow> candidate \<Rightarrow> bool" where
  "best_so_far env v ch tried b \<longleftrightarrow>
     (\<forall>i\<in>tried. \<forall>t. ch i = Some t \<longrightarrow> best_cost b \<le> of_nat (t * i)) \<and>
     (b = no_candidate \<or>
      best_m b \<in> tried \<and> ch (best_m b) = Some (best_t b) \<and> best_cost b = of_nat (best_t b * best_m b) \<and>
      failure_prob_ub b = map_option (\<lambda>q. rounded (env_fp env) (1 - q)) (v (best_m b) (best_t b)))"

lemma chosen_least:
  assumes "chosen reach lo hi ch" "\<forall>t t'. lo \<le> t \<longrightarrow> t \<le> t' \<longrightarrow> t' \<le> hi \<longrightarrow> reach t \<longrightarrow> reach t'" "t \<in> {lo..hi}" "reach t"
  shows "\<exists>a. ch = Some a \<and> a \<le> t"
proof (cases ch)
  case None
  then have "\<not> reach hi" using assms(1) by simp
  with assms(2) [rule_format, of t hi] assms(3,4) show ?thesis by simp
next
  case (Some a)
  then have a: "lo \<le> a" "a \<le> hi" "a = lo \<or> \<not> reach (a - 1)" using assms(1) by auto
  have "a \<le> t"
  proof (rule ccontr)
    assume "\<not> a \<le> t"
    then have "t \<le> a - 1" "\<not> reach (a - 1)" using a(3) assms(3) by auto
    with assms(2) [rule_format, of t "a - 1"] assms(3,4) a(2) show False by simp
  qed
  with Some show ?thesis by simp
qed

text \<open>Costs of candidates are not rounded, and below the largest \<open>double\<close>.\<close>

lemma candidate_cost:
  assumes "i \<le> 14" "t \<le> largest_t fp delta i"
  shows "t * i \<le> 2800" "t \<le> 200" "(of_nat (t * i) :: rat) < double_max"
proof -
  show t: "t \<le> 200" using assms(2) by (simp add: largest_t_def MAX_BALLS_def)
  then show n: "t * i \<le> 2800" using mult_le_mono [OF t assms(1)] by simp
  have "(of_nat (t * i) :: rat) \<le> of_nat 2800" using n unfolding of_nat_le_iff .
  also have "\<dots> < double_max" by (simp add: double_max_def)
  finally show "(of_nat (t * i) :: rat) < double_max" .
qed

lemma offer_value:
  assumes "keeps_small (env_fp env)" "i \<le> 14" "t \<le> largest_t (env_fp env) delta i"
  shows "offer env i t p b = (if of_nat (t * i) < best_cost b
    then \<lparr>best_cost = of_nat (t * i), best_m = i, best_t = t, failure_prob_ub = map_option (\<lambda>q. rounded (env_fp env) (1 - q)) p\<rparr> else b)"
proof -
  have keep: "rounded (env_fp env) (of_nat n) = of_nat n" if "n \<le> 2800" for n
    using assms(1) that by (simp add: keeps_small_def)
  have "t \<le> 2800" "i \<le> 2800" using candidate_cost(2) [OF assms(2,3)] assms(2) by simp_all
  with keep [OF candidate_cost(1) [OF assms(2,3)]] show ?thesis by (simp add: offer_def keep flip: of_nat_mult)
qed

lemma best_so_far_step:
  assumes "best_so_far env v ch tried b" "keeps_small (env_fp env)" "i \<le> 14" "\<And>t. ch i = Some t \<Longrightarrow> t \<le> largest_t (env_fp env) delta i"
  shows "best_so_far env v ch (insert i tried) (with_choice env v ch i b)"
proof (cases "ch i")
  case None
  with assms(1) show ?thesis unfolding best_so_far_def with_choice_def by auto
next
  case (Some a)
  note new = offer_value [OF assms(2,3) assms(4) [OF Some], of "v i a" b]
  show ?thesis
  proof (cases "of_nat (a * i) < best_cost b")
    case True
    then have "of_nat (a * i) \<le> (of_nat (t * j) :: rat)" if "j \<in> insert i tried" "ch j = Some t" for j t
      using that assms(1) Some unfolding best_so_far_def by fastforce
    with True show ?thesis unfolding with_choice_def Some option.case new best_so_far_def by (simp add: Some)
  next
    case False
    then have "best_cost b \<le> of_nat (t * j)" if "j \<in> insert i tried" "ch j = Some t" for j t
      using that assms(1) Some unfolding best_so_far_def by fastforce
    with False assms(1) show ?thesis
      unfolding with_choice_def Some option.case new if_not_P [OF False] best_so_far_def by blast
  qed
qed

lemma search_loop:
  assumes setting: "search_setting env delta r"
  shows "\<exists>ch b. (\<forall>i\<in>{6..14}. chosen (reaches (env_fp env) d delta r c target i) i (largest_t (env_fp env) delta i) (ch i)) \<and>
    best_so_far env (success_value (env_fp env) d delta r c) ch {6..14} b \<and>
    (\<forall>st. search_ok env st \<longrightarrow> (\<exists>st'. fold_ok (try_m env d delta r c target) [M_MIN..<M_MAX + 1] (no_candidate, st) = Inr (b, st') \<and>
      search_ok env st' \<and> results_of st' = results_of st))"
proof -
  let ?v = "success_value (env_fp env) d delta r c" and ?is = "[M_MIN..<M_MAX + 1]"
  have range: "set ?is = {6..14}" unfolding set_upt M_MIN_def M_MAX_def by auto
  define ok where "ok = (\<lambda>i ch. chosen (reaches (env_fp env) d delta r c target i) i (largest_t (env_fp env) delta i) ch \<and>
    (\<forall>best st. search_ok env st \<longrightarrow> (\<exists>st'. try_m env d delta r c target i (best, st) =
      Inr (with_choice env ?v (\<lambda>_. ch) i best, st') \<and> search_ok env st' \<and> results_of st' = results_of st)))"
  have "\<forall>i\<in>{6..14}. \<exists>ch. ok i ch" unfolding ok_def using try_m_ok [OF setting] by simp
  then have "\<exists>ch. \<forall>i\<in>{6..14}. ok i (ch i)" by (rule bchoice)
  then obtain ch where ok: "\<forall>i\<in>{6..14}. ok i (ch i)" ..
  then have ch: "\<forall>i\<in>{6..14}. chosen (reaches (env_fp env) d delta r c target i) i (largest_t (env_fp env) delta i) (ch i)"
    by (simp add: ok_def)
  have turn: "\<exists>st'. try_m env d delta r c target i (best, st) =
      Inr (with_choice env ?v ch i best, st') \<and> search_ok env st' \<and> results_of st' = results_of st"
    if "i \<in> {6..14}" "search_ok env st" for i best st
    using ok that unfolding ok_def with_choice_def by blast
  define b where "b = fold (with_choice env ?v ch) ?is no_candidate"
  have run: "\<exists>st'. fold_ok (try_m env d delta r c target) is (b0, st) = Inr (fold (with_choice env ?v ch) is b0, st') \<and>
      search_ok env st' \<and> results_of st' = results_of st" if "set is \<subseteq> {6..14}" "search_ok env st" for "is" b0 st
    using that
  proof (induction "is" arbitrary: b0 st)
    case (Cons i "is")
    then obtain st1 where st1: "try_m env d delta r c target i (b0, st) = Inr (with_choice env ?v ch i b0, st1)" "search_ok env st1" "results_of st1 = results_of st"
      using turn [of i st b0] by auto
    with Cons.IH [of st1 "with_choice env ?v ch i b0"] Cons.prems(1) show ?case by simp
  qed simp
  have "best_so_far env ?v ch (set is \<union> tried) (fold (with_choice env ?v ch) is b0)"
    if "set is \<subseteq> {6..14}" "best_so_far env ?v ch tried b0" for "is" tried b0
    using that
  proof (induction "is" arbitrary: tried b0)
    case (Cons i "is")
    then have i: "i \<in> {6..14}" by simp
    with ch have "t \<le> largest_t (env_fp env) delta i" if "ch i = Some t" for t using that by fastforce
    then have "best_so_far env ?v ch (insert i tried) (with_choice env ?v ch i b0)"
      using i setting by (intro best_so_far_step [OF Cons.prems(2)]) (simp_all add: search_setting_def)
    from Cons.IH [OF _ this] Cons.prems(1) show ?case by simp
  qed simp
  from this [of ?is "{}" no_candidate] have "best_so_far env ?v ch {6..14} b"
    unfolding b_def range by (simp add: best_so_far_def)
  with ch run [of ?is _ no_candidate] show ?thesis unfolding b_def range by blast
qed

text \<open>A capacity that is enough stays enough when it grows.\<close>

definition monotone_in_t :: "(nat \<Rightarrow> nat \<Rightarrow> bool) \<Rightarrow> (nat \<Rightarrow> nat) \<Rightarrow> bool" where
  "monotone_in_t reach hi \<longleftrightarrow> (\<forall>i\<in>{6..14}. \<forall>t t'. i \<le> t \<longrightarrow> t \<le> t' \<longrightarrow> t' \<le> hi i \<longrightarrow> reach i t \<longrightarrow> reach i t')"

text \<open>What the loop ends with, for the capacities chosen.\<close>

lemma best_so_far_least:
  assumes best: "best_so_far env v ch {6..14} b" and ch: "\<forall>i\<in>{6..14}. chosen (reach i) i (largest_t fp delta i) (ch i)"
  shows "if \<exists>i\<in>{6..14}. ch i \<noteq> None
     then best_m b \<in> {6..14} \<and> ch (best_m b) = Some (best_t b) \<and>
       failure_prob_ub b = map_option (\<lambda>q. rounded (env_fp env) (1 - q)) (v (best_m b) (best_t b)) \<and>
       (\<forall>i\<in>{6..14}. \<forall>t. ch i = Some t \<longrightarrow> best_t b * best_m b \<le> t * i)
     else best_m b = 1 \<and> best_t b = 1 \<and> failure_prob_ub b = Some (-1)"
proof (cases "b = no_candidate")
  case True
  have "ch i = None" if "i \<in> {6..14}" for i
  proof (rule ccontr)
    assume "ch i \<noteq> None"
    then obtain t where t: "ch i = Some t" by blast
    with ch that have "t \<le> largest_t fp delta i" by fastforce
    with candidate_cost(3) [of i t fp delta] that best t True show False unfolding best_so_far_def by fastforce
  qed
  with True show ?thesis by simp
next
  case False
  with best have f: "best_m b \<in> {6..14}" "ch (best_m b) = Some (best_t b)" "best_cost b = of_nat (best_t b * best_m b)"
    "failure_prob_ub b = map_option (\<lambda>q. rounded (env_fp env) (1 - q)) (v (best_m b) (best_t b))"
    "\<forall>i\<in>{6..14}. \<forall>t. ch i = Some t \<longrightarrow> best_cost b \<le> of_nat (t * i)"
    unfolding best_so_far_def by blast+
  have "\<forall>i\<in>{6..14}. \<forall>t. ch i = Some t \<longrightarrow> best_t b * best_m b \<le> t * i"
    using f(5) unfolding f(3) of_nat_le_iff .
  moreover have "\<exists>i\<in>{6..14}. ch i \<noteq> None" using f(1,2) by (intro bexI [of _ "best_m b"]) simp_all
  ultimately show ?thesis unfolding if_P using f(1,2,4) by simp
qed

section \<open>Reading the results back\<close>

definition short_entry :: "(rat \<Rightarrow> rat) \<Rightarrow> nat \<times> search_result \<Rightarrow> nat \<times> search_result" where
  "short_entry short = (\<lambda>(d, m, t, p). (d, m, t, map_option short p))"

text \<open>
  What printing and reading promise: a number is read back, up to its digits, and does not start with a space.
  Nothing is promised for what is not a number.
\<close>

definition prints_back :: "'f search_env \<Rightarrow> (rat \<Rightarrow> rat) \<Rightarrow> bool" where
  "prints_back env short \<longleftrightarrow>
     (\<forall>q rest. scan_number env (print_number env (Some q) @ CHR 0x0A # rest) = (Some (Some (short q)), CHR 0x0A # rest)) \<and>
     (\<forall>q. print_number env (Some q) \<noteq> [] \<and> \<not> is_space (hd (print_number env (Some q))))"

text \<open>A result whose sizes fit their type and whose probability is a number, as those of the search are.\<close>

definition printable :: "nat \<times> search_result \<Rightarrow> bool" where
  "printable = (\<lambda>(d, m, t, p). d < 2 ^ 64 \<and> m < 2 ^ 64 \<and> t < 2 ^ 64 \<and> p \<noteq> None)"

lemma decimal_digits: "c \<in> set (decimal n) \<Longrightarrow> is_digit c"
  using decimal_chars [of c n] by (auto simp: is_digit_def)

lemma decimal_nonempty: "decimal n \<noteq> []"
  by (subst decimal.simps) simp

lemma digit_plain: "is_digit c \<Longrightarrow> \<not> is_space c \<and> c \<noteq> CHR ''-'' \<and> c \<noteq> CHR ''+''"
  by (auto simp: is_digit_def is_space_def)

lemma sentry_skips:
  assumes "\<forall>c\<in>set ws. is_space c" "xs \<noteq> []" "\<not> is_space (hd xs)"
  shows "sentry \<lparr>left = ws @ xs, at_eof = False, failed = False\<rparr> = \<lparr>left = xs, at_eof = False, failed = False\<rparr>"
proof -
  have "dropWhile is_space (ws @ xs) = xs" using assms by (cases xs) (simp_all add: dropWhile_append2)
  then show ?thesis using assms(2) by (simp add: sentry_def)
qed

lemma extract_decimal:
  assumes "\<forall>c\<in>set ws. is_space c" "n < 2 ^ 64"
  shows "extract_size old \<lparr>left = ws @ decimal n @ CHR '' '' # rest, at_eof = False, failed = False\<rparr> =
    (n, \<lparr>left = CHR '' '' # rest, at_eof = False, failed = False\<rparr>)"
proof -
  have hd: "is_digit (hd (decimal n))" using decimal_digits [of "hd (decimal n)" n] decimal_nonempty [of n] by simp
  have "sentry \<lparr>left = ws @ decimal n @ CHR '' '' # rest, at_eof = False, failed = False\<rparr> =
      \<lparr>left = decimal n @ CHR '' '' # rest, at_eof = False, failed = False\<rparr>"
    using digit_plain [OF hd] decimal_nonempty [of n] by (intro sentry_skips assms(1)) auto
  moreover have "\<not> is_digit (CHR '' '')" by (simp add: is_digit_def)
  then have "takeWhile is_digit (decimal n @ CHR '' '' # rest) = decimal n" "dropWhile is_digit (decimal n @ CHR '' '' # rest) = CHR '' '' # rest"
    using decimal_digits [of _ n] by (simp_all add: takeWhile_append2 dropWhile_append2)
  ultimately show ?thesis
    using digit_plain [OF hd] decimal_nonempty [of n] assms(2) numeral_decimal [of n] by (simp add: extract_size_def)
qed

lemma read_line:
  assumes "prints_back env short" "printable e" "\<forall>c\<in>set ws. is_space c"
  shows "read_entry env \<lparr>left = ws @ csv_line env e @ rest, at_eof = False, failed = False\<rparr> =
    (short_entry short e, \<lparr>left = new_line @ rest, at_eof = False, failed = False\<rparr>)"
proof -
  obtain d m t p where e: "e = (d, m, t, p)" by (cases e)
  obtain d0 m0 t0 p0 where u: "unread env = (d0, m0, t0, p0)" by (cases "unread env")
  have fits: "d < 2 ^ 64" "m < 2 ^ 64" "t < 2 ^ 64" "p \<noteq> None" using assms(2) by (simp_all add: e printable_def)
  have sp: "\<forall>c\<in>set [CHR '' '']. is_space c" by (simp add: is_space_def)
  have p: "scan_number env (print_number env p @ CHR 0x0A # rest) = (Some (map_option short p), CHR 0x0A # rest)"
    "print_number env p \<noteq> []" "\<not> is_space (hd (print_number env p))"
    using assms(1) fits(4) by (auto simp: prints_back_def)
  have "sentry \<lparr>left = CHR '' '' # print_number env p @ CHR 0x0A # rest, at_eof = False, failed = False\<rparr> =
      \<lparr>left = print_number env p @ CHR 0x0A # rest, at_eof = False, failed = False\<rparr>"
    using sentry_skips [OF sp, of "print_number env p @ CHR 0x0A # rest"] p(2,3) by simp
  then have "extract_double env p0 \<lparr>left = CHR '' '' # print_number env p @ CHR 0x0A # rest, at_eof = False, failed = False\<rparr> =
      (map_option short p, \<lparr>left = CHR 0x0A # rest, at_eof = False, failed = False\<rparr>)"
    by (simp add: extract_double_def p(1))
  moreover note extract_decimal [OF assms(3) fits(1), of d0 "decimal m @ '' '' @ decimal t @ '' '' @ print_number env p @ new_line @ rest"]
    extract_decimal [OF sp fits(2), of m0 "decimal t @ '' '' @ print_number env p @ new_line @ rest"]
    extract_decimal [OF sp fits(3), of t0 "print_number env p @ new_line @ rest"]
  ultimately show ?thesis
    by (simp add: read_entry_def u e csv_line_def short_entry_def new_line_def)
qed

lemma read_at_end:
  assumes "\<forall>c\<in>set ws. is_space c"
  shows "read_entry env \<lparr>left = ws, at_eof = False, failed = False\<rparr> = (unread env, \<lparr>left = [], at_eof = True, failed = True\<rparr>)"
proof -
  obtain d0 m0 t0 p0 where u: "unread env = (d0, m0, t0, p0)" by (cases "unread env")
  have "dropWhile is_space ws = []" using assms by simp
  then show ?thesis by (simp add: read_entry_def u extract_size_def extract_double_def sentry_def)
qed

lemma load_lines:
  assumes "prints_back env short" "\<forall>e\<in>set es. printable e" "\<forall>c\<in>set ws. is_space c"
    and "oh_good hash_size k t" "k + length es < oh_limit"
  shows "\<exists>t'. load_loop env \<lparr>left = ws @ concat (map (csv_line env) es), at_eof = False, failed = False\<rparr> t = Some (Inr t') \<and>
    oh_good hash_size (Suc (k + length es)) t' \<and> m_values t' = fold dict_insert (map (short_entry short) es @ [unread env]) (m_values t)"
  using assms(2-)
proof (induction es arbitrary: ws k t)
  case Nil
  then obtain t' where "oh_insert hash_size (fst (unread env)) (snd (unread env)) t = Inr (fst (unread env) \<notin> keys_of (m_values t), t')"
    "oh_good hash_size (Suc k) t'" "m_values t' = dict_insert (unread env) (m_values t)"
    using omap.ins_law [OF Nil.prems(3), of "fst (unread env)" "snd (unread env)"] by auto
  then show ?case using Nil.prems(2)
    by (subst load_loop.simps) (simp add: read_at_end, subst load_loop.simps, simp)
next
  case (Cons e es)
  have e: "printable e" "\<forall>e\<in>set es. printable e" using Cons.prems(1) by simp_all
  let ?e = "short_entry short e"
  obtain t1 where t1: "oh_insert hash_size (fst ?e) (snd ?e) t = Inr (fst ?e \<notin> keys_of (m_values t), t1)"
    "oh_good hash_size (Suc k) t1" "m_values t1 = dict_insert ?e (m_values t)"
    using omap.ins_law [OF Cons.prems(3), of "fst ?e" "snd ?e"] Cons.prems(4) by auto
  have "\<forall>c\<in>set new_line. is_space c" by (simp add: new_line_def is_space_def)
  from Cons.IH [OF e(2) this t1(2)] Cons.prems(4) obtain t' where
    t': "load_loop env \<lparr>left = new_line @ concat (map (csv_line env) es), at_eof = False, failed = False\<rparr> t1 = Some (Inr t')"
    "oh_good hash_size (Suc (Suc k + length es)) t'"
    "m_values t' = fold dict_insert (map (short_entry short) es @ [unread env]) (m_values t1)" by auto
  have "load_loop env \<lparr>left = ws @ concat (map (csv_line env) (e # es)), at_eof = False, failed = False\<rparr> t = Some (Inr t')"
    using read_line [OF assms(1) e(1) Cons.prems(2), of "concat (map (csv_line env) es)"] t1(1) t'(1)
    by (subst load_loop.simps) simp
  then show ?case using t'(2,3) t1(3) by simp
qed

section \<open>Properties\<close>

text \<open>C9. The matrices are those of the events they are named after: with exact arithmetic, and fewer balls than
  bins, the cell \<open>(a, s + 1)\<close> of the matrix of \<open>x\<close> balls is the share of the throws of \<open>x\<close> balls into \<open>n\<close>
  bins that leave \<open>a\<close> bins empty and \<open>s\<close> bins with a single ball; no cell is read or written out of bounds.\<close>

theorem occupancy_probabilities:
  assumes "exact fp" "0 < m" "m < n" "n < 2 ^ 63"
  shows "\<exists>m3d. computeProbabilityMatrix3D fp m n = (Inr m3d :: unit failure + mat list) \<and> length m3d = m + 1 \<and>
    (\<forall>x\<in>{1..m}. \<forall>a s. coeff (m3d ! x) a (s + 1) =
       of_nat (card {ys. length ys = x \<and> set ys \<subseteq> {..<n} \<and> card {i. i < n \<and> count_list ys i = 0} = a \<and>
         card {i. i < n \<and> count_list ys i = 1} = s}) / of_nat n ^ x)"
proof -
  have "coeff (occupancy_mats m n m ! x) a (s + 1) =
      of_nat (card {ys. length ys = x \<and> set ys \<subseteq> {..<n} \<and> card {i. i < n \<and> count_list ys i = 0} = a \<and>
        card {i. i < n \<and> count_list ys i = 1} = s}) / of_nat n ^ x" if "x \<in> {1..m}" for x a s
    using that by (simp add: nth_occupancy_mats occupancy_mat_def occupancy_def occupied_def throws_def empty_bins_def
        single_bins_def conj_ac)
  then show ?thesis using probability_matrix [OF assms] length_occupancy_mats [of m m n] by blast
qed

text \<open>An arithmetic in which every group is empty and every power is one.\<close>

definition demo_arithmetic :: arithmetic where
  "demo_arithmetic = \<lparr>rounded = (\<lambda>x. x), summed = sum_list, dbinom = (\<lambda>_ _ _. 0), power_of = (\<lambda>_ _. Some 1)\<rparr>"

lemma demo_exact: "exact demo_arithmetic"
  by (simp add: exact_def demo_arithmetic_def)

theorem occupancy_probabilities_witness:
  "\<exists>m3d. computeProbabilityMatrix3D demo_arithmetic 2 3 = (Inr m3d :: unit failure + mat list) \<and> length m3d = 2 + 1 \<and>
    (\<forall>x\<in>{1..2}. \<forall>a s. coeff (m3d ! x) a (s + 1) =
       of_nat (card {ys. length ys = x \<and> set ys \<subseteq> {..<3 :: nat} \<and> card {i. i < 3 \<and> count_list ys i = 0} = a \<and>
         card {i. i < 3 \<and> count_list ys i = 1} = s}) / of_nat 3 ^ x)"
  by (rule occupancy_probabilities [OF demo_exact]) simp_all

text \<open>C11. With exact arithmetic, the matrix over several rounds holds probabilities that get smaller: the chance that some of \<open>x\<close> elements
  are left over after \<open>k\<close> rounds lies between 0 and 1, and does not grow with \<open>k\<close>; after one round it is the
  share of the throws in which two of the elements share a bin, or 1 when there are more than \<open>t\<close> elements.\<close>

theorem left_over_probabilities:
  assumes "exact fp" "0 < m" "m < n" "t \<le> n" "n < 2 ^ 63"
  shows "\<exists>M. multi_round_matrix fp m n t r = (Inr M :: unit failure + mat) \<and>
    (\<forall>x\<in>{1..m}. \<forall>k\<in>{1..r}. 0 \<le> coeff M x k \<and> coeff M x k \<le> 1 \<and> (k < r \<longrightarrow> coeff M x (k + 1) \<le> coeff M x k) \<and>
       coeff M x 1 = 1 - (if x \<le> t then of_nat (card {ys. length ys = x \<and> set ys \<subseteq> {..<n} \<and> distinct ys}) / of_nat n ^ x else 0))"
proof -
  have "coeff (unresolved_mat m n t r) x k = unresolved m n t x k" if "x \<in> {1..m}" "k \<in> {1..r}" for x k
    using that by (simp add: unresolved_mat_def cells_def)
  moreover have "unresolved m n t x (Suc k) \<le> unresolved m n t x k" if "1 \<le> k" for x k
    using unresolved_antimono [of n m t x "k - 1"] that assms(2,3) by (cases k) simp_all
  moreover note multi_round [OF assms, of r] unresolved_bounds [of n t _ m] assms(3,4) first_round [of _ m t n]
  ultimately show ?thesis by (intro exI [of _ "unresolved_mat m n t r"]) (auto simp: throws_def)
qed

theorem left_over_probabilities_witness:
  "\<exists>M. multi_round_matrix demo_arithmetic 2 3 2 3 = (Inr M :: unit failure + mat) \<and>
    (\<forall>x\<in>{1..2}. \<forall>k\<in>{1..3}. 0 \<le> coeff M x k \<and> coeff M x k \<le> 1 \<and> (k < 3 \<longrightarrow> coeff M x (k + 1) \<le> coeff M x k) \<and>
       coeff M x 1 = 1 - (if x \<le> 2 then of_nat (card {ys. length ys = x \<and> set ys \<subseteq> {..<3 :: nat} \<and> distinct ys}) / of_nat 3 ^ x else 0))"
  by (rule left_over_probabilities [OF demo_exact]) simp_all

text \<open>C12. The caches are transparent: as long as what they hold are the matrices of their keys, the function that
  looks into the memory and the files first returns the matrix it would compute, and leaves such caches.\<close>

theorem cached_matrices_transparent:
  fixes st :: "'f caches"
  assumes "caches_ok fp ar st" "\<forall>M. unarchive ar (archive ar M) = Some M" "matrix_of fp (m, n, t, r) = Some M"
  shows "\<exists>st'. computeMultiRoundProbabilityMatrix fp ar m n t r st = Inr (M, st') \<and> caches_ok fp ar st'"
  using cached_matrix_ok [OF assms(1,3)] assms(2) by blast

theorem cached_matrices_transparent_witness:
  "\<exists>st'. computeMultiRoundProbabilityMatrix demo_arithmetic \<lparr>archive = (\<lambda>M. M), unarchive = Some\<rparr> 2 3 2 3
      \<lparr>memcache = get_memcache, disk = (\<lambda>_. None)\<rparr> = Inr (unresolved_mat 2 3 2 3, st') \<and>
    caches_ok demo_arithmetic \<lparr>archive = (\<lambda>M. M), unarchive = Some\<rparr> st'"
  by (rule cached_matrices_transparent)
    (simp_all add: caches_ok_empty matrix_of_def multi_round [OF demo_exact])

lemma near_99:
  assumes "\<bar>rounded fp (target - to_double (99 / 100))\<bar> < double_epsilon"
  shows "getCachedFilename fp target s = Inr (DEFAULT_CACHE_DIR @ ''best_bch_parameters_99.csv'')"
  using assms by (simp add: getCachedFilename_def)

lemma filename_any: "getCachedFilename fp target (s :: 's) = Inr fn \<Longrightarrow> getCachedFilename fp target (s' :: 't) = Inr fn"
  by (simp add: getCachedFilename_def split: if_splits)

text \<open>The first search for a cardinality returns what the loop over the fields ends with.\<close>

lemma first_search:
  assumes "getCachedFilename (env_fp env) target st = Inr fn" "csv_files st fn = None"
    and "oh_good hash_size k (getDirectCache st)" "k < oh_limit" "d \<notin> keys_of (m_values (getDirectCache st))"
    and loop: "fold_ok (try_m env d delta r c target) [M_MIN..<M_MAX + 1] (no_candidate, st) = Inr (b, st2)"
    and "results_of st2 = results_of st"
  shows "\<exists>st3. bestBchParam env d delta r c target st = Inr (failure_prob_ub b, (best_m b, best_t b), st3)"
proof -
  have same: "getDirectCache st2 = getDirectCache st" using assms(7) by (simp add: results_of_def)
  obtain t' where t': "oh_insert hash_size d (best_m b, best_t b, failure_prob_ub b) (getDirectCache st) = Inr (True, t')"
    using omap.ins_law [OF assms(3,4), of d "(best_m b, best_t b, failure_prob_ub b)"] assms(5) by auto
  have csv: "getCachedFilename (env_fp env) target s = Inr fn" for s :: "'a search_state" by (rule filename_any [OF assms(1)])
  have load: "loadFromCachedFile env target st = Inr st" by (simp add: loadFromCachedFile_def csv assms(2))
  have has: "in_direct st (oh_contains hash_size d (getDirectCache st)) = Inr False"
    using assms(5) by (simp add: in_direct_def omap.has_law [OF assms(3)])
  show ?thesis unfolding bestBchParam_def load bind_ok_Inr has if_False loop case_prod_conv same
    by (simp add: in_direct_def t' save2CachedFile_def csv)
qed


lemma demo_failure_value:
  assumes "3 \<le> n" "n < 2 ^ 63" "t \<le> balls_of n" "1 \<le> r" "r < 2 ^ 64"
  shows "failure_value demo_arithmetic d delta n r t c = Some 0"
proof -
  let ?M = "unresolved_mat (balls_of n) n t r"
  have zero: "failure_bound demo_arithmetic ?M d delta (balls_of n) r t c = (Inr p :: unit failure + number) \<Longrightarrow> p = Some 0" for p
  proof -
    assume run: "failure_bound demo_arithmetic ?M d delta (balls_of n) r t c = (Inr p :: unit failure + number)"
    have inner: "q = Some 0" if "computeFailureProbabilityBound demo_arithmetic ?M i c t j = (Inr q :: unit failure + number)" for i j q
      using that by (auto simp: computeFailureProbabilityBound_def demo_arithmetic_def times_two_bound_def bind_ok_eq_Inr)
    have step: "fst s' \<noteq> None" if "fst s \<noteq> None" "q \<noteq> None" "(s' :: number \<times> rat) = (add_product demo_arithmetic (fst s) p q, w)" for s s' p q w
      using that by (auto simp: add_product_def)
    obtain s1 s2 where s: "fold_ok (\<lambda>i (prob_fail_one_group, prob_tail). bind_ok (mat_at ?M (i + 1) r) (\<lambda>q.
             Inr (add_product demo_arithmetic prob_fail_one_group (dbinom demo_arithmetic i d (rounded demo_arithmetic (1 / number_of_groups demo_arithmetic d delta))) (Some q),
               rounded demo_arithmetic (prob_tail - dbinom demo_arithmetic i d (rounded demo_arithmetic (1 / number_of_groups demo_arithmetic d delta))))))
           [0..<t] (Some 0, 1) = (Inr s1 :: unit failure + number \<times> rat)"
      "fold_ok (\<lambda>i (prob_fail_one_group, prob_tail). bind_ok (computeFailureProbabilityBound demo_arithmetic ?M i c t (size_minus r 1)) (\<lambda>q.
             Inr (add_product demo_arithmetic prob_fail_one_group (dbinom demo_arithmetic i d (rounded demo_arithmetic (1 / number_of_groups demo_arithmetic d delta))) q,
               rounded demo_arithmetic (prob_tail - dbinom demo_arithmetic i d (rounded demo_arithmetic (1 / number_of_groups demo_arithmetic d delta))))))
           [t..<balls_of n] s1 = (Inr s2 :: unit failure + number \<times> rat)"
      "p = times_two_bound demo_arithmetic (map_option (\<lambda>x. rounded demo_arithmetic (x + snd s2)) (fst s2)) (number_of_groups demo_arithmetic d delta)"
      using run unfolding failure_bound_def Let_def by (auto simp: bind_ok_eq_Inr case_prod_unfold)
    have "fst s1 \<noteq> None"
      by (rule fold_ok_preserves [OF s(1), where P = "\<lambda>s. fst s \<noteq> None"]) (auto simp: bind_ok_eq_Inr add_product_def)
    then have "fst s2 \<noteq> None"
      by (rule fold_ok_preserves [OF s(2), where P = "\<lambda>s. fst s \<noteq> None"]) (auto simp: bind_ok_eq_Inr add_product_def dest!: inner)
    then show "p = Some 0" unfolding s(3) by (auto simp: times_two_bound_def demo_arithmetic_def)
  qed
  have "0 < balls_of n" "balls_of n < n" "t \<le> n" using assms by (auto simp: balls_of_def MAX_BALLS_def)
  from multi_round [OF demo_exact this assms(2), of r, where 's = unit]
  have M: "matrix_of demo_arithmetic (balls_of n, n, t, r) = Some ?M" by (simp add: matrix_of_def)
  have "sized (balls_of n + 1) (r + 1) ?M" by (simp add: sized_def unresolved_mat_def cells_def)
  from failure_bound_value [OF M this assms(3-5)] show ?thesis by (rule zero)
qed

lemma demo_reaches:
  assumes "i \<in> {6..14}" "14 < \<lceil>5 * delta\<rceil>" "t \<le> largest_t demo_arithmetic delta i" "1 \<le> r" "r < 2 ^ 64"
  shows "reaches demo_arithmetic d delta r c target i t \<longleftrightarrow> target \<le> 1"
proof -
  have i: "6 \<le> i" "i \<le> 14" "14 < \<lceil>rounded demo_arithmetic (5 * delta)\<rceil>" using assms by (simp_all add: demo_arithmetic_def)
  note sizes = search_sizes [OF i]
  have "t \<le> balls_of (2 ^ i - 1)" using sizes(2) assms(3) by simp
  from demo_failure_value [OF sizes(3,4) this assms(4,5), of d delta c] show ?thesis
    by (simp add: reaches_def success_value_def least_of_def) (simp add: demo_arithmetic_def)
qed

definition demo_env :: "mat search_env" where
  "demo_env = \<lparr>env_fp = demo_arithmetic, env_archives = \<lparr>archive = (\<lambda>M. M), unarchive = Some\<rparr>,
     print_number = (\<lambda>_. ''0''), scan_number = (\<lambda>s. (Some (Some 0), tl s)), unread = (0, 0, 0, Some 0)\<rparr>"

definition demo_start :: "mat search_state" where
  "demo_start = \<lparr>matrix_caches = \<lparr>memcache = get_memcache, disk = (\<lambda>_. None)\<rparr>, getDirectCache = empty_hash, csv_files = (\<lambda>_. None)\<rparr>"


lemma map_of_fold_insert:
  assumes "k \<in> keys_of es"
  shows "map_of (fold dict_insert xs es) k = map_of es k"
  using assms by (induction xs arbitrary: es) (auto simp: map_of_insert)

text \<open>The files of results were saved by the program, with sizes that fit, and are not too long.\<close>

definition saved_files :: "'f search_env \<Rightarrow> nat \<Rightarrow> 'f search_state \<Rightarrow> bool" where
  "saved_files env k st \<longleftrightarrow>
     (\<forall>fn content. csv_files st fn = Some content \<longrightarrow>
        (\<exists>es. content = concat (map (csv_line env) es) \<and> (\<forall>e\<in>set es. printable e) \<and> k + length es < oh_limit))"

lemma load_keeps:
  assumes "prints_back env short" "getCachedFilename (env_fp env) target st = Inr fn" "saved_files env k st"
    and "oh_good hash_size k (getDirectCache st)"
  shows "\<exists>st' n. loadFromCachedFile env target st = Inr st' \<and> oh_good hash_size n (getDirectCache st') \<and>
    (\<forall>d\<in>keys_of (m_values (getDirectCache st)). map_of (m_values (getDirectCache st')) d = map_of (m_values (getDirectCache st)) d)"
proof (cases "csv_files st fn")
  case None
  then show ?thesis using assms(2,4) by (auto simp: loadFromCachedFile_def)
next
  case (Some content)
  then obtain es where es: "content = concat (map (csv_line env) es)" "\<forall>e\<in>set es. printable e" "k + length es < oh_limit"
    using assms(3) unfolding saved_files_def by blast
  obtain t' where t': "load_loop env \<lparr>left = content, at_eof = False, failed = False\<rparr> (getDirectCache st) = Some (Inr t')"
    "oh_good hash_size (Suc (k + length es)) t'"
    "m_values t' = fold dict_insert (map (short_entry short) es @ [unread env]) (m_values (getDirectCache st))"
    using load_lines [OF assms(1) es(2) _ assms(4) es(3), of "[]"] es(1) by auto
  then have "loadFromCachedFile env target st = Inr (st\<lparr>getDirectCache := t'\<rparr>)"
    by (simp add: loadFromCachedFile_def assms(2) Some in_direct_def)
  moreover have "\<forall>d\<in>keys_of (m_values (getDirectCache st)). map_of (m_values t') d = map_of (m_values (getDirectCache st)) d"
    unfolding t'(3) by (intro ballI map_of_fold_insert)
  ultimately show ?thesis using t'(2) by (intro exI [of _ "st\<lparr>getDirectCache := t'\<rparr>"]) auto
qed

text \<open>C38. A result, once cached, answers every later search for the same cardinality: whatever the number of
  elements per group, of rounds, of parts, and the target success probability (0.99 or \<open>1/240\<close>), the call
  returns the parameters found for other ones.\<close>

theorem stale_parameters:
  assumes "\<bar>rounded (env_fp env) (target - to_double (99 / 100))\<bar> < double_epsilon \<or>
      \<bar>rounded (env_fp env) (target - ONE_IN_240)\<bar> < double_epsilon"
    and "prints_back env short" "saved_files env k st" "oh_good hash_size k (getDirectCache st)"
    and "(d, m, t, p) \<in> set (m_values (getDirectCache st))"
  shows "\<exists>st'. bestBchParam env d delta r c target st = Inr (p, (m, t), st')"
proof -
  obtain fn where fn: "getCachedFilename (env_fp env) target st = Inr fn"
    using assms(1) unfolding getCachedFilename_def by metis
  obtain st' n where st': "loadFromCachedFile env target st = Inr st'" "oh_good hash_size n (getDirectCache st')"
    "\<forall>d\<in>keys_of (m_values (getDirectCache st)). map_of (m_values (getDirectCache st')) d = map_of (m_values (getDirectCache st)) d"
    using load_keeps [OF assms(2) fn assms(3,4)] by blast
  have "d \<in> keys_of (m_values (getDirectCache st))" using assms(5) by (force simp: keys_of_def)
  moreover have "distinct (map fst (m_values (getDirectCache st)))" by (rule omap.good_distinct [OF assms(4)])
  ultimately have look: "map_of (m_values (getDirectCache st')) d = Some (m, t, p)" using st'(3) assms(5) by (simp add: map_of_eq_Some_iff)
  then have "d \<in> keys_of (m_values (getDirectCache st'))" using map_of_eq_None [of _ d] by (metis option.distinct(1))
  then have has: "in_direct st' (oh_contains hash_size d (getDirectCache st')) = Inr True"
    by (simp add: in_direct_def omap.has_law [OF st'(2)])
  have "oh_at hash_size st' d (getDirectCache st') = Inr (m, t, p)"
    using st'(2) look by (simp add: oh_good_def oh_at_ok)
  then show ?thesis unfolding bestBchParam_def st'(1) bind_ok_Inr has if_True by simp
qed

definition demo_result :: direct_cache where
  "demo_result = (case oh_insert hash_size 20 (6, 6, Some 0) empty_hash of Inr (b, t) \<Rightarrow> t | Inl e \<Rightarrow> empty_hash)"

lemma demo_result_good: "oh_good hash_size 1 demo_result" "m_values demo_result = [(20, 6, 6, Some 0)]"
proof -
  obtain t where "oh_insert hash_size 20 (6, 6, Some 0) (empty_hash :: direct_cache) = Inr (True, t)" "oh_good hash_size 1 t"
    "m_values t = [(20, 6, 6, Some 0)]"
    using omap.ins_law [OF omap.good_empty, of 0 hash_size 20 "(6, 6, Some 0) :: search_result"]
    by (auto simp: oh_limit_def dict_insert_def omap.entries_empty)
  then show "oh_good hash_size 1 demo_result" "m_values demo_result = [(20, 6, 6, Some 0)]" by (simp_all add: demo_result_def)
qed

lemma demo_result_good_Suc: "oh_good hash_size (Suc 0) demo_result"
  using demo_result_good(1) by simp

lemma demo_prints_back: "prints_back demo_env (\<lambda>_. 0)"
  by (simp add: prints_back_def demo_env_def is_space_def)

theorem stale_parameters_witness:
  "\<exists>st'. bestBchParam demo_env 20 (1 / 2) 1 7 ONE_IN_240 (demo_start\<lparr>getDirectCache := demo_result\<rparr>) = Inr (Some 0, (6, 6), st')"
proof (rule stale_parameters [OF _ demo_prints_back])
  show "saved_files demo_env 1 (demo_start\<lparr>getDirectCache := demo_result\<rparr>)" by (simp add: saved_files_def demo_start_def)
qed (simp_all add: demo_result_good demo_result_good_Suc demo_env_def demo_arithmetic_def double_epsilon_def)

text \<open>C39. Saved results are read back, and one more: a program that starts with the file another one saved gets
  the entries of that one in their order, with their probabilities as short as they were printed, and the
  entry made of the variables that the read behind the last line leaves uninitialised.\<close>

theorem saved_results_read_back:
  assumes "\<bar>rounded (env_fp env) (target - to_double (99 / 100))\<bar> < double_epsilon" "prints_back env short"
    and "oh_good hash_size k (getDirectCache st)" "k < oh_limit" "\<forall>e\<in>set (m_values (getDirectCache st)). printable e"
    and "m_values (getDirectCache fresh) = []" "oh_good hash_size 0 (getDirectCache fresh)"
  shows "\<exists>st1 st2. save2CachedFile env target st = Inr st1 \<and>
    loadFromCachedFile env target (fresh\<lparr>csv_files := csv_files st1\<rparr>) = Inr st2 \<and>
    m_values (getDirectCache st2) = dict_insert (unread env) (map (short_entry short) (m_values (getDirectCache st)))"
proof -
  let ?fn = "DEFAULT_CACHE_DIR @ ''best_bch_parameters_99.csv''" and ?es = "m_values (getDirectCache st)"
  let ?st1 = "st\<lparr>csv_files := (csv_files st)(?fn \<mapsto> concat (map (csv_line env) ?es))\<rparr>"
  have name: "getCachedFilename (env_fp env) target s = Inr ?fn" for s :: "'a search_state" by (rule near_99 [OF assms(1)])
  have "length ?es < oh_limit" using assms(3,4) by (simp add: oh_good_def)
  then obtain t' where t': "load_loop env \<lparr>left = concat (map (csv_line env) ?es), at_eof = False, failed = False\<rparr> (getDirectCache fresh) = Some (Inr t')"
    "m_values t' = fold dict_insert (map (short_entry short) ?es @ [unread env]) []"
    using load_lines [OF assms(2,5) _ assms(7), of "[]"] assms(6) by auto
  have "map fst (map (short_entry short) ?es) = map fst ?es" by (simp add: short_entry_def case_prod_unfold)
  then have "distinct (map fst (map (short_entry short) ?es))" using omap.good_distinct [OF assms(3)] by (simp only:)
  then have "fold dict_insert (map (short_entry short) ?es) [] = [] @ map (short_entry short) ?es"
    by (rule fold_dict_insert_fresh) simp
  then have "m_values t' = dict_insert (unread env) (map (short_entry short) ?es)" using t'(2) by simp
  moreover have "save2CachedFile env target st = Inr ?st1" by (simp add: save2CachedFile_def name)
  moreover have "loadFromCachedFile env target (fresh\<lparr>csv_files := csv_files ?st1\<rparr>) =
      Inr (fresh\<lparr>csv_files := csv_files ?st1, getDirectCache := t'\<rparr>)"
    using t'(1) by (simp add: loadFromCachedFile_def name in_direct_def)
  ultimately show ?thesis by (intro exI [of _ ?st1] exI [of _ "fresh\<lparr>csv_files := csv_files ?st1, getDirectCache := t'\<rparr>"]) simp
qed

theorem saved_results_read_back_witness:
  "\<exists>st1 st2. save2CachedFile demo_env (to_double (99 / 100)) (demo_start\<lparr>getDirectCache := demo_result\<rparr>) = Inr st1 \<and>
    loadFromCachedFile demo_env (to_double (99 / 100)) (demo_start\<lparr>csv_files := csv_files st1\<rparr>) = Inr st2 \<and>
    m_values (getDirectCache st2) = dict_insert (unread demo_env) (map (short_entry (\<lambda>_. 0))
      (m_values (getDirectCache (demo_start\<lparr>getDirectCache := demo_result\<rparr>))))"
proof (rule saved_results_read_back [OF _ demo_prints_back, where k = 1])
  show "\<bar>rounded (env_fp demo_env) (to_double (99 / 100) - to_double (99 / 100))\<bar> < double_epsilon"
    by (simp add: demo_env_def demo_arithmetic_def double_epsilon_def)
  show "oh_good hash_size 0 (getDirectCache demo_start)" by (simp add: demo_start_def oh_good_empty)
qed (simp_all add: demo_result_good demo_result_good_Suc oh_limit_def printable_def, simp add: demo_start_def empty_hash_def)

end
