(* ===== verification/Pbs_Setup.thy ===== *)
theory Pbs_Setup
  imports Search_Properties Recon_Server Reconcile_Session
begin

text \<open>
  The constructor of \<open>ParityBitmapSketch\<close> (\<open>src/pbs.h\<close>) with the search of \<open>src/pbs_params.h\<close> it starts: each
  host searches on its own, with its own caches; both find the same parameters, and these suit the protocol.
\<close>

section \<open>The constructor\<close>

definition DEFAULT_MAX_ROUNDS :: nat where "DEFAULT_MAX_ROUNDS = 3"
definition DEFAULT_AVG_DIFFS_PER_GROUP :: rat where "DEFAULT_AVG_DIFFS_PER_GROUP = 5"
definition DEFAULT_TARGET_SUCCESS_PROB :: rat where "DEFAULT_TARGET_SUCCESS_PROB = to_double (99 / 100)"

definition searched_sketch :: "'f search_env \<Rightarrow> nat \<Rightarrow> 'f search_state \<Rightarrow> 'f search_state failure + ('sk pbs_sketch \<times> 'f search_state)" where
  "searched_sketch env d st =
     bind_ok (bestBchParam env d DEFAULT_AVG_DIFFS_PER_GROUP DEFAULT_MAX_ROUNDS DEFAULT_NUM_GROUPS_WHEN_BCH_FAIL
       DEFAULT_TARGET_SUCCESS_PROB st) (\<lambda>(p, best, st').
     bind_ok (ParityBitmapSketch d (group_count d) best DEFAULT_NUM_GROUPS_WHEN_BCH_FAIL DEFAULT_SEED_G) (\<lambda>sk.
     Inr (sk, st')))"

text \<open>Both hosts build their sketch, Bob encodes, the session runs.\<close>

definition reconcile_searched ::
    "'sk minisketch_api \<Rightarrow> hash_fn \<Rightarrow> 'f search_env \<Rightarrow> nat \<Rightarrow> nat \<Rightarrow> 'f search_state \<Rightarrow> 'f search_state \<Rightarrow> u64 list \<Rightarrow> u64 list \<Rightarrow>
     unit failure + (bool \<times> 'sk pbs_sketch \<times> 'sk pbs_sketch)" where
  "reconcile_searched api h env d k st_a st_b as bs =
     bind_ok (fail_map (\<lambda>_. ()) (searched_sketch env d st_a)) (\<lambda>(alice, _).
     bind_ok (fail_map (\<lambda>_. ()) (searched_sketch env d st_b)) (\<lambda>(bob, _).
     fail_map (\<lambda>_. ())
       (bind_ok (add_all h as alice) (\<lambda>alice.
        bind_ok (add_all h bs bob) (\<lambda>bob.
        bind_ok (encode api h bob) (\<lambda>(enc, bob1). session api h k alice bob1))))))"

section \<open>The parameters found\<close>

abbreviation default_search ::
    "'f search_env \<Rightarrow> nat \<Rightarrow> 'f search_state \<Rightarrow> 'f search_state failure + (number \<times> (nat \<times> nat) \<times> 'f search_state)" where
  "default_search env d \<equiv> bestBchParam env d DEFAULT_AVG_DIFFS_PER_GROUP DEFAULT_MAX_ROUNDS DEFAULT_NUM_GROUPS_WHEN_BCH_FAIL
     DEFAULT_TARGET_SUCCESS_PROB"

text \<open>A pair that reaches the target.\<close>

abbreviation default_reaches :: "'f search_env \<Rightarrow> nat \<Rightarrow> nat \<Rightarrow> nat \<Rightarrow> bool" where
  "default_reaches env d \<equiv> reaches (env_fp env) d DEFAULT_AVG_DIFFS_PER_GROUP DEFAULT_MAX_ROUNDS
     DEFAULT_NUM_GROUPS_WHEN_BCH_FAIL DEFAULT_TARGET_SUCCESS_PROB"

definition enough :: "'f search_env \<Rightarrow> nat \<Rightarrow> nat \<Rightarrow> nat \<Rightarrow> bool" where
  "enough env d m t \<longleftrightarrow> m \<in> {6..14} \<and> t \<in> {m..largest_t (env_fp env) DEFAULT_AVG_DIFFS_PER_GROUP m} \<and> default_reaches env d m t"

text \<open>A host that has not searched for \<open>d\<close> yet and has no file of results; its matrices may be cached.\<close>

definition fresh_search :: "'f search_env \<Rightarrow> nat \<Rightarrow> 'f search_state \<Rightarrow> bool" where
  "fresh_search env d st \<longleftrightarrow> search_ok env st \<and> csv_files st (DEFAULT_CACHE_DIR @ ''best_bch_parameters_99.csv'') = None \<and>
     d \<notin> keys_of (m_values (getDirectCache st)) \<and> (\<exists>n < oh_limit. oh_good hash_size n (getDirectCache st))"

definition no_caches :: "'f search_state" where
  "no_caches = \<lparr>matrix_caches = \<lparr>memcache = get_memcache, disk = (\<lambda>_. None)\<rparr>, getDirectCache = empty_hash, csv_files = (\<lambda>_. None)\<rparr>"

text \<open>The parameters a host without any cache finds.\<close>

definition searched_pair :: "'f search_env \<Rightarrow> nat \<Rightarrow> nat \<times> nat" where
  "searched_pair env d = (case default_search env d no_caches of Inl e \<Rightarrow> (0, 0) | Inr (p, best, st) \<Rightarrow> best)"

lemma no_caches_fresh: "fresh_search env d no_caches"
  by (auto simp: fresh_search_def no_caches_def search_ok_def caches_ok_empty empty_hash_def oh_limit_def
      intro!: exI [of _ 0] oh_good_empty [unfolded empty_hash_def])

text \<open>Every host finds the same pair, whatever its caches hold of other searches.\<close>

lemma fresh_searches:
  assumes setting: "search_setting env DEFAULT_AVG_DIFFS_PER_GROUP DEFAULT_MAX_ROUNDS"
  shows "\<exists>ch b. (\<forall>i\<in>{6..14}. chosen (default_reaches env d i) i (largest_t (env_fp env) DEFAULT_AVG_DIFFS_PER_GROUP i) (ch i)) \<and>
    best_so_far env (success_value (env_fp env) d DEFAULT_AVG_DIFFS_PER_GROUP DEFAULT_MAX_ROUNDS DEFAULT_NUM_GROUPS_WHEN_BCH_FAIL) ch {6..14} b \<and>
    searched_pair env d = (best_m b, best_t b) \<and>
    (\<forall>st. fresh_search env d st \<longrightarrow> (\<exists>st'. default_search env d st = Inr (failure_prob_ub b, (best_m b, best_t b), st')))"
proof -
  let ?fn = "DEFAULT_CACHE_DIR @ ''best_bch_parameters_99.csv''"
  obtain ch b where b: "\<forall>i\<in>{6..14}. chosen (default_reaches env d i) i (largest_t (env_fp env) DEFAULT_AVG_DIFFS_PER_GROUP i) (ch i)"
    "best_so_far env (success_value (env_fp env) d DEFAULT_AVG_DIFFS_PER_GROUP DEFAULT_MAX_ROUNDS DEFAULT_NUM_GROUPS_WHEN_BCH_FAIL) ch {6..14} b"
    and loop: "\<forall>st. search_ok env st \<longrightarrow> (\<exists>st'. fold_ok (try_m env d DEFAULT_AVG_DIFFS_PER_GROUP DEFAULT_MAX_ROUNDS
        DEFAULT_NUM_GROUPS_WHEN_BCH_FAIL DEFAULT_TARGET_SUCCESS_PROB) [M_MIN..<M_MAX + 1] (no_candidate, st) = Inr (b, st') \<and>
      search_ok env st' \<and> results_of st' = results_of st)"
    using search_loop [OF setting, of d DEFAULT_NUM_GROUPS_WHEN_BCH_FAIL DEFAULT_TARGET_SUCCESS_PROB] by blast
  have "rounded (env_fp env) (of_nat 0) = of_nat 0" using setting unfolding search_setting_def keeps_small_def by blast
  then have "\<bar>rounded (env_fp env) (DEFAULT_TARGET_SUCCESS_PROB - to_double (99 / 100))\<bar> < double_epsilon"
    by (simp add: DEFAULT_TARGET_SUCCESS_PROB_def double_epsilon_def)
  note csv = near_99 [OF this]
  have run: "\<exists>st'. default_search env d st = Inr (failure_prob_ub b, (best_m b, best_t b), st')" if fresh: "fresh_search env d st" for st
  proof -
    obtain n where "n < oh_limit" "oh_good hash_size n (getDirectCache st)" using fresh by (auto simp: fresh_search_def)
    moreover obtain st' where "fold_ok (try_m env d DEFAULT_AVG_DIFFS_PER_GROUP DEFAULT_MAX_ROUNDS
        DEFAULT_NUM_GROUPS_WHEN_BCH_FAIL DEFAULT_TARGET_SUCCESS_PROB) [M_MIN..<M_MAX + 1] (no_candidate, st) = Inr (b, st')"
      "results_of st' = results_of st" using loop fresh unfolding fresh_search_def by blast
    ultimately show ?thesis using fresh first_search [OF csv, of st n d] unfolding fresh_search_def by blast
  qed
  from run [OF no_caches_fresh] have "searched_pair env d = (best_m b, best_t b)" by (auto simp: searched_pair_def)
  with b run show ?thesis by blast
qed

lemma both_search:
  assumes "search_setting env DEFAULT_AVG_DIFFS_PER_GROUP DEFAULT_MAX_ROUNDS" "fresh_search env d st_a" "fresh_search env d st_b"
  shows "\<exists>p st_a' st_b'. default_search env d st_a = Inr (p, searched_pair env d, st_a') \<and> default_search env d st_b = Inr (p, searched_pair env d, st_b')"
  using fresh_searches [OF assms(1), of d] assms(2,3) by metis

text \<open>A pair found reaches the target; where a capacity was chosen for some field, none chosen costs less.\<close>

lemma searched_pair_enough:
  assumes "search_setting env DEFAULT_AVG_DIFFS_PER_GROUP DEFAULT_MAX_ROUNDS" "fst (searched_pair env d) \<noteq> 1"
  shows "enough env d (fst (searched_pair env d)) (snd (searched_pair env d))"
proof -
  obtain ch b where ch: "\<forall>i\<in>{6..14}. chosen (default_reaches env d i) i (largest_t (env_fp env) DEFAULT_AVG_DIFFS_PER_GROUP i) (ch i)"
    "best_so_far env (success_value (env_fp env) d DEFAULT_AVG_DIFFS_PER_GROUP DEFAULT_MAX_ROUNDS DEFAULT_NUM_GROUPS_WHEN_BCH_FAIL) ch {6..14} b"
    "searched_pair env d = (best_m b, best_t b)" using fresh_searches [OF assms(1), of d] by blast
  have "\<exists>i\<in>{6..14}. ch i \<noteq> None" using best_so_far_least [OF ch(2,1)] assms(2) ch(3) by (auto split: if_splits)
  then have "best_m b \<in> {6..14}" "ch (best_m b) = Some (best_t b)" using best_so_far_least [OF ch(2,1)] by simp_all
  with ch(1) show ?thesis unfolding ch(3) enough_def by fastforce
qed

text \<open>The parameters found suit the protocol: their messages stay below \<open>2 ^ 32\<close> bits.\<close>

lemma enough_setup:
  assumes "search_setting env DEFAULT_AVG_DIFFS_PER_GROUP DEFAULT_MAX_ROUNDS" "enough env d m t" "0 < ng" "350 * ng < 2 ^ 32" "0 < c"
    and "ms_contract api (of_nat m) t"
  shows "setup_ok api ng (m, t) c"
proof -
  have m: "6 \<le> m" "m \<le> 14" "m \<le> t" "t \<le> largest_t (env_fp env) DEFAULT_AVG_DIFFS_PER_GROUP m"
    using assms(2) by (auto simp: enough_def)
  have "\<forall>n \<le> 2800. rounded (env_fp env) (of_nat n) = of_nat n" using assms(1) unfolding search_setting_def keeps_small_def by blast
  from this [rule_format, of 25] have "rounded (env_fp env) 25 = 25" by simp
  then have "t \<le> 25" using m(4) by (simp add: largest_t_def DEFAULT_AVG_DIFFS_PER_GROUP_def)
  then have "m * t \<le> 14 * 25" using m by (intro mult_le_mono)
  then have "m * t * ng \<le> 350 * ng" by simp
  then have "m * t * ng < 2 ^ 32" using assms(4) by linarith
  then show ?thesis using m \<open>t \<le> 25\<close> assms by (simp add: setup_ok_def)
qed

text \<open>Both sketches are built as if the parameters had been given.\<close>

lemma constructed_sketch:
  assumes "fst best < 32"
  shows "ParityBitmapSketch d ng best c seed =
    (Inr (projr (ParityBitmapSketch d ng best c seed :: unit failure + 'sk pbs_sketch)) :: 's failure + 'sk pbs_sketch)"
  using assms by (simp add: ParityBitmapSketch_def calcBchParams_def)

lemma reconcile_searched_eq:
  fixes api :: "'sk minisketch_api"
  assumes "default_search env d st_a = Inr (p, best, st_a')" "default_search env d st_b = Inr (p, best, st_b')" "fst best < 32"
  shows "reconcile_searched api h env d k st_a st_b as bs =
    fail_map (\<lambda>_. ()) (reconcile_sets api h d (group_count d) best DEFAULT_NUM_GROUPS_WHEN_BCH_FAIL DEFAULT_SEED_G k as bs)"
proof -
  note sk = constructed_sketch [OF assms(3), where d = d and ng = "group_count d" and c = DEFAULT_NUM_GROUPS_WHEN_BCH_FAIL and seed = DEFAULT_SEED_G]
  show ?thesis
    unfolding reconcile_searched_def reconcile_sets_def searched_sketch_def assms(1,2) bind_ok_Inr case_prod_conv
    unfolding sk [where 's = "'a search_state"] sk [where 's = "'sk pbs_sketch"] bind_ok_Inr fail_map_simps case_prod_conv ..
qed

end
