(* ===== verification/Setup_Instance.thy ===== *)
theory Setup_Instance
  imports Pbs_Setup
begin

text \<open>
  An arithmetic under which exactly the capacities from 11 on reach the target: all groups have ten elements, and
  the power tells a failure that is certain from one that is not.
\<close>

section \<open>The sums of the bound\<close>

lemma fold_sums:
  fixes p q :: "nat \<Rightarrow> rat"
  assumes "\<And>i. a \<le> i \<Longrightarrow> i < b \<Longrightarrow> f i = (Inr (q i) :: 's failure + rat)"
  shows "fold_ok (\<lambda>i (s, w). bind_ok (f i) (\<lambda>x. Inr (s + p i * x, w - p i))) [a..<b] (s0, w0) =
    (Inr (s0 + (\<Sum>i = a..<b. p i * q i), w0 - (\<Sum>i = a..<b. p i)) :: 's failure + _)"
  using assms
proof (induction b)
  case (Suc b)
  then show ?case by (cases "a \<le> b") (simp_all add: fold_ok_append algebra_simps)
qed simp

lemma fold_products:
  assumes "rounded fp = (\<lambda>x. x)" "\<And>i. a \<le> i \<Longrightarrow> i < b \<Longrightarrow> f i = (Inr (Some (q i)) :: 's failure + number)"
  shows "fold_ok (\<lambda>i (s, w). bind_ok (f i) (\<lambda>x. Inr (add_product fp s (p i) x, rounded fp (w - p i)))) [a..<b] (Some s0, w0) =
    (Inr (Some (s0 + (\<Sum>i = a..<b. p i * q i)), w0 - (\<Sum>i = a..<b. p i)) :: 's failure + _)"
  using assms(2)
proof (induction b)
  case (Suc b)
  then show ?case by (cases "a \<le> b") (simp_all add: fold_ok_append algebra_simps add_product_def assms(1))
qed simp

lemma mat_at_unresolved: "x \<in> {1..m} \<Longrightarrow> k \<in> {1..r} \<Longrightarrow> mat_at (unresolved_mat m n t r) x k = Inr (unresolved m n t x k)"
  by (simp add: mat_at_def unresolved_mat_def cells_def)

section \<open>The instance\<close>

definition ten_arithmetic :: arithmetic where
  "ten_arithmetic = \<lparr>rounded = (\<lambda>x. x), summed = sum_list, dbinom = (\<lambda>i _ _. if i = 10 then 1 else 0),
     power_of = (\<lambda>x _. Some (if x \<le> 0 then 0 else 1))\<rparr>"

lemma ten_simps:
  "rounded ten_arithmetic x = x" "rounded ten_arithmetic = (\<lambda>x. x)" "dbinom ten_arithmetic i n p = (if i = 10 then 1 else 0)"
  "times_two_bound ten_arithmetic (Some p) g = Some (if 1 \<le> p then 2 else 0)"
  by (simp_all add: ten_arithmetic_def times_two_bound_def)

lemma ten_exact: "exact ten_arithmetic"
  by (simp add: exact_def ten_arithmetic_def)

lemma sum_ten:
  fixes q :: "nat \<Rightarrow> rat"
  shows "(\<Sum>i = a..<b. (if i = 10 then 1 else 0) * q i) = (if a \<le> 10 \<and> 10 < b then q 10 else 0)"
    "(\<Sum>i = a..<b. (if i = 10 then 1 else 0)) = (if a \<le> 10 \<and> 10 < b then 1 else (0 :: rat))"
proof -
  have "(\<Sum>i = a..<b. (if i = 10 then 1 else 0) * q i) = (\<Sum>i = a..<b. if i = 10 then q i else 0)"
    by (rule sum.cong) simp_all
  then show "(\<Sum>i = a..<b. (if i = 10 then 1 else 0) * q i) = (if a \<le> 10 \<and> 10 < b then q 10 else 0)" by (simp add: sum.delta)
  show "(\<Sum>i = a..<b. (if i = 10 then 1 else 0)) = (if a \<le> 10 \<and> 10 < b then 1 else (0 :: rat))" by (simp add: sum.delta)
qed

lemma ten_inner:
  assumes "t \<le> m" "1 \<le> k" "k \<le> r"
  shows "\<exists>v. computeFailureProbabilityBound ten_arithmetic (unresolved_mat m n t r) i c t k = (Inr (Some v) :: 's failure + number) \<and>
    (t \<le> 10 \<longrightarrow> v = 2)"
proof -
  let ?f = "\<lambda>i. mat_at (unresolved_mat m n t r) (i + 1) k :: 's failure + rat" and ?p = "\<lambda>i :: nat. if i = 10 then 1 else (0 :: rat)"
  have at: "?f i = (Inr (unresolved m n t (i + 1) k))" if "0 \<le> i" "i < t" for i
    using assms that by (intro mat_at_unresolved) auto
  have "fold_ok (\<lambda>i (s, w). bind_ok (?f i) (\<lambda>x. Inr (s + ?p i * x, w - ?p i))) [0..<t] (0, 1) =
      (Inr (0 + (\<Sum>i = 0..<t. ?p i * unresolved m n t (i + 1) k), 1 - (\<Sum>i = 0..<t. ?p i)) :: 's failure + _)"
    by (rule fold_sums [OF at])
  then show ?thesis
    unfolding computeFailureProbabilityBound_def ten_simps Let_def sum_ten by (auto simp: ten_simps)
qed

text \<open>The outer sum has one term, the one for ten elements; up to capacity 10 it is their certain failure.\<close>

lemma ten_failure:
  assumes t: "t \<le> balls_of n" "11 \<le> balls_of n" and n: "3 \<le> n" "n < 2 ^ 63" and "unresolved (balls_of n) n t 11 3 < 1 \<or> t \<le> 10"
  shows "failure_value ten_arithmetic d delta n 3 t c = Some (if t \<le> 10 then 2 else 0)"
proof -
  define m where "m = balls_of n"
  define p where "p = (\<lambda>i :: nat. if i = 10 then 1 else (0 :: rat))"
  let ?M = "unresolved_mat m n t 3"
  let ?one = "\<lambda>i. bind_ok (mat_at ?M (i + 1) 3) (\<lambda>q. Inr (Some q)) :: unit failure + number"
    and ?two = "\<lambda>i. computeFailureProbabilityBound ten_arithmetic ?M i c t 2 :: unit failure + number"
  have tm: "t \<le> m" using t(1) by (simp add: m_def)
  have one: "?one i = Inr (Some (unresolved m n t (i + 1) 3))" if "0 \<le> i" "i < t" for i
    using that tm by (subst mat_at_unresolved) auto
  have two: "?two i = Inr (Some (the (projr (?two i))))" "t \<le> 10 \<Longrightarrow> the (projr (?two i)) = 2" for i
    using ten_inner [OF tm, of 2 3 n i c, where 's = unit] by auto
  have f1: "fold_ok (\<lambda>i (s, w). bind_ok (mat_at ?M (i + 1) 3) (\<lambda>q. Inr (add_product ten_arithmetic s (p i) (Some q), w - p i)))
      [0..<t] (Some 0, 1) = (Inr (Some (0 + (\<Sum>i = 0..<t. p i * unresolved m n t (i + 1) 3)), 1 - (\<Sum>i = 0..<t. p i)) :: unit failure + _)"
    using fold_products [where fp = ten_arithmetic and f = ?one and p = p and ?s0.0 = 0 and ?w0.0 = 1, OF ten_simps(2) one]
    by (simp only: bind_ok_assoc bind_ok_Inr ten_simps(2))
  have f2: "fold_ok (\<lambda>i (s, w). bind_ok (?two i) (\<lambda>q. Inr (add_product ten_arithmetic s (p i) q, w - p i))) [t..<m] (Some s0, w0) =
      Inr (Some (s0 + (\<Sum>i = t..<m. p i * the (projr (?two i)))), w0 - (\<Sum>i = t..<m. p i))" for s0 w0
    using fold_products [where fp = ten_arithmetic and f = ?two and p = p and ?s0.0 = s0 and ?w0.0 = w0 and a = t and b = m, OF ten_simps(2) two(1)]
    by (simp only: ten_simps(2))
  have "size_minus 3 1 = 2" by (simp add: size_minus_def)
  then have "failure_bound ten_arithmetic ?M d delta m 3 t c =
      (Inr (times_two_bound ten_arithmetic (Some ((\<Sum>i = 0..<t. p i * unresolved m n t (i + 1) 3) +
         (\<Sum>i = t..<m. p i * the (projr (?two i))) + (1 - (\<Sum>i = 0..<t. p i) - (\<Sum>i = t..<m. p i)))) (number_of_groups ten_arithmetic d delta)) :: unit failure + number)"
    unfolding failure_bound_def Let_def ten_simps(2,3) p_def [symmetric] by (simp add: f1 [simplified] f2 [simplified])
  also have "(\<Sum>i = 0..<t. p i * unresolved m n t (i + 1) 3) + (\<Sum>i = t..<m. p i * the (projr (?two i))) +
      (1 - (\<Sum>i = 0..<t. p i) - (\<Sum>i = t..<m. p i)) = (if t \<le> 10 then 2 else unresolved m n t 11 3)"
    using t(2) two(2) [of 10] unfolding p_def sum_ten m_def [symmetric] by simp
  finally show ?thesis
    using assms(5) unfolding failure_value_exact [OF ten_exact n t(1)] m_def [symmetric] by (auto simp: ten_simps)
qed

text \<open>Eleven elements can fall into bins of their own.\<close>

lemma eleven_resolved:
  assumes "11 \<le> t" "t \<le> m" "m < n"
  shows "unresolved m n t 11 3 < 1"
proof -
  have "[0..<11] \<in> {ys \<in> throws n 11. distinct ys}" using assms by (auto simp: throws_def)
  then have "0 < card {ys \<in> throws n 11. distinct ys}"
    using finite_throws [of n 11] by (intro card_gt_0_iff [THEN iffD2] conjI) (auto intro: finite_subset)
  then have "(0 :: rat) < of_nat (card {ys \<in> throws n 11. distinct ys}) / of_nat n ^ 11"
    using assms by (intro divide_pos_pos) simp_all
  then have "unresolved m n t 11 1 < 1" using first_round [of 11 m t n] assms by simp
  moreover have "0 < n" using assms by simp
  ultimately show ?thesis
    using unresolved_antimono [of n m t 11 0] unresolved_antimono [of n m t 11 1] by (simp add: numeral_3_eq_3)
qed

section \<open>Its search\<close>

lemma target_value: "DEFAULT_TARGET_SUCCESS_PROB = 8917127262193582 / 9007199254740992"
proof -
  have "(99 / 100 :: rat) = Fract 99 100" by (simp add: Fract_of_int_quotient)
  then have "quotient_of (99 / 100) = quotient_of (Fract 99 100)" by (simp only:)
  moreover have "gcd 99 (100 :: int) = 1" by (simp add: gcd_non_0_int)
  ultimately have q: "quotient_of (99 / 100) = (99, 100)" by (simp add: quotient_of_Fract normalize_def)
  have "floorlog 2 100 = 7" "floorlog 2 99 = 7" by (simp_all add: compute_floorlog)
  then have "magnitude (99 / 100) = - 1" by (simp add: magnitude_def q compute_floorlog power_int_def power_divide)
  moreover have "\<lfloor>222928181554839552 / 25 :: rat\<rfloor> = 8917127262193582" by (rule floor_unique) simp_all
  ultimately show ?thesis
    by (simp add: DEFAULT_TARGET_SUCCESS_PROB_def fround_def round_half_even_def Let_def power_int_def power_divide)
qed

definition ten_env :: "mat search_env" where
  "ten_env = Search_Properties.demo_env\<lparr>env_fp := ten_arithmetic\<rparr>"

lemma ten_reaches:
  assumes "i \<in> {6..14}" "t \<le> largest_t ten_arithmetic 5 i"
  shows "reaches ten_arithmetic d 5 3 c DEFAULT_TARGET_SUCCESS_PROB i t \<longleftrightarrow> 11 \<le> t"
proof -
  have i: "6 \<le> i" "i \<le> 14" "14 < \<lceil>rounded ten_arithmetic (5 * 5)\<rceil>" using assms(1) by (simp_all add: ten_simps)
  note sizes = search_sizes [OF i]
  have "(2 :: nat) ^ 6 \<le> 2 ^ i" using i(1) by (rule power_increasing) simp
  then have "11 \<le> balls_of (2 ^ i - 1)" "balls_of (2 ^ i - 1) < 2 ^ i - 1" by (auto simp: balls_of_def MAX_BALLS_def)
  moreover have "t \<le> balls_of (2 ^ i - 1)" using sizes(2) assms(2) by simp
  ultimately have "failure_value ten_arithmetic d 5 (2 ^ i - 1) 3 t c = Some (if t \<le> 10 then 2 else 0)"
    using eleven_resolved [of t "balls_of (2 ^ i - 1)" "2 ^ i - 1"] sizes(3,4) by (intro ten_failure) linarith+
  then show ?thesis by (simp add: reaches_def success_value_def least_of_def target_value ten_simps)
qed

lemma ten_largest: "m \<in> {6..14} \<Longrightarrow> largest_t ten_arithmetic 5 m = 25"
proof -
  assume "m \<in> {6..14}"
  then have "(2 :: nat) ^ 6 \<le> 2 ^ m" by (intro power_increasing) simp_all
  then show ?thesis by (simp add: largest_t_def MAX_BALLS_def ten_simps)
qed

lemma ten_setting:
  "search_setting ten_env DEFAULT_AVG_DIFFS_PER_GROUP DEFAULT_MAX_ROUNDS" "fresh_search ten_env d demo_start"
proof -
  show "search_setting ten_env DEFAULT_AVG_DIFFS_PER_GROUP DEFAULT_MAX_ROUNDS"
    using exact_keeps_small [OF ten_exact]
    by (simp add: search_setting_def ten_env_def Search_Properties.demo_env_def ten_simps
      DEFAULT_AVG_DIFFS_PER_GROUP_def DEFAULT_MAX_ROUNDS_def)
  show "fresh_search ten_env d demo_start"
    using no_caches_fresh by (simp add: no_caches_def demo_start_def)
qed

text \<open>The field of the least size has capacity 11, at cost 66; any other costs more.\<close>

lemma ten_searched: "searched_pair ten_env d = (6, 11)"
proof -
  have reach: "default_reaches ten_env d i t \<longleftrightarrow> 11 \<le> t" if "i \<in> {6..14}" "t \<le> 25" for i t
    using ten_reaches [of i t d DEFAULT_NUM_GROUPS_WHEN_BCH_FAIL] ten_largest [of i] that
    by (simp add: ten_env_def DEFAULT_AVG_DIFFS_PER_GROUP_def DEFAULT_MAX_ROUNDS_def)
  have large: "largest_t (env_fp ten_env) DEFAULT_AVG_DIFFS_PER_GROUP i = 25" if "i \<in> {6..14}" for i
    using ten_largest [OF that] by (simp add: ten_env_def DEFAULT_AVG_DIFFS_PER_GROUP_def)
  obtain ch b where ch: "\<forall>i\<in>{6..14}. chosen (default_reaches ten_env d i) i (largest_t (env_fp ten_env) DEFAULT_AVG_DIFFS_PER_GROUP i) (ch i)"
    "best_so_far ten_env (success_value (env_fp ten_env) d DEFAULT_AVG_DIFFS_PER_GROUP DEFAULT_MAX_ROUNDS DEFAULT_NUM_GROUPS_WHEN_BCH_FAIL) ch {6..14} b"
    "searched_pair ten_env d = (best_m b, best_t b)" using fresh_searches [OF ten_setting(1), of d] by blast
  have "chosen (default_reaches ten_env d 6) 6 25 (ch 6)" using ch(1) [rule_format, of 6] large [of 6] by simp
  then have six: "ch 6 = Some 11"
    using reach [of 6 25] reach [of 6 6] reach [of 6 "the (ch 6)"] reach [of 6 "the (ch 6) - 1"] by (cases "ch 6"; simp; linarith)
  then have some: "\<exists>i\<in>{6..14}. ch i \<noteq> None" by (intro bexI [of _ 6]) simp_all
  have m: "best_m b \<in> {6..14}" "ch (best_m b) = Some (best_t b)" "best_t b * best_m b \<le> 11 * 6"
    using best_so_far_least [OF ch(2,1)] six unfolding if_P [OF some] by (blast, blast, fastforce)
  then have "chosen (default_reaches ten_env d (best_m b)) (best_m b) 25 (Some (best_t b))" using ch(1) large by metis
  then have "11 \<le> best_t b" using reach [OF m(1), of "best_t b"] by simp
  moreover have "6 \<le> best_m b" using m(1) by simp
  ultimately have "11 * best_m b \<le> best_t b * best_m b" "best_t b * 6 \<le> best_t b * best_m b" by simp_all
  with m(3) \<open>11 \<le> best_t b\<close> \<open>6 \<le> best_m b\<close> have "best_m b = 6" "best_t b = 11" by linarith+
  then show ?thesis unfolding ch(3) by simp
qed

end
