(* ===== verification/Graphene_Choice.thy ===== *)
theory Graphene_Choice
  imports Graphene_Params
begin

text \<open>The choice of the parameters of Graphene has the least cost among those tried; the binomial coefficients are right.\<close>

section \<open>The start\<close>

lemma START_value: "START = 1152921504606847 / 1152921504606846976"
proof -
  have "(1 / 1000 :: rat) = Fract 1 1000" by (simp add: Fract_of_int_quotient)
  then have "quotient_of (1 / 1000) = quotient_of (Fract 1 1000)" by (simp only:)
  then have q: "quotient_of (1 / 1000) = (1, 1000)" by (simp add: quotient_of_Fract normalize_def)
  have "floorlog 2 1000 = 10" by (simp add: compute_floorlog)
  then have "magnitude (1 / 1000) = - 10" by (simp add: magnitude_def q compute_floorlog power_int_def power_divide)
  moreover have "\<lfloor>576460752303423488 / 125 :: rat\<rfloor> = 4611686018427387" by (rule floor_unique) simp_all
  ultimately show ?thesis
    by (simp add: START_def fround_def round_half_even_def Let_def power_int_def power_divide)
qed

lemma START_bounds: "0 < START" "START < 1"
  by (simp_all add: START_value)

lemma grid_exact:
  assumes "exact_libm lm"
  shows "grid lm denom i = START + of_nat i * ((denom - START) / of_nat NUM)"
proof (induction i)
  case (Suc i)
  then have "grid lm denom (Suc i) = START + of_nat i * ((denom - START) / of_nat NUM) + (denom - START) / of_nat NUM"
    using assms by (simp add: exact_libm_def)
  then show ?case by (simp add: distrib_right add_divide_distrib)
qed simp

lemma denominator_ge: "x \<le> m \<Longrightarrow> 1 \<le> denominator m x"
proof -
  assume "x \<le> m"
  then have "x \<noteq> m \<Longrightarrow> (of_int 1 :: rat) \<le> of_int (m - x)" unfolding of_int_le_iff by simp
  then show ?thesis by (simp add: denominator_def)
qed

lemma grid_bounds:
  assumes "exact_libm lm" "1 \<le> denom" "i < NUM"
  shows "0 < grid lm denom i" "grid lm denom i \<le> denom"
proof -
  have d: "0 < denom - START" using assms(2) START_bounds by linarith
  have i: "(of_nat i :: rat) \<le> of_nat NUM" "(0 :: rat) < of_nat NUM" using assms(3) by (simp_all add: NUM_def)
  have "0 \<le> of_nat i * ((denom - START) / of_nat NUM)" using d i by simp
  then show "0 < grid lm denom i" unfolding grid_exact [OF assms(1)] using START_bounds by linarith
  have "of_nat i * ((denom - START) / of_nat NUM) \<le> of_nat NUM * ((denom - START) / of_nat NUM)"
    using i d by (intro mult_right_mono) simp_all
  also have "\<dots> = denom - START" using i by simp
  finally show "grid lm denom i \<le> denom" unfolding grid_exact [OF assms(1)] by simp
qed

section \<open>The least cost\<close>

text \<open>The pairs the search tries: a number of elements for the table and a probability for the filter.\<close>

definition tried :: "libm \<Rightarrow> int \<Rightarrow> int \<Rightarrow> rat \<Rightarrow> nat \<Rightarrow> (rat \<times> rat) set" where
  "tried lm m x bound k =
     (let denom = denominator m x; point = (\<lambda>c. (CB_bound lm c (c / denom) bound, c / denom))
      in insert (CB_bound lm denom 1 bound, 1) (insert (point START) ((\<lambda>i. point (grid lm denom i)) ` {..<k})))"

definition least_choice :: "libm \<Rightarrow> csvdata list \<Rightarrow> int \<Rightarrow> (rat \<times> rat) set \<Rightarrow> choice \<Rightarrow> bool" where
  "least_choice lm params n ps best \<longleftrightarrow>
     (\<exists>(b, f)\<in>ps. min_fpr best = f \<and> min_a best \<in> {b, of_int \<lceil>b\<rceil>} \<and>
        total lm params b f n 0 = (Inr (min_total best, min_iblt_rows best) :: unit failure + _)) \<and>
     (\<forall>(b, f)\<in>ps. \<forall>t rows. total lm params b f n 0 = (Inr (t, rows) :: unit failure + _) \<longrightarrow> min_total best \<le> t)"

lemma least_choice_step:
  assumes "least_choice lm params n ps best" "total lm params b f n 0 = (Inr (t, rows) :: unit failure + _)"
  shows "least_choice lm params n (insert (b, f) ps)
    (if t < min_total best then \<lparr>min_total = t, min_a = of_int \<lceil>b\<rceil>, min_fpr = f, min_iblt_rows = rows\<rparr> else best)"
  using assms unfolding least_choice_def by (cases "t < min_total best") fastforce+

lemma tried_Suc:
  "tried lm m x bound (Suc k) = insert (CB_bound lm (grid lm (denominator m x) k) (grid lm (denominator m x) k / denominator m x) bound,
     grid lm (denominator m x) k / denominator m x) (tried lm m x bound k)"
  by (auto simp: tried_def Let_def lessThan_Suc)

lemma tried_mono: "i \<le> k \<Longrightarrow> tried lm m x bound i \<subseteq> tried lm m x bound k"
  by (auto simp: tried_def Let_def)

lemma tried_probability:
  assumes "exact_libm lm" "x \<le> m" "(b, f) \<in> tried lm m x bound NUM"
  shows "0 < f \<and> f \<le> 1"
proof -
  have d: "1 \<le> denominator m x" by (rule denominator_ge [OF assms(2)])
  have "START \<le> denominator m x" using START_bounds d by linarith
  then have "0 < START / denominator m x \<and> START / denominator m x \<le> 1" using START_bounds d by (simp add: divide_le_eq)
  moreover have "0 < grid lm (denominator m x) i / denominator m x \<and> grid lm (denominator m x) i / denominator m x \<le> 1" if "i < NUM" for i
    using grid_bounds [OF assms(1) d that] d by (simp add: divide_le_eq)
  ultimately show ?thesis using assms(3) by (auto simp: tried_def Let_def)
qed

lemma choice_is_least:
  assumes "exact_libm lm" and returns: "\<forall>(b, f)\<in>tried lm m x bound NUM. \<exists>t rows. total lm params b f n 0 = (Inr (t, rows) :: unit failure + _)"
  shows "\<exists>best. CB_solve_a lm params m n x bound = (Inr best :: unit failure + _) \<and> least_choice lm params n (tried lm m x bound NUM) best"
proof -
  let ?d = "denominator m x"
  have r: "round_double lm = (\<lambda>x. x)" using assms(1) by (simp add: exact_libm_def)
  let ?a0 = "CB_bound lm START (START / ?d) bound" and ?a1 = "CB_bound lm ?d 1 bound"
  have in0: "(?a0, START / ?d) \<in> tried lm m x bound NUM" "(?a1, 1) \<in> tried lm m x bound NUM" by (simp_all add: tried_def Let_def)
  from returns in0 obtain t0 rows0 t1 rows1 where t: "total lm params ?a0 (START / ?d) n 0 = (Inr (t0, rows0) :: unit failure + _)"
    "total lm params ?a1 1 n 0 = (Inr (t1, rows1) :: unit failure + _)" by blast
  let ?first = "if t1 < t0 then \<lparr>min_total = t1, min_a = of_int \<lceil>?a1\<rceil>, min_fpr = 1, min_iblt_rows = rows1\<rparr>
    else \<lparr>min_total = t0, min_a = ?a0, min_fpr = START / ?d, min_iblt_rows = rows0\<rparr>"
  let ?body = "\<lambda>i best. let c = grid lm ?d i; fpr = c / ?d; b = CB_bound lm c fpr bound
    in bind_ok (total lm params b fpr n 0) (\<lambda>(t, rows).
         Inr (if t < min_total best then \<lparr>min_total = t, min_a = of_int \<lceil>b\<rceil>, min_fpr = fpr, min_iblt_rows = rows\<rparr> else best))"
  have "least_choice lm params n {(?a0, START / ?d)} \<lparr>min_total = t0, min_a = ?a0, min_fpr = START / ?d, min_iblt_rows = rows0\<rparr>"
    using t(1) by (simp add: least_choice_def)
  from least_choice_step [OF this t(2)] have first: "least_choice lm params n (tried lm m x bound 0) ?first"
    by (simp add: tried_def Let_def insert_commute)
  have "\<exists>best. fold_ok ?body [0..<NUM] ?first = (Inr best :: unit failure + _) \<and> least_choice lm params n (tried lm m x bound NUM) best"
  proof (rule fold_ok_upt [where P = "\<lambda>i. least_choice lm params n (tried lm m x bound i)"])
    fix i best assume i: "i < NUM" "least_choice lm params n (tried lm m x bound i) best"
    let ?c = "grid lm ?d i"
    have "(CB_bound lm ?c (?c / ?d) bound, ?c / ?d) \<in> tried lm m x bound NUM"
      using tried_mono [of "Suc i" NUM] i(1) unfolding tried_Suc by auto
    with returns obtain t rows where "total lm params (CB_bound lm ?c (?c / ?d) bound) (?c / ?d) n 0 = (Inr (t, rows) :: unit failure + _)" by blast
    with least_choice_step [OF i(2) this]
    show "\<exists>best'. ?body i best = (Inr best' :: unit failure + _) \<and> least_choice lm params n (tried lm m x bound (Suc i)) best'"
      unfolding tried_Suc by (simp add: Let_def)
  qed (rule first)
  then show ?thesis unfolding CB_solve_a_def Let_def r by (simp add: t)
qed

section \<open>Binomial coefficients\<close>

lemma binom_loop:
  assumes "exact_libm lm" "k \<le> n"
  shows "fold (\<lambda>i result. round_double lm (round_double lm (result * of_int (int n - int i + 1)) / of_nat i)) [2..<k + 1] (of_nat n) =
    (if k = 0 then of_nat n else of_nat (n choose k))"
  using assms(2)
proof (induction k)
  case (Suc k)
  show ?case
  proof (cases "k = 0")
    case False
    have "fold (\<lambda>i result. round_double lm (round_double lm (result * of_int (int n - int i + 1)) / of_nat i)) [2..<Suc k + 1] (of_nat n) =
        of_nat (n choose k) * of_int (int n - int (Suc k) + 1) / of_nat (Suc k)"
      using Suc False assms(1) by (simp add: exact_libm_def)
    also have "(of_int (int n - int (Suc k) + 1) :: rat) = of_nat (n - k)" using Suc.prems by (simp add: of_nat_diff)
    also have "of_nat (n choose k) * of_nat (n - k) = (of_nat ((n choose Suc k) * Suc k) :: rat)"
      unfolding of_nat_mult [symmetric] of_nat_eq_iff using Suc.prems binomial_absorb_comp [of n k] binomial_absorption [of k "n - 1"]
      by (metis Suc_times_binomial_eq binomial_absorption mult.commute times_binomial_minus1_eq)
    moreover have "(of_nat (Suc k) :: rat) \<noteq> 0" by (simp only: of_nat_eq_0_iff)
    ultimately show ?thesis by (simp only: of_nat_mult nonzero_mult_div_cancel_right) simp
  qed simp
qed simp

lemma binom_is_choose:
  assumes "exact_libm lm"
  shows "binom lm (int n) (int k) = of_nat (n choose k)"
proof -
  have half: "binom lm (int n) (int k) = of_nat (n choose j)" if "j \<le> n" "k \<le> n" "(if int k * 2 > int n then int n - int k else int k) = int j" for j
    using binom_loop [OF assms that(1)] that(2) unfolding binom_def that(3) by (simp add: Let_def)
  show ?thesis
  proof (cases "k \<le> n")
    case True
    show ?thesis
    proof (cases "int k * 2 > int n")
      case high: True
      then show ?thesis using half [of "n - k"] True by (simp add: of_nat_diff binomial_symmetric [OF True])
    qed (use half [of k] True in simp)
  qed (simp add: binom_def)
qed

section \<open>Properties\<close>

text \<open>C10. The parameters chosen for Graphene are the best of those tried: with exact arithmetic, a server with no more
  keys than the client, and costs that can be computed for every pair tried, the search returns; the probability
  chosen lies in \<open>(0, 1]\<close>, the number of elements is that of the same pair, as it is or rounded up, the total
  is the cost of this pair, and no pair tried costs less.\<close>

theorem graphene_choice_least:
  assumes "exact_libm lm" "x \<le> m"
    and "\<forall>(b, f)\<in>tried lm m x bound NUM. \<exists>t rows. total lm params b f n 0 = (Inr (t, rows) :: unit failure + _)"
  shows "\<exists>best. CB_solve_a lm params m n x bound = (Inr best :: unit failure + _) \<and> 0 < min_fpr best \<and> min_fpr best \<le> 1 \<and>
    (\<exists>b. (b, min_fpr best) \<in> tried lm m x bound NUM \<and> min_a best \<in> {b, of_int \<lceil>b\<rceil>} \<and>
      total lm params b (min_fpr best) n 0 = (Inr (min_total best, min_iblt_rows best) :: unit failure + _)) \<and>
    (\<forall>(b, f)\<in>tried lm m x bound NUM. \<forall>t rows. total lm params b f n 0 = (Inr (t, rows) :: unit failure + _) \<longrightarrow> min_total best \<le> t)"
proof -
  obtain best where best: "CB_solve_a lm params m n x bound = (Inr best :: unit failure + _)" "least_choice lm params n (tried lm m x bound NUM) best"
    using choice_is_least [OF assms(1,3)] by blast
  then obtain b where "(b, min_fpr best) \<in> tried lm m x bound NUM" "min_a best \<in> {b, of_int \<lceil>b\<rceil>}"
    "total lm params b (min_fpr best) n 0 = (Inr (min_total best, min_iblt_rows best) :: unit failure + _)"
    unfolding least_choice_def by blast
  moreover have "0 < min_fpr best \<and> min_fpr best \<le> 1" by (rule tried_probability [OF assms(1,2) calculation(1)])
  ultimately show ?thesis using best unfolding least_choice_def by blast
qed

definition demo_libm :: libm where
  "demo_libm = \<lparr>round_double = (\<lambda>x. x), ln_of = (\<lambda>_. -1), sqrt_of = (\<lambda>_. 0), exp_of = (\<lambda>_. 1), pow_of = (\<lambda>_ _. 1)\<rparr>"

definition demo_rows :: "csvdata list" where
  "demo_rows = [\<lparr>csv_item = 1, csv_hedge = 3, csv_numhash = 3, csv_size = 3, csv_p = 1\<rparr>,
     \<lparr>csv_item = 2, csv_hedge = 8, csv_numhash = 8, csv_size = 16, csv_p = 1\<rparr>]"

lemma demo_bound: "a \<noteq> 0 \<Longrightarrow> CB_bound demo_libm a f bound = a + 1 / 2"
  by (simp add: CB_bound_def demo_libm_def Let_def field_simps)

lemma demo_total:
  assumes "0 < b" "b \<le> 2"
  shows "\<exists>t rows. total demo_libm demo_rows b f 1 0 = (Inr (t, rows) :: unit failure + _)"
proof -
  have ceil: "\<lceil>- 1 :: rat\<rceil> = - 1" by (simp add: ceiling_def)
  have bytes: "bf_num_bytes demo_libm f 1 = (Inr (1 / 8) :: unit failure + _)"
    by (simp add: bf_num_bytes_def demo_libm_def to_int_def fits_int_def Let_def ceil)
  consider "\<lceil>b\<rceil> = 1" | "\<lceil>b\<rceil> = 2" using assms by linarith
  then show ?thesis
    by cases (simp_all add: total_def demo_rows_def bytes to_int_def fits_int_def Let_def)
qed

theorem graphene_choice_least_witness:
  "\<exists>best. CB_solve_a demo_libm demo_rows 2 1 1 (1 / 240) = (Inr best :: unit failure + _) \<and> 0 < min_fpr best \<and> min_fpr best \<le> 1 \<and>
    (\<exists>b. (b, min_fpr best) \<in> tried demo_libm 2 1 (1 / 240) NUM \<and> min_a best \<in> {b, of_int \<lceil>b\<rceil>} \<and>
      total demo_libm demo_rows b (min_fpr best) 1 0 = (Inr (min_total best, min_iblt_rows best) :: unit failure + _)) \<and>
    (\<forall>(b, f)\<in>tried demo_libm 2 1 (1 / 240) NUM. \<forall>t rows. total demo_libm demo_rows b f 1 0 = (Inr (t, rows) :: unit failure + _) \<longrightarrow>
      min_total best \<le> t)"
proof (rule graphene_choice_least)
  show ex: "exact_libm demo_libm" by (simp add: exact_libm_def demo_libm_def)
  have d: "denominator 2 1 = 1" by (simp add: denominator_def)
  have "0 < b \<and> b \<le> 2" if b: "(b, f) \<in> tried demo_libm 2 1 (1 / 240) NUM" for b f
  proof -
    have half: "0 < c \<Longrightarrow> c \<le> 1 \<Longrightarrow> 0 < CB_bound demo_libm c p q \<and> CB_bound demo_libm c p q \<le> 2" for c p q
      by (subst (1 2) demo_bound) simp_all
    have "0 < grid demo_libm 1 i" "grid demo_libm 1 i \<le> 1" if "i < NUM" for i using grid_bounds [OF ex order_refl that] .
    with b half START_bounds show ?thesis unfolding tried_def d by (auto simp: Let_def)
  qed
  then show "\<forall>(b, f)\<in>tried demo_libm 2 1 (1 / 240) NUM. \<exists>t rows. total demo_libm demo_rows b f 1 0 = (Inr (t, rows) :: unit failure + _)"
    using demo_total by blast
qed simp

end
