(* ===== verification/Iblt_Table.thy ===== *)
theory Iblt_Table
  imports Iblt_Properties Search_Properties
begin

text \<open>
  \<open>3rd/include/iblt/iblt.cpp\<close> and \<open>iblt.h\<close>: the table of parameters that \<open>OptimalParameters\<close> reads from a file on its
  first call and keeps in a static variable, and the setter of the cells from columns. \<open>std::stof\<close> is a parameter.
\<close>

section \<open>Lines of the file\<close>

text \<open>The fields of a line; a line that ends in a comma has an empty last field.\<close>

fun split_commas :: "string \<Rightarrow> string list" where
  "split_commas [] = [[]]"
| "split_commas (c # cs) =
     (if c = CHR '','' then [] # split_commas cs
      else case split_commas cs of [] \<Rightarrow> [[c]] | f # fs \<Rightarrow> (c # f) # fs)"

text \<open>Each field is read into the next of five strings, which keep what the line before left in them.\<close>

definition read_fields :: "string \<Rightarrow> string list \<Rightarrow> 's failure + string list" where
  "read_fields line results =
     (let fs = split_commas line
      in if length results < length fs then Inl (Undefined OutOfBounds) else Inr (fs @ drop (length fs) results))"

definition stoi :: "'s \<Rightarrow> string \<Rightarrow> 's failure + int" where
  "stoi s str =
     (let r = dropWhile is_space str; minus = (r \<noteq> [] \<and> hd r = CHR ''-'');
          ds = takeWhile is_digit (if r \<noteq> [] \<and> (minus \<or> hd r = CHR ''+'') then tl r else r);
          n = (if minus then - int (numeral_of ds) else int (numeral_of ds))
      in if ds = [] then Inl (Throws LogicError s)
         else if n < - (2 ^ 31) \<or> 2 ^ 31 \<le> n then Inl (Throws OutOfRange s) else Inr n)"

section \<open>The table\<close>

record iblt_statics =
  parameter_file :: string
  parameters :: "(int \<times> int \<times> rat) list"     \<comment> \<open>items, hashes and hedge\<close>

definition set_parameter_file :: "string \<Rightarrow> iblt_statics \<Rightarrow> iblt_statics" where
  "set_parameter_file filename st = st\<lparr>parameter_file := filename\<rparr>"

text \<open>One line: the number of items, the hedge and the number of hashes; the first line for a number counts.\<close>

definition read_row :: "(string \<Rightarrow> exn + rat) \<Rightarrow> string \<Rightarrow> string list \<times> iblt_statics \<Rightarrow> iblt_statics failure + (string list \<times> iblt_statics)" where
  "read_row stof line = (\<lambda>(results, st).
     bind_ok (read_fields line results) (\<lambda>rs.
     bind_ok (stoi st (rs ! 0)) (\<lambda>items.
     case stof (rs ! 1) of
       Inl e \<Rightarrow> Inl (Throws e st)
     | Inr hedge \<Rightarrow>
         bind_ok (stoi st (rs ! 2)) (\<lambda>hashes.
         Inr (rs, if items \<in> fst ` set (parameters st) then st
                  else st\<lparr>parameters := (items, hashes, hedge) # parameters st\<rparr>)))))"

text \<open>
  The static member function with its file, as its lines; without the file the process exits (\<open>None\<close>). The
  table is read when it is empty, so one that a throw cut short is used by the next call.
\<close>

definition load_parameters :: "(string \<Rightarrow> exn + rat) \<Rightarrow> string list \<Rightarrow> iblt_statics \<Rightarrow> iblt_statics failure + iblt_statics" where
  "load_parameters stof file_lines st =
     bind_ok (fold_ok (read_row stof) (drop 1 file_lines) (replicate 5 [], st)) (\<lambda>(rs, st'). Inr st')"

definition OptimalParameters_call ::
    "(string \<Rightarrow> exn + rat) \<Rightarrow> (string \<Rightarrow> string list option) \<Rightarrow> u64 \<Rightarrow> iblt_statics \<Rightarrow>
     iblt_statics failure + ((int \<times> rat) \<times> iblt_statics) option" where
  "OptimalParameters_call stof files n st =
     bind_ok (if parameters st \<noteq> [] then Inr (Some st)
              else case files (parameter_file st) of
                     None \<Rightarrow> Inr None
                   | Some file_lines \<Rightarrow> bind_ok (load_parameters stof file_lines st) (\<lambda>st'. Inr (Some st'))) (\<lambda>r.
     case r of
       None \<Rightarrow> Inr None
     | Some st' \<Rightarrow>
         bind_ok (returns (map_option Inr (OptimalParameters (map_of (parameters st')) n))) (\<lambda>p. Inr (Some (p, st'))))"

section \<open>The cells from columns\<close>

text \<open>\<open>set\<close> with an iterator per column; the values of the cells stay. The columns after the first are read without a check.\<close>

definition set_columns :: "u32 list \<Rightarrow> u64 list \<Rightarrow> u32 list \<Rightarrow> iblt \<Rightarrow> 's failure + iblt" where
  "set_columns cs ks kcs t =
     (if length ks < length cs \<or> length kcs < length cs \<or> length (hashTable t) < length cs then Inl (Undefined OutOfBounds)
      else Inr (t\<lparr>hashTable := map2 (\<lambda>(c, k, kc) e. e\<lparr>cell_count := c, keySum := k, keyCheck := kc\<rparr>)
                     (zip cs (zip ks kcs)) (take (length cs) (hashTable t)) @ drop (length cs) (hashTable t)\<rparr>))"

section \<open>Reading a file that was written\<close>

lemma stoi_decimal:
  assumes "n < 2 ^ 31"
  shows "stoi s (decimal n) = Inr (int n)"
proof -
  obtain c cs where d: "decimal n = c # cs" using decimal_nonempty [of n] by (cases "decimal n") auto
  then have digits: "is_digit c" "\<forall>x\<in>set cs. is_digit x" using decimal_digits [of _ n] by auto
  then have tw: "takeWhile is_digit cs = cs" by (simp add: takeWhile_eq_all_conv)
  show ?thesis
    using assms d digits(1) digit_plain [of c] numeral_decimal [of n] by (simp add: stoi_def Let_def tw)
qed

lemma split_commas_append:
  assumes "CHR '','' \<notin> set a"
  shows "split_commas a = [a]" "split_commas (a @ CHR '','' # b) = a # split_commas b"
  using assms by (induction a) auto

lemma decimal_no_comma: "CHR '','' \<notin> set (decimal n)"
  using decimal_digits [of "CHR '',''" n] by (auto simp: is_digit_def)

text \<open>A row: the number of items, the text of the hedge, the number of hashes, and two fields that are not used.\<close>

type_synonym file_row = "nat \<times> string \<times> nat \<times> string \<times> string"

definition row_line :: "file_row \<Rightarrow> string" where
  "row_line = (\<lambda>(items, hedge, hashes, size, p). decimal items @ '','' @ hedge @ '','' @ decimal hashes @ '','' @ size @ '','' @ p)"

definition row_ok :: "(string \<Rightarrow> exn + rat) \<Rightarrow> file_row \<Rightarrow> bool" where
  "row_ok stof = (\<lambda>(items, hedge, hashes, size, p). items < 2 ^ 31 \<and> hashes < 2 ^ 31 \<and> isl (stof hedge) = False \<and>
     CHR '','' \<notin> set hedge \<and> CHR '','' \<notin> set size \<and> CHR '','' \<notin> set p)"

definition row_entry :: "(string \<Rightarrow> exn + rat) \<Rightarrow> file_row \<Rightarrow> int \<times> int \<times> rat" where
  "row_entry stof = (\<lambda>(items, hedge, hashes, size, p). (int items, int hashes, projr (stof hedge)))"

lemma read_row_line:
  assumes "row_ok stof r" "length results = 5" "int (fst r) \<notin> fst ` set (parameters st)"
  shows "\<exists>rs. read_row stof (row_line r) (results, st) = Inr (rs, st\<lparr>parameters := row_entry stof r # parameters st\<rparr>) \<and> length rs = 5"
proof -
  obtain items hedge hashes size p where r: "r = (items, hedge, hashes, size, p)" by (cases r) auto
  have "split_commas (row_line r) = [decimal items, hedge, decimal hashes, size, p]"
    using assms(1) by (simp add: r row_line_def row_ok_def split_commas_append decimal_no_comma)
  then have "read_fields (row_line r) results = (Inr [decimal items, hedge, decimal hashes, size, p] :: iblt_statics failure + _)"
    using assms(2) by (simp add: read_fields_def)
  then show ?thesis
    using assms by (cases "stof hedge") (simp_all add: r read_row_def row_ok_def row_entry_def stoi_decimal)
qed

lemma read_rows:
  assumes "\<forall>r\<in>set rows. row_ok stof r" "distinct (map fst rows)" "\<forall>r\<in>set rows. int (fst r) \<notin> fst ` set (parameters st)" "length results = 5"
  shows "\<exists>rs. fold_ok (read_row stof) (map row_line rows) (results, st) =
    Inr (rs, st\<lparr>parameters := rev (map (row_entry stof) rows) @ parameters st\<rparr>)"
  using assms
proof (induction rows arbitrary: st results)
  case (Cons r rows)
  obtain rs where rs: "read_row stof (row_line r) (results, st) = Inr (rs, st\<lparr>parameters := row_entry stof r # parameters st\<rparr>)" "length rs = 5"
    using read_row_line [of stof r results st] Cons.prems by auto
  have "fst (row_entry stof r) = int (fst r)" by (simp add: row_entry_def case_prod_unfold)
  then have "\<forall>q\<in>set rows. int (fst q) \<notin> fst ` set (parameters (st\<lparr>parameters := row_entry stof r # parameters st\<rparr>))"
    using Cons.prems(2,3) by (auto simp: image_iff)
  from Cons.IH [OF _ _ this rs(2)] Cons.prems rs(1) show ?case by simp
qed simp

text \<open>
  A first call on a file of rows finds the row of the largest tabulated number of items up to the one asked for.
\<close>

lemma parameters_from_file:
  assumes "parameters st = []" "files (parameter_file st) = Some (header # map row_line rows)"
    and "\<forall>r\<in>set rows. row_ok stof r" "distinct (map fst rows)"
    and "r \<in> set rows" "fst r \<le> n" "n < 2 ^ 31" "\<forall>q\<in>set rows. fst q \<le> n \<longrightarrow> fst q \<le> fst r"
  shows "\<exists>st'. OptimalParameters_call stof files (of_nat n) st = Inr (Some (snd (row_entry stof r), st'))"
proof -
  let ?table = "rev (map (row_entry stof) rows)"
  have fst_row: "fst (row_entry stof q) = int (fst q)" for q by (simp add: row_entry_def case_prod_unfold)
  have keys: "map fst ?table = rev (map (\<lambda>q. int (fst q)) rows)" by (simp add: rev_map fst_row comp_def)
  have "distinct (map (\<lambda>q. int (fst q)) rows)" using assms(4) by (simp add: distinct_map inj_on_def)
  then have d: "distinct (map fst ?table)" unfolding keys by simp
  have "map_of ?table (int (fst r)) = Some (snd (row_entry stof r))"
    using map_of_is_SomeI [OF d, of "int (fst r)" "snd (row_entry stof r)"] assms(5) fst_row [of r]
    by (metis (no_types, lifting) image_eqI list.set_map prod.collapse set_rev)
  moreover have "map_of ?table (int i) = None" if "fst r < i" "i \<le> n" for i
    unfolding map_of_eq_None_iff using that assms(8) by (auto simp: fst_row)
  ultimately have "OptimalParameters (map_of ?table) (of_nat n) = Some (snd (row_entry stof r))"
    using assms(6,7) by (intro OptimalParameters_nearest) auto
  moreover obtain st' where "load_parameters stof (header # map row_line rows) st = Inr st'" "parameters st' = ?table"
    using read_rows [OF assms(3,4), of st "replicate 5 []"] assms(1) by (auto simp: load_parameters_def)
  ultimately show ?thesis
    using assms(1,2) by (auto simp: OptimalParameters_call_def returns_def)
qed

end
