(* ===== verification/Ordered_Hash_Objects.thy ===== *)
theory Ordered_Hash_Objects
  imports Ordered_Hash_Properties
begin

text \<open>
  The ordered hash table of \<open>3rd/include/tsl/ordered_hash.h\<close> as an object: copying, moving and swapping, and the
  insertions with a hint, an index into the values (the end is no hint).
\<close>

section \<open>Copy, move, swap\<close>

text \<open>A copy has buckets and values of its own; the pointer to the buckets is set anew.\<close>

definition oh_copy :: "('k, 'v) ordered_hash \<Rightarrow> ('k, 'v) ordered_hash" where
  "oh_copy other = \<lparr>m_buckets = m_buckets other, m_values = m_values other, m_load_threshold = m_load_threshold other,
     m_grow_on_next_insert = m_grow_on_next_insert other\<rparr>"

text \<open>The new table and what is left of the other one.\<close>

definition oh_move :: "('k, 'v) ordered_hash \<Rightarrow> ('k, 'v) ordered_hash \<times> ('k, 'v) ordered_hash" where
  "oh_move other = (oh_copy other,
     other\<lparr>m_buckets := [], m_values := [], m_load_threshold := 0, m_grow_on_next_insert := False\<rparr>)"

definition oh_swap :: "('k, 'v) ordered_hash \<times> ('k, 'v) ordered_hash \<Rightarrow> ('k, 'v) ordered_hash \<times> ('k, 'v) ordered_hash" where
  "oh_swap = (\<lambda>(this, other).
     (\<lparr>m_buckets = m_buckets other, m_values = m_values other, m_load_threshold = m_load_threshold other,
       m_grow_on_next_insert = m_grow_on_next_insert other\<rparr>,
      \<lparr>m_buckets = m_buckets this, m_values = m_values this, m_load_threshold = m_load_threshold this,
       m_grow_on_next_insert = m_grow_on_next_insert this\<rparr>))"

definition oh_move_assign :: "('k, 'v) ordered_hash \<times> ('k, 'v) ordered_hash \<Rightarrow> ('k, 'v) ordered_hash \<times> ('k, 'v) ordered_hash" where
  "oh_move_assign tables = (let (this, other) = oh_swap tables in (this, oh_clear other))"

lemma oh_move_eq: "oh_move t = (t, empty_hash)"
  by (cases t) (simp add: oh_move_def oh_copy_def empty_hash_def load_threshold_for_def)

lemma oh_swap_eq: "oh_swap (a, b) = (b, a)"
  by (cases a; cases b) (simp add: oh_swap_def)

text \<open>The table assigned to is the other one; what is left of the other one is empty and can be used on.\<close>

lemma oh_move_assign_good:
  assumes "oh_good h n this" "oh_good h m other" "oh_move_assign (this, other) = (this', other')"
  shows "this' = other \<and> oh_good h (Suc n) other' \<and> m_values other' = []"
  using assms(3) omap.clr_law [OF assms(1)] by (auto simp: oh_move_assign_def oh_swap_eq)

section \<open>Insertions with a hint\<close>

definition oh_insert_hint ::
    "('k \<Rightarrow> u64) \<Rightarrow> nat \<Rightarrow> 'k \<Rightarrow> 'v \<Rightarrow> ('k, 'v) ordered_hash \<Rightarrow> ('k, 'v) ordered_hash failure + (nat \<times> ('k, 'v) ordered_hash)" where
  "oh_insert_hint h hint k v t =
     bind_ok (if hint \<noteq> length (m_values t) then bind_ok (vec_get (m_values t) hint) (\<lambda>p. Inr (fst p = k)) else Inr False) (\<lambda>there.
     if there then Inr (hint, t) else bind_ok (insert_impl h k v t) (\<lambda>((i, b), t'). Inr (i, t')))"

definition oh_insert_or_assign_hint ::
    "('k \<Rightarrow> u64) \<Rightarrow> nat \<Rightarrow> 'k \<Rightarrow> 'v \<Rightarrow> ('k, 'v) ordered_hash \<Rightarrow> ('k, 'v) ordered_hash failure + ('k, 'v) ordered_hash" where
  "oh_insert_or_assign_hint h hint k v t =
     bind_ok (if hint \<noteq> length (m_values t) then bind_ok (vec_get (m_values t) hint) (\<lambda>p. Inr (fst p = k)) else Inr False) (\<lambda>there.
     if there then Inr (t\<lparr>m_values := (m_values t)[hint := (fst (m_values t ! hint), v)]\<rparr>)
     else bind_ok (oh_insert_or_assign h k v t) (\<lambda>(b, t'). Inr t'))"

text \<open>A hint changes nothing but the way to the key.\<close>

lemma oh_insert_hint_eq:
  assumes "oh_good h n t" "n < oh_limit" "hint \<le> length (m_values t)"
  shows "\<exists>i t'. oh_insert_hint h hint k v t = Inr (i, t') \<and> oh_good h (Suc n) t' \<and> m_values t' = dict_insert (k, v) (m_values t)"
proof (cases "hint < length (m_values t) \<and> fst (m_values t ! hint) = k")
  case True
  then have "k \<in> keys_of (m_values t)" using nth_mem [of hint "m_values t"] by (auto simp: keys_of_def)
  moreover have "oh_good h (Suc n) t" using assms(1) by (auto simp: oh_good_def)
  ultimately show ?thesis using True by (simp add: oh_insert_hint_def vec_get_ok dict_insert_def)
next
  case False
  have at: "bind_ok (if hint \<noteq> length (m_values t) then bind_ok (vec_get (m_values t) hint) (\<lambda>p. Inr (fst p = k)) else Inr False) f = f False"
    for f :: "bool \<Rightarrow> ('k, 'v) ordered_hash failure + (nat \<times> ('k, 'v) ordered_hash)"
    using False assms(3) by (auto simp: vec_get_ok)
  obtain t' where t': "oh_insert h k v t = Inr (k \<notin> keys_of (m_values t), t')" "oh_good h (Suc n) t'" "m_values t' = dict_insert (k, v) (m_values t)"
    using omap.ins_law [OF assms(1,2), of k v] by blast
  then obtain i b where "insert_impl h k v t = Inr ((i, b), t')" by (auto simp: oh_insert_def bind_ok_eq_Inr)
  then show ?thesis using t'(2,3) unfolding oh_insert_hint_def at by simp
qed

end
