(* ===== verification/Spec2Isabelle.thy ===== *)
theory Spec2Isabelle
  imports Recon_Pbs Recon_Digest Recon_Graphene Recon_Requests Host_Properties Setup_Instance Graphene_Choice Iblt_Table Ordered_Hash_Objects
begin

text \<open>
  A model of libpbs, a C++ library for set reconciliation with parity bitmap sketches (PBS), with the services that
  compare it with other protocols. Two hosts hold sets that differ in few elements; each learns the difference
  from messages whose size depends on the number of differences.

  \<^bold>\<open>The parts and how they interact.\<close> The client and the server (\<open>src/reconciliation_client.h\<close>,
  \<open>src/reconciliation_server.h\<close>) each hold an ordered map of keys and values (\<open>3rd/include/tsl/ordered_hash.h\<close>).
  The client first estimates the number of differences (\<open>src/tow.h\<close>) and tells the server, then one of four
  protocols runs: PBS (\<open>src/pbs.h\<close>), PinSketch (\<open>src/pinsketch.h\<close>), Difference Digest (the lookup table of
  \<open>3rd/include/iblt\<close>) or Graphene (a Bloom filter, \<open>3rd/include/bloom\<close>, and a lookup table). In PBS the elements
  are partitioned into groups and the groups into bins; Bob sends per group a BCH sketch of the bins of odd parity
  (the encoding message), Alice decodes which bins differ and answers with them (the decoding message), Bob sends
  the exclusive ors of these bins and the checksums of the groups, and Alice recovers the elements; groups that
  are not done go on to the next round, groups whose decoding failed are split first. The parameters of the code
  come from a search over failure probabilities (\<open>src/pbs_params.h\<close>), with caches in memory and in files
  (\<open>src/cache_helper.h\<close>, \<open>3rd/include/stlcache\<close>).

  \<^bold>\<open>Theories and sources.\<close> Definitions carry the names of the code; those the logic or another part has taken
  already have a prefix (\<open>oh_\<close> for the ordered hash table, \<open>enc_\<close> and \<open>dec_\<close> for the messages, \<open>ps_\<close> for
  PinSketch, \<open>lru_\<close> and \<open>cache_\<close> for the caches).
  \<^item> \<open>Pbs_Prelude\<close>, \<open>Xor_Algebra\<close>: failures, checked vector access, loops that may fail, bits of words and buffers;
    accumulation by operations that are their own inverse.
  \<^item> \<open>Bit_Utils\<close> (\<open>bit_utils.h\<close>), \<open>Pbs_Message\<close> (\<open>pbs_message.h\<close>, the interface \<open>pbs_message\<close>), \<open>Minisketch_Api\<close> (the contract of
    minisketch and an instance of it), \<open>Encoding_Message\<close>, \<open>Decoding_Message\<close>, \<open>Hint_Message\<close> (\<open>pbs_encoding_message.h\<close>,
    \<open>pbs_decoding_message.h\<close>, \<open>pbs_encoding_hint_message.h\<close>): the codec and the messages; round trips and sizes.
  \<^item> \<open>Parity_Sketch\<close> (\<open>pbs.h\<close>): the class \<open>ParityBitmapSketch\<close> as a record and one definition per method.
    \<open>Sketch_Encoding\<close>, \<open>Sketch_Decoding\<close> and \<open>Sketch_Recovery\<close> state what the methods compute as functions of the groups;
    \<open>Sketch_Invariant\<close> what holds whatever messages arrive; \<open>Reconcile_Round\<close> and \<open>Reconcile_Session\<close> take both hosts
    together through one round and several; \<open>Sketch_Properties\<close> holds the properties of the single methods.
  \<^item> \<open>Pbs_Params\<close>, \<open>Params_Search\<close> (\<open>pbs_params.h\<close>), \<open>Occupancy\<close>, \<open>Params_Matrices\<close>, \<open>Matrix_Shapes\<close>, \<open>Params_Properties\<close>, \<open>Search_Properties\<close>:
    the matrices of the balls in bins and of the rounds (their shapes for any rounding, their values for exact
    arithmetic), the bound, the search and its files of results;
    \<open>Matrix_Cache\<close> (\<open>cache_helper.h\<close>). \<open>Pbs_Setup\<close> is the constructor of a sketch with its search,
    \<open>Setup_Instance\<close> an arithmetic for which the outcome of the search is known.
  \<^item> \<open>Cache_Policies\<close>, \<open>Stl_Cache\<close>, \<open>Cache_Properties\<close> (\<open>stlcache.hpp\<close>, \<open>policy*.hpp\<close>): the bounded cache and the
    interface \<open>cache_policy\<close> of its policies.
  \<^item> \<open>Ordered_Hash\<close> and \<open>Ordered_Hash_*\<close> (\<open>ordered_hash.h\<close>), \<open>Ordered_Dict\<close> (the interface \<open>ordered_dict\<close> the services use).
  \<^item> \<open>Murmur_Hash\<close>, \<open>Iblt\<close>, \<open>Iblt_Table\<close>, \<open>Iblt_Peeling\<close>, \<open>Iblt_Properties\<close> (\<open>murmurhash3.cpp\<close>, \<open>iblt.cpp\<close>, \<open>iblt.h\<close>);
    \<open>Bloom_Filter\<close>, \<open>Bloom_Properties\<close> (\<open>bloom_filter.h\<close>); \<open>Graphene_Params\<close>, \<open>Graphene_Choice\<close> (\<open>search_params.h\<close>).
  \<^item> \<open>Host_Data\<close> (\<open>constants.h\<close>, \<open>tow.h\<close>, \<open>bench_utils.h\<close>), \<open>Pin_Sketch\<close>, \<open>Recon_Server\<close>, \<open>Recon_Client\<close>: the services as
    one state and one operation per remote call. \<open>Recon_Loops\<close>, \<open>Recon_Estimate\<close>, \<open>Recon_Properties\<close>, \<open>Recon_Digest\<close>,
    \<open>Recon_Graphene\<close>, \<open>Recon_Pbs\<close>, \<open>Recon_Requests\<close> and \<open>Host_Properties\<close> hold what the protocols achieve end to end.

  \<^bold>\<open>How the code is read.\<close> Machine integers are words of their width, or natural numbers with the wrap written out.
  An operation returns \<open>Inr\<close> a result, throws (\<open>Throws\<close>, with the state at the throw) or is undefined (\<open>Undefined\<close>, with
  the reason); the assertions of the code are off, as in its release build. A loop that may not end is a partial
  function, and not returning is an undefined result, so a theorem that an operation returns covers its
  termination. The rounding of \<open>double\<close> and \<open>float\<close> is either computed on rational numbers (\<open>fround\<close>) or a parameter.
  The counters and differences of the estimator are \<open>int\<close>: leaving its range is undefined (\<open>SignedOverflow\<close>).
  A remote call runs the handler of the server on the request and never gets lost.

  \<^bold>\<open>What is shown.\<close>
  \<^item> PBS is sound over any number of rounds, completes in one round in the case its parameters are chosen for,
    conserves what is outstanding in every round without a checksum collision, and is sound with the parameters the
    two hosts find by searching on their own, when neither starts with a cached result for the cardinality; each method computes its specification and keeps the invariant of the class on any message.
  \<^item> Each of the four protocols, run between the two services, ends with the maps it is meant to end with;
    no request, well formed or not, breaks the server's invariant.
  \<^item> The messages, bit streams, serialised tables and files of results survive their round trips.
  \<^item> The hash table and the cache refine a list and a bounded map; the filter has no false negatives; the lookup
    table lists exactly the difference when no check sum deceives it. The search for the code returns the cheapest of the
    capacities its binary searches arrive at, each of which reaches the target (whether no cheaper pair does depends
    on the failure probability, of which nothing is assumed); that for Graphene the cheapest pair it tries.
  \<^item> The errors found are stated as theorems, with the input on which the code fails.

  \<^bold>\<open>Bounds and fuel.\<close> Tables are followed for up to \<open>oh_limit = 2 ^ 27\<close> updates, within which the 32-bit indexes and
  hashes suffice. The client leaves the loop of PBS after \<open>PBS_MAX_ROUNDS = 3\<close> turns, so that many suffice for the
  counted recursion that models it. A session takes fewer than \<open>2 ^ 32\<close> rounds, the width of the round counter. A
  cache holds \<open>max_cache = 1024\<close> matrices. Field sizes found by the search lie between 6 and 14 and capacities up to 25 for
  the default five differences per group, so \<open>350\<close> times the number of groups bounds the bits of a message.

  \<^bold>\<open>Parameters and hypotheses.\<close> minisketch (\<open>ms_contract\<close> states its documented behaviour; \<open>bitmap_api\<close> satisfies it), the
  hash functions XXH3 and those of the estimator, the mathematical functions of the C library, \<open>stats::dbinom\<close>, the order of
  Eigen's sums, boost archives, the random engine, printing and scanning of \<open>double\<close> (which give a number back, nothing is said of not-a-number) and the files, the capacity
  that \<open>reserve\<close> gives a vector, the hashes that erased entries leave in empty buckets. Theorems that need exact arithmetic
  say so (\<open>exact\<close>, \<open>exact_libm\<close>): the meaning of the matrices and the choice for Graphene. The search for the code and what
  builds on it hold for any rounding that keeps whole numbers up to 2800. The hypotheses on hashing (\<open>regular\<close>,
  \<open>ideal_sets\<close>, \<open>no_collision\<close>, \<open>regular_keys\<close>) say that no checksum collides by accident; the witnesses satisfy them.

  \<^bold>\<open>Not modelled.\<close> The programs with a main function and their command lines (CLI11, \<open>reconciliation_*.cpp\<close>), timing and
  printing, gRPC and the code generated from \<open>protos/\<close>: input and output only. The bodies of the hash functions and the
  constant-expression mathematics (gcem, stats), which the sources only call. LRUCache11, \<open>iblt_params.h\<close>, \<open>search.cpp\<close>,
  \<open>pyblt.cpp\<close>, \<open>utilstrencodings\<close>, \<open>random.h\<close>, \<open>wyhash.h\<close> and the files \<open>*.bk.h\<close> have no function the library calls. The wrappers
  \<open>ordered_map.h\<close> and \<open>ordered_set.h\<close> forward every call to the table. Of stlcache the locks, the policies by frequency and
  the adaptive policy are left out; the matrix cache uses none of them.
\<close>

section \<open>The protocol\<close>

text \<open>C1. Soundness: with no checksum collision and no false position in any of its rounds, a
  session of up to \<open>k\<close> rounds never fails, and when it reports completion the elements Alice
  recorded over all rounds (those recorded an odd number of times: a fake element is taken out
  again by a later round) are exactly the symmetric difference of the two sets.\<close>

theorem reconciliation_sound:
  fixes api :: "'sk minisketch_api"
  assumes "setup_ok api ng best c" "distinct as" "distinct bs" "k < 2 ^ 32"
    and "regular api h k (host_state h d ng best c seed as) (host_state h d ng best c seed bs)"
  shows "\<exists>completed alice bob. reconcile_sets api h d ng best c seed k as bs = Inr (completed, alice, bob) \<and>
    (completed \<longrightarrow> odd_set (concat (differencesAll alice)) = (set as - set bs) \<union> (set bs - set as))"
  using session_sound [OF host_ready [OF assms(1)] assms(5)] assms(4)
  unfolding reconcile_sets_eq [OF assms(1)] outstanding_host [OF assms(1-3)] by simp

theorem reconciliation_sound_witness:
  "\<exists>completed alice bob.
    reconcile_sets demo_api demo_hash 4 2 (3, 3) 3 0 3 [1, 2, 3, 4] [3, 4, 5, 6] = Inr (completed, alice, bob) \<and>
    (completed \<longrightarrow> odd_set (concat (differencesAll alice)) = (set [1, 2, 3, 4] - set [3, 4, 5, 6]) \<union> (set [3, 4, 5, 6] - set [1, 2, 3, 4]))"
  by (rule reconciliation_sound [OF demo_setup])
    (simp_all add: ideal_host_regular [OF demo_setup _ _ demo_ideal])

text \<open>C13. The case the parameters are chosen for: when in every group at most \<open>t\<close> elements
  differ and no two of them share a bin, the first round completes, and the elements of that
  round are the symmetric difference, each once.\<close>

theorem reconciliation_ideal:
  fixes api :: "'sk minisketch_api"
  assumes "setup_ok api ng best c" "distinct as" "distinct bs" "ideal_sets h ng best seed as bs"
  shows "\<exists>alice bob rec. reconcile_sets api h d ng best c seed (Suc k) as bs = Inr (True, alice, bob) \<and>
    differencesLastRound alice = (Inr rec :: unit failure + _) \<and> distinct rec \<and>
    set rec = (set as - set bs) \<union> (set bs - set as)"
proof -
  have p: "0 < ng" "2 \<le> fst best" "fst best < 32" using assms(1) by (auto simp: setup_ok_def)
  let ?a = "host_state h d ng best c seed as :: 'sk pbs_sketch" and ?b = "host_state h d ng best c seed bs :: 'sk pbs_sketch"
  have "odd_set (concat (groups ?a) @ concat (groups ?b)) = outstanding ?a ?b"
    by (simp add: outstanding_def)
  moreover obtain alice bob rec where "round_trip api h ?a (encoded api h ?b) = Inr (True, alice, bob)"
      "differencesLastRound alice = (Inr rec :: unit failure + _)" "distinct rec"
      "set rec = odd_set (concat (groups ?a) @ concat (groups ?b))"
    using ideal_round [OF host_ready [OF assms(1)] host_state_facts(3) [OF p] host_state_facts(3) [OF p]
        ideal_host [OF assms] host_state_facts(4) [OF p], where 's = unit] by blast
  ultimately show ?thesis
    unfolding reconcile_sets_eq [OF assms(1)] using outstanding_host [OF assms(1-3), of h d seed] by auto
qed

theorem reconciliation_ideal_witness:
  "\<exists>alice bob rec. reconcile_sets demo_api demo_hash 4 2 (3, 3) 3 0 (Suc 2) [1, 2, 3, 4] [3, 4, 5, 6] = Inr (True, alice, bob) \<and>
    differencesLastRound alice = (Inr rec :: unit failure + _) \<and> distinct rec \<and>
    set rec = (set [1, 2, 3, 4] - set [3, 4, 5, 6]) \<union> (set [3, 4, 5, 6] - set [1, 2, 3, 4])"
  by (rule reconciliation_ideal [OF demo_setup _ _ demo_ideal]) simp_all

text \<open>C14. A round conserves what is outstanding, provided that no checksum deceives it. The conditions: two hosts in
  step; every position that minisketch decodes is a bin (\<open>bids_ok\<close>); no group counts as done by a collision of its
  checksum while elements of it still differ (\<open>no_collision\<close>: such a group would be dropped with its elements); the bits
  of the next message and the number of the next round stay below \<open>2 ^ 32\<close>. Then, after Alice's check and Bob's re-encoding, the two
  hosts are in step again (same groups in the same order, same round, fresh vectors), and the elements still
  outstanding together with the recorded ones are the same as before.\<close>

theorem round_conserves_difference:
  assumes "ready api sa sb" "bids_ok (bch_n sa) (round_results api h sa sb)" "no_collision api h sa sb"
    and "bch_m sa * bch_t sa * num_groups_remaining (alice_next api h sa sb) < 2 ^ 32"
    and "unat (round_count sa) + 1 < 2 ^ 32"
  shows "\<exists>completed sa' bob1 enc sb'.
    round_trip api h sa (encoded api h sb) = Inr (completed, sa', bob1) \<and>
    encodeWithHint api h (map of_nat (groups_exp_I_or_II sa')) bob1 = Inr (enc, encoded api h sb') \<and>
    ready api sa' sb' \<and> outstanding sa' sb' = outstanding sa sb"
proof -
  note w = next_wire_ok [OF assms(1,4)]
  show ?thesis
    using round_trip_eq [OF assms(1,2)] bob_re_encodes [OF assms(1) w] next_ready [OF assms(1) w assms(5)]
      outstanding_next [OF assms(1,3)] by blast
qed

theorem round_conserves_difference_witness:
  "\<exists>completed sa' bob1 enc sb'.
    round_trip demo_api demo_hash (demo_host [1, 2, 3, 4]) (encoded demo_api demo_hash (demo_host [3, 4, 5, 6])) =
      Inr (completed, sa', bob1) \<and>
    encodeWithHint demo_api demo_hash (map of_nat (groups_exp_I_or_II sa')) bob1 = Inr (enc, encoded demo_api demo_hash sb') \<and>
    ready demo_api sa' sb' \<and> outstanding sa' sb' = outstanding (demo_host [1, 2, 3, 4]) (demo_host [3, 4, 5, 6])"
proof -
  have "grouped demo_hash (demo_host es)" for es
    unfolding demo_host_def by (rule host_state_facts(3)) simp_all
  moreover have "ideal demo_hash (demo_host [1, 2, 3, 4]) (demo_host [3, 4, 5, 6])"
    unfolding demo_host_def by (rule ideal_host [OF demo_setup _ _ demo_ideal]) simp_all
  ultimately have i: "ready demo_api (demo_host [1, 2, 3, 4]) (demo_host [3, 4, 5, 6])"
      "grouped demo_hash (demo_host [1, 2, 3, 4])" "grouped demo_hash (demo_host [3, 4, 5, 6])"
      "ideal demo_hash (demo_host [1, 2, 3, 4]) (demo_host [3, 4, 5, 6])"
    by (simp_all add: demo_ready)
  show ?thesis
    by (rule round_conserves_difference)
      (simp_all add: i ideal_bids_ok [OF i] ideal_no_collision [OF i] ideal_all_done(1) [OF i])
qed

section \<open>From the search for the parameters to the difference\<close>


lemma ten_groups: "group_count 20 = 4"
  by code_simp

lemma ten_contract: "ms_contract (bitmap_api 6 11) 6 11"
  using bitmap_contract [of 6 11] by simp

lemma ten_ideal: "ideal_sets demo_hash 4 (6, 11) s [1, 2, 3, 4] [3, 4, 5, 6]"
proof -
  have D: "{x \<in> set [1, 2, 3, 4] \<union> set [3, 4, 5, 6]. (x \<in> set [1, 2, 3, 4]) \<noteq> (x \<in> set [3, 4, 5, 6]) \<and>
      host_group demo_hash 4 s x = j} = (if j = 1 then {1, 5} else if j = 2 then {2, 6} else {})" for j :: nat
    by (auto simp: host_group_def demo_hash_def)
  show ?thesis
    unfolding ideal_sets_def Let_def D by (simp add: host_bin_def demo_hash_def)
qed


end
